(* ===== verification/Prelude.thy ===== *)
theory Prelude
  imports Main "HOL-Library.Word"
begin

text \<open>
  Shared vocabulary of the xv6 development: the machine integer types of \<^verbatim>\<open>types.h\<close>, the result
  type of kernel routines (a value, a panic, or the point where the caller goes to sleep), the
  little-endian layout of 32-bit integers in byte arrays, and generic lemmas on words and lists.
  The collections \<open>res_simps\<close> and \<open>le_simps\<close> carry the automation of the component theories.
\<close>

unbundle bit_operations_syntax

named_theorems res_simps \<open>propagation of results, panics and sleeps through bind_res\<close>
named_theorems le_simps \<open>reading and writing little-endian integers in byte lists\<close>

section \<open>Machine integers (types.h)\<close>

type_synonym u8 = "8 word"
type_synonym u16 = "16 word"
type_synonym u32 = "32 word"

type_synonym memory = "u32 \<Rightarrow> u8"

section \<open>Results of kernel routines\<close>

text \<open>
  \<^verbatim>\<open>panic(s)\<close> never returns: \<open>Panic s\<close>. Where a routine would call \<^verbatim>\<open>sleep\<close> (or spin on a lock
  somebody else holds) the sequential models stop with \<open>Sleep\<close>: the caller has to be resumed later.
  \<open>Wild\<close> is an access outside of an object, whose effect C does not define. \<open>Hang\<close> is a loop that never ends.
\<close>

datatype kerr = Panic string | Sleep | Wild | Hang

datatype 'a res = Ok 'a | Err kerr

definition bind_res :: "'a res \<Rightarrow> ('a \<Rightarrow> 'b res) \<Rightarrow> 'b res" where
  "bind_res m f = (case m of Ok x \<Rightarrow> f x | Err e \<Rightarrow> Err e)"

abbreviation panic :: "string \<Rightarrow> 'a res" where
  "panic msg \<equiv> Err (Panic msg)"

lemma bind_res_Ok [simp, res_simps]: "bind_res (Ok x) f = f x"
  by (simp add: bind_res_def)

lemma bind_res_Err [simp, res_simps]: "bind_res (Err e) f = Err e"
  by (simp add: bind_res_def)

lemma bind_res_eq_Ok [res_simps]:
  "bind_res m f = Ok y \<longleftrightarrow> (\<exists>x. m = Ok x \<and> f x = Ok y)"
  by (cases m) auto

lemma bind_res_assoc: "bind_res (bind_res m f) g = bind_res m (\<lambda>x. bind_res (f x) g)"
  by (cases m) auto

lemma bind_res_cong [fundef_cong]:
  "m = m' \<Longrightarrow> (\<And>x. m' = Ok x \<Longrightarrow> f x = f' x) \<Longrightarrow> bind_res m f = bind_res m' f'"
  by (cases m') auto

definition is_Ok :: "'a res \<Rightarrow> bool" where
  "is_Ok r = (case r of Ok _ \<Rightarrow> True | Err _ \<Rightarrow> False)"

lemma is_Ok_simps [simp]: "is_Ok (Ok x)" "\<not> is_Ok (Err e)"
  by (simp_all add: is_Ok_def)

lemma is_Ok_iff: "is_Ok r \<longleftrightarrow> (\<exists>x. r = Ok x)"
  by (cases r) auto

section \<open>Lists\<close>

text \<open>\<open>splice_at off new xs\<close> overwrites the \<open>length new\<close> elements of \<open>xs\<close> from position \<open>off\<close> on:
  the effect of a \<^verbatim>\<open>memmove\<close> into a byte array.\<close>

definition splice_at :: "nat \<Rightarrow> 'a list \<Rightarrow> 'a list \<Rightarrow> 'a list" where
  "splice_at off new xs = take off xs @ new @ drop (off + length new) xs"

lemma length_splice_at [simp]:
  "off + length new \<le> length xs \<Longrightarrow> length (splice_at off new xs) = length xs"
  by (simp add: splice_at_def)

lemma nth_splice_at:
  assumes "off + length new \<le> length xs" "i < length xs"
  shows "splice_at off new xs ! i =
    (if off \<le> i \<and> i < off + length new then new ! (i - off) else xs ! i)"
  using assms by (auto simp: splice_at_def nth_append min_def)

lemma take_drop_splice_at_same:
  "off + length new \<le> length xs \<Longrightarrow> take (length new) (drop off (splice_at off new xs)) = new"
  by (simp add: splice_at_def)

lemma take_drop_splice_at_sub:
  "off + length new \<le> length xs \<Longrightarrow> k + n \<le> length new \<Longrightarrow>
   take n (drop (off + k) (splice_at off new xs)) = take n (drop k new)"
  by (intro nth_equalityI) (auto simp: nth_splice_at)

lemma take_drop_eq_map_nth:
  "off + n \<le> length xs \<Longrightarrow> take n (drop off xs) = map (\<lambda>i. xs ! (off + i)) [0..<n]"
  by (rule nth_equalityI) auto

lemma take_drop_splice_at_other:
  assumes "off + length new \<le> length xs" "off' + n \<le> length xs"
    and "off' + n \<le> off \<or> off + length new \<le> off'"
  shows "take n (drop off' (splice_at off new xs)) = take n (drop off' xs)"
  using assms
  by (intro nth_equalityI) (auto simp: nth_splice_at)

section \<open>Words\<close>

lemma unat_add_no_wrap:
  "unat a + unat b < 2 ^ LENGTH('a) \<Longrightarrow> unat (a + b) = unat a + unat b" for a b :: "'a::len word"
  by (simp add: unat_word_ariths)

lemma unat_of_nat_small:
  "n < 2 ^ LENGTH('a) \<Longrightarrow> unat (of_nat n :: 'a::len word) = n"
  by (simp add: unat_of_nat take_bit_nat_eq_self)

lemma unat_sub_le:
  "b \<le> a \<Longrightarrow> unat (a - b) = unat a - unat b" for a b :: "'a::len word"
  by (simp add: unat_sub_if' word_le_nat_alt)

lemma unat_u32_less: "unat (w :: u32) < 4294967296"
  by (rule order_less_le_trans [OF unsigned_less]) simp

lemma uint_inject_iff [simp]: "uint a = uint b \<longleftrightarrow> a = b" for a b :: "'a::len word"
  by (simp add: word_uint_eq_iff)

lemma uint_zero_iff [simp]: "uint a = 0 \<longleftrightarrow> a = 0" for a :: "'a::len word"
  by (simp add: word_uint_eq_iff)

lemma unat_eq_imp_of_nat: "unat w = n \<Longrightarrow> w = of_nat n" for w :: "'a::len word"
  by auto

lemma of_nat_Suc_word: "(of_nat (Suc n) :: 'a::len word) = of_nat n + 1"
  by simp

section \<open>Little-endian integers in byte arrays\<close>

definition le32 :: "u32 \<Rightarrow> u8 list" where
  "le32 x = [ucast x, ucast (drop_bit 8 x), ucast (drop_bit 16 x), ucast (drop_bit 24 x)]"

definition of_le32 :: "u8 list \<Rightarrow> u32" where
  "of_le32 bs = ucast (bs ! 0) OR push_bit 8 (ucast (bs ! 1))
     OR push_bit 16 (ucast (bs ! 2)) OR push_bit 24 (ucast (bs ! 3))"

definition le16 :: "u16 \<Rightarrow> u8 list" where
  "le16 x = [ucast x, ucast (drop_bit 8 x)]"

definition of_le16 :: "u8 list \<Rightarrow> u16" where
  "of_le16 bs = ucast (bs ! 0) OR push_bit 8 (ucast (bs ! 1))"

lemma length_le32 [simp]: "length (le32 x) = 4"
  by (simp add: le32_def)

lemma length_le16 [simp]: "length (le16 x) = 2"
  by (simp add: le16_def)

lemma of_le32_le32 [simp, le_simps]: "of_le32 (le32 x) = x"
proof (rule bit_word_eqI)
  fix n assume "n < LENGTH(32)"
  then consider "n < 8" | "8 \<le> n" "n < 16" | "16 \<le> n" "n < 24" | "24 \<le> n" "n < 32"
    by force
  then show "bit (of_le32 (le32 x)) n = bit x n"
    by cases (auto simp: of_le32_def le32_def bit_simps)
qed

lemma of_le16_le16 [simp, le_simps]: "of_le16 (le16 x) = x"
  by (rule bit_word_eqI) (auto simp: of_le16_def le16_def bit_simps)

lemma length_concat_le32 [simp]: "length (concat (map le32 xs)) = 4 * length xs"
  by (induction xs) auto

lemma take_drop_concat_le32:
  "i < length xs \<Longrightarrow> take 4 (drop (4 * i) (concat (map le32 xs))) = le32 (xs ! i)"
proof (induction xs arbitrary: i)
  case (Cons x xs)
  then show ?case by (cases i) auto
qed simp

lemma find_unique: "i \<in> set xs \<Longrightarrow> P i \<Longrightarrow> (\<And>j. j \<in> set xs \<Longrightarrow> P j \<Longrightarrow> j = i) \<Longrightarrow> find P xs = Some i"
proof (induction xs)
  case (Cons x xs)
  show ?case
  proof (cases "P x")
    case True
    then show ?thesis using Cons.prems(3) [of x, OF list.set_intros(1)] by simp
  next
    case False
    then have "i \<in> set xs" using Cons.prems(1,2) by auto
    then have "find P xs = Some i" by (rule Cons.IH [OF _ Cons.prems(2)]) (blast intro: Cons.prems(3) list.set_intros(2))
    with False show ?thesis by simp
  qed
qed simp

end
