(* ===== verification/Ring.thy ===== *)
theory Ring
  imports Prelude
begin

text \<open>
  The contract shared by the kernel's ring buffers (the pipe of \<^verbatim>\<open>pipe.c\<close>, the console input line of
  \<^verbatim>\<open>console.c\<close>): a bounded first-in-first-out queue of bytes, its abstraction a list. The indices of
  these rings are 32-bit counters that are never reset and are reduced modulo the buffer size at each
  access; the lemmas on such indices are here too.
\<close>

section \<open>Counters modulo a power of two\<close>

lemma unat_mod_counter: "unat ((c :: u32) mod of_nat N) = unat c mod N" if "N < 2 ^ 32"
  using that by (simp add: unat_mod unat_of_nat_small)

text \<open>Two counters less than \<open>N\<close> apart address different slots of a ring of \<open>N\<close> cells, wrap-around of
  the counters included, as \<open>N\<close> divides \<open>2 ^ 32\<close>.\<close>

lemma ring_slot_add:
  assumes "N dvd 2 ^ 32" "i < 2 ^ 32"
  shows "unat (c + of_nat i :: u32) mod N = (unat c + i) mod N"
proof -
  have "unat (c + of_nat i :: u32) = (unat c + i) mod 2 ^ 32"
    using assms(2) by (simp add: unat_word_ariths unat_of_nat_small)
  then show ?thesis using assms(1) by (simp add: mod_mod_cancel)
qed

lemma ring_slots_differ:
  assumes "N dvd 2 ^ 32" "i < j" "j < N" "N < 2 ^ 32"
  shows "unat (c + of_nat i :: u32) mod N \<noteq> unat (c + of_nat j) mod N"
proof
  assume "unat (c + of_nat i :: u32) mod N = unat (c + of_nat j) mod N"
  then have "(unat c + i) mod N = (unat c + j) mod N"
    using assms by (simp add: ring_slot_add)
  then have "N dvd (unat c + j) - (unat c + i)"
    using assms(2) by (metis add_le_cancel_left less_imp_le mod_eq_dvd_iff_nat)
  then have "N dvd j - i" by simp
  with assms(2,3) show False by (auto dest: dvd_imp_le)
qed

text \<open>The \<open>k\<close> bytes of a ring of \<open>N\<close> cells from counter \<open>r\<close> on.\<close>

definition ring_cells :: "nat \<Rightarrow> u8 list \<Rightarrow> u32 \<Rightarrow> nat \<Rightarrow> u8 list" where
  "ring_cells N buf r k = map (\<lambda>i. buf ! (unat (r + of_nat i) mod N)) [0..<k]"

lemma length_ring_cells [simp]: "length (ring_cells N buf r k) = k"
  by (simp add: ring_cells_def)

lemma ring_cells_nth: "i < k \<Longrightarrow> ring_cells N buf r k ! i = buf ! (unat (r + of_nat i) mod N)"
  by (simp add: ring_cells_def)

lemma ring_cells_put:
  assumes "N dvd 2 ^ 32" "N < 2 ^ 32" "k < N" "length buf = N"
  shows "ring_cells N (buf[unat (r + of_nat k) mod N := c]) r (Suc k) = ring_cells N buf r k @ [c]"
proof -
  have "buf[unat (r + of_nat k) mod N := c] ! (unat (r + of_nat i) mod N) = buf ! (unat (r + of_nat i) mod N)" if "i < k" for i
    using ring_slots_differ [OF assms(1) that assms(3,2), of r] by simp
  moreover have "unat (r + of_nat k) mod N < length buf" using assms(3,4) by simp
  ultimately show ?thesis by (simp add: ring_cells_def)
qed

lemma ring_cells_get: "ring_cells N buf r (Suc k) = buf ! (unat r mod N) # ring_cells N buf (r + 1) k"
  by (simp add: ring_cells_def map_upt_Suc algebra_simps del: upt_Suc)

lemma take_ring_cells: "j \<le> k \<Longrightarrow> take j (ring_cells N buf r k) = ring_cells N buf r j"
  by (simp add: ring_cells_def take_map)

section \<open>Bounded queues\<close>

locale bounded_fifo =
  fixes put :: "u8 \<Rightarrow> 'q \<Rightarrow> 'q"
    and get :: "'q \<Rightarrow> u8 \<times> 'q"
    and is_full :: "'q \<Rightarrow> bool"
    and is_empty :: "'q \<Rightarrow> bool"
    and contents :: "'q \<Rightarrow> u8 list"
    and inv :: "'q \<Rightarrow> bool"
    and cap :: nat
  assumes contents_put: "inv q \<Longrightarrow> \<not> is_full q \<Longrightarrow> contents (put x q) = contents q @ [x]"
    and inv_put: "inv q \<Longrightarrow> \<not> is_full q \<Longrightarrow> inv (put x q)"
    and fst_get: "inv q \<Longrightarrow> \<not> is_empty q \<Longrightarrow> fst (get q) = hd (contents q)"
    and contents_get: "inv q \<Longrightarrow> \<not> is_empty q \<Longrightarrow> contents (snd (get q)) = tl (contents q)"
    and inv_get: "inv q \<Longrightarrow> \<not> is_empty q \<Longrightarrow> inv (snd (get q))"
    and full_iff: "inv q \<Longrightarrow> is_full q \<longleftrightarrow> length (contents q) = cap"
    and empty_iff: "inv q \<Longrightarrow> is_empty q \<longleftrightarrow> contents q = []"
    and length_le: "inv q \<Longrightarrow> length (contents q) \<le> cap"
begin

text \<open>Putting one byte and taking from the other end commute, and what comes out is what went in.\<close>

lemma get_Cons:
  assumes "inv q" "contents q = x # xs"
  shows "get q = (x, snd (get q)) \<and> contents (snd (get q)) = xs \<and> inv (snd (get q))"
proof -
  have "\<not> is_empty q" using assms by (simp add: empty_iff)
  with assms fst_get [of q] contents_get [of q] inv_get [of q] show ?thesis
    by (simp add: prod_eq_iff)
qed

lemma put_not_full:
  assumes "inv q" "length (contents q) < cap"
  shows "contents (put x q) = contents q @ [x] \<and> inv (put x q)"
  using assms contents_put [of q x] inv_put [of q x] full_iff [of q] by simp

end

end
