(* ===== verification/Pipe.thy ===== *)
theory Pipe
  imports Ring
begin

text \<open>
  Pipes (\<^verbatim>\<open>pipe.c\<close>): a 512-byte ring with unsigned read and write counters. A call of \<^verbatim>\<open>pipewrite\<close> or
  \<^verbatim>\<open>piperead\<close> holds \<^verbatim>\<open>p->lock\<close> except while it sleeps, so it runs as a sequence of atomic segments:
  from the call (or from being woken) to the next \<^verbatim>\<open>sleep\<close> or to the return. Each definition is one
  such segment; it yields the new pipe, the channels it wakes, and either the return value or the
  place where it sleeps. The last part lets any number of readers and writers interleave.
\<close>

section \<open>State (pipe.c, struct pipe)\<close>

definition PIPESIZE :: nat where "PIPESIZE = 512"

record pipe =
  data :: "u8 list"
  nread :: u32
  nwrite :: u32
  readopen :: bool
  writeopen :: bool

text \<open>The sleep channels \<^verbatim>\<open>&p->nread\<close> and \<^verbatim>\<open>&p->nwrite\<close>.\<close>

datatype pchan = NREAD | NWRITE

text \<open>How a segment ends: with a return value, or asleep on a channel.\<close>

datatype 'r segment = Return 'r | SleepOn pchan

section \<open>Operations\<close>

text \<open>What \<^verbatim>\<open>pipealloc\<close> stores into the fresh page; the data bytes are what the page held.\<close>

definition pipe_init :: "u8 list \<Rightarrow> pipe" where
  "pipe_init junk = \<lparr>data = junk, nread = 0, nwrite = 0, readopen = True, writeopen = True\<rparr>"

definition pipe_full :: "pipe \<Rightarrow> bool" where
  "pipe_full p \<longleftrightarrow> nwrite p = nread p + of_nat PIPESIZE"

definition pipe_empty :: "pipe \<Rightarrow> bool" where
  "pipe_empty p \<longleftrightarrow> nread p = nwrite p"

text \<open>\<^verbatim>\<open>p->data[p->nwrite++ % PIPESIZE] = c\<close>\<close>

definition pipe_put :: "u8 \<Rightarrow> pipe \<Rightarrow> pipe" where
  "pipe_put c p = p\<lparr>data := (data p)[unat (nwrite p mod of_nat PIPESIZE) := c],
                    nwrite := nwrite p + 1\<rparr>"

text \<open>\<^verbatim>\<open>p->data[p->nread++ % PIPESIZE]\<close>\<close>

definition pipe_get :: "pipe \<Rightarrow> u8 \<times> pipe" where
  "pipe_get p = (data p ! unat (nread p mod of_nat PIPESIZE), p\<lparr>nread := nread p + 1\<rparr>)"

text \<open>The loop of \<^verbatim>\<open>pipewrite\<close> at index \<open>i\<close>, with \<open>k\<close> bytes of \<^verbatim>\<open>addr\<close> left. The second component is
  the index reached, where a sleeping writer resumes.\<close>

fun pipewrite_loop :: "bool \<Rightarrow> (nat \<Rightarrow> u8) \<Rightarrow> nat \<Rightarrow> nat \<Rightarrow> pipe \<Rightarrow> pipe \<times> nat \<times> pchan list \<times> int segment" where
  "pipewrite_loop killed addr i 0 p = (p, i, [NREAD], Return (int i))"
| "pipewrite_loop killed addr i (Suc k) p =
     (if pipe_full p then
        if \<not> readopen p \<or> killed then (p, i, [], Return (- 1))
        else (p, i, [NREAD], SleepOn NWRITE)
      else pipewrite_loop killed addr (Suc i) k (pipe_put (addr i) p))"

text \<open>\<open>pipewrite killed addr n i p\<close>: the segment of \<^verbatim>\<open>pipewrite(p, addr, n)\<close> that starts at index
  \<open>i\<close>. A call with \<open>n \<le> 0\<close> writes nothing and returns \<open>n\<close>.\<close>

definition pipewrite :: "bool \<Rightarrow> (nat \<Rightarrow> u8) \<Rightarrow> int \<Rightarrow> nat \<Rightarrow> pipe \<Rightarrow> pipe \<times> nat \<times> pchan list \<times> int segment" where
  "pipewrite killed addr n i p =
     (if n \<le> 0 then (p, i, [NREAD], Return n) else pipewrite_loop killed addr i (nat n - i) p)"

text \<open>The copy loop of \<^verbatim>\<open>piperead\<close>: at most \<open>k\<close> bytes, fewer when the pipe runs empty.\<close>

fun piperead_loop :: "nat \<Rightarrow> pipe \<Rightarrow> u8 list \<times> pipe" where
  "piperead_loop 0 p = ([], p)"
| "piperead_loop (Suc k) p =
     (if pipe_empty p then ([], p)
      else let (c, p') = pipe_get p; (cs, p'') = piperead_loop k p' in (c # cs, p''))"

text \<open>A segment of \<^verbatim>\<open>piperead(p, addr, n)\<close>; the bytes are what is stored at \<^verbatim>\<open>addr\<close>.\<close>

definition piperead :: "bool \<Rightarrow> int \<Rightarrow> pipe \<Rightarrow> pipe \<times> u8 list \<times> pchan list \<times> int segment" where
  "piperead killed n p =
     (if pipe_empty p \<and> writeopen p then
        if killed then (p, [], [], Return (- 1)) else (p, [], [], SleepOn NREAD)
      else let (cs, p') = piperead_loop (nat n) p
           in (p', cs, [NWRITE], Return (int (length cs))))"

text \<open>\<^verbatim>\<open>pipeclose\<close>; the last component says whether the page of the pipe is freed.\<close>

definition pipeclose :: "bool \<Rightarrow> pipe \<Rightarrow> pipe \<times> pchan list \<times> bool" where
  "pipeclose writable p =
     (let (p', w) = (if writable then (p\<lparr>writeopen := False\<rparr>, [NREAD])
                     else (p\<lparr>readopen := False\<rparr>, [NWRITE]))
      in (p', w, \<not> readopen p' \<and> \<not> writeopen p'))"

section \<open>Invariant and abstraction\<close>

definition pipe_inv :: "pipe \<Rightarrow> bool" where
  "pipe_inv p \<longleftrightarrow> length (data p) = PIPESIZE \<and> unat (nwrite p - nread p) \<le> PIPESIZE"

text \<open>The bytes in flight, oldest first.\<close>

definition pipe_contents :: "pipe \<Rightarrow> u8 list" where
  "pipe_contents p = map (\<lambda>i. data p ! (unat (nread p + of_nat i) mod PIPESIZE))
     [0..<unat (nwrite p - nread p)]"

section \<open>Readers and writers together\<close>

text \<open>
  What a process is doing with the pipe: nothing, about to run a segment (just called, or woken), or
  asleep inside the call.
\<close>

datatype pthread = PIdle | PWrite "nat \<Rightarrow> u8" int nat | PWSleep "nat \<Rightarrow> u8" int nat
  | PRead int | PRSleep int

text \<open>\<open>accepted\<close> and \<open>delivered\<close> record the bytes taken from writers and given to readers.\<close>

record psys =
  pp :: pipe
  thr :: "nat \<Rightarrow> pthread"
  accepted :: "u8 list"
  delivered :: "u8 list"

text \<open>\<^verbatim>\<open>wakeup(chan)\<close> makes every process asleep on \<^verbatim>\<open>chan\<close> runnable.\<close>

fun woken :: "pchan list \<Rightarrow> pthread \<Rightarrow> pthread" where
  "woken w (PWSleep a n i) = (if NWRITE \<in> set w then PWrite a n i else PWSleep a n i)"
| "woken w (PRSleep n) = (if NREAD \<in> set w then PRead n else PRSleep n)"
| "woken w t = t"

definition after_write :: "(nat \<Rightarrow> u8) \<Rightarrow> int \<Rightarrow> nat \<Rightarrow> int segment \<Rightarrow> pthread" where
  "after_write a n j r = (case r of Return _ \<Rightarrow> PIdle | SleepOn _ \<Rightarrow> PWSleep a n j)"

definition after_read :: "int \<Rightarrow> int segment \<Rightarrow> pthread" where
  "after_read n r = (case r of Return _ \<Rightarrow> PIdle | SleepOn _ \<Rightarrow> PRSleep n)"

text \<open>
  One atomic step of one process. A process inside \<^verbatim>\<open>pipewrite\<close> (\<^verbatim>\<open>piperead\<close>) has the write (read) end
  open, so that end is closed for good only when no process is inside such a call. \<open>kills\<close> says whether
  processes may be killed: then the flag \<^verbatim>\<open>myproc()->killed\<close> may be set at any time, and a sleeper may be
  made runnable by \<^verbatim>\<open>kill\<close>.
\<close>

definition in_write :: "pthread \<Rightarrow> bool" where
  "in_write x = (case x of PWrite _ _ _ \<Rightarrow> True | PWSleep _ _ _ \<Rightarrow> True | _ \<Rightarrow> False)"

definition in_read :: "pthread \<Rightarrow> bool" where
  "in_read x = (case x of PRead _ \<Rightarrow> True | PRSleep _ \<Rightarrow> True | _ \<Rightarrow> False)"

inductive pstep :: "bool \<Rightarrow> psys \<Rightarrow> psys \<Rightarrow> bool" for kills where
  call_write: "thr s t = PIdle \<Longrightarrow> writeopen (pp s) \<Longrightarrow>
    pstep kills s (s\<lparr>thr := (thr s)(t := PWrite a n 0)\<rparr>)"
| call_read: "thr s t = PIdle \<Longrightarrow> readopen (pp s) \<Longrightarrow>
    pstep kills s (s\<lparr>thr := (thr s)(t := PRead n)\<rparr>)"
| run_write: "thr s t = PWrite a n i \<Longrightarrow> killed \<le> kills \<Longrightarrow>
    pipewrite killed a n i (pp s) = (p', j, w, r) \<Longrightarrow>
    pstep kills s \<lparr>pp = p', thr = (woken w \<circ> thr s)(t := after_write a n j r),
      accepted = accepted s @ map a [i..<j], delivered = delivered s\<rparr>"
| run_read: "thr s t = PRead n \<Longrightarrow> killed \<le> kills \<Longrightarrow>
    piperead killed n (pp s) = (p', cs, w, r) \<Longrightarrow>
    pstep kills s \<lparr>pp = p', thr = (woken w \<circ> thr s)(t := after_read n r),
      accepted = accepted s, delivered = delivered s @ cs\<rparr>"
| close_end: "\<forall>t. \<not> (if writable then in_write else in_read) (thr s t) \<Longrightarrow>
    pipeclose writable (pp s) = (p', w, freed) \<Longrightarrow>
    pstep kills s (s\<lparr>pp := p', thr := woken w \<circ> thr s\<rparr>)"
| kill_writer: "kills \<Longrightarrow> thr s t = PWSleep a n i \<Longrightarrow>
    pstep kills s (s\<lparr>thr := (thr s)(t := PWrite a n i)\<rparr>)"
| kill_reader: "kills \<Longrightarrow> thr s t = PRSleep n \<Longrightarrow>
    pstep kills s (s\<lparr>thr := (thr s)(t := PRead n)\<rparr>)"

inductive preach :: "bool \<Rightarrow> psys \<Rightarrow> bool" for kills where
  pstart: "length junk = PIPESIZE \<Longrightarrow>
    preach kills \<lparr>pp = pipe_init junk, thr = (\<lambda>_. PIdle), accepted = [], delivered = []\<rparr>"
| pnext: "preach kills s \<Longrightarrow> pstep kills s s' \<Longrightarrow> preach kills s'"

text \<open>Nothing is lost, duplicated or reordered.\<close>

definition fifo_inv :: "psys \<Rightarrow> bool" where
  "fifo_inv s \<longleftrightarrow> pipe_inv (pp s) \<and> accepted s = delivered s @ pipe_contents (pp s)"

text \<open>An end with a process in a call on it is open; a reader sleeps only while the pipe is empty, a
  writer only while it is full and somebody can still read.\<close>

definition wait_inv :: "psys \<Rightarrow> bool" where
  "wait_inv s \<longleftrightarrow>
     (\<forall>t. in_read (thr s t) \<longrightarrow> readopen (pp s)) \<and> (\<forall>t. in_write (thr s t) \<longrightarrow> writeopen (pp s)) \<and>
     (\<forall>t n. thr s t = PRSleep n \<longrightarrow> pipe_empty (pp s) \<and> writeopen (pp s)) \<and>
     (\<forall>t a n i. thr s t = PWSleep a n i \<longrightarrow> pipe_full (pp s) \<and> readopen (pp s))"

lemma slot_unat: "unat ((c :: u32) mod of_nat PIPESIZE) = unat c mod PIPESIZE"
  by (rule unat_mod_counter) (simp add: PIPESIZE_def)

lemma pipe_full_iff: "pipe_full p \<longleftrightarrow> unat (nwrite p - nread p) = PIPESIZE"
proof
  show "pipe_full p \<Longrightarrow> unat (nwrite p - nread p) = PIPESIZE"
    by (simp add: pipe_full_def PIPESIZE_def)
  assume "unat (nwrite p - nread p) = PIPESIZE"
  from unat_eq_imp_of_nat [OF this] show "pipe_full p"
    by (simp add: pipe_full_def algebra_simps)
qed

lemma pipe_empty_iff: "pipe_empty p \<longleftrightarrow> unat (nwrite p - nread p) = 0"
  by (auto simp: pipe_empty_def unat_eq_0)

lemma length_pipe_contents [simp]: "length (pipe_contents p) = unat (nwrite p - nread p)"
  by (simp add: pipe_contents_def)

lemma nwrite_minus: "nwrite p = nread p + of_nat (unat (nwrite p - nread p))"
  by simp

lemma unat_nwrite_Suc:
  assumes "unat (nwrite p - nread p) < PIPESIZE"
  shows "unat (nwrite p + 1 - nread p) = Suc (unat (nwrite p - nread p))"
proof -
  have "unat (nwrite p - nread p + 1) = unat (nwrite p - nread p) + unat (1 :: u32)"
    by (rule unat_add_no_wrap) (use assms in \<open>simp add: PIPESIZE_def\<close>)
  then show ?thesis by (simp add: algebra_simps)
qed

lemma unat_nread_Suc:
  assumes "\<not> pipe_empty p"
  shows "unat (nwrite p - nread p) = Suc (unat (nwrite p - (nread p + 1)))"
proof -
  have "nwrite p - nread p \<noteq> 0" using assms by (auto simp: pipe_empty_def)
  then have "unat (nwrite p - nread p - 1) = unat (nwrite p - nread p) - 1"
    "unat (nwrite p - nread p) \<noteq> 0"
    by (simp_all add: unat_minus_one unat_eq_0)
  then show ?thesis by (simp add: algebra_simps)
qed

lemma pipe_contents_put:
  assumes "pipe_inv p" "\<not> pipe_full p"
  shows "pipe_contents (pipe_put c p) = pipe_contents p @ [c]"
proof -
  let ?k = "unat (nwrite p - nread p)"
  have k: "?k < PIPESIZE" using assms by (auto simp: pipe_inv_def pipe_full_iff)
  have nw: "unat (nwrite p) mod PIPESIZE = unat (nread p + of_nat ?k) mod PIPESIZE"
    by simp
  have other: "unat (nwrite p) mod PIPESIZE \<noteq> unat (nread p + of_nat i) mod PIPESIZE" if "i < ?k" for i
    unfolding nw
    by (rule not_sym, rule ring_slots_differ) (use that k in \<open>auto simp: PIPESIZE_def\<close>)
  have "length (data p) = PIPESIZE" using assms by (simp add: pipe_inv_def)
  then show ?thesis
    using other
    by (simp add: pipe_contents_def pipe_put_def unat_nwrite_Suc [OF k] slot_unat)
      (simp add: PIPESIZE_def)
qed

lemma pipe_contents_get:
  assumes "\<not> pipe_empty p"
  shows "pipe_contents p = fst (pipe_get p) # pipe_contents (snd (pipe_get p))"
  by (simp add: pipe_contents_def pipe_get_def slot_unat unat_nread_Suc [OF assms]
      map_upt_Suc algebra_simps del: upt_Suc)

interpretation pipe: bounded_fifo pipe_put pipe_get pipe_full pipe_empty pipe_contents pipe_inv PIPESIZE
proof unfold_locales
  fix q x assume q: "pipe_inv q" "\<not> pipe_full q"
  then show "pipe_contents (pipe_put x q) = pipe_contents q @ [x]" by (rule pipe_contents_put)
  show "pipe_inv (pipe_put x q)"
    using q by (auto simp: pipe_inv_def pipe_put_def pipe_full_iff unat_nwrite_Suc)
next
  fix q assume q: "pipe_inv q" "\<not> pipe_empty q"
  show "pipe_inv (snd (pipe_get q))"
    using q by (auto simp: pipe_inv_def pipe_get_def unat_nread_Suc)
qed (auto simp: pipe_contents_get pipe_full_iff pipe_inv_def pipe_empty_iff
    simp flip: length_pipe_contents)


section \<open>Segments on the abstract queue\<close>

lemma readopen_put [simp]: "readopen (pipe_put c p) = readopen p" "writeopen (pipe_put c p) = writeopen p"
  by (simp_all add: pipe_put_def)

text \<open>A segment of \<^verbatim>\<open>pipewrite\<close> appends the next bytes of the caller, as many as fit.\<close>

lemma pipewrite_loop_spec:
  assumes "pipe_inv p" "pipewrite_loop killed addr i k p = (p', j, w, r)"
  shows "pipe_inv p' \<and> i \<le> j \<and> j \<le> i + k \<and>
    j = i + min k (PIPESIZE - length (pipe_contents p)) \<and>
    pipe_contents p' = pipe_contents p @ map addr [i..<j] \<and>
    readopen p' = readopen p \<and> writeopen p' = writeopen p"
  using assms
proof (induction k arbitrary: i p)
  case 0
  then show ?case by simp
next
  case (Suc k)
  show ?case
  proof (cases "pipe_full p")
    case True
    then have "length (pipe_contents p) = PIPESIZE" by (simp add: pipe_full_iff)
    with Suc.prems True show ?thesis by (auto split: if_splits)
  next
    case False
    from Suc.prems False have "pipewrite_loop killed addr (Suc i) k (pipe_put (addr i) p) = (p', j, w, r)"
      by simp
    note IH = Suc.IH [OF pipe.inv_put [OF Suc.prems(1) False] this]
    have c: "pipe_contents (pipe_put (addr i) p) = pipe_contents p @ [addr i]"
      using Suc.prems(1) False by (rule pipe_contents_put)
    have lt: "length (pipe_contents p) < PIPESIZE"
      using pipe.length_le [OF Suc.prems(1)] pipe.full_iff [OF Suc.prems(1)] False by linarith
    have "i < j" using IH by simp
    then have "map addr [i..<j] = addr i # map addr [Suc i..<j]" by (simp add: upt_conv_Cons)
    with IH c have cont: "pipe_contents p' = pipe_contents p @ map addr [i..<j]" by simp
    have "length (pipe_contents (pipe_put (addr i) p)) = Suc (length (pipe_contents p))"
      by (simp only: c length_append) simp
    then have "j = Suc i + min k (PIPESIZE - Suc (length (pipe_contents p)))"
      using IH by (simp only:)
    then have "j = i + min (Suc k) (PIPESIZE - length (pipe_contents p))"
      using lt by arith
    with IH cont show ?thesis by (simp del: length_pipe_contents) 
  qed
qed

lemma pipewrite_loop_result:
  assumes "pipe_inv p" "pipewrite_loop killed addr i k p = (p', j, w, r)"
  shows "(j = i + k \<and> w = [NREAD] \<and> r = Return (int (i + k))) \<or>
    (j < i + k \<and> pipe_full p' \<and>
      (if \<not> readopen p \<or> killed then w = [] \<and> r = Return (- 1)
       else w = [NREAD] \<and> r = SleepOn NWRITE))"
  using assms
proof (induction k arbitrary: i p)
  case 0
  then show ?case by auto
next
  case (Suc k)
  show ?case
  proof (cases "pipe_full p")
    case True
    with Suc.prems show ?thesis by (auto split: if_splits)
  next
    case False
    with Suc.prems Suc.IH [OF pipe.inv_put [OF Suc.prems(1) False], of "Suc i" "addr i"]
    show ?thesis by auto
  qed
qed

text \<open>A segment of \<^verbatim>\<open>piperead\<close> removes the oldest bytes, in order.\<close>

lemma piperead_loop_spec:
  "pipe_inv p \<Longrightarrow> piperead_loop k p = (cs, p') \<Longrightarrow>
     cs = take k (pipe_contents p) \<and> pipe_contents p' = drop k (pipe_contents p) \<and> pipe_inv p' \<and>
     readopen p' = readopen p \<and> writeopen p' = writeopen p"
proof (induction k arbitrary: p cs)
  case 0
  then show ?case by simp
next
  case (Suc k)
  show ?case
  proof (cases "pipe_empty p")
    case True
    with Suc.prems show ?thesis by (auto simp: pipe.empty_iff)
  next
    case False
    obtain c q where g: "pipe_get p = (c, q)" by fastforce
    from Suc.prems(2) False g obtain cs' where r: "piperead_loop k q = (cs', p')" "cs = c # cs'"
      by (auto split: prod.splits)
    have q: "pipe_inv q" using pipe.inv_get [OF Suc.prems(1) False] g by simp
    have "pipe_contents p = c # pipe_contents q" using pipe_contents_get [OF False] g by simp
    moreover have "readopen q = readopen p" "writeopen q = writeopen p"
      using g by (auto simp: pipe_get_def)
    ultimately show ?thesis using Suc.IH [OF q r(1)] r(2) by simp
  qed
qed


section \<open>Invariant of the interleaved system\<close>

lemma woken_asleep [simp]:
  "woken w x = PWSleep a n i \<longleftrightarrow> x = PWSleep a n i \<and> NWRITE \<notin> set w"
  "woken w x = PRSleep n \<longleftrightarrow> x = PRSleep n \<and> NREAD \<notin> set w"
  by (cases x; auto)+

lemma pipewrite_spec:
  assumes "pipe_inv p" "pipewrite killed addr n i p = (p', j, w, r)"
  shows "pipe_inv p' \<and> i \<le> j \<and> pipe_contents p' = pipe_contents p @ map addr [i..<j] \<and>
    readopen p' = readopen p \<and> writeopen p' = writeopen p"
  using assms pipewrite_loop_spec [of p killed addr i "nat n - i" p' j w r]
  by (auto simp: pipewrite_def split: if_splits)

lemma pipewrite_result:
  assumes "pipe_inv p" "pipewrite killed addr n i p = (p', j, w, r)"
  shows "(w = [NREAD] \<or> killed \<or> \<not> readopen p) \<and> NWRITE \<notin> set w \<and>
    (\<forall>c. r = SleepOn c \<longrightarrow> c = NWRITE \<and> w = [NREAD] \<and> pipe_full p' \<and> readopen p)"
proof (cases "n \<le> 0")
  case True
  with assms show ?thesis by (auto simp: pipewrite_def)
next
  case False
  with assms(2) have "pipewrite_loop killed addr i (nat n - i) p = (p', j, w, r)"
    by (simp add: pipewrite_def)
  from pipewrite_loop_result [OF assms(1) this] show ?thesis
    by (auto split: if_splits)
qed

lemma piperead_spec:
  assumes "pipe_inv p" "piperead killed n p = (p', cs, w, r)"
  shows "pipe_inv p' \<and> pipe_contents p = cs @ pipe_contents p' \<and>
    readopen p' = readopen p \<and> writeopen p' = writeopen p \<and>
    (w = [NWRITE] \<or> w = [] \<and> p' = p) \<and> NREAD \<notin> set w \<and>
    (\<forall>c. r = SleepOn c \<longrightarrow> c = NREAD \<and> pipe_empty p' \<and> writeopen p')"
proof -
  obtain cs' q where l: "piperead_loop (nat n) p = (cs', q)" by fastforce
  from piperead_loop_spec [OF assms(1) l] assms show ?thesis
    by (auto simp: piperead_def l split: if_splits)
qed

lemma fifo_inv_step: "pstep kills s s' \<Longrightarrow> fifo_inv s \<Longrightarrow> fifo_inv s'"
proof (induction rule: pstep.induct)
  case (run_write s t a n i killed p' j w r)
  then show ?case using pipewrite_spec [OF _ run_write.hyps(3)] by (simp add: fifo_inv_def)
next
  case (run_read s t n killed p' cs w r)
  then show ?case using piperead_spec [OF _ run_read.hyps(3)] by (simp add: fifo_inv_def)
next
  case (close_end writable s p' w freed)
  then show ?case
    by (auto simp: fifo_inv_def pipeclose_def Let_def pipe_inv_def pipe_contents_def split: if_splits)
qed (simp_all add: fifo_inv_def)

lemma preach_fifo_inv: "preach kills s \<Longrightarrow> fifo_inv s"
proof (induction rule: preach.induct)
  case (pstart junk)
  then show ?case by (simp add: fifo_inv_def pipe_init_def pipe_inv_def pipe_contents_def)
next
  case (pnext s s')
  then show ?case using fifo_inv_step by blast
qed


lemma in_simps [simp]:
  "in_write (PWrite a n i)" "in_write (PWSleep a n i)" "\<not> in_write PIdle" "\<not> in_write (PRead n)"
  "\<not> in_write (PRSleep n)" "in_read (PRead n)" "in_read (PRSleep n)" "\<not> in_read PIdle"
  "\<not> in_read (PWrite a n i)" "\<not> in_read (PWSleep a n i)"
  by (simp_all add: in_write_def in_read_def)

lemma in_woken [simp]: "in_write (woken w x) = in_write x" "in_read (woken w x) = in_read x"
  by (cases x; simp)+

lemma wait_inv_write:
  assumes fifo: "fifo_inv s" and wait: "wait_inv s"
    and t: "thr s t = PWrite a n i" and run: "pipewrite False a n i (pp s) = (p', j, w, r)"
    and s': "s' = \<lparr>pp = p', thr = (woken w \<circ> thr s)(t := after_write a n j r),
      accepted = accepted s @ map a [i..<j], delivered = delivered s\<rparr>"
  shows "wait_inv s'"
proof -
  have inv: "pipe_inv (pp s)" using fifo by (simp add: fifo_inv_def)
  note sp = pipewrite_spec [OF inv run] and re = pipewrite_result [OF inv run]
  have wo: "writeopen (pp s)" using wait t by (auto simp: wait_inv_def dest!: spec [of _ t])
  have rd: "False" if "thr s u = PRSleep m" "u \<noteq> t" "NREAD \<notin> set w" for u m
  proof -
    from that wait have "readopen (pp s)" by (auto simp: wait_inv_def dest!: spec [of _ u])
    with re that(3) show False by auto
  qed
  have wr: "pipe_full p' \<and> readopen p'" if "thr s u = PWSleep b m k" for u b m k
  proof -
    from that wait have "pipe_full (pp s)" "readopen (pp s)" by (auto simp: wait_inv_def)
    then show ?thesis
      using sp pipe.full_iff [OF inv] pipe.full_iff [of p'] pipe.length_le [of p'] by auto
  qed
  have self: "after_write a n j r = PWSleep b m k \<Longrightarrow> pipe_full p' \<and> readopen p'" for b m k
    using re sp by (auto simp: after_write_def split: segment.splits)
  have after: "\<not> in_read (after_write a n j r)" "after_write a n j r \<noteq> PRSleep m" for m
    by (auto simp: after_write_def split: segment.splits)
  show ?thesis
    unfolding wait_inv_def s'
  proof (intro conjI allI impI; clarsimp simp: fun_upd_apply after split: if_splits)
    fix u assume "in_read (thr s u)"
    then show "readopen p'" using wait sp by (auto simp: wait_inv_def)
  next
    show "writeopen p'" using sp wo by simp
    then show "writeopen p'" .
    then show "writeopen p'" .
  qed (use rd wr self in blast)+
qed


lemma wait_inv_read:
  assumes fifo: "fifo_inv s" and wait: "wait_inv s"
    and t: "thr s t = PRead n" and run: "piperead killed n (pp s) = (p', cs, w, r)"
    and s': "s' = \<lparr>pp = p', thr = (woken w \<circ> thr s)(t := after_read n r),
      accepted = accepted s, delivered = delivered s @ cs\<rparr>"
  shows "wait_inv s'"
proof -
  have inv: "pipe_inv (pp s)" using fifo by (simp add: fifo_inv_def)
  note sp = piperead_spec [OF inv run]
  have ro: "readopen (pp s)" using wait t by (auto simp: wait_inv_def dest!: spec [of _ t])
  have rd: "pipe_empty p' \<and> writeopen p'" if "thr s u = PRSleep m" for u m
  proof -
    from that wait have "pipe_empty (pp s)" "writeopen (pp s)" by (auto simp: wait_inv_def)
    then show ?thesis using sp pipe.empty_iff [OF inv] pipe.empty_iff [of p'] by auto
  qed
  have wr: "pipe_full p' \<and> readopen p'" if "thr s u = PWSleep b m k" "NWRITE \<notin> set w" for u b m k
    using that wait sp by (auto simp: wait_inv_def)
  show ?thesis
    using sp ro wait rd wr t
    by (auto simp: wait_inv_def s' after_read_def split: segment.splits)
qed

lemma wait_inv_close:
  assumes wait: "wait_inv s"
    and idle: "\<forall>t. \<not> (if writable then in_write else in_read) (thr s t)"
    and run: "pipeclose writable (pp s) = (p', w, freed)"
  shows "wait_inv (s\<lparr>pp := p', thr := woken w \<circ> thr s\<rparr>)"
proof (cases writable)
  case True
  with idle have no: "thr s t \<noteq> PWSleep a n i" for t a n i by (metis in_simps(2))
  show ?thesis
    using True run wait idle no by (auto simp: wait_inv_def pipeclose_def)
next
  case False
  with idle have no: "thr s t \<noteq> PRSleep n" for t n by (metis in_simps(7))
  show ?thesis
    using False run wait idle no by (auto simp: wait_inv_def pipeclose_def)
qed

lemma wait_inv_step: "pstep False s s' \<Longrightarrow> fifo_inv s \<Longrightarrow> wait_inv s \<Longrightarrow> wait_inv s'"
proof (induction rule: pstep.induct)
  case (call_write s t a n)
  then show ?case by (simp add: wait_inv_def) blast
next
  case (call_read s t n)
  then show ?case by (simp add: wait_inv_def) blast
next
  case (run_write s t a n i killed p' j w r)
  have "pipewrite False a n i (pp s) = (p', j, w, r)"
    using run_write.hyps by simp
  from wait_inv_write [OF run_write.prems run_write.hyps(1) this refl] show ?case .
next
  case (run_read s t n killed p' cs w r)
  from wait_inv_read [OF run_read.prems run_read.hyps(1,3) refl] show ?case .
next
  case (close_end writable s p' w freed)
  from wait_inv_close [OF close_end.prems(2) close_end.hyps] show ?case .
qed simp_all

lemma preach_wait_inv: "preach False s \<Longrightarrow> wait_inv s"
proof (induction rule: preach.induct)
  case (pstart junk)
  then show ?case by (simp add: wait_inv_def)
next
  case (pnext s s')
  then show ?case using wait_inv_step preach_fifo_inv by blast
qed

section \<open>Properties\<close>

text \<open>C4: Whatever way readers, writers, closes and kills interleave, the bytes delivered to readers
  followed by the bytes in the ring are exactly the bytes accepted from writers, in order, across any
  number of wrap-arounds of the counters, and the ring never holds more than \<^verbatim>\<open>PIPESIZE\<close> bytes.\<close>

theorem pipe_fifo:
  assumes "preach kills s"
  shows "accepted s = delivered s @ pipe_contents (pp s) \<and> length (pipe_contents (pp s)) \<le> PIPESIZE"
  using preach_fifo_inv [OF assms] pipe.length_le [of "pp s"] by (simp add: fifo_inv_def)


text \<open>One segment of \<^verbatim>\<open>pipewrite\<close> stores as many of the remaining bytes as there is room for; it returns
  \<open>n\<close> when all of them went in, \<open>- 1\<close> when the pipe filled up and nobody can read it or the writer was
  killed, and goes to sleep on \<^verbatim>\<open>nwrite\<close> otherwise.\<close>

theorem pipewrite_segment:
  assumes "pipe_inv p" "0 < n" "i \<le> nat n" "pipewrite killed addr n i p = (p', j, w, r)"
  shows "j = i + min (nat n - i) (PIPESIZE - length (pipe_contents p)) \<and>
    pipe_contents p' = pipe_contents p @ map addr [i..<j] \<and>
    r = (if j = nat n then Return n else if \<not> readopen p \<or> killed then Return (- 1) else SleepOn NWRITE)"
proof -
  from assms(2,4) have l: "pipewrite_loop killed addr i (nat n - i) p = (p', j, w, r)"
    by (simp add: pipewrite_def)
  from pipewrite_loop_spec [OF assms(1) l] pipewrite_loop_result [OF assms(1) l] assms(2,3)
  show ?thesis by (auto split: if_splits)
qed


text \<open>A run with one reader and one writer: the reader sleeps on the empty pipe, then the writer starts.\<close>

definition demo_pipe :: pipe where
  "demo_pipe = pipe_init (replicate 512 0)"

definition demo_reader_asleep :: psys where
  "demo_reader_asleep = \<lparr>pp = demo_pipe, thr = (\<lambda>_. PIdle)(0 := PRSleep 1),
     accepted = [], delivered = []\<rparr>"

lemma demo_reader_asleep_reach: "preach kills demo_reader_asleep"
proof -
  have 0: "preach kills \<lparr>pp = demo_pipe, thr = (\<lambda>_. PIdle), accepted = [], delivered = []\<rparr>"
    unfolding demo_pipe_def by (rule pstart) (simp add: PIPESIZE_def)
  have 1: "pstep kills \<lparr>pp = demo_pipe, thr = (\<lambda>_. PIdle), accepted = [], delivered = []\<rparr>
      \<lparr>pp = demo_pipe, thr = (\<lambda>_. PIdle)(0 := PRead 1), accepted = [], delivered = []\<rparr>"
    using call_read [of "\<lparr>pp = demo_pipe, thr = (\<lambda>_. PIdle), accepted = [], delivered = []\<rparr>" 0 kills 1]
    by (simp add: demo_pipe_def pipe_init_def)
  have run: "piperead False 1 demo_pipe = (demo_pipe, [], [], SleepOn NREAD)"
    by (simp add: piperead_def demo_pipe_def pipe_init_def pipe_empty_def)
  have 2: "pstep kills \<lparr>pp = demo_pipe, thr = (\<lambda>_. PIdle)(0 := PRead 1), accepted = [], delivered = []\<rparr>
      demo_reader_asleep"
    using run_read [of "\<lparr>pp = demo_pipe, thr = (\<lambda>_. PIdle)(0 := PRead 1), accepted = [], delivered = []\<rparr>"
        0 1 False kills demo_pipe "[]" "[]" "SleepOn NREAD"] run
    by (simp add: demo_reader_asleep_def after_read_def fun_upd_def comp_def if_distrib cong: if_cong)
  show ?thesis using pnext [OF pnext [OF 0 1] 2] .
qed

theorem pipe_fifo_witness:
  "accepted demo_reader_asleep = delivered demo_reader_asleep @ pipe_contents (pp demo_reader_asleep) \<and>
   thr demo_reader_asleep 0 = PRSleep 1 \<and> preach False demo_reader_asleep"
  using pipe_fifo [OF demo_reader_asleep_reach [of False]] demo_reader_asleep_reach [of False]
  by (simp add: demo_reader_asleep_def)


theorem pipewrite_segment_witness:
  "\<exists>p' j w r. pipewrite False (\<lambda>i. of_nat i) 3 0 demo_pipe = (p', j, w, r) \<and> j = 3 \<and>
     pipe_contents p' = [0, 1, 2] \<and> r = Return 3"
proof -
  have inv: "pipe_inv demo_pipe" and e: "pipe_contents demo_pipe = []"
    by (simp_all add: pipe_inv_def demo_pipe_def pipe_init_def pipe_contents_def PIPESIZE_def)
  obtain p' j w r where run: "pipewrite False (\<lambda>i. of_nat i) 3 0 demo_pipe = (p', j, w, r)"
    by (metis prod_cases4)
  from pipewrite_segment [OF inv _ _ run] e show ?thesis
    using run by (simp add: PIPESIZE_def upt_conv_Cons)
qed

text \<open>C9: With kills the guarantee fails: a writer that is killed after it filled the pipe returns \<open>- 1\<close>
  without \<^verbatim>\<open>wakeup(&p->nread)\<close>, and leaves a reader asleep on a full pipe.
\<close>

theorem pipe_killed_writer_strands_reader:
  "\<exists>s t n. preach True s \<and> thr s t = PRSleep n \<and> length (pipe_contents (pp s)) = PIPESIZE \<and>
     (\<forall>u. u \<noteq> t \<longrightarrow> thr s u = PIdle)"
proof -
  let ?a = "\<lambda>_. 0 :: u8"
  define s1 where "s1 = demo_reader_asleep\<lparr>thr := (thr demo_reader_asleep)(1 := PWrite ?a 600 0)\<rparr>"
  have 1: "preach True s1"
    unfolding s1_def
    by (rule pnext [OF demo_reader_asleep_reach], rule call_write)
      (simp_all add: demo_reader_asleep_def demo_pipe_def pipe_init_def)
  have pp1: "pp s1 = demo_pipe" by (simp add: s1_def demo_reader_asleep_def)
  have inv: "pipe_inv demo_pipe" and e: "pipe_contents demo_pipe = []" "readopen demo_pipe"
    by (simp_all add: pipe_inv_def demo_pipe_def pipe_init_def pipe_contents_def PIPESIZE_def)
  obtain p' j w r where run: "pipewrite True ?a 600 0 demo_pipe = (p', j, w, r)"
    by (metis prod_cases4)
  have l: "pipewrite_loop True ?a 0 600 demo_pipe = (p', j, w, r)"
    using run by (simp add: pipewrite_def)
  from pipewrite_loop_spec [OF inv l] e(1) have j: "j = 512" "length (pipe_contents p') = 512"
    by (simp_all add: PIPESIZE_def)
  with pipewrite_loop_result [OF inv l] have r: "w = []" "r = Return (- 1)" by auto
  define s2 where "s2 = \<lparr>pp = p', thr = (woken w \<circ> thr s1)(1 := after_write ?a 600 j r),
      accepted = accepted s1 @ map ?a [0..<j], delivered = delivered s1\<rparr>"
  have "preach True s2"
    unfolding s2_def
    by (rule pnext [OF 1], rule run_write [of _ _ _ _ _ True]) (simp_all add: s1_def pp1 run demo_reader_asleep_def)
  moreover have "thr s2 0 = PRSleep 1" "pp s2 = p'"
    by (simp_all add: s2_def s1_def demo_reader_asleep_def r)
  moreover have "\<forall>u. u \<noteq> 0 \<longrightarrow> thr s2 u = PIdle"
    by (simp add: s2_def s1_def demo_reader_asleep_def r after_write_def)
  ultimately show ?thesis using j by (metis PIPESIZE_def)
qed

theorem pipe_killed_writer_strands_reader_witness:
  "\<exists>s t n. preach True s \<and> thr s t = PRSleep n \<and> pipe_contents (pp s) \<noteq> []"
proof -
  obtain s t n where "preach True s" "thr s t = PRSleep n" and l: "length (pipe_contents (pp s)) = PIPESIZE"
    using pipe_killed_writer_strands_reader by blast
  moreover have "pipe_contents (pp s) \<noteq> []" using l by (metis PIPESIZE_def list.size(3) zero_neq_numeral)
  ultimately show ?thesis by blast
qed

end
