(* ===== verification/Cstring.thy ===== *)
theory Cstring
  imports Prelude
begin

text \<open>
  Byte memory and the C string routines: \<^verbatim>\<open>string.c\<close> (kernel) and the string part of \<^verbatim>\<open>ulib.c\<close>
  (user space), over a flat 32-bit address space. Pointers are 32-bit words, so address arithmetic
  wraps exactly as the compiled code does; aliasing between source and destination is visible because
  every routine reads and writes the one memory.
\<close>

section \<open>String instructions (x86.h)\<close>

text \<open>\<^verbatim>\<open>rep stosb\<close>: store the byte \<open>c\<close> at \<open>n\<close> consecutive addresses.\<close>

fun stosb :: "u32 \<Rightarrow> u8 \<Rightarrow> nat \<Rightarrow> memory \<Rightarrow> memory" where
  "stosb a c 0 m = m"
| "stosb a c (Suc n) m = stosb (a + 1) c n (m(a := c))"

definition store32 :: "u32 \<Rightarrow> u32 \<Rightarrow> memory \<Rightarrow> memory" where
  "store32 a v m = m(a := ucast v, a + 1 := ucast (drop_bit 8 v),
     a + 2 := ucast (drop_bit 16 v), a + 3 := ucast (drop_bit 24 v))"

definition load32 :: "memory \<Rightarrow> u32 \<Rightarrow> u32" where
  "load32 m a = of_le32 [m a, m (a + 1), m (a + 2), m (a + 3)]"

text \<open>\<^verbatim>\<open>rep stosl\<close>: store the 32-bit word \<open>v\<close> \<open>n\<close> times.\<close>

fun stosl :: "u32 \<Rightarrow> u32 \<Rightarrow> nat \<Rightarrow> memory \<Rightarrow> memory" where
  "stosl a v 0 m = m"
| "stosl a v (Suc n) m = stosl (a + 4) v n (store32 a v m)"

section \<open>Kernel string routines (string.c)\<close>

text \<open>\<^verbatim>\<open>(int)dst%4 == 0\<close> holds of a two's complement address exactly when the unsigned one is a
  multiple of 4.\<close>

definition memset :: "u32 \<Rightarrow> u32 \<Rightarrow> u32 \<Rightarrow> memory \<Rightarrow> memory" where
  "memset dst c n m =
     (if dst mod 4 = 0 \<and> n mod 4 = 0
      then (let c = c AND 0xFF
            in stosl dst (push_bit 24 c OR push_bit 16 c OR push_bit 8 c OR c) (unat (n div 4)) m)
      else stosb dst (ucast c) (unat n) m)"

fun memcmp_loop :: "nat \<Rightarrow> u32 \<Rightarrow> u32 \<Rightarrow> memory \<Rightarrow> int" where
  "memcmp_loop 0 s1 s2 m = 0"
| "memcmp_loop (Suc n) s1 s2 m =
     (if m s1 \<noteq> m s2 then uint (m s1) - uint (m s2) else memcmp_loop n (s1 + 1) (s2 + 1) m)"

definition memcmp :: "u32 \<Rightarrow> u32 \<Rightarrow> u32 \<Rightarrow> memory \<Rightarrow> int" where
  "memcmp v1 v2 n m = memcmp_loop (unat n) v1 v2 m"

fun copy_up :: "nat \<Rightarrow> u32 \<Rightarrow> u32 \<Rightarrow> memory \<Rightarrow> memory" where
  "copy_up 0 d s m = m"
| "copy_up (Suc n) d s m = copy_up n (d + 1) (s + 1) (m(d := m s))"

fun copy_down :: "nat \<Rightarrow> u32 \<Rightarrow> u32 \<Rightarrow> memory \<Rightarrow> memory" where
  "copy_down 0 d s m = m"
| "copy_down (Suc n) d s m = copy_down n (d - 1) (s - 1) (m(d - 1 := m (s - 1)))"

definition memmove :: "u32 \<Rightarrow> u32 \<Rightarrow> u32 \<Rightarrow> memory \<Rightarrow> memory" where
  "memmove dst src n m =
     (if src < dst \<and> src + n > dst
      then copy_down (unat n) (dst + n) (src + n) m
      else copy_up (unat n) dst src m)"

definition memcpy :: "u32 \<Rightarrow> u32 \<Rightarrow> u32 \<Rightarrow> memory \<Rightarrow> memory" where
  "memcpy dst src n m = memmove dst src n m"

fun strncmp :: "u32 \<Rightarrow> u32 \<Rightarrow> nat \<Rightarrow> memory \<Rightarrow> int" where
  "strncmp p q 0 m = 0"
| "strncmp p q (Suc n) m =
     (if m p \<noteq> 0 \<and> m p = m q then strncmp (p + 1) (q + 1) n m
      else uint (m p) - uint (m q))"

text \<open>The first loop of \<^verbatim>\<open>strncpy\<close> copies up to and including the terminating zero; the second
  fills what is left of the \<open>n\<close> bytes with zeros.\<close>

fun strncpy_loop :: "nat \<Rightarrow> u32 \<Rightarrow> u32 \<Rightarrow> memory \<Rightarrow> memory" where
  "strncpy_loop 0 s t m = m"
| "strncpy_loop (Suc n) s t m =
     (let m' = m(s := m t)
      in if m t \<noteq> 0 then strncpy_loop n (s + 1) (t + 1) m' else stosb (s + 1) 0 n m')"

definition strncpy :: "u32 \<Rightarrow> u32 \<Rightarrow> int \<Rightarrow> memory \<Rightarrow> memory" where
  "strncpy s t n m = strncpy_loop (nat n) s t m"

text \<open>The loop of \<^verbatim>\<open>safestrcpy\<close> with \<open>n\<close> copies left before the final \<^verbatim>\<open>*s = 0\<close>. When the zero
  of the source has just been copied, \<^verbatim>\<open>s\<close> is already past it, so the final store is one further.\<close>

fun safestrcpy_loop :: "nat \<Rightarrow> u32 \<Rightarrow> u32 \<Rightarrow> memory \<Rightarrow> memory" where
  "safestrcpy_loop 0 s t m = m(s := 0)"
| "safestrcpy_loop (Suc n) s t m =
     (let m' = m(s := m t)
      in if m t \<noteq> 0 then safestrcpy_loop n (s + 1) (t + 1) m' else m'(s + 1 := 0))"

definition safestrcpy :: "u32 \<Rightarrow> u32 \<Rightarrow> int \<Rightarrow> memory \<Rightarrow> memory" where
  "safestrcpy s t n m = (if n \<le> 0 then m else safestrcpy_loop (nat n - 1) s t m)"

text \<open>\<^verbatim>\<open>strlen\<close> does not return when no zero byte follows \<open>s\<close>: \<open>None\<close>.\<close>

partial_function (option) strlen_loop :: "memory \<Rightarrow> u32 \<Rightarrow> nat \<Rightarrow> nat option" where
  "strlen_loop m s n = (if m (s + of_nat n) = 0 then Some n else strlen_loop m s (Suc n))"

definition strlen :: "memory \<Rightarrow> u32 \<Rightarrow> nat option" where
  "strlen m s = strlen_loop m s 0"

section \<open>User-space string routines (ulib.c)\<close>

partial_function (option) strcpy :: "u32 \<Rightarrow> u32 \<Rightarrow> memory \<Rightarrow> memory option" where
  "strcpy s t m =
     (let m' = m(s := m t) in if m t \<noteq> 0 then strcpy (s + 1) (t + 1) m' else Some m')"

partial_function (option) strcmp :: "memory \<Rightarrow> u32 \<Rightarrow> u32 \<Rightarrow> int option" where
  "strcmp m p q =
     (if m p \<noteq> 0 \<and> m p = m q then strcmp m (p + 1) (q + 1)
      else Some (uint (m p) - uint (m q)))"

text \<open>\<^verbatim>\<open>strchr\<close> returns the address of the first \<open>c\<close>, or the null pointer (here \<open>0\<close>).\<close>

partial_function (option) strchr :: "memory \<Rightarrow> u32 \<Rightarrow> u8 \<Rightarrow> u32 option" where
  "strchr m s c = (if m s = 0 then Some 0 else if m s = c then Some s else strchr m (s + 1) c)"

text \<open>The user-space \<^verbatim>\<open>memmove\<close> always copies upwards.\<close>

definition u_memmove :: "u32 \<Rightarrow> u32 \<Rightarrow> int \<Rightarrow> memory \<Rightarrow> memory" where
  "u_memmove vdst vsrc n m = copy_up (nat n) vdst vsrc m"

definition u_memset :: "u32 \<Rightarrow> u32 \<Rightarrow> u32 \<Rightarrow> memory \<Rightarrow> memory" where
  "u_memset dst c n m = stosb dst (ucast c) (unat n) m"

partial_function (option) atoi_loop :: "memory \<Rightarrow> u32 \<Rightarrow> u32 \<Rightarrow> u32 option" where
  "atoi_loop m s n =
     (if 0x30 \<le> m s \<and> m s \<le> 0x39 then atoi_loop m (s + 1) (n * 10 + ucast (m s) - 0x30)
      else Some n)"

text \<open>\<^verbatim>\<open>atoi\<close> accumulates in a 32-bit \<^verbatim>\<open>int\<close>: the model keeps the 32-bit value.\<close>

definition atoi :: "memory \<Rightarrow> u32 \<Rightarrow> u32 option" where
  "atoi m s = atoi_loop m s 0"


section \<open>Strings in memory\<close>

text \<open>Memory \<open>m\<close> holds the string \<open>xs\<close> (no zero byte in it) at \<open>p\<close>, with its terminating zero.\<close>

fun cstr_at :: "memory \<Rightarrow> u32 \<Rightarrow> u8 list \<Rightarrow> bool" where
  "cstr_at m p [] = (m p = 0)"
| "cstr_at m p (x # xs) = (x \<noteq> 0 \<and> m p = x \<and> cstr_at m (p + 1) xs)"

text \<open>The \<open>n\<close> bytes at \<open>p\<close>.\<close>

definition bytes_at :: "memory \<Rightarrow> u32 \<Rightarrow> nat \<Rightarrow> u8 list" where
  "bytes_at m p n = map (\<lambda>i. m (p + of_nat i)) [0..<n]"

section \<open>Block stores\<close>

text \<open>The offset \<open>unat (x - a)\<close> of an address from the start of a block, and how it moves with the
  start: the induction step of every block operation.\<close>

lemma unat_offset_step:
  "x \<noteq> a \<Longrightarrow> unat (x - a) = Suc (unat (x - (a + 1)))" for x a :: u32
proof -
  assume "x \<noteq> a"
  then have "x - a \<noteq> 0" by simp
  then have "unat (x - a - 1) = unat (x - a) - 1" "unat (x - a) \<noteq> 0"
    by (simp_all add: unat_minus_one unat_eq_0)
  then show ?thesis by (simp add: algebra_simps)
qed

lemma unat_offset_less: "unat (x - a) < 2 ^ 32" for x a :: u32
  using unat_u32_less [of "x - a"] by simp

lemma stosb_apply:
  "n \<le> 2 ^ 32 \<Longrightarrow> stosb a c n m x = (if unat (x - a) < n then c else m x)"
proof (induction n arbitrary: a m)
  case 0
  then show ?case by simp
next
  case (Suc n)
  have IH: "stosb (a + 1) c n (m(a := c)) x =
      (if unat (x - (a + 1)) < n then c else (m(a := c)) x)"
    by (rule Suc.IH) (use Suc.prems in simp)
  have "stosb a c (Suc n) m x = (if unat (x - (a + 1)) < n then c else (m(a := c)) x)"
    by (simp only: stosb.simps IH)
  then show ?case
    by (cases "x = a") (simp_all add: unat_offset_step [of x a])
qed

lemma store32_apply:
  "store32 a v m x = (if unat (x - a) < 4 then ucast (drop_bit (8 * unat (x - a)) v) else m x)"
proof -
  have d: "x = a + of_nat k" if "unat (x - a) = k" for k
    using unat_eq_imp_of_nat [OF that] by (simp add: algebra_simps)
  have n: "x \<noteq> a + of_nat k" if "k < 4" "\<not> unat (x - a) < 4" for k
    using that by (auto simp: unat_of_nat_small)
  show ?thesis
  proof (cases "unat (x - a) < 4")
    case True
    then consider "unat (x - a) = 0" | "unat (x - a) = 1" | "unat (x - a) = 2" | "unat (x - a) = 3"
      by linarith
    then show ?thesis
      using True d by cases (auto simp: store32_def dest: d)
  next
    case False
    with n [of 0] n [of 1] n [of 2] n [of 3] show ?thesis
      by (simp add: store32_def)
  qed
qed

lemma load32_store32 [simp]: "load32 (store32 a v m) a = v"
proof -
  have "load32 (store32 a v m) a = of_le32 (le32 v)"
    by (simp add: load32_def store32_def le32_def)
  then show ?thesis by simp
qed


lemma load32_cong:
  "(\<And>i. i < 4 \<Longrightarrow> m (a + of_nat i) = m' (a + of_nat i)) \<Longrightarrow> load32 m a = load32 m' a"
proof -
  assume *: "\<And>i. i < 4 \<Longrightarrow> m (a + of_nat i) = m' (a + of_nat i)"
  from * [of 0] * [of 1] * [of 2] * [of 3] show ?thesis
    by (simp add: load32_def)
qed

lemma stosl_apply:
  "4 * n \<le> 2 ^ 32 \<Longrightarrow> stosl a v n m x =
     (if unat (x - a) < 4 * n then ucast (drop_bit (8 * (unat (x - a) mod 4)) v) else m x)"
proof (induction n arbitrary: a m)
  case 0
  then show ?case by simp
next
  case (Suc n)
  have IH: "stosl (a + 4) v n (store32 a v m) x =
      (if unat (x - (a + 4)) < 4 * n then ucast (drop_bit (8 * (unat (x - (a + 4)) mod 4)) v)
       else store32 a v m x)"
    by (rule Suc.IH) (use Suc.prems in simp)
  have shift: "unat (x - (a + 4)) = unat (x - a) - 4" if "\<not> unat (x - a) < 4"
  proof -
    have "4 \<le> x - a" using that by (simp add: word_le_nat_alt)
    then have "unat (x - a - 4) = unat (x - a) - 4" by (simp add: unat_sub_le)
    then show ?thesis by (simp add: algebra_simps)
  qed
  have near: "\<not> unat (x - (a + 4)) < 4 * n" if "unat (x - a) < 4"
  proof -
    have "unat (x - a - 4) = unat (x - a) + 2 ^ 32 - 4"
      using that by (simp add: unat_sub_if')
    then have "unat (x - (a + 4)) = unat (x - a) + 2 ^ 32 - 4" by (simp add: algebra_simps)
    then show ?thesis using Suc.prems by simp
  qed
  show ?case
  proof (cases "unat (x - a) < 4")
    case True
    then show ?thesis using near by (simp add: IH store32_apply)
  next
    case False
    then have "unat (x - a) mod 4 = (unat (x - a) - 4) mod 4"
      by (simp add: le_mod_geq)
    with False show ?thesis by (auto simp: IH shift store32_apply)
  qed
qed

lemma ucast_fill_word:
  "k < 4 \<Longrightarrow> ucast (drop_bit (8 * k) (push_bit 24 d OR push_bit 16 d OR push_bit 8 d OR d)) =
     (ucast c :: u8)" if "d = c AND 0xFF" for c d :: u32
proof -
  assume "k < 4"
  have 255: "(0xFF :: u32) = mask 8" by (simp add: mask_eq_exp_minus_1)
  from \<open>k < 4\<close> consider "k = 0" | "k = 1" | "k = 2" | "k = 3" by linarith
  then show ?thesis
    by cases (rule bit_word_eqI, auto simp: that 255 bit_simps)+
qed

text \<open>Filling a block: every byte of \<open>[dst, dst + n)\<close> becomes the low byte of \<open>c\<close>, on both the
  word-wise and the byte-wise path, and no other byte changes.\<close>

lemma memset_apply:
  "memset dst c n m x = (if unat (x - dst) < unat n then ucast c else m x)"
proof (cases "dst mod 4 = 0 \<and> n mod 4 = 0")
  case True
  let ?d = "c AND 0xFF"
  have n4: "4 * unat (n div 4) = unat n"
  proof -
    have "unat n mod 4 = unat (n mod 4)" by (simp add: unat_mod)
    then have "unat n mod 4 = 0" using True by simp
    then show ?thesis by (auto simp: unat_div)
  qed
  have "4 * unat (n div 4) \<le> 2 ^ 32"
    using n4 unat_u32_less [of n] by simp
  then have "memset dst c n m x =
      (if unat (x - dst) < 4 * unat (n div 4)
       then ucast (drop_bit (8 * (unat (x - dst) mod 4))
              (push_bit 24 ?d OR push_bit 16 ?d OR push_bit 8 ?d OR ?d)) else m x)"
    using True by (simp add: memset_def Let_def stosl_apply)
  then show ?thesis
    using ucast_fill_word [OF refl, of "unat (x - dst) mod 4" c] by (simp add: n4)
next
  case False
  have "unat n \<le> 2 ^ 32" using unat_u32_less [of n] by simp
  then show ?thesis
    using False by (auto simp: memset_def stosb_apply)
qed


section \<open>Copying\<close>

text \<open>An upward copy is right unless the destination starts inside the source; the condition is on
  the address distance, so it also covers blocks that wrap around the address space.\<close>

lemma copy_up_apply:
  assumes "unat (d - s) = 0 \<or> n \<le> unat (d - s)" "n \<le> 2 ^ 32"
  shows "copy_up n d s m x = (if unat (x - d) < n then m (s + (x - d)) else m x)"
  using assms
proof (induction n arbitrary: d s m)
  case 0
  then show ?case by simp
next
  case (Suc n)
  have IH: "copy_up n (d + 1) (s + 1) (m(d := m s)) x =
      (if unat (x - (d + 1)) < n then (m(d := m s)) (s + 1 + (x - (d + 1)))
       else (m(d := m s)) x)"
    by (rule Suc.IH) (use Suc.prems in auto)
  have step: "copy_up (Suc n) d s m x =
      (if unat (x - (d + 1)) < n then (m(d := m s)) (s + (x - d)) else (m(d := m s)) x)"
    by (simp only: copy_up.simps IH) (simp add: algebra_simps)
  show ?case
  proof (cases "x = d")
    case True
    then show ?thesis unfolding step by simp
  next
    case False
    have "s + (x - d) \<noteq> d" if "unat (x - d) < Suc n" and ds: "unat (d - s) \<noteq> 0"
    proof
      assume "s + (x - d) = d"
      then have "x - d = d - s" by (simp add: algebra_simps)
      with that Suc.prems show False by auto
    qed
    moreover have "s + (x - d) \<noteq> d" if "unat (d - s) = 0"
      using that False by (simp add: unat_eq_0)
    ultimately show ?thesis
      unfolding step using False by (auto simp: unat_offset_step [of x d])
  qed
qed

lemma copy_down_apply:
  assumes "unat (s - d) = 0 \<or> n \<le> unat (s - d)" "n \<le> 2 ^ 32"
  shows "copy_down n (d + of_nat n) (s + of_nat n) m x =
    (if unat (x - d) < n then m (s + (x - d)) else m x)"
  using assms
proof (induction n arbitrary: m)
  case 0
  then show ?case by simp
next
  case (Suc n)
  let ?m = "m(d + of_nat n := m (s + of_nat n))"
  have IH: "copy_down n (d + of_nat n) (s + of_nat n) ?m x =
      (if unat (x - d) < n then ?m (s + (x - d)) else ?m x)"
    by (rule Suc.IH) (use Suc.prems in auto)
  have step: "copy_down (Suc n) (d + of_nat (Suc n)) (s + of_nat (Suc n)) m x =
      (if unat (x - d) < n then ?m (s + (x - d)) else ?m x)"
    by (simp only: IH [symmetric]) (simp add: algebra_simps)
  have at: "x = d + of_nat n \<longleftrightarrow> unat (x - d) = n"
  proof
    assume "x = d + of_nat n"
    then show "unat (x - d) = n" using Suc.prems by (simp add: unat_of_nat_small)
  next
    assume "unat (x - d) = n"
    then have "x - d = of_nat n" by (rule unat_eq_imp_of_nat)
    then show "x = d + of_nat n" by (simp add: algebra_simps)
  qed
  have ne: "s + (x - d) \<noteq> d + of_nat n" if "unat (x - d) < n"
  proof
    assume "s + (x - d) = d + of_nat n"
    then have e: "s - d = of_nat n - (x - d)" by (simp add: algebra_simps)
    have n: "unat (of_nat n :: u32) = n"
      using Suc.prems by (simp add: unat_of_nat_small)
    have "x - d \<le> of_nat n"
      using that by (simp add: word_le_nat_alt n)
    from unat_sub_le [OF this] have "unat (s - d) = n - unat (x - d)"
      by (simp only: e n)
    with that Suc.prems show False by linarith
  qed
  have sn: "s + (x - d) = s + of_nat n" if "unat (x - d) = n"
    using unat_eq_imp_of_nat [OF that] by simp
  consider "unat (x - d) < n" | "unat (x - d) = n" | "n < unat (x - d)" by linarith
  then show ?case
  proof cases
    case 1
    then show ?thesis unfolding step using ne [OF 1] by simp
  next
    case 2
    then show ?thesis unfolding step using at sn [OF 2] by simp
  next
    case 3
    then show ?thesis unfolding step using at by simp
  qed
qed


lemma memmove_apply:
  assumes "unat src + unat n < 2 ^ 32" "unat dst + unat n \<le> 2 ^ 32"
  shows "memmove dst src n m x = (if unat (x - dst) < unat n then m (src + (x - dst)) else m x)"
proof (cases "src < dst \<and> src + n > dst")
  case True
  have "unat (src - dst) = 2 ^ 32 - (unat dst - unat src)"
    using True by (auto simp: unat_sub_if' word_less_nat_alt)
  then have "unat n \<le> unat (src - dst)"
    using assms by linarith
  then have "copy_down (unat n) (dst + of_nat (unat n)) (src + of_nat (unat n)) m x =
      (if unat (x - dst) < unat n then m (src + (x - dst)) else m x)"
    by (intro copy_down_apply) (use unat_u32_less [of n] in auto)
  then show ?thesis using True by (simp add: memmove_def)
next
  case False
  have "unat (dst - src) = 0 \<or> unat n \<le> unat (dst - src)"
  proof (cases "src \<le> dst")
    case True
    have "unat (src + n) = unat src + unat n"
      using assms by (simp add: unat_add_no_wrap)
    then have "src = dst \<or> unat src + unat n \<le> unat dst"
      using False True by (auto simp: word_less_nat_alt word_le_nat_alt word_unat_eq_iff)
    then show ?thesis using True by (auto simp: unat_sub_le)
  next
    case neg: False
    then have "unat (dst - src) = unat dst + 2 ^ 32 - unat src"
      by (auto simp: unat_sub_if' word_le_nat_alt)
    then show ?thesis using assms by linarith
  qed
  moreover have "memmove dst src n m x = copy_up (unat n) dst src m x"
    using False by (auto simp: memmove_def)
  ultimately show ?thesis
    using unat_u32_less [of n] by (simp add: copy_up_apply)
qed

section \<open>String routines on strings\<close>

lemma cstr_at_nth:
  "cstr_at m p xs \<Longrightarrow> i < length xs \<Longrightarrow> m (p + of_nat i) = xs ! i \<and> xs ! i \<noteq> 0"
proof (induction xs arbitrary: p i)
  case Nil
  then show ?case by simp
next
  case (Cons x xs)
  then show ?case
    using Cons.IH [of "p + 1" "i - 1"]
    by (cases i) (auto simp: add.assoc)
qed

lemma cstr_at_end: "cstr_at m p xs \<Longrightarrow> m (p + of_nat (length xs)) = 0"
  by (induction xs arbitrary: p) (auto simp flip: add.assoc)

lemma cstr_atI:
  "(\<And>i. i < length xs \<Longrightarrow> m (p + of_nat i) = xs ! i \<and> xs ! i \<noteq> 0) \<Longrightarrow>
   m (p + of_nat (length xs)) = 0 \<Longrightarrow> cstr_at m p xs"
proof (induction xs arbitrary: p)
  case Nil
  then show ?case by simp
next
  case (Cons x xs)
  have "cstr_at m (p + 1) xs"
  proof (rule Cons.IH)
    show "m (p + 1 + of_nat i) = xs ! i \<and> xs ! i \<noteq> 0" if "i < length xs" for i
      using Cons.prems(1) [of "Suc i"] that by (simp add: algebra_simps)
    show "m (p + 1 + of_nat (length xs)) = 0"
      using Cons.prems(2) by (simp add: algebra_simps)
  qed
  then show ?case using Cons.prems(1) [of 0] by simp
qed

lemma strlen_loop_cstr:
  "cstr_at m (p + of_nat k) xs \<Longrightarrow> strlen_loop m p k = Some (k + length xs)"
proof (induction xs arbitrary: k)
  case Nil
  then show ?case by (simp add: strlen_loop.simps)
next
  case (Cons x xs)
  then have "strlen_loop m p (Suc k) = Some (Suc k + length xs)"
    by (intro Cons.IH) (simp add: algebra_simps)
  with Cons.prems show ?case by (simp add: strlen_loop.simps [of m p k])
qed

lemma strlen_cstr: "cstr_at m p xs \<Longrightarrow> strlen m p = Some (length xs)"
  using strlen_loop_cstr [of m p 0 xs] by (simp add: strlen_def)

lemma strncmp_eq_0_iff:
  "cstr_at m p xs \<Longrightarrow> cstr_at m q ys \<Longrightarrow> strncmp p q n m = 0 \<longleftrightarrow> take n xs = take n ys"
proof (induction n arbitrary: p q xs ys)
  case 0
  then show ?case by simp
next
  case (Suc n)
  then show ?case
    by (cases xs; cases ys) auto
qed

lemma strcmp_cstr:
  "cstr_at m p xs \<Longrightarrow> cstr_at m q ys \<Longrightarrow> \<exists>r. strcmp m p q = Some r \<and> (r = 0 \<longleftrightarrow> xs = ys)"
proof (induction xs arbitrary: p q ys)
  case Nil
  then show ?case by (cases ys) (auto simp: strcmp.simps [of m p q])
next
  case (Cons x xs)
  show ?case
  proof (cases ys)
    case Nil
    with Cons.prems show ?thesis by (auto simp: strcmp.simps [of m p q])
  next
    case (Cons y ys')
    show ?thesis
    proof (cases "x = y")
      case True
      with Cons Cons.prems Cons.IH [of "p + 1" "q + 1" ys'] show ?thesis
        by (simp add: strcmp.simps [of m p q])
    next
      case False
      with Cons Cons.prems show ?thesis by (simp add: strcmp.simps [of m p q])
    qed
  qed
qed


lemma cstr_at_cong:
  "(\<And>i. i \<le> length xs \<Longrightarrow> m' (p + of_nat i) = m (p + of_nat i)) \<Longrightarrow>
   cstr_at m p xs \<Longrightarrow> cstr_at m' p xs"
  by (rule cstr_atI) (auto simp: cstr_at_nth cstr_at_end)

text \<open>A string apart from the block \<open>[s, s + n)\<close>: no byte of it, its zero included, is in the block.\<close>

lemma apart_step:
  fixes s t :: u32
  assumes "\<And>i. i \<le> length (y # ys) \<Longrightarrow> \<not> unat (t + of_nat i - s) < Suc n"
  shows "i \<le> length ys \<Longrightarrow> \<not> unat (t + 1 + of_nat i - (s + 1)) < n"
    and "i \<le> length ys \<Longrightarrow> t + 1 + of_nat i \<noteq> s"
proof -
  assume i: "i \<le> length ys"
  have e: "t + 1 + of_nat i = t + of_nat (Suc i)" by simp
  from assms [of "Suc i"] i have *: "\<not> unat (t + of_nat (Suc i) - s) < Suc n" by simp
  show ne: "t + 1 + of_nat i \<noteq> s" using * by (auto simp: e)
  show "\<not> unat (t + 1 + of_nat i - (s + 1)) < n"
    using * unat_offset_step [OF ne] by (simp only: e not_less_eq)
qed

lemma strncpy_loop_apply:
  assumes "cstr_at m t xs" "n \<le> 2 ^ 32"
    and "\<And>i. i \<le> length xs \<Longrightarrow> \<not> unat (t + of_nat i - s) < n"
  shows "strncpy_loop n s t m x =
    (if unat (x - s) < n then (if unat (x - s) < length xs then xs ! unat (x - s) else 0) else m x)"
  using assms
proof (induction n arbitrary: s t m xs)
  case 0
  then show ?case by simp
next
  case (Suc n)
  show ?case
  proof (cases xs)
    case Nil
    with Suc.prems have "strncpy_loop (Suc n) s t m x = stosb (s + 1) 0 n (m(s := 0)) x"
      by simp
    also have "\<dots> = stosb s 0 (Suc n) m x" by simp
    also have "\<dots> = (if unat (x - s) < Suc n then 0 else m x)"
      by (rule stosb_apply) (use Suc.prems in simp)
    finally show ?thesis using Nil by simp
  next
    case (Cons y ys)
    let ?m = "m(s := y)"
    note ap = apart_step [OF Suc.prems(3) [unfolded Cons]]
    have "cstr_at ?m (t + 1) ys"
      by (rule cstr_at_cong [of _ _ _ m]) (use ap(2) Suc.prems(1) Cons in auto)
    then have IH: "strncpy_loop n (s + 1) (t + 1) ?m x =
        (if unat (x - (s + 1)) < n
         then (if unat (x - (s + 1)) < length ys then ys ! unat (x - (s + 1)) else 0) else ?m x)"
      by (rule Suc.IH) (use Suc.prems(2) ap(1) in auto)
    have "strncpy_loop (Suc n) s t m x = strncpy_loop n (s + 1) (t + 1) ?m x"
      using Suc.prems(1) Cons by simp
    note step = trans [OF this IH]
    show ?thesis
    proof (cases "x = s")
      case True
      have "\<not> unat (s - (s + 1)) < n"
        using Suc.prems(2) by (simp add: unsigned_minus_1_eq_mask mask_eq_exp_minus_1)
      then show ?thesis unfolding step using True Cons by simp
    next
      case False
      then show ?thesis unfolding step using Cons by (simp add: unat_offset_step [of x s])
    qed
  qed
qed

lemma safestrcpy_loop_spec:
  assumes "cstr_at m t xs" "Suc n < 2 ^ 32"
    and "\<And>i. i \<le> length xs \<Longrightarrow> \<not> unat (t + of_nat i - s) < Suc n"
  shows "cstr_at (safestrcpy_loop n s t m) s (take n xs) \<and>
    (\<forall>x. \<not> unat (x - s) < Suc n \<longrightarrow> safestrcpy_loop n s t m x = m x)"
  using assms
proof (induction n arbitrary: s t m xs)
  case 0
  then show ?case by auto
next
  case (Suc n)
  show ?case
  proof (cases xs)
    case Nil
    have "unat (s + 1 - s) = 1" by simp
    with Nil Suc.prems show ?thesis by auto
  next
    case (Cons y ys)
    let ?m = "m(s := y)"
    let ?r = "safestrcpy_loop n (s + 1) (t + 1) ?m"
    note ap = apart_step [OF Suc.prems(3) [unfolded Cons]]
    have "cstr_at ?m (t + 1) ys"
      by (rule cstr_at_cong [of _ _ _ m]) (use ap(2) Suc.prems(1) Cons in auto)
    then have IH: "cstr_at ?r (s + 1) (take n ys) \<and>
        (\<forall>x. \<not> unat (x - (s + 1)) < Suc n \<longrightarrow> ?r x = ?m x)"
      by (rule Suc.IH) (use Suc.prems(2) ap(1) in auto)
    have "\<not> unat (s - (s + 1)) < Suc n"
      using Suc.prems(2) by (simp add: unsigned_minus_1_eq_mask mask_eq_exp_minus_1)
    with IH have "?r s = y" by simp
    moreover have "?r x = m x" if "\<not> unat (x - s) < Suc (Suc n)" for x
    proof -
      have "x \<noteq> s" using that by auto
      with that IH unat_offset_step [of x s] show ?thesis by simp
    qed
    ultimately show ?thesis
      using IH Suc.prems(1) Cons by simp
  qed
qed

text \<open>Where a string is a list of bytes without the NUL behind it: the byte a pointer points at.\<close>

fun char0 :: "u8 list \<Rightarrow> u8" where
  "char0 [] = 0"
| "char0 (c # cs) = c"

end
