(* ===== verification/Kalloc.thy ===== *)
theory Kalloc
  imports Cstring
begin

text \<open>
  The physical page allocator (\<^verbatim>\<open>kalloc.c\<close>). Free pages form a linked list threaded through the
  pages themselves: the first word of a free page is \<^verbatim>\<open>struct run\<close>'s \<^verbatim>\<open>next\<close>. The state is the
  kernel's view of memory plus \<^verbatim>\<open>kmem\<close>; \<open>kend\<close> is the linker symbol \<^verbatim>\<open>end\<close>. The list under
  \<^verbatim>\<open>kmem.lock\<close> is one atomic step per call.
\<close>

section \<open>Memory layout (memlayout.h, mmu.h)\<close>

definition PGSIZE :: u32 where "PGSIZE = 4096"
definition KERNBASE :: u32 where "KERNBASE = 0x80000000"
definition PHYSTOP :: u32 where "PHYSTOP = 0xE000000"
definition EXTMEM :: u32 where "EXTMEM = 0x100000"
definition DEVSPACE :: u32 where "DEVSPACE = 0xFE000000"
definition KERNLINK :: u32 where "KERNLINK = KERNBASE + EXTMEM"

definition V2P :: "u32 \<Rightarrow> u32" where "V2P a = a - KERNBASE"
definition P2V :: "u32 \<Rightarrow> u32" where "P2V a = a + KERNBASE"

definition PGROUNDUP :: "u32 \<Rightarrow> u32" where
  "PGROUNDUP sz = (sz + PGSIZE - 1) AND NOT (PGSIZE - 1)"

definition PGROUNDDOWN :: "u32 \<Rightarrow> u32" where
  "PGROUNDDOWN a = a AND NOT (PGSIZE - 1)"

lemmas layout_defs = PGSIZE_def KERNBASE_def PHYSTOP_def EXTMEM_def DEVSPACE_def KERNLINK_def
  V2P_def P2V_def

section \<open>State and operations (kalloc.c)\<close>

record mst =
  mem :: memory
  kend :: u32
  use_lock :: bool
  freelist :: u32

definition kfree :: "u32 \<Rightarrow> 'a mst_scheme \<Rightarrow> 'a mst_scheme res" where
  "kfree v s =
     (if v mod PGSIZE \<noteq> 0 \<or> v < kend s \<or> PHYSTOP \<le> V2P v then panic ''kfree''
      else let m = memset v 1 PGSIZE (mem s);
               m' = store32 v (freelist s) m
           in Ok (s\<lparr>mem := m', freelist := v\<rparr>))"

definition kalloc :: "'a mst_scheme \<Rightarrow> u32 \<times> 'a mst_scheme" where
  "kalloc s =
     (let r = freelist s
      in if r \<noteq> 0 then (r, s\<lparr>freelist := load32 (mem s) r\<rparr>) else (r, s))"

lemma kfree_Ok_below_top:
  "kfree v s = Ok s' \<Longrightarrow> unat v < 0x8E000000"
  by (auto simp: kfree_def layout_defs word_le_nat_alt unat_sub_if' split: if_splits)

text \<open>The loop of \<^verbatim>\<open>freerange\<close>. It terminates because \<^verbatim>\<open>kfree\<close> panics on the first page above
  \<^verbatim>\<open>PHYSTOP\<close>, before the pointer could wrap around.\<close>

function freerange_loop :: "u32 \<Rightarrow> u32 \<Rightarrow> 'a mst_scheme \<Rightarrow> 'a mst_scheme res" where
  "freerange_loop p vend s =
     (if p + PGSIZE \<le> vend then bind_res (kfree p s) (\<lambda>s. freerange_loop (p + PGSIZE) vend s)
      else Ok s)"
  by pat_completeness auto
termination
  by (relation "measure (\<lambda>(p, vend, s). 2 ^ 32 - unat p)")
    (auto dest!: kfree_Ok_below_top simp: PGSIZE_def unat_add_no_wrap)

declare freerange_loop.simps [simp del]

definition freerange :: "u32 \<Rightarrow> u32 \<Rightarrow> 'a mst_scheme \<Rightarrow> 'a mst_scheme res" where
  "freerange vstart vend s = freerange_loop (PGROUNDUP vstart) vend s"

definition kinit1 :: "u32 \<Rightarrow> u32 \<Rightarrow> 'a mst_scheme \<Rightarrow> 'a mst_scheme res" where
  "kinit1 vstart vend s = freerange vstart vend (s\<lparr>use_lock := False\<rparr>)"

definition kinit2 :: "u32 \<Rightarrow> u32 \<Rightarrow> 'a mst_scheme \<Rightarrow> 'a mst_scheme res" where
  "kinit2 vstart vend s = bind_res (freerange vstart vend s) (\<lambda>s. Ok (s\<lparr>use_lock := True\<rparr>))"

section \<open>Invariant\<close>

definition page_ok :: "'a mst_scheme \<Rightarrow> u32 \<Rightarrow> bool" where
  "page_ok s v \<longleftrightarrow> v mod PGSIZE = 0 \<and> kend s \<le> v \<and> V2P v < PHYSTOP"

text \<open>\<open>chain m p xs\<close>: following the \<^verbatim>\<open>next\<close> words from \<open>p\<close> visits exactly \<open>xs\<close> and ends at null.\<close>

fun chain :: "memory \<Rightarrow> u32 \<Rightarrow> u32 list \<Rightarrow> bool" where
  "chain m p [] = (p = 0)"
| "chain m p (x # xs) = (p = x \<and> x \<noteq> 0 \<and> chain m (load32 m x) xs)"

definition kinv :: "'a mst_scheme \<Rightarrow> u32 list \<Rightarrow> bool" where
  "kinv s xs \<longleftrightarrow> chain (mem s) (freelist s) xs \<and> distinct xs \<and> (\<forall>x \<in> set xs. page_ok s x)"

text \<open>The bytes of the page at \<open>v\<close>.\<close>

definition in_page :: "u32 \<Rightarrow> u32 \<Rightarrow> bool" where
  "in_page v a \<longleftrightarrow> unat (a - v) < 4096"

text \<open>Allocating \<open>n\<close> pages in a row with any allocator.\<close>

fun alloc_n :: "('s \<Rightarrow> u32 \<times> 's) \<Rightarrow> nat \<Rightarrow> 's \<Rightarrow> u32 list \<times> 's" where
  "alloc_n alloc 0 s = ([], s)"
| "alloc_n alloc (Suc n) s =
     (let (p, s') = alloc s; (ps, s'') = alloc_n alloc n s' in (p # ps, s''))"

section \<open>Pages\<close>

lemma aligned_unat: "v mod PGSIZE = 0 \<longleftrightarrow> unat v mod 4096 = 0"
  by (simp add: PGSIZE_def word_unat_eq_iff unat_mod)

lemma page_ok_nonzero: "page_ok s v \<Longrightarrow> v \<noteq> 0"
  by (auto simp: page_ok_def layout_defs)

lemma pages_apart:
  assumes v: "v mod PGSIZE = 0" and w: "w mod PGSIZE = 0" and "v \<noteq> w"
  shows "in_page w a \<Longrightarrow> \<not> in_page v a"
proof -
  assume a: "in_page w a"
  obtain i where i: "unat v = 4096 * i" using v by (auto simp: aligned_unat elim!: dvdE)
  obtain j where j: "unat w = 4096 * j" using w by (auto simp: aligned_unat elim!: dvdE)
  have ij: "i \<noteq> j" using \<open>v \<noteq> w\<close> i j by (metis word_unat_eq_iff)
  have bi: "4096 * i + 4096 \<le> 2 ^ 32" "4096 * j + 4096 \<le> 2 ^ 32"
    using unat_u32_less [of v] unat_u32_less [of w] i j by auto
  define k where "k = unat (a - w)"
  have k: "k < 4096" using a by (simp add: k_def in_page_def)
  have aw: "a = w + of_nat k" by (simp add: k_def)
  have ua: "unat a = 4096 * j + k"
    unfolding aw using k bi j by (subst unat_add_no_wrap) (simp_all add: unat_of_nat_small)
  show ?thesis
  proof (cases "i < j")
    case True
    then have "v \<le> a" using i ua by (simp add: word_le_nat_alt)
    then have "unat (a - v) = 4096 * j + k - 4096 * i"
      using i ua by (simp add: unat_sub_le)
    then show ?thesis using True by (simp add: in_page_def)
  next
    case False
    then have "j < i" using ij by simp
    then have "\<not> v \<le> a" using i ua k by (simp add: word_le_nat_alt)
    then have "unat (a - v) = 4096 * j + k + 2 ^ 32 - 4096 * i"
      using i ua by (simp add: unat_sub_if' word_le_nat_alt)
    then show ?thesis using bi \<open>j < i\<close> by (simp add: in_page_def)
  qed
qed

lemma in_page_word: "k < 4096 \<Longrightarrow> in_page v (v + of_nat k)"
  by (simp add: in_page_def unat_of_nat_small)

lemma load32_page_cong:
  "(\<And>a. in_page v a \<Longrightarrow> m' a = m a) \<Longrightarrow> load32 m' v = load32 m v"
  by (rule load32_cong) (simp add: in_page_word)

lemma chain_cong:
  "(\<And>x a. x \<in> set xs \<Longrightarrow> in_page x a \<Longrightarrow> m' a = m a) \<Longrightarrow> chain m' p xs = chain m p xs"
proof (induction xs arbitrary: p)
  case Nil
  then show ?case by simp
next
  case (Cons x xs)
  then have "load32 m' x = load32 m x" by (intro load32_page_cong) auto
  moreover have "chain m' q xs = chain m q xs" for q
    by (rule Cons.IH) (use Cons.prems in auto)
  ultimately show ?case by simp
qed


section \<open>The contract of a page allocator\<close>

text \<open>
  What the clients of the allocator (virtual memory, processes, pipes) rely on. \<open>inv s xs\<close> says that
  \<open>xs\<close> are the free pages, in the order they will be handed out; \<open>ok s v\<close> that \<open>v\<close> is the address of
  an allocatable page.
\<close>

locale page_allocator =
  fixes alloc :: "'s \<Rightarrow> u32 \<times> 's"
    and free :: "u32 \<Rightarrow> 's \<Rightarrow> 's res"
    and inv :: "'s \<Rightarrow> u32 list \<Rightarrow> bool"
    and ok :: "'s \<Rightarrow> u32 \<Rightarrow> bool"
    and load :: "'s \<Rightarrow> memory"
  assumes alloc_none: "inv s [] \<Longrightarrow> alloc s = (0, s)"
    and alloc_some: "inv s (x # xs) \<Longrightarrow> \<exists>s'. alloc s = (x, s') \<and> inv s' xs \<and> load s' = load s
          \<and> ok s' = ok s"
    and free_some: "inv s xs \<Longrightarrow> ok s v \<Longrightarrow> v \<notin> set xs \<Longrightarrow>
          \<exists>s'. free v s = Ok s' \<and> inv s' (v # xs) \<and> ok s' = ok s \<and>
            (\<forall>a. \<not> in_page v a \<longrightarrow> load s' a = load s a)"
    and free_bad: "\<not> ok s v \<Longrightarrow> free v s = panic ''kfree''"
    and inv_distinct: "inv s xs \<Longrightarrow> distinct xs"
    and inv_ok: "inv s xs \<Longrightarrow> x \<in> set xs \<Longrightarrow> ok s x"
    and ok_nonzero: "ok s v \<Longrightarrow> v \<noteq> 0"
begin

text \<open>Pages handed out one after the other are the first free ones: pairwise distinct, and distinct
  from every page still free.\<close>

lemma alloc_n_take:
  "inv s xs \<Longrightarrow> n \<le> length xs \<Longrightarrow>
     \<exists>s'. alloc_n alloc n s = (take n xs, s') \<and> inv s' (drop n xs) \<and> load s' = load s"
proof (induction n arbitrary: s xs)
  case 0
  then show ?case by simp
next
  case (Suc n)
  then obtain y ys where xs: "xs = y # ys" by (cases xs) auto
  with Suc.prems alloc_some [of s y ys] obtain s1
    where s1: "alloc s = (y, s1)" "inv s1 ys" "load s1 = load s" by blast
  from Suc.IH [OF s1(2)] Suc.prems xs obtain s2
    where "alloc_n alloc n s1 = (take n ys, s2)" "inv s2 (drop n ys)" "load s2 = load s1" by auto
  with s1 xs show ?case by simp
qed

lemma alloc_n_distinct:
  assumes "inv s xs" "n \<le> length xs" "alloc_n alloc n s = (ps, s')"
  shows "distinct ps \<and> 0 \<notin> set ps \<and> (\<forall>ys. inv s' ys \<longrightarrow> ys = drop n xs \<longrightarrow> set ps \<inter> set ys = {})"
proof -
  from alloc_n_take [OF assms(1,2)] assms(3) have ps: "ps = take n xs" by auto
  have "distinct xs" using assms(1) by (rule inv_distinct)
  moreover have "0 \<notin> set xs" using inv_ok [OF assms(1)] ok_nonzero by blast
  ultimately show ?thesis
    using set_take_disj_set_drop_if_distinct [of xs n n] set_take_subset [of n xs]
    by (auto simp: ps)
qed

text \<open>The allocator is a stack: the page freed last is the one allocated next.\<close>

lemma alloc_after_free:
  assumes "inv s xs" "ok s v" "v \<notin> set xs" "free v s = Ok s'"
  shows "\<exists>s''. alloc s' = (v, s'') \<and> inv s'' xs \<and> (\<forall>a. \<not> in_page v a \<longrightarrow> load s'' a = load s a)"
proof -
  from free_some [OF assms(1-3)] assms(4)
  have "inv s' (v # xs)" and l: "\<forall>a. \<not> in_page v a \<longrightarrow> load s' a = load s a" by auto
  from alloc_some [OF this(1)] l show ?thesis by auto
qed

end

section \<open>The allocator meets its contract\<close>

lemma kfree_bad: "\<not> page_ok s v \<Longrightarrow> kfree v s = panic ''kfree''"
  by (auto simp: kfree_def page_ok_def not_less not_le)

lemma kfree_mem_other:
  "kfree v s = Ok s' \<Longrightarrow> \<not> in_page v a \<Longrightarrow> mem s' a = mem s a"
  by (auto simp: kfree_def Let_def store32_apply memset_apply in_page_def PGSIZE_def split: if_splits)

lemma kfree_kinv:
  assumes "kinv s xs" "page_ok s v" "v \<notin> set xs"
  shows "\<exists>s'. kfree v s = Ok s' \<and> kinv s' (v # xs) \<and> page_ok s' = page_ok s \<and>
    (\<forall>a. \<not> in_page v a \<longrightarrow> mem s' a = mem s a)"
proof -
  define m where "m = store32 v (freelist s) (memset v 1 PGSIZE (mem s))"
  let ?s = "s\<lparr>mem := m, freelist := v\<rparr>"
  have k: "kfree v s = Ok ?s"
    using assms(2) by (auto simp: kfree_def page_ok_def m_def Let_def)
  have other: "m a = mem s a" if "\<not> in_page v a" for a
    using kfree_mem_other [OF k that] by simp
  have "chain m (freelist s) xs = chain (mem s) (freelist s) xs"
  proof (rule chain_cong)
    fix x a assume x: "x \<in> set xs" "in_page x a"
    have "\<not> in_page v a"
      by (rule pages_apart [of v x]) (use assms x in \<open>auto simp: page_ok_def kinv_def\<close>)
    then show "m a = mem s a" by (rule other)
  qed
  moreover have "load32 m v = freelist s" by (simp add: m_def)
  moreover have ok: "page_ok ?s = page_ok s" by (auto simp: page_ok_def fun_eq_iff)
  ultimately have "kinv ?s (v # xs)"
    using assms by (auto simp: kinv_def page_ok_nonzero)
  with k ok other show ?thesis by simp
qed

interpretation kmem: page_allocator kalloc kfree kinv page_ok mem
proof unfold_locales
  fix s :: "'a mst_scheme" and xs x v
  show "kinv s xs \<Longrightarrow> page_ok s v \<Longrightarrow> v \<notin> set xs \<Longrightarrow>
      \<exists>s'. kfree v s = Ok s' \<and> kinv s' (v # xs) \<and> page_ok s' = page_ok s \<and>
        (\<forall>a. \<not> in_page v a \<longrightarrow> mem s' a = mem s a)"
    by (rule kfree_kinv)
  show "kinv s [] \<Longrightarrow> kalloc s = (0, s)"
    by (simp add: kalloc_def kinv_def)
  show "kinv s (x # xs) \<Longrightarrow> \<exists>s'. kalloc s = (x, s') \<and> kinv s' xs \<and> mem s' = mem s
      \<and> page_ok s' = page_ok s"
    by (auto simp: kalloc_def kinv_def page_ok_def fun_eq_iff)
qed (auto simp: kinv_def kfree_bad page_ok_nonzero)


section \<open>Rounding to pages\<close>

lemma unat_PGROUNDDOWN: "unat (PGROUNDDOWN a) = unat a div 4096 * 4096"
proof -
  have "PGROUNDDOWN a = push_bit 12 (drop_bit 12 a)"
  proof -
    have "PGSIZE - 1 = mask 12" by (simp add: PGSIZE_def mask_eq_exp_minus_1)
    then show ?thesis
      by (intro bit_word_eqI) (auto simp: PGROUNDDOWN_def bit_simps)
  qed
  moreover have "unat (push_bit 12 (drop_bit 12 a)) = unat a div 4096 * 4096"
    using unat_u32_less [of a]
    by (simp add: push_bit_eq_mult drop_bit_eq_div unat_word_ariths unat_div)
  ultimately show ?thesis by simp
qed

lemma PGROUNDUP_eq: "PGROUNDUP sz = PGROUNDDOWN (sz + 4095)"
  by (simp add: PGROUNDUP_def PGROUNDDOWN_def PGSIZE_def add.commute)

lemma unat_PGROUNDUP:
  "unat sz + 4095 < 2 ^ 32 \<Longrightarrow> unat (PGROUNDUP sz) = (unat sz + 4095) div 4096 * 4096"
  by (simp add: PGROUNDUP_eq unat_PGROUNDDOWN unat_add_no_wrap)

lemma PGROUNDDOWN_aligned [simp]: "PGROUNDDOWN a mod PGSIZE = 0"
  by (simp add: aligned_unat unat_PGROUNDDOWN)

lemma PGROUNDUP_aligned [simp]: "PGROUNDUP a mod PGSIZE = 0"
  by (simp add: PGROUNDUP_eq)

section \<open>Initialisation\<close>

text \<open>The whole pages of \<open>[p, vend)\<close>, for a page-aligned \<open>p\<close>.\<close>

definition pages_in :: "u32 \<Rightarrow> u32 \<Rightarrow> u32 list" where
  "pages_in p vend = map (\<lambda>i. p + of_nat (4096 * i)) [0..<(unat vend - unat p) div 4096]"

lemma pages_in_step:
  assumes "unat p + 4096 \<le> unat vend" "unat p + 4096 < 2 ^ 32"
  shows "pages_in p vend = p # pages_in (p + PGSIZE) vend"
proof -
  have p: "unat (p + PGSIZE) = unat p + 4096"
    using assms by (simp add: PGSIZE_def unat_add_no_wrap)
  have "(unat vend - unat p) div 4096 = Suc ((unat vend - (unat p + 4096)) div 4096)"
    using assms by (simp add: le_div_geq)
  then show ?thesis
    by (simp add: pages_in_def p upt_conv_Cons map_Suc_upt [symmetric] comp_def del: upt_Suc)
      (simp add: PGSIZE_def algebra_simps)
qed

lemma pages_in_empty: "unat vend < unat p + 4096 \<Longrightarrow> pages_in p vend = []"
  by (simp add: pages_in_def)


lemma pages_in_bounds:
  assumes "x \<in> set (pages_in p vend)" "unat vend < 2 ^ 32"
  shows "unat p \<le> unat x \<and> unat x + 4096 \<le> unat vend \<and> unat x mod 4096 = unat p mod 4096"
proof -
  from assms(1) obtain i where i: "i < (unat vend - unat p) div 4096"
    and x: "x = p + of_nat (4096 * i)" by (auto simp: pages_in_def)
  from i have *: "unat p + 4096 * i + 4096 \<le> unat vend" by (simp add: less_eq_div_iff_mult_less_eq less_eq_Suc_le [symmetric] Suc_le_eq div_less_iff_less_mult)
  have u: "unat (of_nat (4096 * i) :: u32) = 4096 * i"
    by (rule unat_of_nat_small) (use * assms(2) in simp)
  have "unat x = unat p + 4096 * i"
    unfolding x by (subst unat_add_no_wrap) (use * assms(2) in \<open>simp_all only: u, simp_all\<close>)
  with * show ?thesis by simp
qed

lemma set_pages_in:
  assumes "unat p mod 4096 = 0"
  shows "v \<in> set (pages_in p vend) \<longleftrightarrow>
    unat v mod 4096 = 0 \<and> unat p \<le> unat v \<and> unat v + 4096 \<le> unat vend"
proof
  assume "v \<in> set (pages_in p vend)"
  with pages_in_bounds [of v p vend] unat_u32_less [of vend] assms
  show "unat v mod 4096 = 0 \<and> unat p \<le> unat v \<and> unat v + 4096 \<le> unat vend" by simp
next
  assume v: "unat v mod 4096 = 0 \<and> unat p \<le> unat v \<and> unat v + 4096 \<le> unat vend"
  define i where "i = (unat v - unat p) div 4096"
  have i4: "unat v = unat p + 4096 * i"
    using v assms by (auto simp: i_def elim!: dvdE)
  with v have "unat p + 4096 * Suc i \<le> unat vend" by simp
  then have "4096 * Suc i \<le> unat vend - unat p" by arith
  then have "i < (unat vend - unat p) div 4096"
    by (simp add: less_eq_div_iff_mult_less_eq Suc_le_eq [symmetric])
  moreover have "v = p + of_nat (4096 * i)"
    using unat_eq_imp_of_nat [OF i4] by simp
  ultimately show "v \<in> set (pages_in p vend)" by (auto simp: pages_in_def)
qed

lemma PGROUNDUP_le_iff:
  assumes "unat sz + 4095 < 2 ^ 32" "unat v mod 4096 = 0"
  shows "unat (PGROUNDUP sz) \<le> unat v \<longleftrightarrow> unat sz \<le> unat v"
  using assms by (auto simp: unat_PGROUNDUP elim!: dvdE)

lemma freerange_loop_kinv:
  assumes "kinv s xs" "unat p mod 4096 = 0" "kend s \<le> p" "0x80000000 \<le> unat p"
    "unat p < 0x8E001000" "unat vend \<le> 0x8E000000"
    "\<And>x. x \<in> set xs \<Longrightarrow> unat x < unat p \<or> unat vend \<le> unat x"
  shows "\<exists>s'. freerange_loop p vend s = Ok s' \<and> kinv s' (rev (pages_in p vend) @ xs) \<and>
    page_ok s' = page_ok s"
  using assms
proof (induction p vend s arbitrary: xs rule: freerange_loop.induct)
  case (1 p vend s)
  have p: "unat (p + PGSIZE) = unat p + 4096"
    using "1.prems"(5) by (simp add: PGSIZE_def unat_add_no_wrap)
  show ?case
  proof (cases "p + PGSIZE \<le> vend")
    case True
    then have le: "unat p + 4096 \<le> unat vend" by (simp add: word_le_nat_alt p)
    have ok: "page_ok s p"
      using "1.prems" le
      by (auto simp: page_ok_def aligned_unat V2P_def PHYSTOP_def KERNBASE_def word_less_nat_alt unat_sub_if')
    have new: "p \<notin> set xs" using "1.prems"(7) [of p] le by auto
    from kfree_kinv [OF "1.prems"(1) ok new] obtain s1 where
      s1: "kfree p s = Ok s1" "kinv s1 (p # xs)" "page_ok s1 = page_ok s" by blast
    have ke: "kend s1 = kend s" using s1(1) by (auto simp: kfree_def Let_def split: if_splits)
    have "\<exists>s'. freerange_loop (p + PGSIZE) vend s1 = Ok s' \<and>
        kinv s' (rev (pages_in (p + PGSIZE) vend) @ p # xs) \<and> page_ok s' = page_ok s1"
      by (rule "1.IH" [OF True s1(1) s1(2)])
        (use "1.prems" le p ke in \<open>auto simp: word_le_nat_alt, fastforce\<close>)
    moreover have "pages_in p vend = p # pages_in (p + PGSIZE) vend"
      by (rule pages_in_step) (use le "1.prems"(6) in simp_all)
    ultimately show ?thesis
      using True s1 by (simp add: freerange_loop.simps [of p vend s])
  next
    case False
    then have "pages_in p vend = []"
      by (intro pages_in_empty) (simp add: word_le_nat_alt p)
    then show ?thesis
      using False "1.prems"(1) by (simp add: freerange_loop.simps [of p vend s])
  qed
qed


section \<open>Properties\<close>

text \<open>C5: Pages allocated one after the other by \<^verbatim>\<open>kalloc\<close> are non-null, pairwise distinct, different
  from every page left on the free list, and memory is not touched.\<close>

theorem kalloc_pages_distinct:
  assumes "kinv s xs" "n \<le> length xs"
  shows "\<exists>ps s'. alloc_n kalloc n s = (ps, s') \<and> length ps = n \<and> distinct ps \<and> 0 \<notin> set ps \<and>
    kinv s' (drop n xs) \<and> set ps \<inter> set (drop n xs) = {} \<and> mem s' = mem s"
proof -
  from kmem.alloc_n_take [OF assms] obtain s'
    where "alloc_n kalloc n s = (take n xs, s')" "kinv s' (drop n xs)" "mem s' = mem s" by blast
  with kmem.alloc_n_distinct [OF assms] assms(2) show ?thesis by auto
qed

text \<open>\<^verbatim>\<open>kinit1\<close> on an empty free list frees exactly the whole pages of the range it is given, and
  does not panic as long as the range lies between the end of the kernel and \<^verbatim>\<open>P2V(PHYSTOP)\<close>.\<close>

theorem kinit1_frees_range:
  assumes "freelist s = 0" "kend s \<le> vstart" "KERNBASE \<le> vstart" "vstart \<le> vend"
    "vend \<le> P2V PHYSTOP"
  shows "\<exists>s'. kinit1 vstart vend s = Ok s' \<and> kinv s' (rev (pages_in (PGROUNDUP vstart) vend)) \<and>
    (\<forall>v. v \<in> set (pages_in (PGROUNDUP vstart) vend) \<longleftrightarrow>
       v mod PGSIZE = 0 \<and> unat vstart \<le> unat v \<and> unat v + 4096 \<le> unat vend)"
proof -
  let ?p = "PGROUNDUP vstart"
  have r: "unat KERNBASE = 0x80000000" "unat vend \<le> 0x8E000000" "unat vstart \<le> unat vend"
    "0x80000000 \<le> unat vstart" "unat (kend s) \<le> unat vstart"
    using assms by (simp_all add: layout_defs word_le_nat_alt)
  then have p: "unat ?p mod 4096 = 0" "unat vstart \<le> unat ?p" "unat ?p < unat vstart + 4096"
    by (simp_all add: unat_PGROUNDUP)
  have "\<exists>s'. freerange_loop ?p vend (s\<lparr>use_lock := False\<rparr>) = Ok s' \<and>
      kinv s' (rev (pages_in ?p vend) @ []) \<and> page_ok s' = page_ok (s\<lparr>use_lock := False\<rparr>)"
    by (rule freerange_loop_kinv) (use assms p r in \<open>auto simp: kinv_def word_le_nat_alt\<close>)
  then show ?thesis
    using p(1) r by (auto simp: kinit1_def freerange_def set_pages_in aligned_unat PGROUNDUP_le_iff)
qed

text \<open>A machine whose kernel ends at 1MB, with no page free yet, and one with two free pages.\<close>

definition demo_mst :: mst where
  "demo_mst = \<lparr>mem = (\<lambda>_. 0), kend = 0x80100000, use_lock = True, freelist = 0\<rparr>"

definition demo_mst2 :: mst where
  "demo_mst2 = demo_mst\<lparr>mem := store32 0x80102000 0x80101000 (\<lambda>_. 0), freelist := 0x80102000\<rparr>"

lemma kinv_demo_mst2: "kinv demo_mst2 [0x80102000, 0x80101000]"
proof -
  have "load32 (store32 0x80102000 0x80101000 (\<lambda>_. 0)) 0x80101000 = 0"
    by (simp add: load32_def store32_def of_le32_def)
  then show ?thesis
    by (simp add: kinv_def demo_mst2_def demo_mst_def page_ok_def layout_defs)
qed

theorem kinit1_frees_range_witness:
  "\<exists>s'. kinit1 0x80100001 0x80104000 demo_mst = Ok s' \<and>
     kinv s' (rev (pages_in (PGROUNDUP 0x80100001) 0x80104000))"
  using kinit1_frees_range [of demo_mst "0x80100001" "0x80104000"]
  by (auto simp: demo_mst_def layout_defs)

theorem kalloc_pages_distinct_witness:
  "\<exists>ps s'. alloc_n kalloc 2 demo_mst2 = (ps, s') \<and> length ps = 2 \<and> distinct ps \<and>
     mem s' = mem demo_mst2"
  using kalloc_pages_distinct [OF kinv_demo_mst2, of 2] by auto

end
