(* ===== verification/Sleeplock.thy ===== *)
theory Sleeplock
  imports Prelude
begin

text \<open>
  Sleep locks (\<^verbatim>\<open>sleeplock.c\<close>) as their users see them. The inner spin lock only makes each of these
  routines atomic. \<^verbatim>\<open>acquiresleep\<close> on a taken lock puts the caller to sleep: \<open>Sleep\<close>.
\<close>

record sleeplock =
  locked :: bool
  lk_pid :: int

definition initsleeplock :: sleeplock where
  "initsleeplock = \<lparr>locked = False, lk_pid = 0\<rparr>"

text \<open>\<open>pid\<close> is \<^verbatim>\<open>myproc()->pid\<close>.\<close>

definition acquiresleep :: "int \<Rightarrow> sleeplock \<Rightarrow> sleeplock res" where
  "acquiresleep pid lk = (if locked lk then Err Sleep else Ok (lk\<lparr>locked := True, lk_pid := pid\<rparr>))"

definition releasesleep :: "sleeplock \<Rightarrow> sleeplock" where
  "releasesleep lk = lk\<lparr>locked := False, lk_pid := 0\<rparr>"

definition holdingsleep :: "int \<Rightarrow> sleeplock \<Rightarrow> bool" where
  "holdingsleep pid lk \<longleftrightarrow> locked lk \<and> lk_pid lk = pid"

lemma acquiresleep_holding:
  "acquiresleep pid lk = Ok lk' \<Longrightarrow> holdingsleep pid lk' \<and> (\<forall>q. q \<noteq> pid \<longrightarrow> \<not> holdingsleep q lk')
     \<and> (\<forall>q. acquiresleep q lk' = Err Sleep)"
  by (auto simp: acquiresleep_def holdingsleep_def split: if_splits)

lemma releasesleep_free [simp]:
  "\<not> locked (releasesleep lk)" "\<not> holdingsleep pid (releasesleep lk)"
  by (simp_all add: releasesleep_def holdingsleep_def)

end
