(* ===== verification/Bio.thy ===== *)
theory Bio
  imports Kalloc Sleeplock
begin

text \<open>
  The buffer cache (\<^verbatim>\<open>bio.c\<close>) over a disk. The cached blocks form a circular doubly linked list in
  most-recently-used order, kept here as the \<^verbatim>\<open>next\<close>/\<^verbatim>\<open>prev\<close> indices of the code; buffer \<open>HEAD\<close> is
  \<^verbatim>\<open>bcache.head\<close>. The disk is the one of \<^verbatim>\<open>memide.c\<close>, whose \<^verbatim>\<open>iderw\<close> completes at once. \<open>dwrites\<close>
  records the block writes in the order they reach the disk, so that the states a crash can leave behind
  can be spoken of. One process runs (\<open>curpid\<close>); where it would wait for a buffer somebody holds, the
  result is \<open>Sleep\<close>.
\<close>

section \<open>State (buf.h, bio.c, memide.c)\<close>

definition NBUF :: nat where "NBUF = 30"
definition BSIZE :: nat where "BSIZE = 512"
definition B_VALID :: u32 where "B_VALID = 0x2"
definition B_DIRTY :: u32 where "B_DIRTY = 0x4"
definition HEAD :: nat where "HEAD = NBUF"

type_synonym block = "u8 list"

record buf =
  flags :: u32
  bdev :: u32
  blockno :: u32
  lock :: sleeplock
  refcnt :: u32
  prev :: nat
  nxt :: nat
  bdata :: block

record bst = mst +
  disk :: "u32 \<Rightarrow> block"
  disksize :: u32
  dwrites :: "(u32 \<times> block) list"
  bufs :: "nat \<Rightarrow> buf"
  curpid :: int

section \<open>The disk (memide.c)\<close>

definition iderw :: "nat \<Rightarrow> 'a bst_scheme \<Rightarrow> 'a bst_scheme res" where
  "iderw i s =
     (let b = bufs s i in
      if \<not> holdingsleep (curpid s) (lock b) then panic ''iderw: buf not locked''
      else if flags b AND (B_VALID OR B_DIRTY) = B_VALID then panic ''iderw: nothing to do''
      else if bdev b \<noteq> 1 then panic ''iderw: request not for disk 1''
      else if disksize s \<le> blockno b then panic ''iderw: block out of range''
      else if flags b AND B_DIRTY \<noteq> 0
      then Ok (s\<lparr>bufs := (bufs s)(i := b\<lparr>flags := (flags b AND NOT B_DIRTY) OR B_VALID\<rparr>),
                 disk := (disk s)(blockno b := bdata b),
                 dwrites := dwrites s @ [(blockno b, bdata b)]\<rparr>)
      else Ok (s\<lparr>bufs := (bufs s)(i := b\<lparr>flags := flags b OR B_VALID,
                                         bdata := disk s (blockno b)\<rparr>)\<rparr>))"

section \<open>The buffer cache (bio.c)\<close>

text \<open>Insert buffer \<open>b\<close> right after the head of the list.\<close>

definition link_first :: "nat \<Rightarrow> (nat \<Rightarrow> buf) \<Rightarrow> nat \<Rightarrow> buf" where
  "link_first b bs =
     (let bs = bs(b := (bs b)\<lparr>nxt := nxt (bs HEAD), prev := HEAD\<rparr>);
          n = nxt (bs HEAD);
          bs = bs(n := (bs n)\<lparr>prev := b\<rparr>)
      in bs(HEAD := (bs HEAD)\<lparr>nxt := b\<rparr>))"

text \<open>\<^verbatim>\<open>b->next->prev = b->prev; b->prev->next = b->next\<close>\<close>

definition unlink :: "nat \<Rightarrow> (nat \<Rightarrow> buf) \<Rightarrow> nat \<Rightarrow> buf" where
  "unlink b bs =
     (let n = nxt (bs b); bs = bs(n := (bs n)\<lparr>prev := prev (bs b)\<rparr>);
          p = prev (bs b)
      in bs(p := (bs p)\<lparr>nxt := nxt (bs b)\<rparr>))"

fun binit_loop :: "nat list \<Rightarrow> (nat \<Rightarrow> buf) \<Rightarrow> nat \<Rightarrow> buf" where
  "binit_loop [] bs = bs"
| "binit_loop (b # rest) bs =
     binit_loop rest (link_first b (bs(b := (bs b)\<lparr>lock := initsleeplock\<rparr>)))"

definition binit :: "'a bst_scheme \<Rightarrow> 'a bst_scheme" where
  "binit s =
     (let bs = bufs s; bs = bs(HEAD := (bs HEAD)\<lparr>prev := HEAD, nxt := HEAD\<rparr>)
      in s\<lparr>bufs := binit_loop [0..<NBUF] bs\<rparr>)"

text \<open>The two scans of \<^verbatim>\<open>bget\<close>, from buffer \<open>b\<close> along \<^verbatim>\<open>next\<close> or \<^verbatim>\<open>prev\<close> to the head. \<open>Some None\<close>: no
  buffer with \<open>P\<close>; \<open>None\<close>: out of fuel, which a well-formed list excludes.\<close>

fun scan_next :: "nat \<Rightarrow> (nat \<Rightarrow> buf) \<Rightarrow> (buf \<Rightarrow> bool) \<Rightarrow> nat \<Rightarrow> nat option option" where
  "scan_next 0 bs P b = None"
| "scan_next (Suc k) bs P b =
     (if b = HEAD then Some None else if P (bs b) then Some (Some b) else scan_next k bs P (nxt (bs b)))"

fun scan_prev :: "nat \<Rightarrow> (nat \<Rightarrow> buf) \<Rightarrow> (buf \<Rightarrow> bool) \<Rightarrow> nat \<Rightarrow> nat option option" where
  "scan_prev 0 bs P b = None"
| "scan_prev (Suc k) bs P b =
     (if b = HEAD then Some None else if P (bs b) then Some (Some b) else scan_prev k bs P (prev (bs b)))"

text \<open>Take the buffer's sleep lock after the scan.\<close>

definition lock_buf :: "nat \<Rightarrow> 'a bst_scheme \<Rightarrow> (nat \<times> 'a bst_scheme) res" where
  "lock_buf i s =
     bind_res (acquiresleep (curpid s) (lock (bufs s i)))
       (\<lambda>lk. Ok (i, s\<lparr>bufs := (bufs s)(i := (bufs s i)\<lparr>lock := lk\<rparr>)\<rparr>))"

definition bget :: "u32 \<Rightarrow> u32 \<Rightarrow> 'a bst_scheme \<Rightarrow> (nat \<times> 'a bst_scheme) res" where
  "bget dev bno s =
     (case scan_next (Suc NBUF) (bufs s) (\<lambda>b. bdev b = dev \<and> blockno b = bno) (nxt (bufs s HEAD)) of
        None \<Rightarrow> Err Sleep
      | Some (Some i) \<Rightarrow>
          lock_buf i (s\<lparr>bufs := (bufs s)(i := (bufs s i)\<lparr>refcnt := refcnt (bufs s i) + 1\<rparr>)\<rparr>)
      | Some None \<Rightarrow>
          (case scan_prev (Suc NBUF) (bufs s) (\<lambda>b. refcnt b = 0 \<and> flags b AND B_DIRTY = 0)
                  (prev (bufs s HEAD)) of
             None \<Rightarrow> Err Sleep
           | Some (Some i) \<Rightarrow>
               lock_buf i (s\<lparr>bufs := (bufs s)(i := (bufs s i)\<lparr>bdev := dev, blockno := bno,
                                                             flags := 0, refcnt := 1\<rparr>)\<rparr>)
           | Some None \<Rightarrow> panic ''bget: no buffers''))"

definition bread :: "u32 \<Rightarrow> u32 \<Rightarrow> 'a bst_scheme \<Rightarrow> (nat \<times> 'a bst_scheme) res" where
  "bread dev bno s =
     bind_res (bget dev bno s) (\<lambda>(i, s).
       if flags (bufs s i) AND B_VALID = 0 then bind_res (iderw i s) (\<lambda>s. Ok (i, s)) else Ok (i, s))"

definition bwrite :: "nat \<Rightarrow> 'a bst_scheme \<Rightarrow> 'a bst_scheme res" where
  "bwrite i s =
     (if \<not> holdingsleep (curpid s) (lock (bufs s i)) then panic ''bwrite''
      else iderw i (s\<lparr>bufs := (bufs s)(i := (bufs s i)\<lparr>flags := flags (bufs s i) OR B_DIRTY\<rparr>)\<rparr>))"

definition brelse :: "nat \<Rightarrow> 'a bst_scheme \<Rightarrow> 'a bst_scheme res" where
  "brelse i s =
     (let b = bufs s i in
      if \<not> holdingsleep (curpid s) (lock b) then panic ''brelse''
      else let bs = (bufs s)(i := b\<lparr>lock := releasesleep (lock b), refcnt := refcnt b - 1\<rparr>)
           in Ok (s\<lparr>bufs := (if refcnt (bs i) = 0 then link_first i (unlink i bs) else bs)\<rparr>))"

text \<open>A caller's store into \<^verbatim>\<open>b->data\<close>.\<close>

definition set_data :: "nat \<Rightarrow> block \<Rightarrow> 'a bst_scheme \<Rightarrow> 'a bst_scheme" where
  "set_data i d s = s\<lparr>bufs := (bufs s)(i := (bufs s i)\<lparr>bdata := d\<rparr>)\<rparr>"

section \<open>Invariant and abstraction\<close>

abbreviation valid :: "buf \<Rightarrow> bool" where "valid b \<equiv> flags b AND B_VALID \<noteq> 0"
abbreviation dirty :: "buf \<Rightarrow> bool" where "dirty b \<equiv> flags b AND B_DIRTY \<noteq> 0"

text \<open>\<open>dseg bs p xs q\<close>: starting at \<open>p\<close>, the links lead through \<open>xs\<close> to \<open>q\<close>, and back.\<close>

fun dseg :: "(nat \<Rightarrow> buf) \<Rightarrow> nat \<Rightarrow> nat list \<Rightarrow> nat \<Rightarrow> bool" where
  "dseg bs p [] q = (nxt (bs p) = q \<and> prev (bs q) = p)"
| "dseg bs p (x # xs) q = (nxt (bs p) = x \<and> prev (bs x) = p \<and> dseg bs x xs q)"

definition dll :: "(nat \<Rightarrow> buf) \<Rightarrow> nat list \<Rightarrow> bool" where
  "dll bs xs \<longleftrightarrow> dseg bs HEAD xs HEAD \<and> distinct (HEAD # xs)"

text \<open>
  Well-formedness of the cache: the list threads all buffers; no block is cached twice; a buffer that is
  held, dirty or valid belongs to the disk; a buffer is locked exactly while it is referenced; a buffer
  nobody references and that is not dirty agrees with the disk.
\<close>

definition buf_ok :: "'a bst_scheme \<Rightarrow> buf \<Rightarrow> bool" where
  "buf_ok s b \<longleftrightarrow> length (bdata b) = BSIZE \<and>
     (refcnt b \<noteq> 0 \<or> dirty b \<or> valid b \<longrightarrow> bdev b = 1 \<and> blockno b < disksize s) \<and>
     (if refcnt b = 0 then \<not> locked (lock b) else refcnt b = 1 \<and> holdingsleep (curpid s) (lock b)) \<and>
     (refcnt b \<noteq> 0 \<or> dirty b \<longrightarrow> valid b) \<and>
     (refcnt b = 0 \<and> valid b \<and> \<not> dirty b \<longrightarrow> bdata b = disk s (blockno b))"

definition binv :: "'a bst_scheme \<Rightarrow> bool" where
  "binv s \<longleftrightarrow> (\<exists>xs. dll (bufs s) xs \<and> set xs = {..<NBUF}) \<and> (\<forall>n. length (disk s n) = BSIZE) \<and>
     (\<forall>i<NBUF. buf_ok s (bufs s i)) \<and>
     (\<forall>i<NBUF. \<forall>j<NBUF. bdev (bufs s i) = 1 \<and> bdev (bufs s j) = 1 \<and>
        blockno (bufs s i) = blockno (bufs s j) \<longrightarrow> i = j)"

text \<open>Buffer \<open>i\<close> caches block \<open>n\<close>; the contents of block \<open>n\<close> as the kernel sees them; the dirty and
  the held blocks.\<close>

definition caches :: "'a bst_scheme \<Rightarrow> nat \<Rightarrow> u32 \<Rightarrow> bool" where
  "caches s i n \<longleftrightarrow> i < NBUF \<and> bdev (bufs s i) = 1 \<and> blockno (bufs s i) = n"

definition blk :: "'a bst_scheme \<Rightarrow> u32 \<Rightarrow> block" where
  "blk s n = (case find (\<lambda>i. caches s i n \<and> valid (bufs s i)) [0..<NBUF] of
     Some i \<Rightarrow> bdata (bufs s i) | None \<Rightarrow> disk s n)"

definition dirtyb :: "'a bst_scheme \<Rightarrow> u32 set" where
  "dirtyb s = {n. \<exists>i. caches s i n \<and> dirty (bufs s i)}"

definition heldb :: "'a bst_scheme \<Rightarrow> u32 set" where
  "heldb s = {n. \<exists>i. caches s i n \<and> refcnt (bufs s i) \<noteq> 0}"

definition holds :: "'a bst_scheme \<Rightarrow> nat \<Rightarrow> u32 \<Rightarrow> bool" where
  "holds s i n \<longleftrightarrow> caches s i n \<and> refcnt (bufs s i) \<noteq> 0"

text \<open>These notions only look at the cache, the disk and the running process.\<close>

lemma view_cong:
  assumes "bufs s' = bufs s" "disk s' = disk s" "disksize s' = disksize s" "curpid s' = curpid s"
  shows "binv s' = binv s" "caches s' = caches s" "holds s' = holds s" "heldb s' = heldb s" "dirtyb s' = dirtyb s" "blk s' = blk s"
proof -
  show c: "caches s' = caches s" by (intro ext) (simp add: caches_def assms)
  have "buf_ok s' b = buf_ok s b" for b by (simp add: buf_ok_def assms)
  then show "binv s' = binv s" by (simp add: binv_def assms)
  show "holds s' = holds s" by (intro ext) (simp add: holds_def c assms)
  show "heldb s' = heldb s" "dirtyb s' = dirtyb s" by (simp_all add: heldb_def dirtyb_def c assms)
  show "blk s' = blk s" by (rule ext) (simp add: blk_def c assms split: option.split)
qed

section \<open>The linked list\<close>

lemma dseg_append:
  "dseg bs p (xs @ y # ys) q \<longleftrightarrow> dseg bs p xs y \<and> dseg bs y ys q"
  by (induction xs arbitrary: p) auto

lemma dseg_cong:
  "(\<And>x. x \<in> set (p # xs) \<Longrightarrow> nxt (bs' x) = nxt (bs x)) \<Longrightarrow>
   (\<And>x. x \<in> set (xs @ [q]) \<Longrightarrow> prev (bs' x) = prev (bs x)) \<Longrightarrow>
   dseg bs' p xs q = dseg bs p xs q"
  by (induction xs arbitrary: p) auto

lemma dll_cong:
  "(\<And>x. nxt (bs' x) = nxt (bs x)) \<Longrightarrow> (\<And>x. prev (bs' x) = prev (bs x)) \<Longrightarrow> dll bs' xs = dll bs xs"
  unfolding dll_def by (metis dseg_cong)

lemma dseg_last: "dseg bs p xs q \<Longrightarrow> nxt (bs (last (p # xs))) = q \<and> prev (bs q) = last (p # xs)"
  by (induction xs arbitrary: p) auto

lemma dll_link_first:
  assumes "dll bs xs" "b \<notin> set xs" "b \<noteq> HEAD"
  shows "dll (link_first b bs) (b # xs)"
proof (cases xs)
  case Nil
  with assms show ?thesis by (auto simp: dll_def link_first_def Let_def)
next
  case (Cons y ys)
  let ?bs = "link_first b bs"
  from assms Cons have d: "dseg bs y ys HEAD" "nxt (bs HEAD) = y" "distinct (HEAD # y # ys)"
    "b \<notin> set (y # ys)" "prev (bs y) = HEAD"
    by (auto simp: dll_def)
  have "dseg ?bs y ys HEAD = dseg bs y ys HEAD"
    by (rule dseg_cong) (use d assms(3) in \<open>auto simp: link_first_def Let_def\<close>)
  with d assms Cons show ?thesis
    by (auto simp: dll_def link_first_def Let_def)
qed

lemma dll_unlink:
  assumes "dll bs (ys @ b # zs)"
  shows "dll (unlink b bs) (ys @ zs)"
proof -
  let ?bs = "unlink b bs"
  let ?p = "last (HEAD # ys)" and ?n = "hd (zs @ [HEAD])"
  from assms have d: "dseg bs HEAD ys b" "dseg bs b zs HEAD" "distinct (HEAD # ys @ b # zs)"
    by (auto simp: dll_def dseg_append)
  have p: "prev (bs b) = ?p" "nxt (bs ?p) = b" using dseg_last [OF d(1)] by auto
  have n: "nxt (bs b) = ?n" using d(2) by (cases zs) auto
  have bn: "?n \<noteq> b" using d(3) by (cases zs) auto
  have un: "nxt (?bs x) = (if x = ?p then ?n else nxt (bs x))"
    "prev (?bs x) = (if x = ?n then ?p else prev (bs x))" for x
    using bn by (auto simp: unlink_def Let_def n p(1))
  have "dseg ?bs HEAD (ys @ zs) HEAD"
  proof (cases ys rule: rev_cases)
    case Nil
    then show ?thesis
    proof (cases zs)
      case Nil
      with \<open>ys = []\<close> show ?thesis by (simp add: un)
    next
      case (Cons z zs')
      have "dseg ?bs z zs' HEAD = dseg bs z zs' HEAD"
        by (rule dseg_cong) (use d \<open>ys = []\<close> Cons in \<open>auto simp: un\<close>)
      with d \<open>ys = []\<close> Cons show ?thesis by (simp add: un)
    qed
  next
    case (snoc ys' y)
    have h: "dseg ?bs HEAD ys' y = dseg bs HEAD ys' y"
      by (rule dseg_cong) (use d snoc in \<open>auto simp: un hd_append split: if_splits\<close>)
    have "dseg bs HEAD ys' y" using d(1) snoc by (simp add: dseg_append)
    moreover have "dseg ?bs y zs HEAD"
    proof (cases zs)
      case Nil
      with d snoc show ?thesis by (simp add: un)
    next
      case (Cons z zs')
      have "dseg ?bs z zs' HEAD = dseg bs z zs' HEAD"
        by (rule dseg_cong) (use d snoc Cons in \<open>auto simp: un\<close>)
      with d snoc Cons show ?thesis by (simp add: un)
    qed
    ultimately show ?thesis using h snoc by (simp add: dseg_append)
  qed
  with d(3) show ?thesis by (auto simp: dll_def)
qed

lemma scan_next_find:
  "dseg bs p xs HEAD \<Longrightarrow> HEAD \<notin> set xs \<Longrightarrow> length xs < k \<Longrightarrow>
   scan_next k bs P (nxt (bs p)) = Some (find (\<lambda>i. P (bs i)) xs)"
proof (induction xs arbitrary: p k)
  case Nil
  then show ?case by (cases k) auto
next
  case (Cons x xs)
  then obtain k' where k: "k = Suc k'" by (cases k) auto
  with Cons show ?case by auto
qed

lemma dseg_rev_prev:
  "dseg bs p xs q \<Longrightarrow> HEAD \<notin> set xs \<Longrightarrow> length xs < k \<Longrightarrow> p = HEAD \<Longrightarrow>
   scan_prev k bs P (prev (bs q)) = Some (find (\<lambda>i. P (bs i)) (rev xs))"
proof (induction xs arbitrary: q k rule: rev_induct)
  case Nil
  then show ?case by (cases k) auto
next
  case (snoc x xs)
  then obtain k' where k: "k = Suc k'" by (cases k) auto
  from snoc.prems have "dseg bs p xs x" "prev (bs q) = x" by (simp_all add: dseg_append)
  with snoc k show ?case by auto
qed


section \<open>Flags\<close>

lemma flag_bits: "w AND B_VALID = 0 \<longleftrightarrow> \<not> bit w 1" "w AND B_DIRTY = 0 \<longleftrightarrow> \<not> bit w 2"
  for w :: u32
  using and_exp_eq_0_iff_not_bit [of w 1] and_exp_eq_0_iff_not_bit [of w 2]
  by (simp_all add: B_VALID_def B_DIRTY_def)

lemma bit_flags [simp]: "bit B_VALID n \<longleftrightarrow> n = Suc 0" "bit B_DIRTY n \<longleftrightarrow> n = 2"
proof -
  have v: "B_VALID = 2 ^ Suc 0" and d: "B_DIRTY = 2 ^ 2" by (simp_all add: B_VALID_def B_DIRTY_def)
  show "bit B_VALID n \<longleftrightarrow> n = Suc 0" unfolding v bit_exp_iff by auto
  show "bit B_DIRTY n \<longleftrightarrow> n = 2" unfolding d bit_exp_iff by auto
qed

lemma flags_nonzero [simp]: "B_VALID \<noteq> 0" "B_DIRTY \<noteq> 0"
  by (simp_all add: B_VALID_def B_DIRTY_def)

lemma flag_both: "w AND (B_VALID OR B_DIRTY) = B_VALID \<longleftrightarrow> bit w 1 \<and> \<not> bit w 2" for w :: u32
proof
  assume "w AND (B_VALID OR B_DIRTY) = B_VALID"
  then have "bit (w AND (B_VALID OR B_DIRTY)) k = bit B_VALID k" for k by simp
  from this [of 1] this [of 2] show "bit w 1 \<and> \<not> bit w 2" by (simp add: bit_simps)
next
  assume "bit w 1 \<and> \<not> bit w 2"
  then show "w AND (B_VALID OR B_DIRTY) = B_VALID"
    by (intro bit_word_eqI) (auto simp: bit_simps)
qed

lemmas flag_simps = flag_bits flag_both bit_or_iff bit_and_iff bit_not_iff_eq

section \<open>The contents of blocks\<close>

lemma blk_cached: "binv s \<Longrightarrow> caches s i n \<Longrightarrow> valid (bufs s i) \<Longrightarrow> blk s n = bdata (bufs s i)"
proof -
  assume b: "binv s" and c: "caches s i n" "valid (bufs s i)"
  have u: "j = i" if "caches s j n" for j
    using that b c unfolding binv_def caches_def by blast
  have "find (\<lambda>i. caches s i n \<and> valid (bufs s i)) [0..<NBUF] = Some i"
  proof (rule find_unique)
    show "i \<in> set [0..<NBUF]" using c by (simp add: caches_def)
    show "caches s i n \<and> valid (bufs s i)" using c by simp
  qed (use u in blast)
  then show ?thesis by (simp add: blk_def)
qed

lemma blk_uncached: "(\<And>i. caches s i n \<Longrightarrow> \<not> valid (bufs s i)) \<Longrightarrow> blk s n = disk s n"
proof -
  assume "\<And>i. caches s i n \<Longrightarrow> \<not> valid (bufs s i)"
  then have "find (\<lambda>i. caches s i n \<and> valid (bufs s i)) [0..<NBUF] = None"
    by (auto simp: find_None_iff)
  then show ?thesis by (simp add: blk_def)
qed

lemma blk_clean: "binv s \<Longrightarrow> n \<notin> dirtyb s \<Longrightarrow> n \<notin> heldb s \<Longrightarrow> blk s n = disk s n"
proof -
  assume b: "binv s" and nd: "n \<notin> dirtyb s" "n \<notin> heldb s"
  show ?thesis
  proof (cases "\<exists>i. caches s i n \<and> valid (bufs s i)")
    case True
    then obtain i where i: "caches s i n" "valid (bufs s i)" by blast
    then have "buf_ok s (bufs s i)" using b by (simp add: binv_def caches_def)
    then have "bdata (bufs s i) = disk s n"
      using i nd unfolding buf_ok_def caches_def dirtyb_def heldb_def by auto
    then show ?thesis using blk_cached [OF b i] by simp
  next
    case False
    then show ?thesis by (intro blk_uncached) auto
  qed
qed

lemma length_blk: "binv s \<Longrightarrow> length (blk s n) = BSIZE"
  by (auto simp: blk_def binv_def buf_ok_def find_Some_iff split: option.splits)

text \<open>Replacing one buffer by one with the same links.\<close>

lemma binv_upd:
  assumes "binv s" "i < NBUF" "nxt b = nxt (bufs s i)" "prev b = prev (bufs s i)" "buf_ok s b"
    and "\<And>j. j < NBUF \<Longrightarrow> j \<noteq> i \<Longrightarrow> bdev b = 1 \<Longrightarrow> bdev (bufs s j) = 1 \<Longrightarrow> blockno b \<noteq> blockno (bufs s j)"
  shows "binv (s\<lparr>bufs := (bufs s)(i := b)\<rparr>)"
proof -
  let ?bs = "(bufs s)(i := b)"
  have "dll ?bs xs = dll (bufs s) xs" for xs
    by (rule dll_cong) (simp_all add: assms(3,4))
  moreover have "buf_ok (s\<lparr>bufs := bs\<rparr>) c = buf_ok s c" for bs c by (simp add: buf_ok_def)
  moreover have "j = k" if "j < NBUF" "k < NBUF" "bdev (?bs j) = 1" "bdev (?bs k) = 1"
    "blockno (?bs j) = blockno (?bs k)" for j k
  proof (cases "j = i \<or> k = i")
    case True
    then show ?thesis using assms(6) [of j] assms(6) [of k] that by (auto split: if_splits)
  next
    case False
    then show ?thesis using assms(1) that unfolding binv_def by auto
  qed
  ultimately show ?thesis
    using assms(1,5) unfolding binv_def by simp
qed

section \<open>Getting a buffer\<close>

lemma caches_upd:
  "caches (s\<lparr>bufs := (bufs s)(i := b)\<rparr>) j m \<longleftrightarrow>
     (if j = i then i < NBUF \<and> bdev b = 1 \<and> blockno b = m else caches s j m)"
  by (auto simp: caches_def)

lemma caches_unique: "binv s \<Longrightarrow> caches s i n \<Longrightarrow> caches s j n \<Longrightarrow> i = j"
  unfolding binv_def caches_def by blast

lemma binv_buf_ok: "binv s \<Longrightarrow> i < NBUF \<Longrightarrow> buf_ok s (bufs s i)"
  by (simp add: binv_def)

lemma binv_list:
  assumes "binv s"
  obtains xs where "dll (bufs s) xs" "set xs = {..<NBUF}" "length xs = NBUF"
proof -
  obtain xs where "dll (bufs s) xs" "set xs = {..<NBUF}" using assms by (auto simp: binv_def)
  moreover from this have "length xs = NBUF"
    by (metis card_lessThan distinct.simps(2) distinct_card dll_def)
  ultimately show thesis by (rule that)
qed

lemma scan_next_binv:
  assumes "binv s"
  shows "\<exists>r. scan_next (Suc NBUF) (bufs s) P (nxt (bufs s HEAD)) = Some r \<and>
    (case r of Some i \<Rightarrow> i < NBUF \<and> P (bufs s i) | None \<Rightarrow> \<forall>i<NBUF. \<not> P (bufs s i))"
proof -
  obtain xs where xs: "dll (bufs s) xs" "set xs = {..<NBUF}" "length xs = NBUF" using assms by (rule binv_list)
  then have "scan_next (Suc NBUF) (bufs s) P (nxt (bufs s HEAD)) = Some (find (\<lambda>i. P (bufs s i)) xs)"
    by (intro scan_next_find) (auto simp: dll_def)
  with xs(2) show ?thesis by (auto simp: find_None_iff find_Some_iff split: option.split)
qed

lemma scan_prev_binv:
  assumes "binv s"
  shows "\<exists>r. scan_prev (Suc NBUF) (bufs s) P (prev (bufs s HEAD)) = Some r \<and>
    (case r of Some i \<Rightarrow> i < NBUF \<and> P (bufs s i) | None \<Rightarrow> \<forall>i<NBUF. \<not> P (bufs s i))"
proof -
  obtain xs where xs: "dll (bufs s) xs" "set xs = {..<NBUF}" "length xs = NBUF" using assms by (rule binv_list)
  then have "scan_prev (Suc NBUF) (bufs s) P (prev (bufs s HEAD)) = Some (find (\<lambda>i. P (bufs s i)) (rev xs))"
    by (intro dseg_rev_prev) (auto simp: dll_def)
  with xs(2) show ?thesis
    by (auto simp: find_None_iff find_Some_iff split: option.split) (metis length_rev nth_mem set_rev lessThan_iff)
qed

text \<open>When fewer than \<open>NBUF\<close> blocks are dirty or held, some buffer can be recycled.\<close>

lemma bcache_room:
  assumes "binv s" "card (dirtyb s \<union> heldb s) < NBUF"
  shows "\<exists>i<NBUF. refcnt (bufs s i) = 0 \<and> \<not> dirty (bufs s i)"
proof (rule ccontr)
  assume full: "\<not> ?thesis"
  then have dev: "bdev (bufs s i) = 1" if "i < NBUF" for i
    using binv_buf_ok [OF assms(1) that] that by (auto simp: buf_ok_def)
  have "inj_on (\<lambda>i. blockno (bufs s i)) {..<NBUF}"
    using dev assms(1) by (auto simp: inj_on_def binv_def)
  then have "card ((\<lambda>i. blockno (bufs s i)) ` {..<NBUF}) = NBUF" by (simp add: card_image)
  moreover have "(\<lambda>i. blockno (bufs s i)) ` {..<NBUF} \<subseteq> dirtyb s \<union> heldb s"
    using full dev unfolding dirtyb_def heldb_def caches_def by blast
  moreover have "dirtyb s \<union> heldb s \<subseteq> (\<lambda>i. blockno (bufs s i)) ` {..<NBUF}"
    by (auto simp: dirtyb_def heldb_def caches_def)
  ultimately show False using assms(2) by (metis less_irrefl subset_antisym)
qed

text \<open>Room for block \<open>n\<close>: it is dirty, hence cached, or a buffer can be recycled.\<close>

definition room :: "'a bst_scheme \<Rightarrow> u32 \<Rightarrow> bool" where
  "room s n \<longleftrightarrow> n \<in> dirtyb s \<or> card (dirtyb s \<union> heldb s) < NBUF"

lemma bget_spec:
  assumes b: "binv s" and n: "n \<notin> heldb s" "room s n"
  obtains i where "i < NBUF" "refcnt (bufs s i) = 0" "caches s i n"
      "bget 1 n s = Ok (i, s\<lparr>bufs := (bufs s)(i := (bufs s i)\<lparr>refcnt := 1,
          lock := (lock (bufs s i))\<lparr>locked := True, lk_pid := curpid s\<rparr>\<rparr>)\<rparr>)"
  | i where "i < NBUF" "refcnt (bufs s i) = 0" "\<And>j. \<not> caches s j n" "\<not> dirty (bufs s i)"
      "bget 1 n s = Ok (i, s\<lparr>bufs := (bufs s)(i := (bufs s i)\<lparr>bdev := 1, blockno := n, flags := 0, refcnt := 1,
          lock := (lock (bufs s i))\<lparr>locked := True, lk_pid := curpid s\<rparr>\<rparr>)\<rparr>)"
proof -
  let ?P = "\<lambda>b. bdev b = 1 \<and> blockno b = n"
  have free: "\<not> locked (lock (bufs s i))" if "i < NBUF" "refcnt (bufs s i) = 0" for i
    using binv_buf_ok [OF b that(1)] that(2) by (simp add: buf_ok_def)
  obtain r where r: "scan_next (Suc NBUF) (bufs s) ?P (nxt (bufs s HEAD)) = Some r"
    "case r of Some i \<Rightarrow> i < NBUF \<and> ?P (bufs s i) | None \<Rightarrow> \<forall>i<NBUF. \<not> ?P (bufs s i)"
    using scan_next_binv [OF b] by blast
  show thesis
  proof (cases r)
    case (Some i)
    with r have i: "i < NBUF" "caches s i n" by (simp_all add: caches_def)
    then have "refcnt (bufs s i) = 0" using n(1) by (auto simp: heldb_def)
    with i free [OF i(1)] r(1) Some show thesis
      by (intro that(1) [of i]) (simp_all add: bget_def lock_buf_def acquiresleep_def)
  next
    case None
    with r have nc: "\<not> caches s j n" for j by (auto simp: caches_def)
    then have "card (dirtyb s \<union> heldb s) < NBUF" using n(2) by (auto simp: room_def dirtyb_def)
    from bcache_room [OF b this] obtain j where j: "j < NBUF" "refcnt (bufs s j) = 0" "\<not> dirty (bufs s j)" by blast
    let ?Q = "\<lambda>b. refcnt b = 0 \<and> flags b AND B_DIRTY = 0"
    obtain q where q: "scan_prev (Suc NBUF) (bufs s) ?Q (prev (bufs s HEAD)) = Some q"
      "case q of Some i \<Rightarrow> i < NBUF \<and> ?Q (bufs s i) | None \<Rightarrow> \<forall>i<NBUF. \<not> ?Q (bufs s i)"
      using scan_prev_binv [OF b] by blast
    then obtain i where i: "q = Some i" "i < NBUF" "?Q (bufs s i)" using j by (cases q) auto
    with nc free [OF i(2)] r(1) q(1) None show thesis
      by (intro that(2) [of i]) (simp_all add: bget_def lock_buf_def acquiresleep_def)
  qed
qed

text \<open>Installing a held, valid buffer for block \<open>n\<close> in slot \<open>i\<close> does not change what any block holds.\<close>

lemma hold_upd:
  assumes b: "binv s" and i: "i < NBUF" "refcnt (bufs s i) = 0"
    and other: "caches s i n \<or> (\<forall>j. \<not> caches s j n) \<and> \<not> dirty (bufs s i)"
    and c: "nxt c = nxt (bufs s i)" "prev c = prev (bufs s i)" "bdev c = 1" "blockno c = n" "refcnt c = 1"
    "holdingsleep (curpid s) (lock c)" "valid c" "bdata c = blk s n" "dirty c \<longleftrightarrow> n \<in> dirtyb s"
    and n: "n < disksize s"
  defines "s' \<equiv> s\<lparr>bufs := (bufs s)(i := c)\<rparr>"
  shows "binv s'" "holds s' i n" "blk s' = blk s" "dirtyb s' = dirtyb s" "heldb s' = insert n (heldb s)"
    "\<And>j m. holds s j m \<Longrightarrow> holds s' j m"
proof -
  have uniq: "\<not> caches s j n" if "j \<noteq> i" for j
    using other
  proof
    assume "caches s i n"
    with caches_unique [OF b this, of j] that show ?thesis by auto
  qed simp
  have ok: "buf_ok s c"
    using c n by (simp add: buf_ok_def length_blk [OF b])
  show b': "binv s'" unfolding s'_def
  proof (rule binv_upd [OF b i(1) c(1,2) ok])
    fix j assume "j < NBUF" "j \<noteq> i" "bdev (bufs s j) = 1"
    then show "blockno c \<noteq> blockno (bufs s j)" using uniq [of j] c(4) by (auto simp: caches_def)
  qed
  have cs: "caches s' j m \<longleftrightarrow> (if j = i then m = n else caches s j m)" for j m
    using i c by (auto simp: s'_def caches_upd)
  have bs: "bufs s' j = (if j = i then c else bufs s j)" for j by (simp add: s'_def)
  show "holds s' i n" using cs c bs by (simp add: holds_def)
  show "holds s' j m" if "holds s j m" for j m
    using that i(2) cs [of j m] bs [of j] by (auto simp: holds_def)
  have ex: "(\<exists>j. P j) \<longleftrightarrow> P i \<or> (\<exists>j. j \<noteq> i \<and> P j)" for P by metis
  have du: "n \<in> dirtyb s \<longleftrightarrow> caches s i n \<and> dirty (bufs s i)"
    unfolding dirtyb_def mem_Collect_eq by (subst ex) (use uniq in auto)
  show "dirtyb s' = dirtyb s"
  proof (intro set_eqI)
    fix m
    have "m \<in> dirtyb s' \<longleftrightarrow> m = n \<and> dirty c \<or> (\<exists>j. j \<noteq> i \<and> caches s j m \<and> dirty (bufs s j))"
      unfolding dirtyb_def mem_Collect_eq by (subst ex) (simp add: cs bs cong: conj_cong)
    moreover have "m \<in> dirtyb s \<longleftrightarrow> caches s i m \<and> dirty (bufs s i) \<or> (\<exists>j. j \<noteq> i \<and> caches s j m \<and> dirty (bufs s j))"
      unfolding dirtyb_def mem_Collect_eq by (subst ex) simp
    moreover have "m = n" if "caches s i m" "dirty (bufs s i)"
      using other that by (auto simp: caches_def)
    ultimately show "m \<in> dirtyb s' \<longleftrightarrow> m \<in> dirtyb s" using c(9) du by auto
  qed
  show "heldb s' = insert n (heldb s)"
  proof (intro set_eqI)
    fix m
    have "m \<in> heldb s' \<longleftrightarrow> m = n \<or> (\<exists>j. j \<noteq> i \<and> caches s j m \<and> refcnt (bufs s j) \<noteq> 0)"
      unfolding heldb_def mem_Collect_eq by (subst ex) (simp add: cs bs c(5) cong: conj_cong)
    moreover have "m \<in> heldb s \<longleftrightarrow> (\<exists>j. j \<noteq> i \<and> caches s j m \<and> refcnt (bufs s j) \<noteq> 0)"
      unfolding heldb_def mem_Collect_eq by (subst ex) (simp add: i(2))
    ultimately show "m \<in> heldb s' \<longleftrightarrow> m \<in> insert n (heldb s)" by simp
  qed
  show "blk s' = blk s"
  proof
    fix m
    show "blk s' m = blk s m"
    proof (cases "m = n")
      case True
      then show ?thesis using blk_cached [OF b', of i n] cs c bs by simp
    next
      case False
      show ?thesis
      proof (cases "\<exists>j. j \<noteq> i \<and> caches s j m \<and> valid (bufs s j)")
        case True
        then obtain j where j: "j \<noteq> i" "caches s j m" "valid (bufs s j)" by blast
        then show ?thesis using blk_cached [OF b' _, of j m] blk_cached [OF b j(2,3)] cs bs by simp
      next
        case nc: False
        then have "blk s' m = disk s' m" using False cs bs by (intro blk_uncached) (auto split: if_splits)
        moreover have "blk s m = disk s m"
        proof (cases "caches s i m \<and> valid (bufs s i)")
          case True
          with other False have "\<not> dirty (bufs s i)" by (auto simp: caches_def)
          with True i binv_buf_ok [OF b i(1)] have "bdata (bufs s i) = disk s m"
            by (auto simp: buf_ok_def caches_def)
          with True show ?thesis using blk_cached [OF b, of i m] by simp
        next
          case False
          with nc show ?thesis by (intro blk_uncached) metis
        qed
        ultimately show ?thesis by (simp add: s'_def)
      qed
    qed
  qed
qed

lemma holds_refcnt: "holds s i n \<Longrightarrow> refcnt (bufs s i) \<noteq> 0"
  by (simp add: holds_def)

lemma bread_spec:
  assumes b: "binv s" and n: "n < disksize s" "n \<notin> heldb s" "room s n"
  obtains i s' where "bread 1 n s = Ok (i, s')" "s' = s\<lparr>bufs := bufs s'\<rparr>" "binv s'" "holds s' i n"
    "blk s' = blk s" "dirtyb s' = dirtyb s" "heldb s' = insert n (heldb s)"
    "\<And>j m. holds s j m \<Longrightarrow> holds s' j m"
proof (rule bget_spec [OF b n(2,3)])
  fix i
  let ?b = "(bufs s i)\<lparr>refcnt := 1, lock := (lock (bufs s i))\<lparr>locked := True, lk_pid := curpid s\<rparr>\<rparr>"
  assume i: "i < NBUF" "refcnt (bufs s i) = 0" "caches s i n" and e: "bget 1 n s = Ok (i, s\<lparr>bufs := (bufs s)(i := ?b)\<rparr>)"
  let ?c = "if valid (bufs s i) then ?b else ?b\<lparr>flags := flags ?b OR B_VALID, bdata := disk s n\<rparr>"
  have ok: "buf_ok s (bufs s i)" by (rule binv_buf_ok [OF b i(1)])
  have data: "bdata ?c = blk s n"
  proof (cases "valid (bufs s i)")
    case False
    then have "blk s n = disk s n" using caches_unique [OF b i(3)] by (intro blk_uncached) blast
    with False show ?thesis by simp
  qed (use blk_cached [OF b i(3)] in simp)
  have dirty: "dirty ?c \<longleftrightarrow> n \<in> dirtyb s"
  proof -
    have "n \<in> dirtyb s \<longleftrightarrow> dirty (bufs s i)"
      using i(3) caches_unique [OF b i(3)] unfolding dirtyb_def by blast
    then show ?thesis by (simp add: flag_simps)
  qed
  have r: "bread 1 n s = Ok (i, s\<lparr>bufs := (bufs s)(i := ?c)\<rparr>)"
  proof (cases "valid (bufs s i)")
    case True
    with e show ?thesis by (simp add: bread_def)
  next
    case False
    with ok have "\<not> bit (flags (bufs s i)) 2" "\<not> bit (flags (bufs s i)) 1" by (auto simp: buf_ok_def flag_simps)
    with e i(1,3) n(1) False show ?thesis
      by (simp add: bread_def iderw_def holdingsleep_def caches_def flag_simps Let_def)
  qed
  note h = hold_upd [OF b i(1,2), of n ?c, OF disjI1 [OF i(3)] _ _ _ _ _ _ _ data dirty n(1)]
  show thesis
    by (rule that [OF r]) (use h i in \<open>simp_all add: holdingsleep_def caches_def flag_simps\<close>)
next
  fix i
  let ?b = "(bufs s i)\<lparr>bdev := 1, blockno := n, flags := 0, refcnt := 1, lock := (lock (bufs s i))\<lparr>locked := True, lk_pid := curpid s\<rparr>\<rparr>"
  assume i: "i < NBUF" "refcnt (bufs s i) = 0" "\<And>j. \<not> caches s j n" "\<not> dirty (bufs s i)"
    and e: "bget 1 n s = Ok (i, s\<lparr>bufs := (bufs s)(i := ?b)\<rparr>)"
  let ?c = "?b\<lparr>flags := 0 OR B_VALID, bdata := disk s n\<rparr>"
  have data: "bdata ?c = blk s n" using i(3) blk_uncached [of s n] by simp
  have dirty: "dirty ?c \<longleftrightarrow> n \<in> dirtyb s" using i(3) by (auto simp: dirtyb_def flag_simps)
  have r: "bread 1 n s = Ok (i, s\<lparr>bufs := (bufs s)(i := ?c)\<rparr>)"
    using e n(1) by (simp add: not_le bread_def iderw_def holdingsleep_def flag_simps Let_def)
  note h = hold_upd [OF b i(1,2), of n ?c, OF disjI2 [OF conjI [OF allI [OF i(3)] i(4)]] _ _ _ _ _ _ _ data dirty n(1)]
  show thesis
    by (rule that [OF r]) (use h in \<open>simp_all add: holdingsleep_def flag_simps\<close>)
qed

section \<open>Changing and releasing a held buffer\<close>

text \<open>Replacing the valid buffer of block \<open>n\<close>, and possibly the block on the disk.\<close>

lemma slot_upd:
  assumes b: "binv s" and i: "caches s i n" "valid (bufs s i)"
    and c: "nxt c = nxt (bufs s i)" "prev c = prev (bufs s i)" "bdev c = bdev (bufs s i)"
      "blockno c = blockno (bufs s i)" "valid c" "buf_ok s' c"
    and d: "length d = BSIZE"
    and s': "s' = s\<lparr>bufs := (bufs s)(i := c), disk := (disk s)(n := d), dwrites := w\<rparr>"
  shows "binv s'" "blk s' = (blk s)(n := bdata c)"
    "dirtyb s' = (if dirty c then insert n (dirtyb s) else dirtyb s - {n})"
    "heldb s' = (if refcnt c \<noteq> 0 then insert n (heldb s) else heldb s - {n})"
    "holds s' j m \<longleftrightarrow> (if j = i then m = n \<and> refcnt c \<noteq> 0 else holds s j m)"
proof -
  have cs: "caches s' j m \<longleftrightarrow> caches s j m" for j m
    using c by (simp add: s' caches_def)
  have bs: "bufs s' j = (if j = i then c else bufs s j)" for j by (simp add: s')
  have only: "m = n \<longleftrightarrow> j = i" if "caches s j m" for j m
    using that i(1) caches_unique [OF b i(1), of j] by (auto simp: caches_def)
  have ok: "buf_ok s' (bufs s j)" if j: "j < NBUF" "j \<noteq> i" for j
  proof -
    have "buf_ok s (bufs s j)" by (rule binv_buf_ok [OF b j(1)])
    moreover have "blockno (bufs s j) \<noteq> n" if "bdev (bufs s j) = 1"
      using only [of j n] j that by (auto simp: caches_def)
    ultimately show ?thesis by (auto simp: buf_ok_def s')
  qed
  have "dll (bufs s') xs = dll (bufs s) xs" for xs
    by (rule dll_cong) (simp_all add: bs c)
  moreover have "bdev (bufs s' j) = bdev (bufs s j)" "blockno (bufs s' j) = blockno (bufs s j)" for j
    using c by (simp_all add: bs)
  moreover have "\<forall>j<NBUF. buf_ok s' (bufs s' j)" using ok c(6) by (auto simp: bs)
  moreover have "\<forall>m. length (disk s' m) = BSIZE" using b d by (auto simp: s' binv_def)
  ultimately show b': "binv s'" using b unfolding binv_def by simp
  have ex: "(\<exists>j. caches s j n \<and> P j) \<longleftrightarrow> P i" for P
    using caches_unique [OF b i(1)] i(1) by blast
  have ni: "j \<noteq> i" if "m \<noteq> n" "caches s j m" for j m using only [OF that(2)] that(1) by blast
  have nd: "m \<in> dirtyb s' \<longleftrightarrow> (if m = n then dirty c else m \<in> dirtyb s)" for m
  proof (cases "m = n")
    case True
    then show ?thesis unfolding dirtyb_def mem_Collect_eq cs True ex by (simp add: bs)
  next
    case False
    have "(caches s j m \<and> dirty (bufs s' j)) = (caches s j m \<and> dirty (bufs s j))" for j
      using ni [OF False, of j] by (auto simp: bs)
    with False show ?thesis unfolding dirtyb_def mem_Collect_eq cs by simp
  qed
  show "dirtyb s' = (if dirty c then insert n (dirtyb s) else dirtyb s - {n})"
    by (auto simp: nd split: if_splits)
  have nh: "m \<in> heldb s' \<longleftrightarrow> (if m = n then refcnt c \<noteq> 0 else m \<in> heldb s)" for m
  proof (cases "m = n")
    case True
    then show ?thesis unfolding heldb_def mem_Collect_eq cs True ex by (simp add: bs)
  next
    case False
    have "(caches s j m \<and> refcnt (bufs s' j) \<noteq> 0) = (caches s j m \<and> refcnt (bufs s j) \<noteq> 0)" for j
      using ni [OF False, of j] by (auto simp: bs)
    with False show ?thesis unfolding heldb_def mem_Collect_eq cs by simp
  qed
  show "heldb s' = (if refcnt c \<noteq> 0 then insert n (heldb s) else heldb s - {n})"
    by (auto simp: nh split: if_splits)
  show "holds s' j m \<longleftrightarrow> (if j = i then m = n \<and> refcnt c \<noteq> 0 else holds s j m)"
    using i(1) only [of i m] by (auto simp: holds_def cs bs)
  show "blk s' = (blk s)(n := bdata c)"
  proof
    fix m
    show "blk s' m = ((blk s)(n := bdata c)) m"
    proof (cases "m = n")
      case True
      then show ?thesis using blk_cached [OF b', of i n] cs bs i c by simp
    next
      case False
      show ?thesis
      proof (cases "\<exists>j. caches s j m \<and> valid (bufs s j)")
        case True
        then obtain j where j: "caches s j m" "valid (bufs s j)" by blast
        then have "j \<noteq> i" using False only [OF j(1)] by simp
        then show ?thesis using False j blk_cached [OF b' _, of j m] blk_cached [OF b j] cs bs by simp
      next
        case nc: False
        have "blk s' m = disk s' m"
        proof (rule blk_uncached)
          fix j assume j: "caches s' j m"
          then have "j \<noteq> i" using False only [of j m] by (simp add: cs)
          then show "\<not> valid (bufs s' j)" using nc j by (simp add: cs bs)
        qed
        moreover have "blk s m = disk s m" by (rule blk_uncached) (use nc in blast)
        ultimately show ?thesis using False by (simp add: s')
      qed
    qed
  qed
qed

lemma holds_facts:
  assumes "binv s" "holds s i n"
  shows "caches s i n" "i < NBUF" "valid (bufs s i)" "bdata (bufs s i) = blk s n" "n \<in> heldb s" "n < disksize s"
    "refcnt (bufs s i) = 1" "holdingsleep (curpid s) (lock (bufs s i))" "dirty (bufs s i) \<longleftrightarrow> n \<in> dirtyb s"
    "bdev (bufs s i) = 1" "blockno (bufs s i) = n" "length (bdata (bufs s i)) = BSIZE"
proof -
  show c: "caches s i n" and i: "i < NBUF" and "n \<in> heldb s" and d: "bdev (bufs s i) = 1" "blockno (bufs s i) = n"
    using assms(2) by (auto simp: holds_def caches_def heldb_def)
  have ok: "buf_ok s (bufs s i)" and r: "refcnt (bufs s i) \<noteq> 0"
    using binv_buf_ok [OF assms(1) i] assms(2) by (auto simp: holds_def)
  from ok r d show v: "valid (bufs s i)" and "n < disksize s" "refcnt (bufs s i) = 1"
    "holdingsleep (curpid s) (lock (bufs s i))" "length (bdata (bufs s i)) = BSIZE"
    by (auto simp: buf_ok_def split: if_splits)
  show "bdata (bufs s i) = blk s n" using blk_cached [OF assms(1) c v] by simp
  show "dirty (bufs s i) \<longleftrightarrow> n \<in> dirtyb s"
    unfolding dirtyb_def mem_Collect_eq using c caches_unique [OF assms(1) c] by blast
qed

lemma holds_eq: "holds s i n \<Longrightarrow> holds s i m \<longleftrightarrow> m = n"
  by (auto simp: holds_def caches_def)

lemma holds_other: "binv s \<Longrightarrow> holds s i n \<Longrightarrow> j \<noteq> i \<Longrightarrow> \<not> holds s j n"
  using caches_unique [of s i n j] by (auto simp: holds_def)

lemma buf_ok_bufs [simp]: "buf_ok (s\<lparr>bufs := bs\<rparr>) c = buf_ok s c"
  by (simp add: buf_ok_def)

lemma set_data_spec:
  assumes b: "binv s" and h: "holds s i n" and d: "length d = BSIZE"
  shows "binv (set_data i d s)" "blk (set_data i d s) = (blk s)(n := d)" "dirtyb (set_data i d s) = dirtyb s"
    "heldb (set_data i d s) = heldb s" "holds (set_data i d s) j m \<longleftrightarrow> holds s j m"
proof -
  note f = holds_facts [OF b h]
  let ?c = "(bufs s i)\<lparr>bdata := d\<rparr>"
  have ok: "buf_ok s (bufs s i)" by (rule binv_buf_ok [OF b f(2)])
  have len: "length (disk s n) = BSIZE" using b by (simp add: binv_def)
  have e: "set_data i d s = s\<lparr>bufs := (bufs s)(i := ?c), disk := (disk s)(n := disk s n), dwrites := dwrites s\<rparr>"
    by (simp add: set_data_def)
  have c: "buf_ok (set_data i d s) ?c" using ok d f by (auto simp: buf_ok_def set_data_def)
  have l: "nxt ?c = nxt (bufs s i)" "prev ?c = prev (bufs s i)" "bdev ?c = bdev (bufs s i)"
    "blockno ?c = blockno (bufs s i)" "valid ?c" by (simp_all add: f(3))
  note u = slot_upd [OF b f(1,3) l c len e]
  show "binv (set_data i d s)" "blk (set_data i d s) = (blk s)(n := d)" "dirtyb (set_data i d s) = dirtyb s"
    "heldb (set_data i d s) = heldb s" "holds (set_data i d s) j m \<longleftrightarrow> holds s j m"
    using u f(5,7,9,11) h by (auto simp: holds_def caches_def)
qed

text \<open>\<^verbatim>\<open>b->flags |= B_DIRTY\<close>, as \<^verbatim>\<open>log_write\<close> does it to keep a block in the cache.\<close>

definition mark_dirty :: "nat \<Rightarrow> 'a bst_scheme \<Rightarrow> 'a bst_scheme" where
  "mark_dirty i s = s\<lparr>bufs := (bufs s)(i := (bufs s i)\<lparr>flags := flags (bufs s i) OR B_DIRTY\<rparr>)\<rparr>"

lemma mark_dirty_spec:
  assumes b: "binv s" and h: "holds s i n"
  shows "binv (mark_dirty i s)" "blk (mark_dirty i s) = blk s" "dirtyb (mark_dirty i s) = insert n (dirtyb s)"
    "heldb (mark_dirty i s) = heldb s" "holds (mark_dirty i s) j m \<longleftrightarrow> holds s j m"
proof -
  note f = holds_facts [OF b h]
  let ?c = "(bufs s i)\<lparr>flags := flags (bufs s i) OR B_DIRTY\<rparr>"
  have ok: "buf_ok s (bufs s i)" by (rule binv_buf_ok [OF b f(2)])
  have len: "length (disk s n) = BSIZE" using b by (simp add: binv_def)
  have e: "mark_dirty i s = s\<lparr>bufs := (bufs s)(i := ?c), disk := (disk s)(n := disk s n), dwrites := dwrites s\<rparr>"
    by (simp add: mark_dirty_def)
  have c: "buf_ok (mark_dirty i s) ?c"
    using ok f(3,6,7,8,10,11) by (simp add: buf_ok_def mark_dirty_def flag_simps)
  have l: "nxt ?c = nxt (bufs s i)" "prev ?c = prev (bufs s i)" "bdev ?c = bdev (bufs s i)"
    "blockno ?c = blockno (bufs s i)" "valid ?c" using f(3) by (simp_all add: flag_simps)
  note u = slot_upd [OF b f(1,3) l c len e]
  show "binv (mark_dirty i s)" by (rule u)
  show "blk (mark_dirty i s) = blk s" using u(2) f(4) by simp
  show "dirtyb (mark_dirty i s) = insert n (dirtyb s)" using u(3) by (simp add: flag_simps)
  show "heldb (mark_dirty i s) = heldb s" using u(4) f(5,7) by auto
  show "holds (mark_dirty i s) j m \<longleftrightarrow> holds s j m" using u(5) f(7,11) h by (auto simp: holds_def caches_def)
qed

lemma bwrite_spec:
  assumes b: "binv s" and h: "holds s i n"
  obtains s' where "bwrite i s = Ok s'" "binv s'" "blk s' = blk s" "dirtyb s' = dirtyb s - {n}" "heldb s' = heldb s"
    "\<And>j m. holds s' j m \<longleftrightarrow> holds s j m"
    "s' = s\<lparr>bufs := bufs s', disk := (disk s)(n := blk s n), dwrites := dwrites s @ [(n, blk s n)]\<rparr>"
proof -
  note f = holds_facts [OF b h]
  let ?c = "(bufs s i)\<lparr>flags := ((flags (bufs s i) OR B_DIRTY) AND NOT B_DIRTY) OR B_VALID\<rparr>"
  let ?s = "s\<lparr>bufs := (bufs s)(i := ?c), disk := (disk s)(n := blk s n), dwrites := dwrites s @ [(n, blk s n)]\<rparr>"
  have r: "bwrite i s = Ok ?s"
    using f(4,6,8,10,11) by (simp add: bwrite_def iderw_def Let_def flag_simps)
  have len: "length (blk s n) = BSIZE" by (rule length_blk [OF b])
  have c: "buf_ok ?s ?c"
    using f(6,7,8,10,11,12) by (simp add: buf_ok_def flag_simps)
  have l: "nxt ?c = nxt (bufs s i)" "prev ?c = prev (bufs s i)" "bdev ?c = bdev (bufs s i)"
    "blockno ?c = blockno (bufs s i)" "valid ?c" by (simp_all add: flag_simps)
  note u = slot_upd [OF b f(1,3) l c len refl]
  have k: "holds ?s j m \<longleftrightarrow> holds s j m" for j m
    unfolding u(5) using f(7) holds_eq [OF h] by simp
  show thesis
  proof (rule that [OF r u(1)])
    show "blk ?s = blk s" using u(2) f(4) by simp
    show "dirtyb ?s = dirtyb s - {n}" using u(3) by (simp add: flag_simps)
    show "heldb ?s = heldb s" using u(4) f(5,7) by auto
  qed (use k in simp_all)
qed

text \<open>Moving a buffer to the front of the list only changes links.\<close>

lemma link_first_fields:
  "flags (link_first i bs j) = flags (bs j)" "bdev (link_first i bs j) = bdev (bs j)"
  "blockno (link_first i bs j) = blockno (bs j)" "lock (link_first i bs j) = lock (bs j)"
  "refcnt (link_first i bs j) = refcnt (bs j)" "bdata (link_first i bs j) = bdata (bs j)"
  by (simp_all only: link_first_def Let_def fun_upd_apply) simp_all

lemma unlink_fields:
  "flags (unlink i bs j) = flags (bs j)" "bdev (unlink i bs j) = bdev (bs j)"
  "blockno (unlink i bs j) = blockno (bs j)" "lock (unlink i bs j) = lock (bs j)"
  "refcnt (unlink i bs j) = refcnt (bs j)" "bdata (unlink i bs j) = bdata (bs j)"
  by (simp_all only: unlink_def Let_def fun_upd_apply) simp_all

lemmas relink_fields [simp] = link_first_fields unlink_fields

lemma dll_relink:
  assumes "dll bs xs" "i \<in> set xs"
  obtains ys where "dll (link_first i (unlink i bs)) ys" "set ys = set xs"
proof -
  obtain as cs where xs: "xs = as @ i # cs" using assms(2) by (auto simp: in_set_conv_decomp)
  have d: "distinct (HEAD # as @ i # cs)" using assms(1) by (simp add: dll_def xs)
  have "dll (unlink i bs) (as @ cs)" using assms(1) unfolding xs by (rule dll_unlink)
  then have "dll (link_first i (unlink i bs)) (i # as @ cs)" by (rule dll_link_first) (use d in auto)
  then show thesis by (rule that) (auto simp: xs)
qed

lemma view_relink:
  assumes "s' = s\<lparr>bufs := link_first i (unlink i (bufs s))\<rparr>"
  shows "caches s' = caches s" "blk s' = blk s" "dirtyb s' = dirtyb s" "heldb s' = heldb s" "holds s' = holds s"
    "buf_ok s' (bufs s' j) = buf_ok s (bufs s j)"
proof -
  show c: "caches s' = caches s" by (intro ext) (simp add: caches_def assms)
  show "blk s' = blk s" by (intro ext) (simp add: blk_def c, simp add: assms split: option.split)
  show "dirtyb s' = dirtyb s" "heldb s' = heldb s" by (simp_all add: dirtyb_def heldb_def c, simp_all add: assms)
  show "holds s' = holds s" by (intro ext) (simp add: holds_def c, simp add: assms)
  show "buf_ok s' (bufs s' j) = buf_ok s (bufs s j)" by (simp add: buf_ok_def assms)
qed

lemma binv_relink:
  assumes b: "binv s" and i: "i < NBUF"
  shows "binv (s\<lparr>bufs := link_first i (unlink i (bufs s))\<rparr>)" (is "binv ?s")
proof -
  obtain xs where xs: "dll (bufs s) xs" "set xs = {..<NBUF}" using b by (rule binv_list)
  then obtain ys where "dll (bufs ?s) ys" "set ys = set xs" using i by (auto elim: dll_relink)
  moreover have "\<forall>j<NBUF. buf_ok ?s (bufs ?s j)" using b view_relink(6) [where s = s and i = i, OF refl] by (simp add: binv_def)
  ultimately show ?thesis using b xs unfolding binv_def by auto
qed

lemma brelse_spec:
  assumes b: "binv s" and h: "holds s i n" and w: "n \<in> dirtyb s \<or> blk s n = disk s n"
  obtains s' where "brelse i s = Ok s'" "binv s'" "blk s' = blk s" "dirtyb s' = dirtyb s" "heldb s' = heldb s - {n}"
    "\<And>j m. holds s' j m \<longleftrightarrow> holds s j m \<and> m \<noteq> n" "s' = s\<lparr>bufs := bufs s'\<rparr>"
proof -
  note f = holds_facts [OF b h]
  let ?c = "(bufs s i)\<lparr>lock := releasesleep (lock (bufs s i)), refcnt := refcnt (bufs s i) - 1\<rparr>"
  let ?s = "s\<lparr>bufs := (bufs s)(i := ?c)\<rparr>"
  let ?t = "?s\<lparr>bufs := link_first i (unlink i (bufs ?s))\<rparr>"
  have r: "brelse i s = Ok ?t" using f(7,8) by (simp add: brelse_def Let_def)
  have len: "length (disk s n) = BSIZE" using b by (simp add: binv_def)
  have c: "buf_ok ?s ?c" using f(3,4,6,7,9,10,11,12) w by (auto simp: buf_ok_def)
  have e: "?s = s\<lparr>bufs := (bufs s)(i := ?c), disk := (disk s)(n := disk s n), dwrites := dwrites s\<rparr>" by simp
  have l: "nxt ?c = nxt (bufs s i)" "prev ?c = prev (bufs s i)" "bdev ?c = bdev (bufs s i)"
    "blockno ?c = blockno (bufs s i)" "valid ?c" using f(3) by simp_all
  note u = slot_upd [OF b f(1,3) l c len e] and v = view_relink [where s = ?s and i = i, OF refl]
  have bt: "binv ?t" by (rule binv_relink [OF u(1) f(2)])
  have bk: "blk ?t = blk s" unfolding v(2) using u(2) f(4) by simp
  have dt: "dirtyb ?t = dirtyb s" unfolding v(3) using u(3) f(9) by (auto split: if_splits)
  have ht: "heldb ?t = heldb s - {n}" unfolding v(4) using u(4) f(7) by simp
  have kt: "holds ?t j m \<longleftrightarrow> holds s j m \<and> m \<noteq> n" for j m
    unfolding v(5) u(5) using f(7) holds_eq [OF h, of m] holds_other [OF b h, of j] by auto
  show thesis by (rule that [OF r bt bk dt ht]) (use kt in simp_all)
qed

section \<open>The cache after boot\<close>

text \<open>The cache lives in zeroed memory until \<^verbatim>\<open>binit\<close> runs.\<close>

definition zbuf :: buf where
  "zbuf = \<lparr>flags = 0, bdev = 0, blockno = 0, lock = initsleeplock, refcnt = 0, prev = 0, nxt = 0,
           bdata = replicate BSIZE 0\<rparr>"

lemma dll_lock: "dll (bs(b := (bs b)\<lparr>lock := l\<rparr>)) xs = dll bs xs"
  by (rule dll_cong) simp_all

lemma binit_loop_dll:
  "dll bs ys \<Longrightarrow> distinct xs \<Longrightarrow> set xs \<inter> set ys = {} \<Longrightarrow> HEAD \<notin> set xs \<Longrightarrow> dll (binit_loop xs bs) (rev xs @ ys)"
proof (induction xs arbitrary: bs ys)
  case (Cons x xs)
  let ?bs = "link_first x (bs(x := (bs x)\<lparr>lock := initsleeplock\<rparr>))"
  have "dll ?bs (x # ys)" by (rule dll_link_first) (use Cons.prems in \<open>auto simp: dll_lock\<close>)
  then have "dll (binit_loop xs ?bs) (rev xs @ x # ys)"
    by (rule Cons.IH) (use Cons.prems in auto)
  then show ?case by simp
qed simp

lemma binit_loop_fields:
  "flags (binit_loop xs bs j) = flags (bs j) \<and> bdev (binit_loop xs bs j) = bdev (bs j) \<and>
   blockno (binit_loop xs bs j) = blockno (bs j) \<and> refcnt (binit_loop xs bs j) = refcnt (bs j) \<and>
   bdata (binit_loop xs bs j) = bdata (bs j) \<and>
   lock (binit_loop xs bs j) = (if j \<in> set xs then initsleeplock else lock (bs j))"
proof (induction xs arbitrary: bs)
  case (Cons x xs)
  show ?case using Cons.IH [of "link_first x (bs(x := (bs x)\<lparr>lock := initsleeplock\<rparr>))"]
    by (cases "j = x") (simp_all add: link_first_fields)
qed simp

lemma binit_spec:
  assumes "bufs s = (\<lambda>_. zbuf)" "\<And>n. length (disk s n) = BSIZE"
  shows "binv (binit s)" "dirtyb (binit s) = {}" "heldb (binit s) = {}" "blk (binit s) = disk s"
    "binit s = s\<lparr>bufs := bufs (binit s)\<rparr>"
proof -
  let ?b = "bufs (binit s)"
  have f: "flags (?b j) = 0" "bdev (?b j) = 0" "refcnt (?b j) = 0" "bdata (?b j) = replicate BSIZE 0"
    "lock (?b j) = initsleeplock" for j
    by (simp_all add: binit_def Let_def binit_loop_fields assms(1) zbuf_def)
  show e: "binit s = s\<lparr>bufs := ?b\<rparr>" by (simp add: binit_def Let_def)
  have d: "disk (binit s) = disk s" by (simp add: binit_def Let_def)
  have "dll ?b (rev [0..<NBUF] @ [])" unfolding binit_def Let_def bst.simps
    by (simp, rule binit_loop_dll [where ys = "[]", simplified]) (auto simp: dll_def HEAD_def)
  moreover have "set (rev [0..<NBUF] @ []) = {..<NBUF}" by auto
  moreover have "\<forall>j<NBUF. buf_ok (binit s) (?b j)" using f by (simp add: buf_ok_def initsleeplock_def)
  ultimately show "binv (binit s)" unfolding binv_def using f(2) assms(2) d by (metis zero_neq_one)
  have c: "\<not> caches (binit s) j n" for j n using f(2) by (simp add: caches_def)
  show "dirtyb (binit s) = {}" "heldb (binit s) = {}" using c by (auto simp: dirtyb_def heldb_def)
  show "blk (binit s) = disk s" unfolding d [symmetric] by (rule ext, rule blk_uncached) (simp add: c)
qed

section \<open>The block-cache interface\<close>

text \<open>
  What the file system relies on: blocks have contents \<open>ct\<close> as seen through the cache and \<open>dt\<close> on the
  disk; \<open>ws\<close> is the history of disk writes; \<open>D\<close> the pinned (dirty) blocks, \<open>H\<close> the blocks held;
  \<open>same s s'\<close> relates states that differ in cache and disk only.
\<close>

locale block_cache =
  fixes rd :: "u32 \<Rightarrow> 's \<Rightarrow> (nat \<times> 's) res" and wr rel :: "nat \<Rightarrow> 's \<Rightarrow> 's res"
    and put :: "nat \<Rightarrow> block \<Rightarrow> 's \<Rightarrow> 's" and dat :: "'s \<Rightarrow> nat \<Rightarrow> block"
    and inv :: "'s \<Rightarrow> bool" and ct dt :: "'s \<Rightarrow> u32 \<Rightarrow> block" and ws :: "'s \<Rightarrow> (u32 \<times> block) list"
    and D H :: "'s \<Rightarrow> u32 set" and hold :: "'s \<Rightarrow> nat \<Rightarrow> u32 \<Rightarrow> bool" and sz :: "'s \<Rightarrow> u32"
    and avail :: "'s \<Rightarrow> u32 \<Rightarrow> bool" and same :: "'s \<Rightarrow> 's \<Rightarrow> bool"
  assumes rd: "inv s \<Longrightarrow> n < sz s \<Longrightarrow> n \<notin> H s \<Longrightarrow> avail s n \<Longrightarrow>
      \<exists>i s'. rd n s = Ok (i, s') \<and> inv s' \<and> hold s' i n \<and> ct s' = ct s \<and> dt s' = dt s \<and> ws s' = ws s \<and>
        D s' = D s \<and> H s' = insert n (H s) \<and> (\<forall>j m. hold s j m \<longrightarrow> hold s' j m) \<and> same s s'"
    and wr: "inv s \<Longrightarrow> hold s i n \<Longrightarrow>
      \<exists>s'. wr i s = Ok s' \<and> inv s' \<and> ct s' = ct s \<and> dt s' = (dt s)(n := ct s n) \<and> ws s' = ws s @ [(n, ct s n)] \<and>
        D s' = D s - {n} \<and> H s' = H s \<and> (\<forall>j m. hold s' j m \<longleftrightarrow> hold s j m) \<and> same s s'"
    and rel: "inv s \<Longrightarrow> hold s i n \<Longrightarrow> n \<in> D s \<or> ct s n = dt s n \<Longrightarrow>
      \<exists>s'. rel i s = Ok s' \<and> inv s' \<and> ct s' = ct s \<and> dt s' = dt s \<and> ws s' = ws s \<and>
        D s' = D s \<and> H s' = H s - {n} \<and> (\<forall>j m. hold s' j m \<longleftrightarrow> hold s j m \<and> m \<noteq> n) \<and> same s s'"
    and put: "inv s \<Longrightarrow> hold s i n \<Longrightarrow> length d = BSIZE \<Longrightarrow>
      inv (put i d s) \<and> ct (put i d s) = (ct s)(n := d) \<and> dt (put i d s) = dt s \<and> ws (put i d s) = ws s \<and>
        D (put i d s) = D s \<and> H (put i d s) = H s \<and> (\<forall>j m. hold (put i d s) j m \<longleftrightarrow> hold s j m) \<and> same s (put i d s)"
    and dat: "inv s \<Longrightarrow> hold s i n \<Longrightarrow> dat s i = ct s n"
    and len: "inv s \<Longrightarrow> length (ct s n) = BSIZE"
    and avail: "avail s n \<longleftrightarrow> n \<in> D s \<or> card (D s \<union> H s) < NBUF"
    and same_sz: "same s s' \<Longrightarrow> sz s' = sz s"
    and same_trans: "same s s' \<Longrightarrow> same s' s'' \<Longrightarrow> same s s''"
begin

lemma rdE:
  assumes "inv s" "n < sz s" "n \<notin> H s" "avail s n"
  obtains i s' where "rd n s = Ok (i, s')" "inv s'" "hold s' i n" "ct s' = ct s" "dt s' = dt s" "ws s' = ws s"
    "D s' = D s" "H s' = insert n (H s)" "\<And>j m. hold s j m \<Longrightarrow> hold s' j m" "same s s'"
  using rd [OF assms] by blast

lemma wrE:
  assumes "inv s" "hold s i n"
  obtains s' where "wr i s = Ok s'" "inv s'" "ct s' = ct s" "dt s' = (dt s)(n := ct s n)" "ws s' = ws s @ [(n, ct s n)]"
    "D s' = D s - {n}" "H s' = H s" "\<And>j m. hold s j m \<Longrightarrow> hold s' j m" "same s s'"
  using wr [OF assms] by blast

lemma relE:
  assumes "inv s" "hold s i n" "n \<in> D s \<or> ct s n = dt s n"
  obtains s' where "rel i s = Ok s'" "inv s'" "ct s' = ct s" "dt s' = dt s" "ws s' = ws s"
    "D s' = D s" "H s' = H s - {n}" "\<And>j m. hold s j m \<Longrightarrow> m \<noteq> n \<Longrightarrow> hold s' j m" "same s s'"
  using rel [OF assms] by blast

text \<open>Reading a block and putting it back.\<close>

lemma read_block:
  assumes "inv s" "n < sz s" "n \<notin> H s" "avail s n" "n \<in> D s \<or> ct s n = dt s n"
  shows "\<exists>i s1 s'. rd n s = Ok (i, s1) \<and> dat s1 i = ct s n \<and> rel i s1 = Ok s' \<and> inv s' \<and> ct s' = ct s \<and> dt s' = dt s \<and>
    ws s' = ws s \<and> D s' = D s \<and> H s' = H s \<and> same s s' \<and> same s s1"
proof -
  obtain i s1 where 1: "rd n s = Ok (i, s1)" "inv s1" "hold s1 i n" "ct s1 = ct s" "dt s1 = dt s" "ws s1 = ws s"
    "D s1 = D s" "H s1 = insert n (H s)" "same s s1" using assms(1-4) by (rule rdE)
  have "n \<in> D s1 \<or> ct s1 n = dt s1 n" using assms(5) 1 by simp
  with 1(2,3) obtain s' where 2: "rel i s1 = Ok s'" "inv s'" "ct s' = ct s1" "dt s' = dt s1" "ws s' = ws s1"
    "D s' = D s1" "H s' = H s1 - {n}" "same s1 s'" by (rule relE)
  show ?thesis
    by (rule exI [of _ i], rule exI [of _ s1], rule exI [of _ s'])
      (use 1 2 dat [OF 1(2,3)] same_trans [OF 1(9) 2(8)] assms(3) in simp)
qed

text \<open>Read, modify, write through, release.\<close>

lemma update_block:
  assumes "inv s" "n < sz s" "n \<notin> H s" "avail s n" "length (f (ct s n)) = BSIZE"
  shows "\<exists>i s1 s2 s'. rd n s = Ok (i, s1) \<and> dat s1 i = ct s n \<and> wr i (put i (f (ct s n)) s1) = Ok s2 \<and> rel i s2 = Ok s' \<and>
    inv s' \<and> ct s' = (ct s)(n := f (ct s n)) \<and> dt s' = (dt s)(n := f (ct s n)) \<and> ws s' = ws s @ [(n, f (ct s n))] \<and>
    D s' = D s - {n} \<and> H s' = H s \<and> same s s' \<and> same s s1"
proof -
  let ?d = "f (ct s n)"
  obtain i s1 where 1: "rd n s = Ok (i, s1)" "inv s1" "hold s1 i n" "ct s1 = ct s" "dt s1 = dt s" "ws s1 = ws s"
    "D s1 = D s" "H s1 = insert n (H s)" "same s s1" using assms(1-4) by (rule rdE)
  note p = put [OF 1(2,3) assms(5)]
  obtain s2 where 2: "wr i (put i ?d s1) = Ok s2" "inv s2" "ct s2 = ct (put i ?d s1)"
    "dt s2 = (dt (put i ?d s1))(n := ct (put i ?d s1) n)" "ws s2 = ws (put i ?d s1) @ [(n, ct (put i ?d s1) n)]"
    "D s2 = D (put i ?d s1) - {n}" "H s2 = H (put i ?d s1)" "\<And>j m. hold (put i ?d s1) j m \<Longrightarrow> hold s2 j m"
    "same (put i ?d s1) s2"
    by (rule wrE [of "put i ?d s1" i n]) (use p 1 in auto)
  have h2: "hold s2 i n" by (rule 2(8)) (use p 1 in auto)
  have "n \<in> D s2 \<or> ct s2 n = dt s2 n" using 2 by simp
  with 2(2) h2 obtain s' where 3: "rel i s2 = Ok s'" "inv s'" "ct s' = ct s2" "dt s' = dt s2" "ws s' = ws s2"
    "D s' = D s2" "H s' = H s2 - {n}" "same s2 s'" by (rule relE)
  have sm: "same s s'" using 1(9) p 2(9) 3(8) same_trans by blast
  show ?thesis
    by (intro exI [of _ i], rule exI [of _ s1], rule exI [of _ s2], rule exI [of _ s'])
      (use sm 1 2(1,3-7) 3 p dat [OF 1(2,3)] assms(3) in simp)
qed

text \<open>Copying block \<open>a\<close> over block \<open>b\<close> on the disk, with either of the two read first.\<close>

lemma copy_write:
  assumes i: "inv s" "hold s i a" "hold s j b" "a \<noteq> b" and a: "a \<in> D s \<or> ct s a = dt s a"
  shows "\<exists>s1 s2 s'. wr j (put j (dat s i) s) = Ok s1 \<and> rel i s1 = Ok s2 \<and> rel j s2 = Ok s' \<and> inv s' \<and>
    ct s' = (ct s)(b := ct s a) \<and> dt s' = (dt s)(b := ct s a) \<and> ws s' = ws s @ [(b, ct s a)] \<and>
    D s' = D s - {b} \<and> H s' = H s - {a, b} \<and> same s s'"
proof -
  let ?d = "dat s i"
  have d: "?d = ct s a" by (rule dat [OF i(1,2)])
  note p = put [OF i(1,3), of ?d, unfolded d, OF len [OF i(1)]]
  obtain s1 where 1: "wr j (put j ?d s) = Ok s1" "inv s1" "ct s1 = ct (put j ?d s)"
    "dt s1 = (dt (put j ?d s))(b := ct (put j ?d s) b)" "ws s1 = ws (put j ?d s) @ [(b, ct (put j ?d s) b)]"
    "D s1 = D (put j ?d s) - {b}" "H s1 = H (put j ?d s)" "\<And>k m. hold (put j ?d s) k m \<Longrightarrow> hold s1 k m"
    "same (put j ?d s) s1"
    by (rule wrE [of "put j ?d s" j b]) (use p i d in auto)
  have h1: "hold s1 i a" "hold s1 j b" by (rule 1(8), use p i d in simp)+
  have "a \<in> D s1 \<or> ct s1 a = dt s1 a" using 1 p d a i(4) by auto
  with 1(2) h1(1) obtain s2 where 2: "rel i s1 = Ok s2" "inv s2" "ct s2 = ct s1" "dt s2 = dt s1" "ws s2 = ws s1"
    "D s2 = D s1" "H s2 = H s1 - {a}" "\<And>k m. hold s1 k m \<Longrightarrow> m \<noteq> a \<Longrightarrow> hold s2 k m" "same s1 s2" by (rule relE) blast
  have h2: "hold s2 j b" by (rule 2(8) [OF h1(2)]) (use i(4) in simp)
  have "b \<in> D s2 \<or> ct s2 b = dt s2 b" using 1 2 by simp
  with 2(2) h2 obtain s' where 3: "rel j s2 = Ok s'" "inv s'" "ct s' = ct s2" "dt s' = dt s2" "ws s' = ws s2"
    "D s' = D s2" "H s' = H s2 - {b}" "same s2 s'" by (rule relE)
  have sm: "same s s'" using p 1(9) 2(9) 3(8) same_trans d by metis
  show ?thesis
    by (rule exI [of _ s1], rule exI [of _ s2], rule exI [of _ s'])
      (use sm 1(1,3-7) 2(1,3-7) 3 p d in auto)
qed

lemma rd_two:
  assumes "inv s" "a < sz s" "b < sz s" "a \<noteq> b" "a \<notin> H s" "b \<notin> H s" "avail s a"
    and "b \<in> D s \<or> Suc (card (D s \<union> H s)) < NBUF"
  shows "\<exists>i s1 j s2. rd a s = Ok (i, s1) \<and> rd b s1 = Ok (j, s2) \<and> inv s2 \<and> hold s2 i a \<and> hold s2 j b \<and>
    ct s2 = ct s \<and> dt s2 = dt s \<and> ws s2 = ws s \<and> D s2 = D s \<and> H s2 = insert a (insert b (H s)) \<and> same s s2 \<and> same s s1"
proof -
  obtain i s1 where 1: "rd a s = Ok (i, s1)" "inv s1" "hold s1 i a" "ct s1 = ct s" "dt s1 = dt s" "ws s1 = ws s"
    "D s1 = D s" "H s1 = insert a (H s)" "same s s1" using assms(1,2,5,7) by (rule rdE)
  have "card (insert a (D s \<union> H s)) \<le> Suc (card (D s \<union> H s))" by (rule card_insert_le_m1) auto
  with assms(8) have "avail s1 b" by (auto simp: avail 1 Un_insert_right)
  with 1 assms obtain j s2 where 2: "rd b s1 = Ok (j, s2)" "inv s2" "hold s2 j b" "ct s2 = ct s1" "dt s2 = dt s1"
    "ws s2 = ws s1" "D s2 = D s1" "H s2 = insert b (H s1)" "\<And>k m. hold s1 k m \<Longrightarrow> hold s2 k m" "same s1 s2"
    by (elim rdE [of s1 b]) (auto simp: same_sz [OF 1(9)])
  show ?thesis
    by (intro exI [of _ i], rule exI [of _ s1], rule exI [of _ j], rule exI [of _ s2])
      (use 1 2 2(9) [OF 1(3)] same_trans [OF 1(9) 2(10)] in auto)
qed

end

text \<open>States that agree on everything but the cache and the disk.\<close>

definition same_but_cache :: "'a bst_scheme \<Rightarrow> 'a bst_scheme \<Rightarrow> bool" where
  "same_but_cache s s' \<longleftrightarrow> s' = s\<lparr>bufs := bufs s', disk := disk s', dwrites := dwrites s'\<rparr>"

lemma same_but_cacheD:
  "same_but_cache s s' \<Longrightarrow> disksize s' = disksize s \<and> curpid s' = curpid s \<and> mem s' = mem s \<and> bst.more s' = bst.more s"
  unfolding same_but_cache_def by (metis bst.ext_inject bst.surjective bst.update_convs(1,3,4) mst.ext_inject mst.surjective)

lemma same_but_cache_refl [simp]: "same_but_cache s s"
  by (simp add: same_but_cache_def)

lemma same_but_cache_trans: "same_but_cache s s' \<Longrightarrow> same_but_cache s' s'' \<Longrightarrow> same_but_cache s s''"
proof -
  assume 1: "same_but_cache s s'" "same_but_cache s' s''"
  have "s'' = (s\<lparr>bufs := bufs s', disk := disk s', dwrites := dwrites s'\<rparr>)
      \<lparr>bufs := bufs s'', disk := disk s'', dwrites := dwrites s''\<rparr>"
    using 1 unfolding same_but_cache_def by metis
  also have "\<dots> = s\<lparr>bufs := bufs s'', disk := disk s'', dwrites := dwrites s''\<rparr>" by simp
  finally show ?thesis unfolding same_but_cache_def .
qed

lemma same_bufs:
  assumes "s' = s\<lparr>bufs := bufs s'\<rparr>"
  shows "disk s' = disk s" "dwrites s' = dwrites s" "same_but_cache s s'"
proof -
  show d: "disk s' = disk s" "dwrites s' = dwrites s"
    using arg_cong [OF assms, of disk] arg_cong [OF assms, of dwrites] by simp_all
  show "same_but_cache s s'" unfolding same_but_cache_def d by (rule trans [OF assms]) simp
qed

lemma same_bufs_disk:
  assumes "s' = s\<lparr>bufs := bufs s', disk := d, dwrites := w\<rparr>"
  shows "disk s' = d" "dwrites s' = w" "same_but_cache s s'"
proof -
  show d: "disk s' = d" "dwrites s' = w"
    using arg_cong [OF assms, of disk] arg_cong [OF assms, of dwrites] by simp_all
  show "same_but_cache s s'" unfolding same_but_cache_def d by (rule trans [OF assms]) simp
qed

lemma bread_law:
  assumes "binv s" "n < disksize s" "n \<notin> heldb s" "room s n"
  shows "\<exists>i s'. bread 1 n s = Ok (i, s') \<and> binv s' \<and> holds s' i n \<and> blk s' = blk s \<and> disk s' = disk s \<and>
      dwrites s' = dwrites s \<and> dirtyb s' = dirtyb s \<and> heldb s' = insert n (heldb s) \<and>
      (\<forall>j m. holds s j m \<longrightarrow> holds s' j m) \<and> same_but_cache s s'"
proof -
  obtain i s' where s': "bread 1 n s = Ok (i, s')" "s' = s\<lparr>bufs := bufs s'\<rparr>" "binv s'" "holds s' i n"
    "blk s' = blk s" "dirtyb s' = dirtyb s" "heldb s' = insert n (heldb s)" "\<And>j m. holds s j m \<Longrightarrow> holds s' j m"
    using bread_spec [OF assms] by metis
  show ?thesis
    by (rule exI [of _ i], rule exI [of _ s'], intro conjI allI impI s' same_bufs [OF s'(2)])
qed

lemma bwrite_law:
  assumes "binv s" "holds s i n"
  shows "\<exists>s'. bwrite i s = Ok s' \<and> binv s' \<and> blk s' = blk s \<and> disk s' = (disk s)(n := blk s n) \<and>
      dwrites s' = dwrites s @ [(n, blk s n)] \<and> dirtyb s' = dirtyb s - {n} \<and> heldb s' = heldb s \<and>
      (\<forall>j m. holds s' j m \<longleftrightarrow> holds s j m) \<and> same_but_cache s s'"
proof -
  obtain s' where s': "bwrite i s = Ok s'" "binv s'" "blk s' = blk s" "dirtyb s' = dirtyb s - {n}" "heldb s' = heldb s"
    "\<And>j m. holds s' j m \<longleftrightarrow> holds s j m"
    "s' = s\<lparr>bufs := bufs s', disk := (disk s)(n := blk s n), dwrites := dwrites s @ [(n, blk s n)]\<rparr>"
    using bwrite_spec [OF assms] by metis
  show ?thesis
    by (rule exI [of _ s'], intro conjI allI s' same_bufs_disk [OF s'(7)])
qed

lemma brelse_law:
  assumes "binv s" "holds s i n" "n \<in> dirtyb s \<or> blk s n = disk s n"
  shows "\<exists>s'. brelse i s = Ok s' \<and> binv s' \<and> blk s' = blk s \<and> disk s' = disk s \<and> dwrites s' = dwrites s \<and>
      dirtyb s' = dirtyb s \<and> heldb s' = heldb s - {n} \<and> (\<forall>j m. holds s' j m \<longleftrightarrow> holds s j m \<and> m \<noteq> n) \<and>
      same_but_cache s s'"
proof -
  obtain s' where s': "brelse i s = Ok s'" "binv s'" "blk s' = blk s" "dirtyb s' = dirtyb s" "heldb s' = heldb s - {n}"
    "\<And>j m. holds s' j m \<longleftrightarrow> holds s j m \<and> m \<noteq> n" "s' = s\<lparr>bufs := bufs s'\<rparr>"
    using brelse_spec [OF assms] by metis
  show ?thesis
    by (rule exI [of _ s'], intro conjI allI s'(1-6) same_bufs [OF s'(7)])
qed

lemma set_data_same [simp]: "disk (set_data i d s) = disk s" "dwrites (set_data i d s) = dwrites s"
  "same_but_cache s (set_data i d s)"
  by (simp_all add: set_data_def same_but_cache_def)

interpretation bio: block_cache "bread 1" bwrite brelse set_data "\<lambda>s i. bdata (bufs s i)" binv blk disk dwrites
    dirtyb heldb holds disksize room same_but_cache
  by (unfold_locales; (rule bread_law bwrite_law brelse_law holds_facts(4) length_blk same_but_cache_trans;
      assumption)?) (simp_all add: set_data_spec room_def same_but_cacheD)

text \<open>C6: \<^verbatim>\<open>bread\<close> returns a locked buffer with the current contents of the block, from the cache or from
  the disk, and neither recycles a pinned or held buffer nor changes what any block holds, as long as
  fewer than \<open>NBUF\<close> blocks are pinned or held.\<close>

theorem bread_current:
  assumes "binv s" "n < disksize s" "n \<notin> heldb s" "card (dirtyb s \<union> heldb s) < NBUF"
  shows "\<exists>i s'. bread 1 n s = Ok (i, s') \<and> binv s' \<and> bdata (bufs s' i) = blk s n \<and> holdingsleep (curpid s') (lock (bufs s' i)) \<and>
    blk s' = blk s \<and> disk s' = disk s \<and> dirtyb s' = dirtyb s \<and> heldb s' = insert n (heldb s)"
proof -
  have "room s n" using assms(4) by (simp add: room_def)
  from bread_law [OF assms(1-3) this] obtain i s' where r: "bread 1 n s = Ok (i, s')" "binv s'" "holds s' i n" "blk s' = blk s"
    "disk s' = disk s" "dirtyb s' = dirtyb s" "heldb s' = insert n (heldb s)" by blast
  then show ?thesis using holds_facts(4,8) [OF r(2,3)] by (intro exI [of _ i] exI [of _ s']) simp
qed

definition demo_bst :: bst where
  "demo_bst = binit \<lparr>mem = (\<lambda>_. 0), kend = 0, use_lock = False, freelist = 0,
     disk = (\<lambda>n. replicate BSIZE (ucast n)), disksize = 1000, dwrites = [], bufs = (\<lambda>_. zbuf), curpid = 1\<rparr>"

theorem bread_current_witness:
  "binv demo_bst \<and> (\<exists>i s'. bread 1 7 demo_bst = Ok (i, s') \<and> bdata (bufs s' i) = replicate BSIZE 7)"
proof -
  let ?z = "\<lparr>mem = (\<lambda>_. 0), kend = 0, use_lock = False, freelist = 0,
     disk = (\<lambda>n. replicate BSIZE (ucast n)), disksize = 1000, dwrites = [], bufs = (\<lambda>_. zbuf), curpid = 1\<rparr> :: bst"
  note b = binit_spec [of ?z, folded demo_bst_def, simplified]
  have "disksize demo_bst = 1000" by (simp add: demo_bst_def binit_def Let_def)
  then have "\<exists>i s'. bread 1 7 demo_bst = Ok (i, s') \<and> binv s' \<and> bdata (bufs s' i) = blk demo_bst 7 \<and>
      holdingsleep (curpid s') (lock (bufs s' i)) \<and> blk s' = blk demo_bst \<and> disk s' = disk demo_bst \<and>
      dirtyb s' = dirtyb demo_bst \<and> heldb s' = insert 7 (heldb demo_bst)"
    by (intro bread_current) (simp_all add: b(1-4) NBUF_def)
  then show ?thesis using b(1,4) by auto
qed

end
