(* ===== verification/Log.thy ===== *)
theory Log
  imports Bio
begin

text \<open>
  The write-ahead log (\<^verbatim>\<open>log.c\<close>) over the buffer cache, with the superblock that says where it lives.
  \<^verbatim>\<open>struct log\<close> extends the state of the block layer; its spin lock makes \<^verbatim>\<open>begin_op\<close>, \<^verbatim>\<open>log_write\<close> and the
  bookkeeping halves of \<^verbatim>\<open>end_op\<close> atomic. A crash stops the machine between two block writes: what it
  leaves on the disk is the old disk with a prefix of the writes applied (\<open>apply_writes\<close>). The theorems
  say what recovery makes of every such disk.
\<close>

section \<open>The superblock (fs.h, fs.c)\<close>

record superblock =
  sb_size :: u32
  sb_nblocks :: u32
  sb_ninodes :: u32
  sb_nlog :: u32
  sb_logstart :: u32
  sb_inodestart :: u32
  sb_bmapstart :: u32

text \<open>The \<open>i\<close>-th 32-bit integer of a block.\<close>

definition word_at :: "block \<Rightarrow> nat \<Rightarrow> u32" where
  "word_at d i = of_le32 (take 4 (drop (4 * i) d))"

definition put_word :: "nat \<Rightarrow> u32 \<Rightarrow> block \<Rightarrow> block" where
  "put_word i w d = splice_at (4 * i) (le32 w) d"

definition superblock_of :: "block \<Rightarrow> superblock" where
  "superblock_of d = \<lparr>sb_size = word_at d 0, sb_nblocks = word_at d 1, sb_ninodes = word_at d 2, sb_nlog = word_at d 3,
     sb_logstart = word_at d 4, sb_inodestart = word_at d 5, sb_bmapstart = word_at d 6\<rparr>"

definition readsb :: "u32 \<Rightarrow> 'a bst_scheme \<Rightarrow> (superblock \<times> 'a bst_scheme) res" where
  "readsb dev s =
     bind_res (bread dev 1 s) (\<lambda>(bp, s).
       let sb = superblock_of (bdata (bufs s bp)) in
       bind_res (brelse bp s) (\<lambda>s. Ok (sb, s)))"

section \<open>State (log.c)\<close>

definition MAXOPBLOCKS :: int where "MAXOPBLOCKS = 10"
definition LOGSIZE :: nat where "LOGSIZE = 30"

record lst = bst +
  lstart :: u32
  lsize :: int
  outstanding :: int
  committing :: bool
  ldev :: u32
  lhn :: int
  lhblock :: "u32 list"

text \<open>\<^verbatim>\<open>log.lh.block[i]\<close>\<close>

definition lh_block :: "nat \<Rightarrow> 'a lst_scheme \<Rightarrow> u32 res" where
  "lh_block i s = (if i < LOGSIZE then Ok (lhblock s ! i) else Err Wild)"

section \<open>Operations\<close>

fun install_loop :: "nat list \<Rightarrow> 'a lst_scheme \<Rightarrow> 'a lst_scheme res" where
  "install_loop [] s = Ok s"
| "install_loop (tail # ts) s =
     bind_res (bread (ldev s) (lstart s + of_nat tail + 1) s) (\<lambda>(lbuf, s).
     bind_res (lh_block tail s) (\<lambda>bno.
     bind_res (bread (ldev s) bno s) (\<lambda>(dbuf, s).
     bind_res (bwrite dbuf (set_data dbuf (bdata (bufs s lbuf)) s)) (\<lambda>s.
     bind_res (brelse lbuf s) (\<lambda>s.
     bind_res (brelse dbuf s) (install_loop ts))))))"

definition install_trans :: "'a lst_scheme \<Rightarrow> 'a lst_scheme res" where
  "install_trans s = install_loop [0..<nat (lhn s)] s"

text \<open>The on-disk header is a count and block numbers, in the block's first words. Reading more block
  numbers than \<^verbatim>\<open>log.lh.block\<close> has room for runs over the end of it.\<close>

definition read_head :: "'a lst_scheme \<Rightarrow> 'a lst_scheme res" where
  "read_head s =
     bind_res (bread (ldev s) (lstart s) s) (\<lambda>(b, s).
       let d = bdata (bufs s b); n = sint (word_at d 0) in
       if int LOGSIZE < n then Err Wild
       else brelse b (s\<lparr>lhn := n, lhblock := map (\<lambda>i. if i < nat n then word_at d (Suc i) else lhblock s ! i) [0..<LOGSIZE]\<rparr>))"

fun put_blocks :: "nat \<Rightarrow> u32 list \<Rightarrow> block \<Rightarrow> block" where
  "put_blocks i [] d = d"
| "put_blocks i (b # bs) d = put_blocks (Suc i) bs (put_word (Suc i) b d)"

definition write_head :: "'a lst_scheme \<Rightarrow> 'a lst_scheme res" where
  "write_head s =
     bind_res (bread (ldev s) (lstart s) s) (\<lambda>(b, s).
       if int LOGSIZE < lhn s then Err Wild
       else let d = put_word 0 (of_int (lhn s)) (bdata (bufs s b));
                d = put_blocks 0 (take (nat (lhn s)) (lhblock s)) d in
            bind_res (bwrite b (set_data b d s)) (brelse b))"

definition recover_from_log :: "'a lst_scheme \<Rightarrow> 'a lst_scheme res" where
  "recover_from_log s =
     bind_res (read_head s) (\<lambda>s. bind_res (install_trans s) (\<lambda>s. write_head (s\<lparr>lhn := 0\<rparr>)))"

definition sizeof_logheader :: nat where "sizeof_logheader = 4 * (1 + LOGSIZE)"

definition initlog :: "u32 \<Rightarrow> 'a lst_scheme \<Rightarrow> 'a lst_scheme res" where
  "initlog dev s =
     (if BSIZE \<le> sizeof_logheader then panic ''initlog: too big logheader''
      else bind_res (readsb dev s) (\<lambda>(sb, s).
        recover_from_log (s\<lparr>lstart := sb_logstart sb, lsize := sint (sb_nlog sb), ldev := dev\<rparr>)))"

definition begin_op :: "'a lst_scheme \<Rightarrow> 'a lst_scheme res" where
  "begin_op s =
     (if committing s then Err Sleep
      else if int LOGSIZE < lhn s + (outstanding s + 1) * MAXOPBLOCKS then Err Sleep
      else Ok (s\<lparr>outstanding := outstanding s + 1\<rparr>))"

fun write_log_loop :: "nat list \<Rightarrow> 'a lst_scheme \<Rightarrow> 'a lst_scheme res" where
  "write_log_loop [] s = Ok s"
| "write_log_loop (tail # ts) s =
     bind_res (bread (ldev s) (lstart s + of_nat tail + 1) s) (\<lambda>(to, s).
     bind_res (lh_block tail s) (\<lambda>bno.
     bind_res (bread (ldev s) bno s) (\<lambda>(fr, s).
     bind_res (bwrite to (set_data to (bdata (bufs s fr)) s)) (\<lambda>s.
     bind_res (brelse fr s) (\<lambda>s.
     bind_res (brelse to s) (write_log_loop ts))))))"

definition write_log :: "'a lst_scheme \<Rightarrow> 'a lst_scheme res" where
  "write_log s = write_log_loop [0..<nat (lhn s)] s"

definition commit :: "'a lst_scheme \<Rightarrow> 'a lst_scheme res" where
  "commit s =
     (if 0 < lhn s
      then bind_res (write_log s) (\<lambda>s. bind_res (write_head s) (\<lambda>s. bind_res (install_trans s) (\<lambda>s.
             write_head (s\<lparr>lhn := 0\<rparr>))))
      else Ok s)"

definition end_op :: "'a lst_scheme \<Rightarrow> 'a lst_scheme res" where
  "end_op s =
     (let s = s\<lparr>outstanding := outstanding s - 1\<rparr> in
      if committing s then panic ''log.committing''
      else if outstanding s = 0
      then bind_res (commit (s\<lparr>committing := True\<rparr>)) (\<lambda>s. Ok (s\<lparr>committing := False\<rparr>))
      else Ok s)"

text \<open>The index the search loop of \<^verbatim>\<open>log_write\<close> stops at.\<close>

fun find_block :: "u32 \<Rightarrow> u32 list \<Rightarrow> nat" where
  "find_block b [] = 0"
| "find_block b (x # xs) = (if x = b then 0 else Suc (find_block b xs))"

definition log_write :: "nat \<Rightarrow> 'a lst_scheme \<Rightarrow> 'a lst_scheme res" where
  "log_write b s =
     (if int LOGSIZE \<le> lhn s \<or> lsize s - 1 \<le> lhn s then panic ''too big a transaction''
      else if outstanding s < 1 then panic ''log_write outside of trans''
      else let i = find_block (blockno (bufs s b)) (take (nat (lhn s)) (lhblock s)) in
           Ok (mark_dirty b (s\<lparr>lhn := (if int i = lhn s then lhn s + 1 else lhn s),
                               lhblock := (lhblock s)[i := blockno (bufs s b)]\<rparr>)))"

section \<open>The header block\<close>

lemma length_put_word [simp]: "4 * i + 4 \<le> length d \<Longrightarrow> length (put_word i w d) = length d"
  by (simp add: put_word_def)

lemma word_at_put_word:
  assumes "4 * i + 4 \<le> length d" "4 * j + 4 \<le> length d"
  shows "word_at (put_word i w d) j = (if i = j then w else word_at d j)"
proof (cases "i = j")
  case True
  have "take (length (le32 w)) (drop (4 * i) (splice_at (4 * i) (le32 w) d)) = le32 w"
    by (rule take_drop_splice_at_same) (use assms in simp)
  with True show ?thesis by (simp add: word_at_def put_word_def)
next
  case False
  have "take 4 (drop (4 * j) (splice_at (4 * i) (le32 w) d)) = take 4 (drop (4 * j) d)"
    by (rule take_drop_splice_at_other) (use assms False in auto)
  with False show ?thesis by (simp add: word_at_def put_word_def)
qed

lemma put_blocks_spec:
  "4 * (i + length bs) + 4 \<le> length d \<Longrightarrow>
   length (put_blocks i bs d) = length d \<and>
   (\<forall>j. 4 * j + 4 \<le> length d \<longrightarrow>
     word_at (put_blocks i bs d) j = (if i < j \<and> j \<le> i + length bs then bs ! (j - Suc i) else word_at d j))"
proof (induction bs arbitrary: i d)
  case (Cons b bs)
  let ?d = "put_word (Suc i) b d"
  have len: "length ?d = length d" using Cons.prems by simp
  have IH: "length (put_blocks (Suc i) bs ?d) = length ?d \<and>
    (\<forall>j. 4 * j + 4 \<le> length ?d \<longrightarrow> word_at (put_blocks (Suc i) bs ?d) j =
       (if Suc i < j \<and> j \<le> Suc i + length bs then bs ! (j - Suc (Suc i)) else word_at ?d j))"
    by (rule Cons.IH) (use Cons.prems len in simp)
  have "word_at ?d j = (if Suc i = j then b else word_at d j)" if "4 * j + 4 \<le> length d" for j
    by (rule word_at_put_word) (use Cons.prems that in simp_all)
  moreover have "j - Suc i = Suc (j - Suc (Suc i))" if "Suc i < j" for j using that by simp
  ultimately show ?case using IH len by auto
qed auto

text \<open>The header block that holds the transaction \<open>bs\<close>; count and block numbers of a header block.\<close>

definition head_block :: "u32 list \<Rightarrow> block \<Rightarrow> block" where
  "head_block bs d = put_blocks 0 bs (put_word 0 (of_int (int (length bs))) d)"

definition hdr_n :: "block \<Rightarrow> int" where "hdr_n d = sint (word_at d 0)"

definition hdr_blocks :: "block \<Rightarrow> u32 list" where
  "hdr_blocks d = map (\<lambda>i. word_at d (Suc i)) [0..<nat (hdr_n d)]"

lemma sint_small: "n \<le> LOGSIZE \<Longrightarrow> sint (of_nat n :: u32) = int n"
  by (simp add: signed_of_nat LOGSIZE_def signed_take_bit_int_eq_self)

lemma head_block:
  assumes "length bs \<le> LOGSIZE" "length d = BSIZE"
  shows "length (head_block bs d) = BSIZE" "hdr_n (head_block bs d) = int (length bs)"
    "hdr_blocks (head_block bs d) = bs"
proof -
  let ?d = "put_word 0 (of_int (int (length bs))) d"
  have l: "length ?d = BSIZE" using assms by (simp add: BSIZE_def)
  have "4 * (0 + length bs) + 4 \<le> length ?d" using assms l by (simp add: BSIZE_def LOGSIZE_def)
  note p = put_blocks_spec [OF this]
  show "length (head_block bs d) = BSIZE" using p l by (simp add: head_block_def)
  have w: "word_at (head_block bs d) j = (if 0 < j \<and> j \<le> length bs then bs ! (j - 1) else word_at ?d j)"
    if "j \<le> length bs" for j
    using p that assms l by (simp add: head_block_def BSIZE_def LOGSIZE_def)
  have "word_at ?d 0 = of_int (int (length bs))"
    using word_at_put_word [of 0 d 0] assms by (simp add: BSIZE_def)
  then show n: "hdr_n (head_block bs d) = int (length bs)"
    using w [of 0] assms by (simp add: hdr_n_def sint_small)
  show "hdr_blocks (head_block bs d) = bs"
    by (rule nth_equalityI) (simp_all add: hdr_blocks_def n w)
qed

section \<open>Disks as sequences of writes\<close>

fun apply_writes :: "(u32 \<times> block) list \<Rightarrow> (u32 \<Rightarrow> block) \<Rightarrow> u32 \<Rightarrow> block" where
  "apply_writes [] d = d"
| "apply_writes ((n, b) # ws) d = apply_writes ws (d(n := b))"

lemma apply_writes_Cons: "apply_writes (w # ws) d = apply_writes ws (d(fst w := snd w))"
  by (cases w) simp

lemma apply_writes_append: "apply_writes (vs @ ws) d = apply_writes ws (apply_writes vs d)"
  by (induction vs arbitrary: d) (simp_all add: apply_writes_Cons)

lemma apply_writes_notin: "m \<notin> fst ` set ws \<Longrightarrow> apply_writes ws d m = d m"
  by (induction ws arbitrary: d) (auto simp: apply_writes_Cons)

lemma apply_writes_in: "distinct (map fst ws) \<Longrightarrow> (m, b) \<in> set ws \<Longrightarrow> apply_writes ws d m = b"
proof (induction ws arbitrary: d)
  case (Cons w ws)
  show ?case
  proof (cases "(m, b) \<in> set ws")
    case True
    then show ?thesis using Cons by (simp add: apply_writes_Cons)
  next
    case False
    then have w: "w = (m, b)" using Cons.prems(2) by auto
    then have "m \<notin> fst ` set ws" using Cons.prems(1) by simp
    from apply_writes_notin [OF this] show ?thesis by (simp add: w)
  qed
qed simp

lemma apply_writes_cong: "d m = d' m \<Longrightarrow> apply_writes ws d m = apply_writes ws d' m"
proof (induction ws arbitrary: d d')
  case (Cons w ws)
  obtain n b where w: "w = (n, b)" by (cases w)
  have "apply_writes ws (d(n := b)) m = apply_writes ws (d'(n := b)) m"
    by (rule Cons.IH) (simp add: Cons.prems)
  then show ?case by (simp add: w)
qed simp

section \<open>The invariant of the log\<close>

text \<open>The log region: the header block and the \<^verbatim>\<open>log.size - 1\<close> blocks after it.\<close>

definition log_region :: "'a lst_scheme \<Rightarrow> u32 set" where
  "log_region s = {n. unat (lstart s) \<le> unat n \<and> unat n < unat (lstart s) + nat (lsize s)}"

definition logged :: "'a lst_scheme \<Rightarrow> u32 list" where
  "logged s = take (nat (lhn s)) (lhblock s)"

text \<open>Geometry: the log lies on the disk, after the superblock, and is not larger than \<open>LOGSIZE\<close> (the size
  \<^verbatim>\<open>mkfs\<close> gives it), so that a full transaction leaves a buffer of the cache free.\<close>

definition log_geom :: "'a lst_scheme \<Rightarrow> bool" where
  "log_geom s \<longleftrightarrow> ldev s = 1 \<and> 0 < lsize s \<and> lsize s \<le> int LOGSIZE \<and> unat (lstart s) + nat (lsize s) \<le> unat (disksize s) \<and> 1 < unat (lstart s)"

text \<open>A block list a transaction may have.\<close>

definition trans_ok :: "'a lst_scheme \<Rightarrow> u32 list \<Rightarrow> bool" where
  "trans_ok s bs \<longleftrightarrow> length bs < LOGSIZE \<and> int (length bs) < lsize s \<and> distinct bs \<and>
     (\<forall>b\<in>set bs. b < disksize s \<and> b \<notin> log_region s)"

text \<open>
  The invariant between operations on the log: the blocks of the running transaction are exactly the
  pinned blocks of the cache, and the header on the disk is empty.
\<close>

definition linv :: "'a lst_scheme \<Rightarrow> bool" where
  "linv s \<longleftrightarrow> binv s \<and> log_geom s \<and> length (lhblock s) = LOGSIZE \<and> 0 \<le> lhn s \<and> lhn s < int LOGSIZE \<and>
     trans_ok s (logged s) \<and> dirtyb s = set (logged s) \<and> hdr_n (disk s (lstart s)) = 0 \<and> heldb s \<inter> log_region s = {}"

text \<open>The \<open>t\<close>-th data block of the log.\<close>

definition log_block :: "'a lst_scheme \<Rightarrow> nat \<Rightarrow> u32" where
  "log_block s t = lstart s + of_nat t + 1"

lemma unat_log_block:
  assumes "log_geom s" "int t + 1 < lsize s"
  shows "unat (log_block s t) = unat (lstart s) + t + 1"
proof -
  have b: "unat (lstart s) + t + 1 < 2 ^ 32"
    using assms unat_u32_less [of "disksize s"] by (auto simp: log_geom_def)
  then have "unat (of_nat t :: u32) = t" by (intro unat_of_nat_small) simp
  moreover have "unat (lstart s + of_nat t) = unat (lstart s) + unat (of_nat t :: u32)"
    by (rule unat_add_no_wrap) (use b calculation in simp)
  moreover have "unat (lstart s + of_nat t + 1) = unat (lstart s + of_nat t) + unat (1 :: u32)"
    by (rule unat_add_no_wrap) (use b calculation in simp)
  ultimately show ?thesis by (simp add: log_block_def)
qed

lemma log_block_facts:
  assumes "log_geom s" "int t + 1 < lsize s"
  shows "log_block s t \<in> log_region s" "log_block s t < disksize s" "log_block s t \<noteq> lstart s"
    "int t' + 1 < lsize s \<Longrightarrow> log_block s t = log_block s t' \<longleftrightarrow> t = t'"
proof -
  note u = unat_log_block [OF assms]
  show "log_block s t \<in> log_region s" using u assms(2) by (simp add: log_region_def)
  show "log_block s t < disksize s" using u assms by (auto simp: word_less_nat_alt log_geom_def)
  show "log_block s t \<noteq> lstart s"
  proof
    assume "log_block s t = lstart s"
    then have "unat (log_block s t) = unat (lstart s)" by simp
    then show False unfolding u by simp
  qed
  show "log_block s t = log_block s t' \<longleftrightarrow> t = t'" if "int t' + 1 < lsize s"
  proof
    assume "log_block s t = log_block s t'"
    then have "unat (log_block s t) = unat (log_block s t')" by simp
    then show "t = t'" unfolding u unat_log_block [OF assms(1) that] by simp
  qed simp
qed

lemma start_facts: "log_geom s \<Longrightarrow> lstart s \<in> log_region s \<and> lstart s < disksize s"
  by (auto simp: log_geom_def log_region_def word_less_nat_alt)

text \<open>Everything but cache and disk stays as it is under the block operations.\<close>

lemma same_lst:
  assumes "same_but_cache s s'"
  shows "lstart s' = lstart s" "lsize s' = lsize s" "outstanding s' = outstanding s" "committing s' = committing s"
    "ldev s' = ldev s" "lhn s' = lhn s" "lhblock s' = lhblock s" "disksize s' = disksize s" "curpid s' = curpid s"
    "lst.more s' = lst.more s"
  using assms [unfolded same_but_cache_def, THEN arg_cong, of lstart] assms [unfolded same_but_cache_def, THEN arg_cong, of lsize]
    assms [unfolded same_but_cache_def, THEN arg_cong, of outstanding] assms [unfolded same_but_cache_def, THEN arg_cong, of committing]
    assms [unfolded same_but_cache_def, THEN arg_cong, of ldev] assms [unfolded same_but_cache_def, THEN arg_cong, of lhn]
    assms [unfolded same_but_cache_def, THEN arg_cong, of lhblock] assms [unfolded same_but_cache_def, THEN arg_cong, of disksize]
    assms [unfolded same_but_cache_def, THEN arg_cong, of curpid] assms [unfolded same_but_cache_def, THEN arg_cong, of lst.more]
  by simp_all

lemma same_log:
  assumes "same_but_cache s s'"
  shows "log_region s' = log_region s" "logged s' = logged s" "log_geom s' = log_geom s" "log_block s' = log_block s"
    "trans_ok s' bs = trans_ok s bs"
proof -
  note e = same_lst [OF assms]
  show r: "log_region s' = log_region s" by (simp add: log_region_def e)
  show "logged s' = logged s" "log_geom s' = log_geom s" by (simp_all add: logged_def log_geom_def e)
  show "log_block s' = log_block s" by (rule ext) (simp add: log_block_def e)
  show "trans_ok s' bs = trans_ok s bs" by (simp add: trans_ok_def e r)
qed

section \<open>Copying between log and home locations\<close>

text \<open>One round of \<^verbatim>\<open>install_trans\<close> and of \<^verbatim>\<open>write_log\<close>.\<close>

lemma install_step:
  assumes b: "binv s" "heldb s = {}" "ldev s = 1" "a < disksize s" "n < disksize s" "a \<noteq> n" "a \<notin> dirtyb s"
    and d: "card (dirtyb s) < NBUF" "n \<in> dirtyb s \<or> dirtyb s = {}" and t: "t < LOGSIZE" "lhblock s ! t = n" "log_block s t = a"
  obtains s' where "install_loop (t # ts) s = install_loop ts s'" "binv s'" "heldb s' = {}" "same_but_cache s s'"
    "blk s' = (blk s)(n := blk s a)" "disk s' = (disk s)(n := blk s a)" "dwrites s' = dwrites s @ [(n, blk s a)]"
    "dirtyb s' = dirtyb s - {n}"
proof -
  have "n \<in> dirtyb s \<or> Suc (card (dirtyb s \<union> heldb s)) < NBUF" using d(2) b(2) by (auto simp: NBUF_def)
  moreover have "room s a" using d(1) b(2) by (simp add: room_def)
  ultimately obtain i s1 j s2 where 1: "bread 1 a s = Ok (i, s1)" "bread 1 n s1 = Ok (j, s2)" "binv s2" "holds s2 i a" "holds s2 j n"
    "blk s2 = blk s" "disk s2 = disk s" "dwrites s2 = dwrites s" "dirtyb s2 = dirtyb s" "heldb s2 = {a, n}"
    "same_but_cache s s2" "same_but_cache s s1"
    using bio.rd_two [of s a n] b by auto
  have "blk s a = disk s a" by (rule blk_clean) (use b in auto)
  then have "a \<in> dirtyb s2 \<or> blk s2 a = disk s2 a" using 1 by simp
  from bio.copy_write [OF 1(3-5) b(6) this] obtain s3 s4 s' where
    2: "bwrite j (set_data j (bdata (bufs s2 i)) s2) = Ok s3" "brelse i s3 = Ok s4" "brelse j s4 = Ok s'" "binv s'"
    "blk s' = (blk s)(n := blk s a)" "disk s' = (disk s)(n := blk s a)" "dwrites s' = dwrites s @ [(n, blk s a)]"
    "dirtyb s' = dirtyb s - {n}" "heldb s' = {}" "same_but_cache s2 s'" using 1 by auto
  have l: "lhblock s1 = lhblock s" "ldev s1 = 1" using same_lst [OF 1(12)] b(3) by simp_all
  have "install_loop (t # ts) s = install_loop ts s'"
    using 1(1,2) 2(1-3) t b(3) l by (simp add: lh_block_def log_block_def)
  then show thesis by (rule that) (use 2 same_but_cache_trans [OF 1(11) 2(10)] in simp_all)
qed

lemma write_log_step:
  assumes b: "binv s" "heldb s = {}" "ldev s = 1" "a < disksize s" "n < disksize s" "a \<noteq> n" "a \<notin> dirtyb s"
    and d: "card (dirtyb s) < NBUF" "n \<in> dirtyb s" and t: "t < LOGSIZE" "lhblock s ! t = n" "log_block s t = a"
  obtains s' where "write_log_loop (t # ts) s = write_log_loop ts s'" "binv s'" "heldb s' = {}" "same_but_cache s s'"
    "blk s' = (blk s)(a := blk s n)" "disk s' = (disk s)(a := blk s n)" "dwrites s' = dwrites s @ [(a, blk s n)]"
    "dirtyb s' = dirtyb s"
proof -
  have "room s a" using d(1) b(2) by (simp add: room_def)
  then obtain i s1 j s2 where 1: "bread 1 a s = Ok (i, s1)" "bread 1 n s1 = Ok (j, s2)" "binv s2" "holds s2 i a" "holds s2 j n"
    "blk s2 = blk s" "disk s2 = disk s" "dwrites s2 = dwrites s" "dirtyb s2 = dirtyb s" "heldb s2 = {a, n}"
    "same_but_cache s s2" "same_but_cache s s1"
    using bio.rd_two [of s a n] b d by auto
  have "n \<in> dirtyb s2 \<or> blk s2 n = disk s2 n" using 1 d by simp
  from bio.copy_write [OF 1(3,5,4) b(6) [symmetric] this] obtain s3 s4 s' where
    2: "bwrite i (set_data i (bdata (bufs s2 j)) s2) = Ok s3" "brelse j s3 = Ok s4" "brelse i s4 = Ok s'" "binv s'"
    "blk s' = (blk s)(a := blk s n)" "disk s' = (disk s)(a := blk s n)" "dwrites s' = dwrites s @ [(a, blk s n)]"
    "dirtyb s' = dirtyb s" "heldb s' = {}" "same_but_cache s2 s'" using 1 b(7) by auto
  have l: "lhblock s1 = lhblock s" "ldev s1 = 1" using same_lst [OF 1(12)] b(3) by simp_all
  have "write_log_loop (t # ts) s = write_log_loop ts s'"
    using 1(1,2) 2(1-3) t b(3) l by (simp add: lh_block_def log_block_def)
  then show thesis by (rule that) (use 2 same_but_cache_trans [OF 1(11) 2(10)] in simp_all)
qed

definition install_writes :: "'a lst_scheme \<Rightarrow> nat list \<Rightarrow> (u32 \<times> block) list" where
  "install_writes s ts = map (\<lambda>t. (lhblock s ! t, blk s (log_block s t))) ts"

definition log_writes :: "'a lst_scheme \<Rightarrow> nat list \<Rightarrow> (u32 \<times> block) list" where
  "log_writes s ts = map (\<lambda>t. (log_block s t, blk s (lhblock s ! t))) ts"

text \<open>What both loops need of the state and of the entries they visit.\<close>

definition entries_ok :: "'a lst_scheme \<Rightarrow> nat list \<Rightarrow> bool" where
  "entries_ok s ts \<longleftrightarrow> binv s \<and> heldb s = {} \<and> log_geom s \<and> card (dirtyb s) < NBUF \<and> dirtyb s \<inter> log_region s = {} \<and>
     (\<forall>t\<in>set ts. t < LOGSIZE \<and> int t + 1 < lsize s \<and> lhblock s ! t < disksize s \<and> lhblock s ! t \<notin> log_region s)"

lemma entries_okD:
  assumes "entries_ok s (t # ts)"
  shows "binv s" "heldb s = {}" "ldev s = 1" "log_block s t < disksize s" "lhblock s ! t < disksize s"
    "log_block s t \<noteq> lhblock s ! t" "log_block s t \<notin> dirtyb s" "card (dirtyb s) < NBUF" "t < LOGSIZE"
    "lhblock s ! t \<notin> log_region s" "log_block s t \<in> log_region s" "log_geom s" "int t + 1 < lsize s"
proof -
  have t: "log_geom s" "int t + 1 < lsize s" "lhblock s ! t \<notin> log_region s" using assms by (simp_all add: entries_ok_def)
  note l = log_block_facts [OF t(1,2)]
  from assms l t show "binv s" "heldb s = {}" "ldev s = 1" "log_block s t < disksize s" "lhblock s ! t < disksize s"
    "log_block s t \<noteq> lhblock s ! t" "log_block s t \<notin> dirtyb s" "card (dirtyb s) < NBUF" "t < LOGSIZE"
    "lhblock s ! t \<notin> log_region s" "log_block s t \<in> log_region s" "log_geom s" "int t + 1 < lsize s"
    by (auto simp: entries_ok_def log_geom_def)
qed

lemma entries_ok_step:
  assumes "entries_ok s (t # ts)" "binv s'" "heldb s' = {}" "same_but_cache s s'" "dirtyb s' \<subseteq> dirtyb s"
  shows "entries_ok s' ts"
proof -
  have "finite (dirtyb s)"
    by (rule finite_subset [of _ "(\<lambda>i. blockno (bufs s i)) ` {..<NBUF}"]) (auto simp: dirtyb_def caches_def)
  then have "card (dirtyb s') \<le> card (dirtyb s)" using assms(5) by (rule card_mono)
  with assms show ?thesis
    by (auto simp: entries_ok_def same_lst [OF assms(4)] same_log [OF assms(4)])
qed

lemma install_loop_spec:
  assumes "entries_ok s ts" "distinct (map (\<lambda>t. lhblock s ! t) ts)"
    and "(\<forall>t\<in>set ts. lhblock s ! t \<in> dirtyb s) \<or> dirtyb s = {}"
  shows "\<exists>s'. install_loop ts s = Ok s' \<and> binv s' \<and> heldb s' = {} \<and> same_but_cache s s' \<and>
    blk s' = apply_writes (install_writes s ts) (blk s) \<and> disk s' = apply_writes (install_writes s ts) (disk s) \<and>
    dwrites s' = dwrites s @ install_writes s ts \<and> dirtyb s' = dirtyb s - set (map (\<lambda>t. lhblock s ! t) ts)"
  using assms
proof (induction ts arbitrary: s)
  case Nil
  then show ?case by (simp add: install_writes_def entries_ok_def)
next
  case (Cons t ts)
  let ?n = "lhblock s ! t" and ?a = "log_block s t"
  note e = entries_okD [OF Cons.prems(1)]
  obtain s1 where 1: "install_loop (t # ts) s = install_loop ts s1" "binv s1" "heldb s1 = {}" "same_but_cache s s1"
    "blk s1 = (blk s)(?n := blk s ?a)" "disk s1 = (disk s)(?n := blk s ?a)" "dwrites s1 = dwrites s @ [(?n, blk s ?a)]"
    "dirtyb s1 = dirtyb s - {?n}"
    by (rule install_step [OF e(1-8) _ e(9) refl refl]) (use Cons.prems(3) in auto)
  note l = same_lst [OF 1(4)] same_log [OF 1(4)]
  have ok: "entries_ok s1 ts" by (rule entries_ok_step [OF Cons.prems(1) 1(2-4)]) (use 1(8) in auto)
  have "install_writes s1 ts = install_writes s ts"
    unfolding install_writes_def
  proof (rule map_cong [OF refl])
    fix u assume "u \<in> set ts"
    then have "log_block s u \<in> log_region s" using Cons.prems(1) by (auto simp: entries_ok_def intro: log_block_facts)
    then have "log_block s u \<noteq> ?n" using e(10) by auto
    then show "(lhblock s1 ! u, blk s1 (log_block s1 u)) = (lhblock s ! u, blk s (log_block s u))"
      by (simp add: l 1(5))
  qed
  moreover have "distinct (map (\<lambda>t. lhblock s1 ! t) ts)" using Cons.prems(2) by (simp add: l)
  moreover have "lhblock s ! u \<noteq> ?n" if "u \<in> set ts" for u 
    using Cons.prems(2) imageI [OF that, of "(!) (lhblock s)"] by auto
  then have "(\<forall>t\<in>set ts. lhblock s1 ! t \<in> dirtyb s1) \<or> dirtyb s1 = {}" using Cons.prems(3) by (auto simp: l 1(8))
  ultimately obtain s' where 2: "install_loop ts s1 = Ok s'" "binv s'" "heldb s' = {}" "same_but_cache s1 s'"
    "blk s' = apply_writes (install_writes s ts) (blk s1)" "disk s' = apply_writes (install_writes s ts) (disk s1)"
    "dwrites s' = dwrites s1 @ install_writes s ts" "dirtyb s' = dirtyb s1 - set (map (\<lambda>t. lhblock s ! t) ts)"
    using Cons.IH [OF ok] by (auto simp: l)
  have w: "install_writes s (t # ts) = (?n, blk s ?a) # install_writes s ts" by (simp add: install_writes_def)
  show ?case
    by (rule exI [of _ s'])
      (use 2 1 w same_but_cache_trans [OF 1(4) 2(4)] in \<open>auto simp del: fun_upd_apply\<close>)
qed

lemma write_log_loop_spec:
  assumes "entries_ok s ts" "\<forall>t\<in>set ts. lhblock s ! t \<in> dirtyb s"
  shows "\<exists>s'. write_log_loop ts s = Ok s' \<and> binv s' \<and> heldb s' = {} \<and> same_but_cache s s' \<and>
    blk s' = apply_writes (log_writes s ts) (blk s) \<and> disk s' = apply_writes (log_writes s ts) (disk s) \<and>
    dwrites s' = dwrites s @ log_writes s ts \<and> dirtyb s' = dirtyb s"
  using assms
proof (induction ts arbitrary: s)
  case Nil
  then show ?case by (simp add: log_writes_def entries_ok_def)
next
  case (Cons t ts)
  let ?n = "lhblock s ! t" and ?a = "log_block s t"
  note e = entries_okD [OF Cons.prems(1)]
  obtain s1 where 1: "write_log_loop (t # ts) s = write_log_loop ts s1" "binv s1" "heldb s1 = {}" "same_but_cache s s1"
    "blk s1 = (blk s)(?a := blk s ?n)" "disk s1 = (disk s)(?a := blk s ?n)" "dwrites s1 = dwrites s @ [(?a, blk s ?n)]"
    "dirtyb s1 = dirtyb s"
    by (rule write_log_step [OF e(1-8) _ e(9) refl refl]) (use Cons.prems(2) in auto)
  note l = same_lst [OF 1(4)] same_log [OF 1(4)]
  have ok: "entries_ok s1 ts" by (rule entries_ok_step [OF Cons.prems(1) 1(2-4)]) (use 1(8) in auto)
  have "log_writes s1 ts = log_writes s ts"
    unfolding log_writes_def
  proof (rule map_cong [OF refl])
    fix u assume "u \<in> set ts"
    then have "lhblock s ! u \<notin> log_region s" using Cons.prems(1) by (auto simp: entries_ok_def)
    then have "lhblock s ! u \<noteq> ?a" using e(11) by auto
    then show "(log_block s1 u, blk s1 (lhblock s1 ! u)) = (log_block s u, blk s (lhblock s ! u))"
      by (simp add: l 1(5))
  qed
  then obtain s' where 2: "write_log_loop ts s1 = Ok s'" "binv s'" "heldb s' = {}" "same_but_cache s1 s'"
    "blk s' = apply_writes (log_writes s ts) (blk s1)" "disk s' = apply_writes (log_writes s ts) (disk s1)"
    "dwrites s' = dwrites s1 @ log_writes s ts" "dirtyb s' = dirtyb s1"
    using Cons.IH [OF ok] Cons.prems(2) 1(8) by (auto simp: l)
  have w: "log_writes s (t # ts) = (?a, blk s ?n) # log_writes s ts" by (simp add: log_writes_def)
  show ?case
    by (rule exI [of _ s'])
      (use 2 1 w same_but_cache_trans [OF 1(4) 2(4)] in \<open>auto simp del: fun_upd_apply\<close>)
qed

text \<open>Writing the header.\<close>

lemma write_head_spec:
  assumes b: "binv s" "heldb s = {}" "log_geom s" "card (dirtyb s) < NBUF" "lstart s \<notin> dirtyb s"
    and n: "0 \<le> lhn s" "lhn s \<le> int LOGSIZE" "length (lhblock s) = LOGSIZE"
  defines "h \<equiv> head_block (logged s) (blk s (lstart s))"
  shows "\<exists>s'. write_head s = Ok s' \<and> binv s' \<and> heldb s' = {} \<and> same_but_cache s s' \<and> blk s' = (blk s)(lstart s := h) \<and>
    disk s' = (disk s)(lstart s := h) \<and> dwrites s' = dwrites s @ [(lstart s, h)] \<and> dirtyb s' = dirtyb s"
proof -
  have len: "length (logged s) = nat (lhn s)" using n by (auto simp: logged_def)
  have h: "length h = BSIZE"
    unfolding h_def by (rule head_block) (use len n length_blk [OF b(1)] in simp_all)
  have "room s (lstart s)" using b by (simp add: room_def)
  moreover have "lstart s < disksize s" using start_facts [OF b(3)] by simp
  ultimately obtain i s1 s2 s' where 1: "bread 1 (lstart s) s = Ok (i, s1)" "bdata (bufs s1 i) = blk s (lstart s)"
    "bwrite i (set_data i h s1) = Ok s2" "brelse i s2 = Ok s'" "binv s'" "blk s' = (blk s)(lstart s := h)"
    "disk s' = (disk s)(lstart s := h)" "dwrites s' = dwrites s @ [(lstart s, h)]" "dirtyb s' = dirtyb s - {lstart s}"
    "heldb s' = heldb s" "same_but_cache s s'" "same_but_cache s s1"
    using bio.update_block [of s "lstart s" "\<lambda>_. h"] b(1,2) h by auto
  have d: "ldev s = 1" using b(3) by (simp add: log_geom_def)
  note l = same_lst [OF 1(12)]
  have "put_blocks 0 (take (nat (lhn s)) (lhblock s)) (put_word 0 (of_int (lhn s)) (blk s (lstart s))) = h"
    using len n by (simp add: h_def head_block_def logged_def)
  then have "write_head s = Ok s'"
    using 1(1-4) n d by (simp add: write_head_def l Let_def)
  with 1 b show ?thesis by (intro exI [of _ s']) auto
qed

section \<open>Committing a transaction\<close>

lemma same_lhn:
  assumes "same_but_cache (s\<lparr>lhn := k\<rparr>) s'"
  shows "lstart s' = lstart s" "lsize s' = lsize s" "ldev s' = ldev s" "lhn s' = k" "lhblock s' = lhblock s"
    "disksize s' = disksize s" "log_region s' = log_region s" "log_geom s' = log_geom s" "outstanding s' = outstanding s"
    "committing s' = committing s" "log_block s' = log_block s"
proof -
  note e = same_lst [OF assms, simplified]
  from e show "lstart s' = lstart s" "lsize s' = lsize s" "ldev s' = ldev s" "lhn s' = k" "lhblock s' = lhblock s"
    "disksize s' = disksize s" "outstanding s' = outstanding s" "committing s' = committing s" by simp_all
  show "log_region s' = log_region s" "log_geom s' = log_geom s" "log_block s' = log_block s"
    by (simp_all add: log_region_def log_geom_def log_block_def fun_eq_iff e)
qed

lemma view_lhn [simp]:
  "binv (s\<lparr>lhn := k\<rparr>) = binv s" "heldb (s\<lparr>lhn := k\<rparr>) = heldb s" "dirtyb (s\<lparr>lhn := k\<rparr>) = dirtyb s"
  "blk (s\<lparr>lhn := k\<rparr>) = blk s" "log_geom (s\<lparr>lhn := k\<rparr>) = log_geom s"
  using view_cong [of "s\<lparr>lhn := k\<rparr>" s] by (simp_all add: log_geom_def)

lemma same_but_cache_lhn:
  assumes "same_but_cache s s'"
  shows "same_but_cache (s\<lparr>lhn := k\<rparr>) (s'\<lparr>lhn := k\<rparr>)"
proof -
  have "s'\<lparr>lhn := k\<rparr> = s\<lparr>bufs := bufs s', disk := disk s', dwrites := dwrites s'\<rparr>\<lparr>lhn := k\<rparr>"
    using assms unfolding same_but_cache_def by (rule arg_cong)
  also have "\<dots> = s\<lparr>lhn := k\<rparr>\<lparr>bufs := bufs s', disk := disk s', dwrites := dwrites s'\<rparr>" by simp
  finally show ?thesis unfolding same_but_cache_def by simp
qed

text \<open>The writes of a commit.\<close>

definition home_writes :: "'a lst_scheme \<Rightarrow> (u32 \<times> block) list" where
  "home_writes s = map (\<lambda>b. (b, blk s b)) (logged s)"

definition commit_writes :: "'a lst_scheme \<Rightarrow> (u32 \<times> block) list" where
  "commit_writes s =
     (let h = head_block (logged s) (blk s (lstart s)) in
      log_writes s [0..<length (logged s)] @ [(lstart s, h)] @ home_writes s @ [(lstart s, head_block [] h)])"

lemma length_logged: "linv s \<Longrightarrow> length (logged s) = nat (lhn s)"
  by (auto simp: linv_def logged_def)

lemma nth_logged: "t < length (logged s) \<Longrightarrow> lhblock s ! t = logged s ! t"
  by (simp add: logged_def)

lemma linv_entries_ok:
  assumes l: "linv s" "heldb s = {}"
  shows "entries_ok s [0..<length (logged s)]" "lstart s \<notin> dirtyb s"
proof -
  have t: "trans_ok s (logged s)" "dirtyb s = set (logged s)" "log_geom s" using l by (simp_all add: linv_def)
  have "card (set (logged s)) < NBUF"
    using card_length [of "logged s"] t(1) by (simp add: trans_ok_def LOGSIZE_def NBUF_def)
  moreover have "lhblock s ! u < disksize s \<and> lhblock s ! u \<notin> log_region s \<and> u < LOGSIZE \<and> int u + 1 < lsize s"
    if "u < length (logged s)" for u
    using t(1) that nth_mem [OF that] by (auto simp: trans_ok_def nth_logged [OF that])
  ultimately show "entries_ok s [0..<length (logged s)]"
    using l t by (auto simp: entries_ok_def linv_def trans_ok_def)
  show "lstart s \<notin> dirtyb s" using t start_facts by (auto simp: trans_ok_def)
qed

lemma log_writes_fst: "set (map fst (log_writes s ts)) = log_block s ` set ts"
  by (auto simp: log_writes_def)

lemma commit_spec:
  assumes l: "linv s" "heldb s = {}" and pos: "0 < lhn s"
  shows "\<exists>s'. commit s = Ok s' \<and> binv s' \<and> heldb s' = {} \<and> dirtyb s' = {} \<and> same_but_cache (s\<lparr>lhn := 0\<rparr>) s' \<and>
    disk s' = apply_writes (commit_writes s) (disk s) \<and> dwrites s' = dwrites s @ commit_writes s"
proof -
  let ?n = "length (logged s)" and ?h = "head_block (logged s) (blk s (lstart s))"
  have i: "binv s" "log_geom s" "length (lhblock s) = LOGSIZE" "lhn s < int LOGSIZE" "trans_ok s (logged s)"
    "dirtyb s = set (logged s)" using l by (simp_all add: linv_def)
  have n: "nat (lhn s) = ?n" using length_logged [OF l(1)] by simp
  note e = linv_entries_ok [OF l]
  have "\<forall>t\<in>set [0..<?n]. lhblock s ! t \<in> dirtyb s" using i(6) by (auto simp: nth_logged)
  from write_log_loop_spec [OF e(1) this] obtain s1 where 1: "write_log s = Ok s1" "binv s1" "heldb s1 = {}" "same_but_cache s s1"
    "blk s1 = apply_writes (log_writes s [0..<?n]) (blk s)" "disk s1 = apply_writes (log_writes s [0..<?n]) (disk s)"
    "dwrites s1 = dwrites s @ log_writes s [0..<?n]" "dirtyb s1 = dirtyb s"
    by (auto simp: write_log_def n)
  note l1 = same_lst [OF 1(4)] same_log [OF 1(4)]
  have lb: "int t + 1 < lsize s" if "t < ?n" for t using i(5) that by (simp add: trans_ok_def)
  have "lstart s \<noteq> log_block s t" if "t < ?n" for t using log_block_facts(3) [OF i(2) lb [OF that]] by simp
  then have "lstart s \<notin> fst ` set (log_writes s [0..<?n])" by (simp add: log_writes_def image_iff)
  then have st: "blk s1 (lstart s) = blk s (lstart s)" by (simp add: 1(5) apply_writes_notin)
  have c1: "card (dirtyb s1) < NBUF" using e(1) by (simp add: 1(8) entries_ok_def)
  obtain s2 where 2: "write_head s1 = Ok s2" "binv s2" "heldb s2 = {}" "same_but_cache s1 s2" "blk s2 = (blk s1)(lstart s := ?h)"
    "disk s2 = (disk s1)(lstart s := ?h)" "dwrites s2 = dwrites s1 @ [(lstart s, ?h)]" "dirtyb s2 = dirtyb s"
    using write_head_spec [OF 1(2,3)] c1 e(2) i pos st by (auto simp: l1 1(8))
  have s2: "same_but_cache s s2" by (rule same_but_cache_trans [OF 1(4) 2(4)])
  note l2 = same_lst [OF s2] same_log [OF s2]
  have e2: "entries_ok s2 [0..<?n]" using e(1) 2 by (simp add: entries_ok_def l2)
  have "install_writes s2 [0..<?n] = home_writes s"
  proof -
    have "blk s2 (log_block s t) = blk s (lhblock s ! t)" if t: "t < ?n" for t
    proof -
      have "blk s2 (log_block s t) = blk s1 (log_block s t)"
        using log_block_facts(3) [OF i(2) lb [OF t]] by (simp add: 2(5))
      also have "\<dots> = blk s (lhblock s ! t)" unfolding 1(5)
      proof (rule apply_writes_in)
        show "distinct (map fst (log_writes s [0..<?n]))"
          using log_block_facts(4) [OF i(2) lb lb] by (auto simp: log_writes_def distinct_map comp_def inj_on_def)
      qed (use t in \<open>auto simp: log_writes_def\<close>)
      finally show ?thesis .
    qed
    then show ?thesis
      by (intro nth_equalityI) (simp_all add: install_writes_def home_writes_def l2 nth_logged)
  qed
  moreover have "distinct (map (\<lambda>t. lhblock s2 ! t) [0..<?n])"
  proof -
    have "map (\<lambda>t. lhblock s2 ! t) [0..<?n] = logged s" by (rule nth_equalityI) (simp_all add: l2 nth_logged)
    then show ?thesis using i(5) by (simp add: trans_ok_def)
  qed
  moreover have "\<forall>t\<in>set [0..<?n]. lhblock s2 ! t \<in> dirtyb s2" using i(6) by (auto simp: 2(8) l2 nth_logged)
  moreover have "dirtyb s - set (map (\<lambda>t. lhblock s2 ! t) [0..<?n]) = {}"
    using i(6) by (auto simp: l2 in_set_conv_nth nth_logged)
  ultimately obtain s3 where 3: "install_trans s2 = Ok s3" "binv s3" "heldb s3 = {}" "same_but_cache s2 s3"
    "blk s3 = apply_writes (home_writes s) (blk s2)" "disk s3 = apply_writes (home_writes s) (disk s2)"
    "dwrites s3 = dwrites s2 @ home_writes s" "dirtyb s3 = {}"
    using install_loop_spec [OF e2] by (auto simp: install_trans_def l2 n 2(8))
  have s3: "same_but_cache s s3" by (rule same_but_cache_trans [OF s2 3(4)])
  note l3 = same_lst [OF s3] same_log [OF s3]
  have "lstart s \<notin> fst ` set (home_writes s)" using e(2) i(6) by (auto simp: home_writes_def)
  then have st3: "blk s3 (lstart s) = ?h" by (simp add: 3(5) 2(5) apply_writes_notin)
  have "logged (s3\<lparr>lhn := 0\<rparr>) = []" by (simp add: logged_def)
  then obtain s4 where 4: "write_head (s3\<lparr>lhn := 0\<rparr>) = Ok s4" "binv s4" "heldb s4 = {}" "same_but_cache (s3\<lparr>lhn := 0\<rparr>) s4"
    "disk s4 = (disk s3)(lstart s := head_block [] ?h)" "dwrites s4 = dwrites s3 @ [(lstart s, head_block [] ?h)]" "dirtyb s4 = {}"
    using write_head_spec [of "s3\<lparr>lhn := 0\<rparr>"] 3(2,3,8) i l3 st3 by (auto simp: NBUF_def)
  have "same_but_cache (s\<lparr>lhn := 0\<rparr>) s4" by (rule same_but_cache_trans [OF same_but_cache_lhn [OF s3] 4(4)])
  moreover have "commit s = Ok s4" using 1(1) 2(1) 3(1) 4(1) pos by (simp add: commit_def)
  moreover have "disk s4 = apply_writes (commit_writes s) (disk s)"
    by (simp add: commit_writes_def Let_def apply_writes_append 4(5) 3(6) 2(6) 1(6) del: fun_upd_apply)
  ultimately show ?thesis
    by (intro exI [of _ s4]) (use 4 3 2 1 in \<open>simp add: commit_writes_def Let_def\<close>)
qed

section \<open>Recovery\<close>

text \<open>A disk whose log recovery can read.\<close>

definition log_disk_ok :: "'a lst_scheme \<Rightarrow> (u32 \<Rightarrow> block) \<Rightarrow> bool" where
  "log_disk_ok s d \<longleftrightarrow> (\<forall>n. length (d n) = BSIZE) \<and> 0 \<le> hdr_n (d (lstart s)) \<and> trans_ok s (hdr_blocks (d (lstart s)))"

text \<open>The installs recovery makes, and what the home blocks hold after it.\<close>

definition rec_installs :: "'a lst_scheme \<Rightarrow> (u32 \<Rightarrow> block) \<Rightarrow> (u32 \<times> block) list" where
  "rec_installs s d = (let bs = hdr_blocks (d (lstart s)) in map (\<lambda>t. (bs ! t, d (log_block s t))) [0..<length bs])"

definition recovered :: "'a lst_scheme \<Rightarrow> (u32 \<Rightarrow> block) \<Rightarrow> u32 \<Rightarrow> block" where
  "recovered s d = apply_writes (rec_installs s d) d"

definition rec_writes :: "'a lst_scheme \<Rightarrow> (u32 \<Rightarrow> block) \<Rightarrow> (u32 \<times> block) list" where
  "rec_writes s d = rec_installs s d @ [(lstart s, head_block [] (d (lstart s)))]"

lemma view_lh [simp]:
  "binv (s\<lparr>lhn := k, lhblock := b\<rparr>) = binv s" "heldb (s\<lparr>lhn := k, lhblock := b\<rparr>) = heldb s"
  "dirtyb (s\<lparr>lhn := k, lhblock := b\<rparr>) = dirtyb s" "blk (s\<lparr>lhn := k, lhblock := b\<rparr>) = blk s"
  "holds (s\<lparr>lhn := k, lhblock := b\<rparr>) = holds s" "log_geom (s\<lparr>lhn := k, lhblock := b\<rparr>) = log_geom s"
  "log_region (s\<lparr>lhn := k, lhblock := b\<rparr>) = log_region s" "log_block (s\<lparr>lhn := k, lhblock := b\<rparr>) = log_block s"
  using view_cong [of "s\<lparr>lhn := k, lhblock := b\<rparr>" s]
  by (simp_all add: log_geom_def log_region_def log_block_def fun_eq_iff)

lemma same_but_cache_lh:
  assumes "same_but_cache s s'"
  shows "same_but_cache (s\<lparr>lhn := k, lhblock := b\<rparr>) (s'\<lparr>lhn := k, lhblock := b\<rparr>)"
proof -
  have "s'\<lparr>lhn := k, lhblock := b\<rparr> = s\<lparr>bufs := bufs s', disk := disk s', dwrites := dwrites s'\<rparr>\<lparr>lhn := k, lhblock := b\<rparr>"
    using assms unfolding same_but_cache_def by (rule arg_cong)
  also have "\<dots> = s\<lparr>lhn := k, lhblock := b\<rparr>\<lparr>bufs := bufs s', disk := disk s', dwrites := dwrites s'\<rparr>" by simp
  finally show ?thesis unfolding same_but_cache_def by simp
qed

lemma read_head_spec:
  assumes b: "binv s" "heldb s = {}" "dirtyb s = {}" "log_geom s" "length (lhblock s) = LOGSIZE"
    and d: "0 \<le> hdr_n (disk s (lstart s))" "hdr_n (disk s (lstart s)) \<le> int LOGSIZE"
  shows "\<exists>s' bs. read_head s = Ok s' \<and> binv s' \<and> heldb s' = {} \<and> dirtyb s' = {} \<and> disk s' = disk s \<and> dwrites s' = dwrites s \<and>
    same_but_cache (s\<lparr>lhn := hdr_n (disk s (lstart s)), lhblock := bs\<rparr>) s' \<and> logged s' = hdr_blocks (disk s (lstart s)) \<and>
    length bs = LOGSIZE"
proof -
  let ?d = "disk s (lstart s)"
  let ?n = "hdr_n ?d"
  let ?bs = "map (\<lambda>i. if i < nat ?n then word_at ?d (Suc i) else lhblock s ! i) [0..<LOGSIZE]"
  have "room s (lstart s)" using b by (simp add: room_def NBUF_def)
  moreover have "lstart s < disksize s" "ldev s = 1" using start_facts [OF b(4)] b(4) by (simp_all add: log_geom_def)
  ultimately obtain i s1 where 1: "bread (ldev s) (lstart s) s = Ok (i, s1)" "binv s1" "holds s1 i (lstart s)" "blk s1 = blk s"
    "disk s1 = disk s" "dwrites s1 = dwrites s" "dirtyb s1 = {}" "heldb s1 = {lstart s}" "same_but_cache s s1"
    using bread_law [OF b(1), of "lstart s"] b(2,3) by auto
  have bd: "blk s (lstart s) = ?d" by (rule blk_clean) (use b in auto)
  then have dat: "bdata (bufs s1 i) = ?d" using holds_facts(4) [OF 1(2,3)] 1(4) by simp
  let ?s1 = "s1\<lparr>lhn := ?n, lhblock := ?bs\<rparr>"
  obtain s' where 2: "brelse i ?s1 = Ok s'" "binv s'" "heldb s' = {}" "dirtyb s' = {}" "disk s' = disk s" "dwrites s' = dwrites s"
    "same_but_cache ?s1 s'"
    using brelse_law [of ?s1 i "lstart s"] 1 bd by auto
  have "read_head s = Ok s'"
    using 1(1) 2(1) d same_lst [OF 1(9)] dat by (simp add: read_head_def Let_def hdr_n_def cong: if_cong)
  moreover have s': "same_but_cache (s\<lparr>lhn := ?n, lhblock := ?bs\<rparr>) s'"
    by (rule same_but_cache_trans [OF same_but_cache_lh [OF 1(9)] 2(7)])
  moreover have "logged s' = hdr_blocks ?d"
  proof -
    have "logged s' = take (nat ?n) ?bs" using same_lst [OF s'] by (simp add: logged_def)
    also have "\<dots> = hdr_blocks ?d" by (rule nth_equalityI) (use d in \<open>auto simp: hdr_blocks_def\<close>)
    finally show ?thesis .
  qed
  ultimately show ?thesis by (intro exI [of _ s'] exI [of _ ?bs]) (use 2 in simp)
qed

lemma length_hdr_blocks: "length (hdr_blocks d) = nat (hdr_n d)"
  by (simp add: hdr_blocks_def)

lemma rec_installs_fst: "map fst (rec_installs s d) = hdr_blocks (d (lstart s))"
  by (rule nth_equalityI) (simp_all add: rec_installs_def Let_def)

lemma rec_installs_set: "fst ` set (rec_installs s d) = set (hdr_blocks (d (lstart s)))"
  using rec_installs_fst [of s d] by (metis set_map)

lemma recover_spec:
  assumes b: "binv s" "heldb s = {}" "dirtyb s = {}" "log_geom s" "length (lhblock s) = LOGSIZE"
    and ok: "log_disk_ok s (disk s)"
  shows "\<exists>s' bs. recover_from_log s = Ok s' \<and> binv s' \<and> heldb s' = {} \<and> dirtyb s' = {} \<and>
    same_but_cache (s\<lparr>lhn := 0, lhblock := bs\<rparr>) s' \<and> length bs = LOGSIZE \<and>
    disk s' = apply_writes (rec_writes s (disk s)) (disk s) \<and> dwrites s' = dwrites s @ rec_writes s (disk s)"
proof -
  let ?d = "disk s (lstart s)"
  let ?hb = "hdr_blocks ?d"
  have t: "0 \<le> hdr_n ?d" "trans_ok s ?hb" using ok by (simp_all add: log_disk_ok_def)
  then have n: "hdr_n ?d \<le> int LOGSIZE" by (auto simp: trans_ok_def length_hdr_blocks)
  obtain s1 bs where 1: "read_head s = Ok s1" "binv s1" "heldb s1 = {}" "dirtyb s1 = {}" "disk s1 = disk s" "dwrites s1 = dwrites s"
    "same_but_cache (s\<lparr>lhn := hdr_n ?d, lhblock := bs\<rparr>) s1" "logged s1 = ?hb" "length bs = LOGSIZE"
    using read_head_spec [OF b t(1) n] by blast
  note l1 = same_lst [OF 1(7)] same_log [OF 1(7)]
  have tr: "trans_ok s1 ?hb" using t(2) by (simp add: trans_ok_def l1)
  have clean: "blk s1 m = disk s m" for m using blk_clean [OF 1(2)] 1(3,4,5) by simp
  have lh: "bs ! u = ?hb ! u" if "u < length ?hb" for u using nth_logged [of u s1] that 1(8) l1(7) by simp
  have "entries_ok s1 [0..<length ?hb]"
    unfolding entries_ok_def using 1 b(4) tr nth_mem [of _ ?hb]
    by (auto simp: l1 trans_ok_def NBUF_def lh)
  moreover have mp: "map (\<lambda>t. lhblock s1 ! t) [0..<length ?hb] = ?hb" by (rule nth_equalityI) (simp_all add: lh l1(7))
  then have "distinct (map (\<lambda>t. lhblock s1 ! t) [0..<length ?hb])" using tr by (simp add: trans_ok_def)
  moreover have "install_writes s1 [0..<length ?hb] = rec_installs s (disk s)"
    by (rule nth_equalityI) (simp_all add: install_writes_def rec_installs_def Let_def lh clean l1)
  ultimately obtain s2 where 2: "install_trans s1 = Ok s2" "binv s2" "heldb s2 = {}" "dirtyb s2 = {}" "same_but_cache s1 s2"
    "blk s2 = apply_writes (rec_installs s (disk s)) (blk s1)" "disk s2 = apply_writes (rec_installs s (disk s)) (disk s)"
    "dwrites s2 = dwrites s @ rec_installs s (disk s)"
    using install_loop_spec [of s1 "[0..<length ?hb]"] 1(4,5,6) by (auto simp: install_trans_def l1 length_hdr_blocks)
  note l2 = same_lst [OF 2(5)] same_log [OF 2(5)]
  have "lstart s \<notin> fst ` set (rec_installs s (disk s))"
    using t(2) start_facts [OF b(4)] by (auto simp: rec_installs_set trans_ok_def)
  then have st: "blk s2 (lstart s) = ?d" by (simp add: 2(6) apply_writes_notin clean)
  have "logged (s2\<lparr>lhn := 0\<rparr>) = []" by (simp add: logged_def)
  then obtain s' where 3: "write_head (s2\<lparr>lhn := 0\<rparr>) = Ok s'" "binv s'" "heldb s' = {}" "dirtyb s' = {}"
    "same_but_cache (s2\<lparr>lhn := 0\<rparr>) s'" "disk s' = (disk s2)(lstart s := head_block [] ?d)"
    "dwrites s' = dwrites s2 @ [(lstart s, head_block [] ?d)]"
    using write_head_spec [of "s2\<lparr>lhn := 0\<rparr>"] 2(2-4) b(4) 1(9) st by (auto simp: NBUF_def l1 l2)
  have "same_but_cache (s\<lparr>lhn := hdr_n ?d, lhblock := bs\<rparr>) s2" by (rule same_but_cache_trans [OF 1(7) 2(5)])
  from same_but_cache_trans [OF same_but_cache_lhn [OF this] 3(5)]
  have "same_but_cache (s\<lparr>lhblock := bs, lhn := 0\<rparr>) s'" by simp
  moreover have "s\<lparr>lhblock := bs, lhn := 0\<rparr> = s\<lparr>lhn := 0, lhblock := bs\<rparr>" by simp
  ultimately have "same_but_cache (s\<lparr>lhn := 0, lhblock := bs\<rparr>) s'" by (simp only:)
  moreover have "recover_from_log s = Ok s'" using 1(1) 2(1) 3(1) by (simp add: recover_from_log_def)
  ultimately show ?thesis
    by (intro exI [of _ s'] exI [of _ bs])
      (use 3 2 1(9) in \<open>simp add: rec_writes_def apply_writes_append del: fun_upd_apply\<close>)
qed

section \<open>Crashes\<close>

text \<open>The machine restarts on disk \<open>d\<close>: memory is zeroed and \<^verbatim>\<open>binit\<close> has run.\<close>

definition reboot :: "'a lst_scheme \<Rightarrow> (u32 \<Rightarrow> block) \<Rightarrow> 'a lst_scheme" where
  "reboot s d = binit (s\<lparr>bufs := (\<lambda>_. zbuf), disk := d, lstart := 0, lsize := 0, outstanding := 0, committing := False,
     ldev := 0, lhn := 0, lhblock := replicate LOGSIZE 0\<rparr>)"

text \<open>The superblock on \<open>d\<close> names the log the state uses.\<close>

definition sb_match :: "'a lst_scheme \<Rightarrow> (u32 \<Rightarrow> block) \<Rightarrow> bool" where
  "sb_match s d \<longleftrightarrow> sb_logstart (superblock_of (d 1)) = lstart s \<and> sint (sb_nlog (superblock_of (d 1))) = lsize s"

lemma rec_cong: "lstart s' = lstart s \<Longrightarrow> rec_writes s' d = rec_writes s d"
  by (simp add: rec_writes_def rec_installs_def log_block_def)

lemma view_geom:
  "binv (s\<lparr>lstart := a, lsize := z, ldev := v\<rparr>) = binv s" "heldb (s\<lparr>lstart := a, lsize := z, ldev := v\<rparr>) = heldb s"
  "dirtyb (s\<lparr>lstart := a, lsize := z, ldev := v\<rparr>) = dirtyb s"
  using view_cong [of "s\<lparr>lstart := a, lsize := z, ldev := v\<rparr>" s] by simp_all

lemma initlog_spec:
  assumes g: "log_geom s" and ok: "log_disk_ok s d" "sb_match s d"
  shows "\<exists>r. initlog 1 (reboot s d) = Ok r \<and> binv r \<and> heldb r = {} \<and> dirtyb r = {} \<and> lhn r = 0 \<and> length (lhblock r) = LOGSIZE \<and>
    lstart r = lstart s \<and> lsize r = lsize s \<and> ldev r = 1 \<and> disksize r = disksize s \<and> outstanding r = 0 \<and> \<not> committing r \<and>
    disk r = apply_writes (rec_writes s d) d \<and> dwrites r = dwrites s @ rec_writes s d"
proof -
  let ?b = "reboot s d"
  let ?z = "s\<lparr>bufs := (\<lambda>_. zbuf), disk := d, lstart := 0, lsize := 0, outstanding := 0, committing := False,
     ldev := 0, lhn := 0, lhblock := replicate LOGSIZE 0\<rparr>"
  have "length (disk ?z n) = BSIZE" for n using ok(1) by (simp add: log_disk_ok_def)
  note b = binit_spec [of ?z, OF _ this, folded reboot_def, simplified]
  have f: "disk ?b = d" "disksize ?b = disksize s" "dwrites ?b = dwrites s" "lhblock ?b = replicate LOGSIZE 0"
    "outstanding ?b = 0" "\<not> committing ?b"
    by (simp_all add: reboot_def binit_def Let_def)
  have one: "(1 :: u32) < disksize s" using g by (auto simp: log_geom_def word_less_nat_alt)
  have "1 \<in> dirtyb ?b \<or> blk ?b 1 = disk ?b 1" using b(4) f(1) by simp
  moreover have "room ?b 1" using b by (simp add: room_def NBUF_def)
  ultimately obtain i s1 s2 where 1: "bread 1 1 ?b = Ok (i, s1)" "bdata (bufs s1 i) = d 1" "brelse i s1 = Ok s2" "binv s2"
    "disk s2 = d" "dwrites s2 = dwrites s" "dirtyb s2 = {}" "heldb s2 = {}" "same_but_cache ?b s2"
    using bio.read_block [of ?b 1] b one f by auto
  let ?s3 = "s2\<lparr>lstart := lstart s, lsize := lsize s, ldev := 1\<rparr>"
  note l2 = same_lst [OF 1(9)]
  have rd: "initlog 1 ?b = recover_from_log ?s3"
    using 1(1-3) ok(2) by (simp add: initlog_def readsb_def BSIZE_def sizeof_logheader_def LOGSIZE_def sb_match_def Let_def)
  have g3: "log_geom ?s3" using g l2 f by (simp add: log_geom_def)
  have "log_region ?s3 = log_region s" by (simp add: log_region_def)
  then have ok3: "log_disk_ok ?s3 (disk ?s3)" using ok(1) l2 f 1(5) by (simp add: log_disk_ok_def trans_ok_def)
  have "binv ?s3" "heldb ?s3 = {}" "dirtyb ?s3 = {}" using 1(4,7,8) by (simp_all add: view_geom)
  from recover_spec [OF this g3 _ ok3] obtain r bs where r: "recover_from_log ?s3 = Ok r" "binv r" "heldb r = {}" "dirtyb r = {}"
    "same_but_cache (?s3\<lparr>lhn := 0, lhblock := bs\<rparr>) r" "length bs = LOGSIZE"
    "disk r = apply_writes (rec_writes ?s3 d) d" "dwrites r = dwrites s @ rec_writes ?s3 d"
    using l2 f 1(5,6) by auto
  have "rec_writes ?s3 d = rec_writes s d" by (rule rec_cong) simp
  then show ?thesis
    using r rd same_lst [OF r(5)] l2 f by (intro exI [of _ r]) simp
qed

text \<open>A restarted system is in the state the invariant describes, with an empty transaction.\<close>

lemma linv_boot:
  assumes "binv r" "heldb r = {}" "dirtyb r = {}" "lhn r = 0" "length (lhblock r) = LOGSIZE" "log_geom r"
    and "hdr_n (disk r (lstart r)) = 0"
  shows "linv r"
  using assms by (simp add: linv_def logged_def trans_ok_def LOGSIZE_def log_geom_def)

lemma hdr_n_empty: "length d = BSIZE \<Longrightarrow> hdr_n (head_block [] d) = 0"
  using head_block(2) [of "[]" d] by simp

lemma hdr_blocks_empty: "hdr_n d = 0 \<Longrightarrow> hdr_blocks d = []"
  by (simp add: hdr_blocks_def)

lemma recovered_empty: "hdr_n (d (lstart s)) = 0 \<Longrightarrow> recovered s d = d"
  by (simp add: recovered_def rec_installs_def hdr_blocks_empty)

lemma apply_writes_len:
  assumes "\<And>w. w \<in> set ws \<Longrightarrow> length (snd w) = BSIZE" "\<And>n. length (d n) = BSIZE"
  shows "length (apply_writes ws d m) = BSIZE"
  using assms
proof (induction ws arbitrary: d)
  case (Cons w ws)
  have "length (apply_writes ws (d(fst w := snd w)) m) = BSIZE"
    by (rule Cons.IH) (use Cons.prems in auto)
  then show ?case by (simp add: apply_writes_Cons)
qed simp

text \<open>Writing the same blocks again hides what part of them had been written before.\<close>

lemma apply_writes_hides: "m \<in> fst ` set ws \<Longrightarrow> apply_writes ws d m = apply_writes ws d' m"
proof (induction ws arbitrary: d d')
  case (Cons w ws)
  show ?case
  proof (cases "m \<in> fst ` set ws")
    case True
    then show ?thesis unfolding apply_writes_Cons by (rule Cons.IH)
  next
    case False
    with Cons.prems have "m = fst w" by auto
    then show ?thesis unfolding apply_writes_Cons by (intro apply_writes_cong) simp
  qed
qed simp

lemma apply_writes_again: "apply_writes ws (apply_writes (take k ws) d) = apply_writes ws d"
proof
  fix m
  show "apply_writes ws (apply_writes (take k ws) d) m = apply_writes ws d m"
  proof (cases "m \<in> fst ` set ws")
    case True
    then show ?thesis by (rule apply_writes_hides)
  next
    case False
    then have "m \<notin> fst ` set (take k ws)" using set_take_subset [of k ws] by blast
    then show ?thesis by (intro apply_writes_cong apply_writes_notin)
  qed
qed

text \<open>Recovery can itself be interrupted: whatever part of its writes is done, the disk left behind
  is readable and recovers to the same contents.\<close>

lemma rec_prefix:
  assumes g: "log_geom s" and ok: "log_disk_ok s d" and d'_def: "d' = apply_writes (take k (rec_writes s d)) d"
  shows "log_disk_ok s d'" "\<And>m. m \<notin> log_region s \<Longrightarrow> recovered s d' m = recovered s d m"
    "set (hdr_blocks (d' (lstart s))) \<subseteq> set (hdr_blocks (d (lstart s)))"
    "\<And>m. m \<notin> log_region s \<Longrightarrow> m \<notin> set (hdr_blocks (d (lstart s))) \<Longrightarrow> d' m = d m"
proof -
  let ?I = "rec_installs s d" and ?st = "lstart s"
  let ?hb = "hdr_blocks (d ?st)"
  have t: "trans_ok s ?hb" and len: "\<And>n. length (d n) = BSIZE" using ok by (simp_all add: log_disk_ok_def)
  have st: "?st \<in> log_region s" using start_facts [OF g] by simp
  have nl: "m \<notin> set ?hb" if "m \<in> log_region s" for m using t that by (auto simp: trans_ok_def)
  have Il: "length (snd w) = BSIZE" if "w \<in> set ?I" for w using that len by (auto simp: rec_installs_def Let_def)
  have keep: "apply_writes (take j ?I) d m = d m" if "m \<in> log_region s" for j m
    using nl [OF that] set_take_subset [of j ?I] by (intro apply_writes_notin) (auto simp: rec_installs_set [symmetric])
  have "log_disk_ok s d' \<and> (\<forall>m. m \<notin> log_region s \<longrightarrow> recovered s d' m = recovered s d m) \<and>
    set (hdr_blocks (d' ?st)) \<subseteq> set ?hb \<and> (\<forall>m. m \<notin> log_region s \<longrightarrow> m \<notin> set ?hb \<longrightarrow> d' m = d m)"
  proof (cases "k \<le> length ?I")
    case True
    then have d': "d' = apply_writes (take k ?I) d" by (simp add: d'_def rec_writes_def)
    have h: "d' ?st = d ?st" unfolding d' by (rule keep [OF st])
    have "int t + 1 < lsize s" if "t < length ?hb" for t using t that by (simp add: trans_ok_def)
    then have lb: "d' (log_block s t) = d (log_block s t)" if "t < length ?hb" for t
      unfolding d' using that by (intro keep log_block_facts(1) [OF g]) simp
    have "rec_installs s d' = ?I" unfolding rec_installs_def h Let_def using lb by simp
    then have "recovered s d' = recovered s d" unfolding recovered_def by (simp add: d' apply_writes_again)
    moreover have "length (d' n) = BSIZE" for n
      unfolding d' by (rule apply_writes_len [OF _ len]) (use Il in_set_takeD in fast)
    moreover have "d' m = d m" if "m \<notin> set ?hb" for m
      unfolding d' using that set_take_subset [of k ?I]
      by (intro apply_writes_notin) (auto simp: rec_installs_set [symmetric])
    ultimately show ?thesis using ok h by (simp add: log_disk_ok_def)
  next
    case False
    then have d': "d' = (apply_writes ?I d)(?st := head_block [] (d ?st))"
      by (simp add: d'_def rec_writes_def apply_writes_append)
    have e: "hdr_n (d' ?st) = 0" by (simp add: d' hdr_n_empty len)
    have "recovered s d' m = recovered s d m" if "m \<notin> log_region s" for m
      using that st by (simp add: recovered_empty [of d' s, OF e]) (auto simp: d' recovered_def)
    moreover have "length (d' n) = BSIZE" for n
      using apply_writes_len [OF Il len] head_block(1) [of "[]" "d ?st"] len by (simp add: d')
    moreover have "d' m = d m" if "m \<notin> log_region s" "m \<notin> set ?hb" for m
      using that st by (auto simp: d' apply_writes_notin rec_installs_set)
    ultimately show ?thesis
      using e g by (simp add: log_disk_ok_def hdr_blocks_empty trans_ok_def LOGSIZE_def log_geom_def)
  qed
  then show "log_disk_ok s d'" "\<And>m. m \<notin> log_region s \<Longrightarrow> recovered s d' m = recovered s d m"
    "set (hdr_blocks (d' ?st)) \<subseteq> set ?hb" "\<And>m. m \<notin> log_region s \<Longrightarrow> m \<notin> set ?hb \<Longrightarrow> d' m = d m"
    by blast+
qed

text \<open>The same for the writes of a commit: up to the write of the header the disk recovers to the old
  contents, from then on to the new ones.\<close>

lemma home_writes_fst: "map fst (home_writes s) = logged s"
  by (simp add: home_writes_def comp_def)

lemma home_writes_apply:
  assumes "distinct (logged s)" "\<And>m. m \<notin> set (logged s) \<Longrightarrow> d m = blk s m \<or> m \<in> R" "m \<notin> R"
  shows "apply_writes (home_writes s) d m = blk s m"
proof (cases "m \<in> set (logged s)")
  case True
  then show ?thesis by (intro apply_writes_in) (simp_all add: home_writes_fst assms(1), simp add: home_writes_def)
next
  case False
  then have "apply_writes (home_writes s) d m = d m"
    by (intro apply_writes_notin) (simp add: home_writes_fst flip: set_map)
  with False assms show ?thesis by auto
qed

text \<open>A disk a crash may leave during the commit of \<open>s\<close>.\<close>

definition crash_ok :: "'a lst_scheme \<Rightarrow> (u32 \<Rightarrow> block) \<Rightarrow> bool" where
  "crash_ok s d \<longleftrightarrow> log_disk_ok s d \<and> d 1 = disk s 1 \<and> 1 \<notin> set (hdr_blocks (d (lstart s))) \<and>
     ((\<forall>m. m \<notin> log_region s \<longrightarrow> recovered s d m = disk s m) \<or>
      (\<forall>m. m \<notin> log_region s \<longrightarrow> recovered s d m = blk s m))"

lemma one_notin_log: "log_geom s \<Longrightarrow> 1 \<notin> log_region s"
  by (auto simp: log_geom_def log_region_def)

lemma trans_ok_Nil: "log_geom s \<Longrightarrow> trans_ok s []"
  by (simp add: trans_ok_def log_geom_def LOGSIZE_def)

lemma crash_ok_empty:
  assumes "log_geom s" "\<And>n. length (d n) = BSIZE" "hdr_n (d (lstart s)) = 0" "d 1 = disk s 1"
    and "(\<forall>m. m \<notin> log_region s \<longrightarrow> d m = disk s m) \<or> (\<forall>m. m \<notin> log_region s \<longrightarrow> d m = blk s m)"
  shows "crash_ok s d"
  using assms by (simp add: crash_ok_def log_disk_ok_def hdr_blocks_empty trans_ok_Nil recovered_empty)

lemma commit_prefix:
  assumes l: "linv s" "heldb s = {}" and one: "1 \<notin> set (logged s)"
  shows "crash_ok s (apply_writes (take k (commit_writes s)) (disk s))"
proof -
  let ?st = "lstart s" and ?n = "length (logged s)"
  let ?L = "log_writes s [0..<?n]" and ?H = "home_writes s" and ?h = "head_block (logged s) (blk s (lstart s))"
  let ?D1 = "apply_writes ?L (disk s)"
  let ?D2 = "?D1(?st := ?h)"
  have i: "binv s" "log_geom s" "trans_ok s (logged s)" "dirtyb s = set (logged s)" "hdr_n (disk s ?st) = 0"
    using l by (simp_all add: linv_def)
  have len: "length (disk s n) = BSIZE" for n using i(1) by (simp add: binv_def)
  have bl: "length (blk s n) = BSIZE" for n by (rule length_blk [OF i(1)])
  have t: "length (logged s) \<le> LOGSIZE" "distinct (logged s)" "\<And>m. m \<in> log_region s \<Longrightarrow> m \<notin> set (logged s)"
    using i(3) by (auto simp: trans_ok_def)
  note h = head_block [OF t(1) bl, of ?st]
  have st: "?st \<in> log_region s" using start_facts [OF i(2)] by simp
  have lb: "int t + 1 < lsize s" if "t < ?n" for t using i(3) that by (simp add: trans_ok_def)
  have Lr: "fst ` set ?L \<subseteq> log_region s - {?st}"
    using log_block_facts(1,3) [OF i(2) lb] by (auto simp: log_writes_def)
  have Ltk: "fst ` set (take j ?L) \<subseteq> log_region s - {?st}" for j using Lr set_take_subset [of j ?L] by blast
  have clean: "m \<in> set (logged s) \<or> disk s m = blk s m" for m using blk_clean [OF i(1), of m] i(4) l(2) by auto
  have D1: "?D1 m = disk s m" if "m \<notin> log_region s" for m
    by (rule apply_writes_notin) (use Lr that in blast)
  have wl: "length (snd w) = BSIZE" if "w \<in> set ?L \<union> set ?H" for w
    using that bl by (auto simp: log_writes_def home_writes_def)
  have D2len: "length (?D2 n) = BSIZE" for n using h(1) apply_writes_len [of ?L "disk s"] wl len by simp
  have new: "apply_writes ?H (apply_writes (take j ?H) ?D2) m = blk s m" if "m \<notin> log_region s" for j m
    unfolding apply_writes_again
  proof (rule home_writes_apply [OF t(2) _ that])
    fix m assume "m \<notin> set (logged s)"
    then show "?D2 m = blk s m \<or> m \<in> log_region s" using clean [of m] st D1 [of m] by auto
  qed
  have Hout: "apply_writes (take j ?H) ?D2 m = ?D2 m" if "m \<notin> set (logged s)" for j m
  proof (rule apply_writes_notin)
    have "fst ` set (take j ?H) \<subseteq> set (logged s)"
      using set_take_subset [of j ?H] home_writes_fst [of s] by (metis image_mono set_map)
    then show "m \<notin> fst ` set (take j ?H)" using that by blast
  qed
  have D21: "?D2 1 = disk s 1" using one_notin_log [OF i(2)] st D1 [of 1] by auto
  have Hn: "length ?H = ?n" "\<And>u. u < ?n \<Longrightarrow> ?H ! u = (logged s ! u, blk s (logged s ! u))" and Ln: "length ?L = ?n"
    by (simp_all add: home_writes_def log_writes_def)
  have mid: "crash_ok s (apply_writes (take j ?H) ?D2)" (is "crash_ok s ?d") for j
  proof -
    have dst: "?d ?st = ?h" using Hout [OF t(3) [OF st], of j] by simp
    have dlog: "?d (log_block s u) = blk s (logged s ! u)" if u: "u < ?n" for u
    proof -
      note lf = log_block_facts [OF i(2) lb [OF u]]
      have "?d (log_block s u) = ?D1 (log_block s u)" using Hout [OF t(3) [OF lf(1)], of j] lf(3) by simp
      also have "\<dots> = blk s (lhblock s ! u)"
      proof (rule apply_writes_in)
        show "distinct (map fst ?L)"
          using log_block_facts(4) [OF i(2) lb lb] by (auto simp: log_writes_def distinct_map comp_def inj_on_def)
      qed (use u in \<open>auto simp: log_writes_def\<close>)
      finally show ?thesis by (simp add: nth_logged [OF u])
    qed
    have "rec_installs s ?d = ?H"
      unfolding rec_installs_def dst h(3) Let_def
      by (rule nth_equalityI) (simp_all add: Hn dlog)
    then have "recovered s ?d m = blk s m" if "m \<notin> log_region s" for m
      using new [OF that] by (simp add: recovered_def)
    moreover have "length (?d n) = BSIZE" for n
      by (rule apply_writes_len [OF _ D2len]) (use wl in_set_takeD in fast)
    moreover have "?d 1 = disk s 1" using Hout [OF one] D21 by simp
    ultimately show ?thesis
      using i(3) one by (simp add: crash_ok_def log_disk_ok_def dst h)
  qed
  have W: "commit_writes s = ?L @ (?st, ?h) # ?H @ [(?st, head_block [] ?h)]"
    by (simp add: commit_writes_def Let_def)
  consider (log) "k \<le> ?n" | (home) j where "j \<le> ?n" "k = ?n + Suc j" | (all) "2 * ?n + 2 \<le> k"
  proof (cases "k \<le> ?n \<or> 2 * ?n + 2 \<le> k")
    case False
    then have "k - Suc ?n \<le> ?n" "k = ?n + Suc (k - Suc ?n)" by auto
    then show thesis by (rule home)
  qed (use log all in blast)
  then show ?thesis
  proof cases
    case log
    let ?d = "apply_writes (take k ?L) (disk s)"
    have out: "?d m = disk s m" if "m \<notin> log_region s \<or> m = ?st" for m
      by (rule apply_writes_notin) (use Ltk [of k] that in blast)
    have "crash_ok s ?d"
    proof (rule crash_ok_empty [OF i(2)])
      show "length (?d n) = BSIZE" for n by (rule apply_writes_len [OF _ len]) (use wl in_set_takeD in fast)
      show "hdr_n (?d ?st) = 0" using out [of ?st] i(5) by simp
      show "?d 1 = disk s 1" using out one_notin_log [OF i(2)] by simp
    qed (use out in simp)
    with log show ?thesis by (simp add: W Ln)
  next
    case home
    have "take k (commit_writes s) = ?L @ (?st, ?h) # take j ?H" unfolding W home(2) using home(1) by (simp add: Ln Hn)
    then show ?thesis using mid [of j] by (simp add: apply_writes_append)
  next
    case all
    let ?d = "(apply_writes ?H ?D2)(?st := head_block [] ?h)"
    have out: "?d m = blk s m" if "m \<notin> log_region s" for m
      using new [OF that, of 0] that st by auto
    have "crash_ok s ?d"
    proof (rule crash_ok_empty [OF i(2)])
      have "length (apply_writes ?H ?D2 n) = BSIZE" for n by (rule apply_writes_len [OF _ D2len]) (use wl in blast)
      then show "length (?d n) = BSIZE" for n using head_block(1) [of "[]" ?h] h(1) by simp
      show "hdr_n (?d ?st) = 0" using h(1) by (simp add: hdr_n_empty)
      show "?d 1 = disk s 1" using out [of 1] one_notin_log [OF i(2)] clean [of 1] one by simp
    qed (use out in simp)
    with all show ?thesis by (simp add: W Ln Hn apply_writes_append)
  qed
qed

text \<open>
  The disks that any number of crashes can leave behind: the first during the commit of the transaction
  of \<open>s\<close> (after some number of its block writes), the following ones while the restarted kernel recovers.
\<close>

inductive crash_disk :: "'a lst_scheme \<Rightarrow> (u32 \<Rightarrow> block) \<Rightarrow> bool" for s where
  in_commit: "commit s = Ok s' \<Longrightarrow> dwrites s' = dwrites s @ ws \<Longrightarrow> crash_disk s (apply_writes (take k ws) (disk s))"
| in_recovery: "crash_disk s d \<Longrightarrow> initlog 1 (reboot s d) = Ok r \<Longrightarrow> dwrites r = dwrites s @ ws \<Longrightarrow>
    crash_disk s (apply_writes (take k ws) d)"

lemma commit_nothing: "lhn s = 0 \<Longrightarrow> commit s = Ok s"
  by (simp add: commit_def)

lemma linv_crash_ok:
  assumes l: "linv s" "heldb s = {}" and one: "1 \<notin> set (logged s)"
  shows "crash_ok s (disk s)"
  using commit_prefix [OF assms, of 0] by simp

lemma crash_disk_ok:
  assumes l: "linv s" "heldb s = {}" and one: "1 \<notin> set (logged s)" and sb: "sb_match s (disk s)"
  shows "crash_disk s d \<Longrightarrow> crash_ok s d"
proof (induction rule: crash_disk.induct)
  case (in_commit s' ws k)
  show ?case
  proof (cases "lhn s = 0")
    case True
    then have "ws = []" using in_commit by (simp add: commit_nothing)
    then show ?thesis using linv_crash_ok [OF l one] by simp
  next
    case False
    then have "0 < lhn s" using l(1) by (simp add: linv_def)
    from commit_spec [OF l this] in_commit have "ws = commit_writes s" by auto
    then show ?thesis using commit_prefix [OF l one, of k] by simp
  qed
next
  case (in_recovery d r ws k)
  have g: "log_geom s" using l(1) by (simp add: linv_def)
  have d: "log_disk_ok s d" "d 1 = disk s 1" "1 \<notin> set (hdr_blocks (d (lstart s)))" using in_recovery by (simp_all add: crash_ok_def)
  then have "sb_match s d" using sb by (simp add: sb_match_def)
  from initlog_spec [OF g d(1) this] in_recovery have w: "ws = rec_writes s d" by auto
  note p = rec_prefix [where k = k, OF g d(1) refl, folded w]
  have "apply_writes (take k ws) d 1 = d 1" by (rule p(4) [OF one_notin_log [OF g] d(3)])
  with p(1,2,3) d in_recovery.IH show ?case by (auto simp: crash_ok_def)
qed

lemma crash_ok_boot:
  assumes g: "log_geom s" and sb: "sb_match s (disk s)" and c: "crash_ok s d"
  shows "\<exists>r. initlog 1 (reboot s d) = Ok r \<and> linv r \<and> log_region r = log_region s \<and> heldb r = {} \<and> lhn r = 0 \<and> outstanding r = 0 \<and>
    (\<forall>m. m \<notin> log_region s \<longrightarrow> disk r m = recovered s d m)"
proof -
  have d: "log_disk_ok s d" "d 1 = disk s 1" using c by (simp_all add: crash_ok_def)
  then have "sb_match s d" using sb by (simp add: sb_match_def)
  from initlog_spec [OF g d(1) this] obtain r where r: "initlog 1 (reboot s d) = Ok r" "binv r" "heldb r = {}" "dirtyb r = {}"
    "lhn r = 0" "length (lhblock r) = LOGSIZE" "lstart r = lstart s" "lsize r = lsize s" "ldev r = 1" "disksize r = disksize s"
    "outstanding r = 0" "disk r = apply_writes (rec_writes s d) d" by blast
  have len: "length (d n) = BSIZE" for n using d(1) by (simp add: log_disk_ok_def)
  have e: "disk r = (recovered s d)(lstart s := head_block [] (d (lstart s)))"
    by (simp add: r(12) rec_writes_def apply_writes_append recovered_def)
  have "hdr_n (disk r (lstart r)) = 0" by (simp add: e r(7) hdr_n_empty len)
  moreover have "log_geom r" using g r by (simp add: log_geom_def)
  ultimately have "linv r" using r by (intro linv_boot)
  moreover have "log_region r = log_region s" using r by (simp add: log_region_def)
  moreover have "disk r m = recovered s d m" if "m \<notin> log_region s" for m
    using that start_facts [OF g] by (auto simp: e)
  ultimately show ?thesis using r by blast
qed

text \<open>C1: The log makes a transaction atomic across crashes. Let a transaction be ready to commit
  (\<open>blk s\<close> holds the new contents of every block, the disk the old ones). Whatever block write of
  \<^verbatim>\<open>commit\<close> the machine stops at, and however often it stops again while the restarted kernel recovers,
  the next complete \<^verbatim>\<open>initlog\<close> succeeds and leaves either the old contents of all blocks outside the
  log or the new contents of all of them, with an empty log.\<close>

theorem commit_crash_atomic:
  assumes "linv s" "heldb s = {}" "1 \<notin> set (logged s)" "sb_match s (disk s)" "crash_disk s d"
  shows "\<exists>r. initlog 1 (reboot s d) = Ok r \<and> linv r \<and> lhn r = 0 \<and>
    ((\<forall>m. m \<notin> log_region s \<longrightarrow> disk r m = disk s m) \<or> (\<forall>m. m \<notin> log_region s \<longrightarrow> disk r m = blk s m))"
proof -
  have c: "crash_ok s d" by (rule crash_disk_ok [OF assms])
  have g: "log_geom s" using assms(1) by (simp add: linv_def)
  from crash_ok_boot [OF g assms(4) c] c show ?thesis by (auto simp: crash_ok_def)
qed

section \<open>After a commit\<close>

lemma commit_contents:
  assumes l: "linv s" "heldb s = {}" and m: "m \<notin> log_region s"
  shows "apply_writes (commit_writes s) (disk s) m = blk s m"
proof -
  have i: "binv s" "log_geom s" "trans_ok s (logged s)" "dirtyb s = set (logged s)" using l(1) by (simp_all add: linv_def)
  let ?n = "length (logged s)"
  have "int t + 1 < lsize s" if "t < ?n" for t using i(3) that by (simp add: trans_ok_def)
  then have L: "fst ` set (log_writes s [0..<?n]) \<subseteq> log_region s"
    using log_block_facts(1) [OF i(2)] by (auto simp: log_writes_def)
  have st: "lstart s \<in> log_region s" using start_facts [OF i(2)] by simp
  let ?D = "(apply_writes (log_writes s [0..<?n]) (disk s))(lstart s := head_block (logged s) (blk s (lstart s)))"
  have "apply_writes (home_writes s) ?D m = blk s m"
  proof (rule home_writes_apply [OF _ _ m])
    show "distinct (logged s)" using i(3) by (simp add: trans_ok_def)
    fix m assume "m \<notin> set (logged s)"
    then have "disk s m = blk s m" using blk_clean [OF i(1), of m] i(4) l(2) by simp
    moreover have "apply_writes (log_writes s [0..<?n]) (disk s) m = disk s m" if "m \<notin> log_region s"
      by (rule apply_writes_notin) (use L that in blast)
    ultimately show "?D m = blk s m \<or> m \<in> log_region s" using st by auto
  qed
  with m st show ?thesis by (auto simp: commit_writes_def Let_def apply_writes_append)
qed

lemma commit_linv:
  assumes l: "linv s" "heldb s = {}"
  shows "\<exists>s'. commit s = Ok s' \<and> linv s' \<and> heldb s' = {} \<and> lhn s' = 0 \<and> same_but_cache (s\<lparr>lhn := 0\<rparr>) s' \<and>
    (\<forall>m. m \<notin> log_region s \<longrightarrow> disk s' m = blk s m \<and> blk s' m = blk s m)"
proof (cases "lhn s = 0")
  case True
  have i: "binv s" "dirtyb s = set (logged s)" using l(1) by (simp_all add: linv_def)
  have "disk s m = blk s m" for m
    using blk_clean [OF i(1), of m] i(2) l(2) True by (simp add: logged_def)
  moreover have e: "s\<lparr>lhn := 0\<rparr> = s" using True by simp
  have "same_but_cache (s\<lparr>lhn := 0\<rparr>) s" unfolding e by (rule same_but_cache_refl)
  ultimately show ?thesis using l True by (intro exI [of _ s]) (simp add: commit_nothing)
next
  case False
  have i: "binv s" "log_geom s" "length (lhblock s) = LOGSIZE" "0 \<le> lhn s" using l(1) by (simp_all add: linv_def)
  then have "0 < lhn s" using False by simp
  from commit_spec [OF l this] obtain s' where s': "commit s = Ok s'" "binv s'" "heldb s' = {}" "dirtyb s' = {}"
    "same_but_cache (s\<lparr>lhn := 0\<rparr>) s'" "disk s' = apply_writes (commit_writes s) (disk s)" by blast
  note sl = same_lhn [OF s'(5)]
  let ?h = "head_block (logged s) (blk s (lstart s))"
  have "length (logged s) \<le> LOGSIZE" using l(1) by (simp add: linv_def trans_ok_def)
  then have "length ?h = BSIZE" by (rule head_block) (rule length_blk [OF i(1)])
  then have "hdr_n (disk s' (lstart s')) = 0"
    by (simp add: s'(6) sl commit_writes_def Let_def apply_writes_append hdr_n_empty)
  then have "linv s'" using s' i sl by (intro linv_boot) simp_all
  moreover have "disk s' m = blk s m \<and> blk s' m = blk s m" if "m \<notin> log_region s" for m
    using commit_contents [OF l that] blk_clean [OF s'(2), of m] s' by simp
  ultimately show ?thesis using s' sl by blast
qed

lemma view_ops:
  "linv (s\<lparr>outstanding := a\<rparr>) = linv s" "linv (s\<lparr>committing := c\<rparr>) = linv s"
  "heldb (s\<lparr>outstanding := a\<rparr>) = heldb s" "heldb (s\<lparr>committing := c\<rparr>) = heldb s"
  "blk (s\<lparr>outstanding := a\<rparr>) = blk s" "blk (s\<lparr>committing := c\<rparr>) = blk s"
  "log_region (s\<lparr>outstanding := a\<rparr>) = log_region s" "log_region (s\<lparr>committing := c\<rparr>) = log_region s"
  using view_cong [of "s\<lparr>outstanding := a\<rparr>" s] view_cong [of "s\<lparr>committing := c\<rparr>" s]
  by (simp_all add: linv_def log_geom_def trans_ok_def log_region_def logged_def)

text \<open>C7: The last \<^verbatim>\<open>end_op\<close> of a transaction commits: it does not panic, all blocks outside the log are
  on the disk with the contents the operations gave them, and the log is empty and open again.\<close>

theorem end_op_commits:
  assumes "linv s" "heldb s = {}" "outstanding s = 1" "\<not> committing s"
  shows "\<exists>s'. end_op s = Ok s' \<and> linv s' \<and> heldb s' = {} \<and> outstanding s' = 0 \<and> \<not> committing s' \<and> lhn s' = 0 \<and>
    (\<forall>m. m \<notin> log_region s \<longrightarrow> disk s' m = blk s m \<and> blk s' m = blk s m)"
proof -
  let ?s = "s\<lparr>outstanding := 0, committing := True\<rparr>"
  have "linv ?s" "heldb ?s = {}" using assms(1,2) by (simp_all add: view_ops)
  from commit_linv [OF this] obtain s' where s': "commit ?s = Ok s'" "linv s'" "heldb s' = {}" "lhn s' = 0"
    "same_but_cache (?s\<lparr>lhn := 0\<rparr>) s'" "\<forall>m. m \<notin> log_region s \<longrightarrow> disk s' m = blk s m \<and> blk s' m = blk s m"
    by (auto simp: view_ops)
  have "end_op s = Ok (s'\<lparr>committing := False\<rparr>)"
    using s'(1) assms(3,4) by (simp add: end_op_def Let_def)
  then show ?thesis
    using s' same_lst(3) [OF s'(5)] by (intro exI [of _ "s'\<lparr>committing := False\<rparr>"]) (simp add: view_ops)
qed

section \<open>Operations inside a transaction\<close>

lemma find_block_notin: "b \<notin> set xs \<Longrightarrow> find_block b xs = length xs"
  by (induction xs) auto

lemma find_block_in: "b \<in> set xs \<Longrightarrow> find_block b xs < length xs \<and> xs ! find_block b xs = b"
  by (induction xs) auto

lemma log_write_spec:
  assumes l: "linv s" and h: "holds s i n" and n: "n \<notin> log_region s" and c: "lhn s < lsize s - 1" "1 \<le> outstanding s"
  shows "\<exists>s'. log_write i s = Ok s' \<and> linv s' \<and> blk s' = blk s \<and> disk s' = disk s \<and> dwrites s' = dwrites s \<and>
    dirtyb s' = insert n (dirtyb s) \<and> heldb s' = heldb s \<and> holds s' = holds s \<and>
    lhn s' = (if n \<in> set (logged s) then lhn s else lhn s + 1) \<and> (\<exists>bs k. same_but_cache (s\<lparr>lhn := k, lhblock := bs\<rparr>) s')"
proof -
  have i: "binv s" "log_geom s" "length (lhblock s) = LOGSIZE" "0 \<le> lhn s" "lhn s < int LOGSIZE" "trans_ok s (logged s)"
    "dirtyb s = set (logged s)" "hdr_n (disk s (lstart s)) = 0" "heldb s \<inter> log_region s = {}"
    using l by (simp_all add: linv_def)
  note f = holds_facts [OF i(1) h]
  let ?i = "find_block n (logged s)" and ?n = "nat (lhn s)"
  define bs where "bs = (lhblock s)[?i := n]"
  define k where "k = (if int ?i = lhn s then lhn s + 1 else lhn s)"
  define t where "t = s\<lparr>lhn := k, lhblock := bs\<rparr>"
  define u where "u = mark_dirty i t"
  have len: "length (logged s) = ?n" by (rule length_logged [OF l])
  have e: "log_write i s = Ok u"
    using c i(2,5) f(11) by (simp add: log_write_def Let_def logged_def log_geom_def u_def t_def k_def bs_def)
  have vt: "binv t" "holds t = holds s" "blk t = blk s" "dirtyb t = dirtyb s" "heldb t = heldb s" "disk t = disk s"
    "dwrites t = dwrites s" using i(1) by (simp_all add: t_def)
  have ht: "holds t i n" using h vt(2) by simp
  have m: "binv u" "blk u = blk s" "dirtyb u = insert n (dirtyb s)" "heldb u = heldb s" "holds u = holds s"
    using mark_dirty_spec [OF vt(1) ht] vt by (simp_all add: fun_eq_iff u_def)
  have sm: "same_but_cache t u" "disk u = disk s" "dwrites u = dwrites s"
    by (simp_all add: u_def t_def mark_dirty_def same_but_cache_def)
  have sl: "lstart u = lstart s" "lsize u = lsize s" "ldev u = ldev s" "lhn u = k" "lhblock u = bs" "disksize u = disksize s"
    by (simp_all add: u_def t_def mark_dirty_def)
  have k: "k = (if n \<in> set (logged s) then lhn s else lhn s + 1)"
    using find_block_in [of n "logged s"] find_block_notin [of n "logged s"] len i(4) by (auto simp: k_def)
  have lg: "logged u = (if n \<in> set (logged s) then logged s else logged s @ [n])"
  proof (cases "n \<in> set (logged s)")
    case True
    note fb = find_block_in [OF True]
    then have "lhblock s ! ?i = n" using nth_logged [of ?i s] by simp
    then have "bs = lhblock s" using list_update_id [of "lhblock s" ?i] by (simp add: bs_def)
    then show ?thesis using True by (simp add: logged_def [of u] sl k) (simp add: logged_def)
  next
    case False
    then have fi: "?i = ?n" by (simp add: find_block_notin len)
    then have "take (Suc ?n) bs = logged s @ [n]"
      using i(3,4,5) by (simp add: bs_def take_Suc_conv_app_nth logged_def)
    then show ?thesis using False i(4) by (simp add: logged_def [of u] sl k nat_add_distrib)
  qed
  have g: "log_geom u" "log_region u = log_region s"
    using i(2) by (simp_all add: log_geom_def log_region_def sl)
  have "trans_ok u (logged u)"
    using i(2,4,6) n f(6) c len by (auto simp: trans_ok_def lg g sl log_geom_def)
  moreover have "length bs = LOGSIZE" "0 \<le> k" "k < int LOGSIZE" using i c by (auto simp: bs_def k log_geom_def)
  ultimately have "linv u"
    using m(1,3,4) g i(7,8,9) by (auto simp: linv_def lg sm(2) sl)
  then show ?thesis
    using e m sm sl(4) k by (intro exI [of _ u] conjI) (auto simp: t_def)
qed

text \<open>States that differ in the cache, the disk and the transaction only.\<close>

definition log_frame :: "'a lst_scheme \<Rightarrow> 'a lst_scheme \<Rightarrow> bool" where
  "log_frame s s' \<longleftrightarrow> s' = s\<lparr>bufs := bufs s', disk := disk s', dwrites := dwrites s', lhn := lhn s', lhblock := lhblock s'\<rparr>"

lemma log_frame_refl [simp]: "log_frame s s"
  by (simp add: log_frame_def)

lemma log_frame_trans: "log_frame s s' \<Longrightarrow> log_frame s' s'' \<Longrightarrow> log_frame s s''"
proof -
  assume 1: "log_frame s s'" "log_frame s' s''"
  have "s'' = (s\<lparr>bufs := bufs s', disk := disk s', dwrites := dwrites s', lhn := lhn s', lhblock := lhblock s'\<rparr>)
      \<lparr>bufs := bufs s'', disk := disk s'', dwrites := dwrites s'', lhn := lhn s'', lhblock := lhblock s''\<rparr>"
    using 1 unfolding log_frame_def by metis
  also have "\<dots> = s\<lparr>bufs := bufs s'', disk := disk s'', dwrites := dwrites s'', lhn := lhn s'', lhblock := lhblock s''\<rparr>" by simp
  finally show ?thesis unfolding log_frame_def .
qed

lemma log_frame_cache: "same_but_cache (s\<lparr>lhn := k, lhblock := bs\<rparr>) s' \<Longrightarrow> log_frame s s'"
proof -
  assume a: "same_but_cache (s\<lparr>lhn := k, lhblock := bs\<rparr>) s'"
  have e: "lhn s' = k" "lhblock s' = bs" using same_lst [OF a] by simp_all
  have "s' = s\<lparr>lhn := k, lhblock := bs\<rparr>\<lparr>bufs := bufs s', disk := disk s', dwrites := dwrites s'\<rparr>"
    using a unfolding same_but_cache_def .
  also have "\<dots> = s\<lparr>bufs := bufs s', disk := disk s', dwrites := dwrites s', lhn := lhn s', lhblock := lhblock s'\<rparr>"
    by (simp add: e)
  finally show ?thesis unfolding log_frame_def .
qed

lemma log_frame_same: "same_but_cache s s' \<Longrightarrow> log_frame s s'"
  using log_frame_cache [where s = s and k = "lhn s" and bs = "lhblock s"] by simp

lemma log_frameD:
  assumes "log_frame s s'"
  shows "lstart s' = lstart s" "lsize s' = lsize s" "outstanding s' = outstanding s" "committing s' = committing s"
    "ldev s' = ldev s" "disksize s' = disksize s" "curpid s' = curpid s" "log_region s' = log_region s" "lst.more s' = lst.more s"
proof -
  show e: "lstart s' = lstart s" "lsize s' = lsize s" "outstanding s' = outstanding s" "committing s' = committing s"
    "ldev s' = ldev s" "disksize s' = disksize s" "curpid s' = curpid s" "lst.more s' = lst.more s"
    using assms [unfolded log_frame_def, THEN arg_cong, of lstart] assms [unfolded log_frame_def, THEN arg_cong, of lsize]
      assms [unfolded log_frame_def, THEN arg_cong, of outstanding] assms [unfolded log_frame_def, THEN arg_cong, of committing]
      assms [unfolded log_frame_def, THEN arg_cong, of ldev] assms [unfolded log_frame_def, THEN arg_cong, of disksize]
      assms [unfolded log_frame_def, THEN arg_cong, of curpid] assms [unfolded log_frame_def, THEN arg_cong, of lst.more]
    by simp_all
  show "log_region s' = log_region s" by (simp add: log_region_def e)
qed

text \<open>The cache has room for one more block while a transaction runs and \<open>h\<close> blocks are held.\<close>

lemma linv_room:
  assumes "linv s" "card (heldb s) + length (logged s) < NBUF"
  shows "room s n"
proof -
  have "dirtyb s = set (logged s)" using assms(1) by (simp add: linv_def)
  then have "card (dirtyb s \<union> heldb s) \<le> length (logged s) + card (heldb s)"
    using card_Un_le [of "dirtyb s" "heldb s"] card_length [of "logged s"] by simp
  with assms(2) show ?thesis by (simp add: room_def)
qed

lemma linv_same:
  assumes "linv s" "same_but_cache s s'" "binv s'" "dirtyb s' = dirtyb s" "disk s' = disk s" "heldb s' \<inter> log_region s = {}"
  shows "linv s'"
  using assms same_lst [OF assms(2)] same_log [OF assms(2)] by (simp add: linv_def)

text \<open>Reading a block inside or outside of a transaction.\<close>

lemma tx_read:
  assumes l: "linv s" and n: "n < disksize s" "n \<notin> heldb s" "room s n"
  shows "\<exists>i s1 s'. bread 1 n s = Ok (i, s1) \<and> bdata (bufs s1 i) = blk s n \<and> brelse i s1 = Ok s' \<and> linv s' \<and> blk s' = blk s \<and>
    disk s' = disk s \<and> dwrites s' = dwrites s \<and> dirtyb s' = dirtyb s \<and> heldb s' = heldb s \<and> lhn s' = lhn s \<and>
    logged s' = logged s \<and> same_but_cache s s' \<and> same_but_cache s s1"
proof -
  have b: "binv s" and hl: "heldb s \<inter> log_region s = {}" using l by (simp_all add: linv_def)
  have "n \<in> dirtyb s \<or> blk s n = disk s n" using blk_clean [OF b _ n(2)] by blast
  from bio.read_block [OF b n this] obtain i s1 s' where r: "bread 1 n s = Ok (i, s1)" "bdata (bufs s1 i) = blk s n"
    "brelse i s1 = Ok s'" "binv s'" "blk s' = blk s" "disk s' = disk s" "dwrites s' = dwrites s" "dirtyb s' = dirtyb s"
    "heldb s' = heldb s" "same_but_cache s s'" "same_but_cache s s1" by blast
  have "linv s'" by (rule linv_same [OF l r(10,4,8,6)]) (simp add: r(9) hl)
  then show ?thesis
    using r same_lst(6) [OF r(10)] same_log(2) [OF r(10)] by (intro exI [of _ i] exI [of _ s1] exI [of _ s']) simp
qed

text \<open>Read, modify, \<^verbatim>\<open>log_write\<close>, release: the new contents are seen at once and stay off the disk.\<close>

lemma tx_update:
  assumes l: "linv s" and n: "n < disksize s" "n \<notin> heldb s" "room s n" "n \<notin> log_region s"
    and c: "lhn s < lsize s - 1" "1 \<le> outstanding s" and f: "length (f (blk s n)) = BSIZE"
  shows "\<exists>i s1 s2 s'. bread 1 n s = Ok (i, s1) \<and> bdata (bufs s1 i) = blk s n \<and>
    log_write i (set_data i (f (blk s n)) s1) = Ok s2 \<and> brelse i s2 = Ok s' \<and> linv s' \<and> blk s' = (blk s)(n := f (blk s n)) \<and>
    disk s' = disk s \<and> dwrites s' = dwrites s \<and> dirtyb s' = insert n (dirtyb s) \<and> heldb s' = heldb s \<and>
    lhn s' = (if n \<in> set (logged s) then lhn s else lhn s + 1) \<and> log_frame s s' \<and> same_but_cache s s1"
proof -
  have b: "binv s" and hl: "heldb s \<inter> log_region s = {}" using l by (simp_all add: linv_def)
  obtain i s1 where 1: "bread 1 n s = Ok (i, s1)" "binv s1" "holds s1 i n" "blk s1 = blk s" "disk s1 = disk s"
    "dwrites s1 = dwrites s" "dirtyb s1 = dirtyb s" "heldb s1 = insert n (heldb s)" "same_but_cache s s1"
    using bread_law [OF b n(1-3)] by blast
  define t where "t = set_data i (f (blk s n)) s1"
  note sd = set_data_spec [OF 1(2,3) f, folded t_def]
  have st: "same_but_cache s t" "disk t = disk s" "dwrites t = dwrites s"
    using 1 same_but_cache_trans [OF 1(9) set_data_same(3)] by (simp_all add: t_def)
  note lt = same_lst [OF st(1)] same_log [OF st(1)]
  have "linv t" by (rule linv_same [OF l st(1) sd(1)]) (use sd 1 st hl n(4) in auto)
  moreover have "holds t i n" using sd(5) 1(3) by simp
  ultimately obtain s2 where 2: "log_write i t = Ok s2" "linv s2" "blk s2 = blk t" "disk s2 = disk t" "dwrites s2 = dwrites t"
    "dirtyb s2 = insert n (dirtyb t)" "heldb s2 = heldb t" "holds s2 = holds t"
    "lhn s2 = (if n \<in> set (logged t) then lhn t else lhn t + 1)" "\<exists>bs k. same_but_cache (t\<lparr>lhn := k, lhblock := bs\<rparr>) s2"
    using log_write_spec [of t i n] n(4) c lt by auto
  have b2: "binv s2" using 2(2) by (simp add: linv_def)
  have "holds s2 i n" using 2(8) sd(5) 1(3) by simp
  from brelse_law [OF b2 this] 2(6) obtain s' where 3: "brelse i s2 = Ok s'" "binv s'" "blk s' = blk s2" "disk s' = disk s2"
    "dwrites s' = dwrites s2" "dirtyb s' = dirtyb s2" "heldb s' = heldb s2 - {n}" "same_but_cache s2 s'" by auto
  have fr: "log_frame s s'"
    using log_frame_same [OF st(1)] 2(10) log_frame_cache log_frame_same [OF 3(8)] log_frame_trans by blast
  have "heldb s' \<inter> log_region s2 = {}" using 2(2) 3(7) by (auto simp: linv_def)
  then have "linv s'" by (rule linv_same [OF 2(2) 3(8,2,6,4)])
  moreover have "lhn s' = (if n \<in> set (logged s) then lhn s else lhn s + 1)" using same_lst(6) [OF 3(8)] 2(9) lt by simp
  moreover have "heldb s' = heldb s" using 3(7) 2(7) sd(4) 1(8) n(2) by simp
  ultimately show ?thesis
    using 1(1,4,7,9) holds_facts(4) [OF 1(2,3)] 2(1,3,4,5,6) 3 sd st fr
    by (intro exI [of _ i] exI [of _ s1] exI [of _ s2] exI [of _ s'])
      (simp add: t_def)
qed

text \<open>A system with a 30-block log at block 2 and one block, 100, written by the running transaction.\<close>

definition demo_log0 :: lst where
  "demo_log0 = binit \<lparr>mem = (\<lambda>_. 0), kend = 0, use_lock = False, freelist = 0,
     disk = (\<lambda>n. if n = 1 then put_word 4 2 (put_word 3 30 (replicate BSIZE 0)) else replicate BSIZE 0),
     disksize = 1000, dwrites = [], bufs = (\<lambda>_. zbuf), curpid = 1,
     lstart = 2, lsize = 30, outstanding = 1, committing = False, ldev = 1, lhn = 1, lhblock = 100 # replicate 29 0\<rparr>"

definition demo_buf :: buf where
  "demo_buf = (bufs demo_log0 0)\<lparr>flags := B_VALID OR B_DIRTY, bdev := 1, blockno := 100, bdata := replicate BSIZE 7\<rparr>"

definition demo_log :: lst where
  "demo_log = demo_log0\<lparr>bufs := (bufs demo_log0)(0 := demo_buf)\<rparr>"

lemma demo_sb: "superblock_of (disk demo_log0 1) = superblock_of (put_word 4 2 (put_word 3 30 (replicate BSIZE 0)))"
  by (simp add: demo_log0_def binit_def Let_def)

lemma demo_log_facts:
  "linv demo_log" "heldb demo_log = {}" "1 \<notin> set (logged demo_log)" "sb_match demo_log (disk demo_log)"
  "blk demo_log 100 = replicate BSIZE 7" "disk demo_log 100 = replicate BSIZE 0" "100 \<notin> log_region demo_log" "lhn demo_log = 1"
proof -
  let ?s = "demo_log0"
  let ?z = "\<lparr>mem = (\<lambda>_. 0), kend = 0, use_lock = False, freelist = 0,
     disk = (\<lambda>n. if n = 1 then put_word 4 2 (put_word 3 30 (replicate BSIZE 0)) else replicate BSIZE 0),
     disksize = 1000, dwrites = [], bufs = (\<lambda>_. zbuf), curpid = 1,
     lstart = 2, lsize = 30, outstanding = 1, committing = False, ldev = 1, lhn = 1, lhblock = 100 # replicate 29 0\<rparr> :: lst"
  have "length (disk ?z n) = BSIZE" for n by (simp add: BSIZE_def)
  note b = binit_spec [of ?z, OF _ this, folded demo_log0_def, simplified]
  have f: "lstart ?s = 2" "lsize ?s = 30" "ldev ?s = 1" "lhn ?s = 1" "lhblock ?s = 100 # replicate 29 0" "disksize ?s = 1000"
    "disk ?s = disk ?z" "dwrites ?s = []" "curpid ?s = 1"
    by (simp_all add: demo_log0_def binit_def Let_def)
  have dev0: "bdev (bufs ?s j) = 0" "refcnt (bufs ?s j) = 0" "lock (bufs ?s j) = initsleeplock" for j
    by (simp_all add: demo_log0_def binit_def Let_def binit_loop_fields zbuf_def)
  have i0: "0 < NBUF" by (simp add: NBUF_def)
  have ok: "buf_ok ?s demo_buf"
    using dev0 by (simp add: buf_ok_def demo_buf_def flag_simps f initsleeplock_def)
  have bi: "binv demo_log" unfolding demo_log_def
    by (rule binv_upd [OF b(1) i0 _ _ ok]) (simp_all add: demo_buf_def dev0)
  have c: "caches demo_log j m \<longleftrightarrow> j = 0 \<and> m = 100" for j m
    using dev0 i0 by (auto simp: demo_log_def caches_upd demo_buf_def) (simp add: caches_def)
  have b0: "bufs demo_log 0 = demo_buf" by (simp add: demo_log_def)
  have v: "valid demo_buf" "dirty demo_buf" "refcnt demo_buf = 0" by (simp_all add: demo_buf_def flag_simps dev0)
  have d: "dirtyb demo_log = {100}" using v by (simp add: dirtyb_def c b0)
  show h: "heldb demo_log = {}" using v by (simp add: heldb_def c b0)
  show "blk demo_log 100 = replicate BSIZE 7"
    using blk_cached [OF bi, of 0 100] v by (simp add: c b0) (simp add: demo_buf_def)
  show "disk demo_log 100 = replicate BSIZE 0" by (simp add: demo_log_def f)
  show r: "100 \<notin> log_region demo_log" by (simp add: log_region_def demo_log_def f)
  have l: "logged demo_log = [100]" by (simp add: logged_def demo_log_def f)
  show "1 \<notin> set (logged demo_log)" by (simp add: l)
  show "lhn demo_log = 1" by (simp add: demo_log_def f)
  have g: "log_geom demo_log" by (simp add: log_geom_def demo_log_def f LOGSIZE_def)
  have "word_at (replicate BSIZE 0) 0 = 0" by (simp add: word_at_def BSIZE_def of_le32_def)
  then have "hdr_n (disk demo_log (lstart demo_log)) = 0" by (simp add: hdr_n_def demo_log_def f)
  then show "linv demo_log"
    using bi g h d r by (simp add: linv_def l trans_ok_def) (simp add: demo_log_def f LOGSIZE_def)
  show "sb_match demo_log (disk demo_log)"
    by (simp add: sb_match_def demo_log_def f superblock_of_def word_at_put_word BSIZE_def)
qed

theorem commit_crash_atomic_witness:
  "linv demo_log \<and> heldb demo_log = {} \<and> 1 \<notin> set (logged demo_log) \<and> sb_match demo_log (disk demo_log) \<and>
   blk demo_log 100 \<noteq> disk demo_log 100 \<and>
   (\<exists>d r. crash_disk demo_log d \<and> initlog 1 (reboot demo_log d) = Ok r \<and> linv r \<and> lhn r = 0 \<and>
     ((\<forall>m. m \<notin> log_region demo_log \<longrightarrow> disk r m = disk demo_log m) \<or>
      (\<forall>m. m \<notin> log_region demo_log \<longrightarrow> disk r m = blk demo_log m)))"
proof -
  note f = demo_log_facts
  have p: "0 < lhn demo_log" by (simp add: f(8))
  obtain s' where "commit demo_log = Ok s'" "dwrites s' = dwrites demo_log @ commit_writes demo_log"
    using commit_spec [OF f(1,2) p] by blast
  then have "crash_disk demo_log (apply_writes (take 2 (commit_writes demo_log)) (disk demo_log))" by (rule in_commit)
  with commit_crash_atomic [OF f(1-4) this] show ?thesis using f by (auto simp: BSIZE_def)
qed

theorem end_op_commits_witness:
  "linv demo_log \<and> heldb demo_log = {} \<and> outstanding demo_log = 1 \<and> \<not> committing demo_log \<and>
   (\<exists>s'. end_op demo_log = Ok s' \<and> disk s' 100 = replicate BSIZE 7)"
proof -
  have o: "outstanding demo_log = 1" "\<not> committing demo_log" by (simp_all add: demo_log_def demo_log0_def binit_def Let_def)
  from end_op_commits [OF demo_log_facts(1,2) o] show ?thesis
    using demo_log_facts(1,2,5,7) o by fastforce
qed



end
