(* ===== verification/Balloc.thy ===== *)
theory Balloc
  imports Log
begin

text \<open>
  Allocation of disk blocks (\<^verbatim>\<open>bzero\<close>, \<^verbatim>\<open>balloc\<close> and \<^verbatim>\<open>bfree\<close> of \<^verbatim>\<open>fs.c\<close>) over the log. A block is in use when
  its bit in the free map is set; \<open>used\<close> reads the map through the buffer cache. The theorems say that
  \<^verbatim>\<open>balloc\<close> finds the first free block, marks it and zeroes it, and that \<^verbatim>\<open>bfree\<close> undoes the marking.
\<close>

section \<open>Operations (fs.h, fs.c)\<close>

record sbst = lst +
  sb :: superblock

definition BPB :: nat where "BPB = BSIZE * 8"

definition BBLOCK :: "nat \<Rightarrow> superblock \<Rightarrow> u32" where
  "BBLOCK b sp = of_nat (b div BPB) + sb_bmapstart sp"

definition bzero :: "u32 \<Rightarrow> u32 \<Rightarrow> 'a sbst_scheme \<Rightarrow> 'a sbst_scheme res" where
  "bzero dev bno s =
     bind_res (bread dev bno s) (\<lambda>(bp, s).
     bind_res (log_write bp (set_data bp (replicate BSIZE 0) s)) (\<lambda>s. brelse bp s))"

text \<open>The mask \<^verbatim>\<open>1 << (bi % 8)\<close>, as a byte.\<close>

definition bmask :: "nat \<Rightarrow> u8" where "bmask bi = push_bit (bi mod 8) 1"

definition bit_free :: "block \<Rightarrow> nat \<Rightarrow> bool" where
  "bit_free d bi \<longleftrightarrow> d ! (bi div 8) AND bmask bi = 0"

definition bit_set :: "nat \<Rightarrow> block \<Rightarrow> block" where
  "bit_set bi d = d[bi div 8 := d ! (bi div 8) OR bmask bi]"

definition bit_clear :: "nat \<Rightarrow> block \<Rightarrow> block" where
  "bit_clear bi d = d[bi div 8 := d ! (bi div 8) AND NOT (bmask bi)]"

text \<open>The outer loop runs over the first block numbers \<open>b\<close> of the map blocks, the inner one looks for the
  first free bit.\<close>

fun balloc_loop :: "u32 \<Rightarrow> nat list \<Rightarrow> 'a sbst_scheme \<Rightarrow> (u32 \<times> 'a sbst_scheme) res" where
  "balloc_loop dev [] s = panic ''balloc: out of blocks''"
| "balloc_loop dev (b # bs) s =
     bind_res (bread dev (BBLOCK b (sb s)) s) (\<lambda>(bp, s).
       case find (\<lambda>bi. b + bi < unat (sb_size (sb s)) \<and> bit_free (bdata (bufs s bp)) bi) [0..<BPB] of
         Some bi \<Rightarrow>
           bind_res (log_write bp (set_data bp (bit_set bi (bdata (bufs s bp))) s)) (\<lambda>s.
           bind_res (brelse bp s) (\<lambda>s.
           bind_res (bzero dev (of_nat (b + bi)) s) (\<lambda>s. Ok (of_nat (b + bi), s))))
       | None \<Rightarrow> bind_res (brelse bp s) (balloc_loop dev bs))"

definition bmap_starts :: "nat \<Rightarrow> nat list" where
  "bmap_starts n = map (\<lambda>k. k * BPB) [0..<(n + BPB - 1) div BPB]"

definition balloc :: "u32 \<Rightarrow> 'a sbst_scheme \<Rightarrow> (u32 \<times> 'a sbst_scheme) res" where
  "balloc dev s = balloc_loop dev (bmap_starts (unat (sb_size (sb s)))) s"

definition bfree :: "u32 \<Rightarrow> u32 \<Rightarrow> 'a sbst_scheme \<Rightarrow> 'a sbst_scheme res" where
  "bfree dev b s =
     bind_res (bread dev (BBLOCK (unat b) (sb s)) s) (\<lambda>(bp, s).
       let bi = unat b mod BPB; d = bdata (bufs s bp) in
       if bit_free d bi then panic ''freeing free block''
       else bind_res (log_write bp (set_data bp (bit_clear bi d) s)) (brelse bp))"

section \<open>The free map\<close>

text \<open>Block \<open>b\<close> is marked in use.\<close>

definition used :: "'a sbst_scheme \<Rightarrow> nat \<Rightarrow> bool" where
  "used s b \<longleftrightarrow> \<not> bit_free (blk s (BBLOCK b (sb s))) (b mod BPB)"

text \<open>The blocks of the map: on the disk, outside of the log, one after the other.\<close>

definition map_geom :: "'a sbst_scheme \<Rightarrow> bool" where
  "map_geom s \<longleftrightarrow> (let n = unat (sb_size (sb s)); st = unat (sb_bmapstart (sb s)) in
     n \<le> unat (disksize s) \<and> st + (n + BPB - 1) div BPB \<le> unat (disksize s) \<and>
     unat (lstart s) + nat (lsize s) \<le> st)"

definition is_meta :: "'a sbst_scheme \<Rightarrow> nat \<Rightarrow> bool" where
  "is_meta s b \<longleftrightarrow> b < unat (sb_bmapstart (sb s)) + (unat (sb_size (sb s)) + BPB - 1) div BPB"

lemma bit_free_iff: "bit_free d bi \<longleftrightarrow> \<not> bit (d ! (bi div 8)) (bi mod 8)"
  unfolding bit_free_def bmask_def using and_exp_eq_0_iff_not_bit [of "d ! (bi div 8)" "bi mod 8"]
  by (simp add: push_bit_eq_mult)

lemma bit_bmask: "bit (bmask bi) k \<longleftrightarrow> k = bi mod 8"
  by (auto simp: bmask_def bit_simps)

lemma bit_free_set:
  assumes "bi div 8 < length d"
  shows "bit_free (bit_set bi d) bj \<longleftrightarrow> bit_free d bj \<and> bi \<noteq> bj"
proof -
  have "bi div 8 = bj div 8 \<and> bi mod 8 = bj mod 8 \<longleftrightarrow> bi = bj" by (metis div_mod_decomp)
  with assms show ?thesis
    by (auto simp: bit_free_iff bit_set_def nth_list_update bit_or_iff bit_bmask)
qed

lemma bit_free_clear:
  assumes "bi div 8 < length d"
  shows "bit_free (bit_clear bi d) bj \<longleftrightarrow> bit_free d bj \<or> bi = bj"
proof -
  have "bi div 8 = bj div 8 \<and> bi mod 8 = bj mod 8 \<longleftrightarrow> bi = bj" by (metis div_mod_decomp)
  moreover have "bj mod 8 < 8" by simp
  ultimately show ?thesis using assms
    by (auto simp: bit_free_iff bit_clear_def nth_list_update bit_and_iff bit_not_iff bit_bmask)
qed

lemma length_bit_set [simp]: "length (bit_set bi d) = length d" "length (bit_clear bi d) = length d"
  by (simp_all add: bit_set_def bit_clear_def)

lemma BPB_div8: "bi < BPB \<Longrightarrow> bi div 8 < BSIZE"
  by (simp add: BPB_def BSIZE_def)

lemma same_sb: "same_but_cache s s' \<Longrightarrow> sb s' = sb s" "log_frame s s' \<Longrightarrow> sb s' = sb s"
proof -
  assume "same_but_cache s s'"
  from arg_cong [OF this [unfolded same_but_cache_def], of sb] show "sb s' = sb s" by simp
next
  assume "log_frame s s'"
  from arg_cong [OF this [unfolded log_frame_def], of sb] show "sb s' = sb s" by simp
qed

lemma BBLOCK_facts:
  assumes g: "map_geom s" and b: "b < unat (sb_size (sb s))"
  shows "unat (BBLOCK b (sb s)) = b div BPB + unat (sb_bmapstart (sb s))" "BBLOCK b (sb s) < disksize s"
    "BBLOCK b (sb s) \<notin> log_region s" "is_meta s (unat (BBLOCK b (sb s)))"
proof -
  let ?n = "unat (sb_size (sb s))" and ?st = "unat (sb_bmapstart (sb s))"
  have d: "?n \<le> unat (disksize s)" "?st + (?n + BPB - 1) div BPB \<le> unat (disksize s)" "unat (lstart s) + nat (lsize s) \<le> ?st"
    using g by (simp_all add: map_geom_def Let_def)
  have q: "b div BPB < (?n + BPB - 1) div BPB"
  proof -
    have "b div BPB * BPB \<le> b" by simp
    with b have "Suc (b div BPB) * BPB \<le> ?n + BPB - 1" by (simp add: BPB_def BSIZE_def)
    then show ?thesis by (metis Suc_le_eq div_le_mono nonzero_mult_div_cancel_right BPB_def BSIZE_def mult_eq_0_iff zero_neq_numeral)
  qed
  have m: "b div BPB + ?st < 2 ^ 32" using d(2) q unat_u32_less [of "disksize s"] by simp
  then have s: "unat (of_nat (b div BPB) :: u32) = b div BPB" by (intro unat_of_nat_small) simp
  show u: "unat (BBLOCK b (sb s)) = b div BPB + ?st"
    unfolding BBLOCK_def using unat_add_no_wrap [of "of_nat (b div BPB)" "sb_bmapstart (sb s)"] s m by simp
  show "BBLOCK b (sb s) < disksize s" using u d q by (simp add: word_less_nat_alt)
  show "BBLOCK b (sb s) \<notin> log_region s" using u d by (simp add: log_region_def)
  show "is_meta s (unat (BBLOCK b (sb s)))" using u q by (simp add: is_meta_def)
qed

lemma BBLOCK_add: "bi < BPB \<Longrightarrow> BBLOCK (k * BPB + bi) sp = BBLOCK (k * BPB) sp" "bi < BPB \<Longrightarrow> (k * BPB + bi) mod BPB = bi"
  by (simp_all add: BBLOCK_def)

lemma BBLOCK_eq:
  assumes "map_geom s" "b < unat (sb_size (sb s))" "c < unat (sb_size (sb s))"
  shows "BBLOCK b (sb s) = BBLOCK c (sb s) \<longleftrightarrow> b div BPB = c div BPB"
  using BBLOCK_facts(1) [OF assms(1,2)] BBLOCK_facts(1) [OF assms(1,3)]
  by (metis BBLOCK_def add_right_cancel)

text \<open>What the allocator needs: a running transaction with room for two more blocks, a free map that marks
  the boot, log, inode and map blocks as used, and nobody holding a map block or a free block.\<close>

definition alloc_ready :: "'a sbst_scheme \<Rightarrow> bool" where
  "alloc_ready s \<longleftrightarrow> linv s \<and> map_geom s \<and> 1 \<le> outstanding s \<and> lhn s + 2 < lsize s \<and>
     card (heldb s) + length (logged s) + 1 < NBUF \<and>
     (\<forall>b. is_meta s b \<and> b < unat (sb_size (sb s)) \<longrightarrow> used s b) \<and>
     (\<forall>b < unat (sb_size (sb s)). BBLOCK b (sb s) \<notin> heldb s) \<and>
     (\<forall>m \<in> heldb s. unat m < unat (sb_size (sb s)) \<longrightarrow> used s (unat m))"

text \<open>The effect of allocating block \<open>b\<close>.\<close>

definition alloc_post :: "'a sbst_scheme \<Rightarrow> nat \<Rightarrow> 'a sbst_scheme \<Rightarrow> bool" where
  "alloc_post s b s' \<longleftrightarrow> linv s' \<and> log_frame s s' \<and> disk s' = disk s \<and> heldb s' = heldb s \<and> lhn s' \<le> lhn s + 2 \<and>
     blk s' = (blk s)(BBLOCK b (sb s) := bit_set (b mod BPB) (blk s (BBLOCK b (sb s))), of_nat b := replicate BSIZE 0)"

lemma bzero_spec:
  assumes l: "linv s" and n: "n < disksize s" "n \<notin> heldb s" "room s n" "n \<notin> log_region s"
    and c: "lhn s < lsize s - 1" "1 \<le> outstanding s"
  shows "\<exists>s'. bzero 1 n s = Ok s' \<and> linv s' \<and> blk s' = (blk s)(n := replicate BSIZE 0) \<and> disk s' = disk s \<and> heldb s' = heldb s \<and>
    lhn s' \<le> lhn s + 1 \<and> log_frame s s'"
  using tx_update [OF l n c, of "\<lambda>_. replicate BSIZE 0"] by (auto simp: bzero_def)

lemma used_add: "bi < BPB \<Longrightarrow> used s (k * BPB + bi) \<longleftrightarrow> \<not> bit_free (blk s (BBLOCK (k * BPB) (sb s))) bi"
  by (simp add: used_def BBLOCK_add)

lemma alloc_step:
  assumes a: "alloc_ready s" and b: "b < unat (sb_size (sb s))" "\<not> used s b"
  shows "\<exists>i s1 s2 s3 s'. bread 1 (BBLOCK b (sb s)) s = Ok (i, s1) \<and> bdata (bufs s1 i) = blk s (BBLOCK b (sb s)) \<and> sb s1 = sb s \<and>
    log_write i (set_data i (bit_set (b mod BPB) (blk s (BBLOCK b (sb s)))) s1) = Ok s2 \<and> brelse i s2 = Ok s3 \<and>
    bzero 1 (of_nat b) s3 = Ok s' \<and> alloc_post s b s'"
proof -
  let ?n = "BBLOCK b (sb s)" and ?w = "of_nat b :: u32"
  let ?d = "bit_set (b mod BPB) (blk s ?n)"
  have r: "linv s" "map_geom s" "1 \<le> outstanding s" "lhn s + 2 < lsize s" "card (heldb s) + length (logged s) + 1 < NBUF"
    "\<And>b. is_meta s b \<Longrightarrow> b < unat (sb_size (sb s)) \<Longrightarrow> used s b" "?n \<notin> heldb s"
    "\<And>m. m \<in> heldb s \<Longrightarrow> unat m < unat (sb_size (sb s)) \<Longrightarrow> used s (unat m)"
    using a b(1) by (auto simp: alloc_ready_def)
  note n = BBLOCK_facts [OF r(2) b(1)]
  have bi: "binv s" "log_geom s" using r(1) by (simp_all add: linv_def)
  have dl: "unat (sb_size (sb s)) \<le> unat (disksize s)" "unat (lstart s) + nat (lsize s) \<le> unat (sb_bmapstart (sb s))"
    using r(2) by (simp_all add: map_geom_def Let_def)
  have uw: "unat ?w = b" using b(1) unat_u32_less [of "sb_size (sb s)"] by (intro unat_of_nat_small) simp
  have wn: "?w \<noteq> ?n" using n(4) r(6) [of b] b uw by auto
  have wh: "?w \<notin> heldb s" using r(8) [of ?w] b uw by auto
  have wl: "?w \<notin> log_region s" using r(6) [of b] b dl(2) uw by (auto simp: log_region_def is_meta_def)
  have wd: "?w < disksize s" using uw b(1) dl(1) by (simp add: word_less_nat_alt)
  have rm: "room s ?n" using linv_room [OF r(1)] r(5) by simp
  have cc: "lhn s < lsize s - 1" using r(4) by simp
  have fl: "length ?d = BSIZE" using length_blk [OF bi(1)] by simp
  from tx_update [OF r(1) n(2) r(7) rm n(3) cc r(3), of "bit_set (b mod BPB)", OF fl] obtain i s1 s2 s3 where
    1: "bread 1 ?n s = Ok (i, s1)" "bdata (bufs s1 i) = blk s ?n" "log_write i (set_data i ?d s1) = Ok s2" "brelse i s2 = Ok s3"
    "linv s3" "blk s3 = (blk s)(?n := ?d)" "disk s3 = disk s" "heldb s3 = heldb s"
    "lhn s3 = (if ?n \<in> set (logged s) then lhn s else lhn s + 1)" "log_frame s s3" "same_but_cache s s1" by blast
  note f3 = log_frameD [OF 1(10)]
  have ll: "length (logged s3) \<le> length (logged s) + 1"
    using length_logged [OF r(1)] length_logged [OF 1(5)] 1(9) by (auto split: if_splits)
  have "room s3 ?w" by (rule linv_room [OF 1(5)]) (use r(5) ll 1(8) in simp)
  moreover have "lhn s3 < lsize s3 - 1" "1 \<le> outstanding s3" using r(3,4) 1(9) f3 by auto
  ultimately obtain s' where 2: "bzero 1 ?w s3 = Ok s'" "linv s'" "blk s' = (blk s3)(?w := replicate BSIZE 0)" "disk s' = disk s3"
    "heldb s' = heldb s3" "lhn s' \<le> lhn s3 + 1" "log_frame s3 s'"
    using bzero_spec [OF 1(5), of ?w] wd wh wl 1(8) f3 by auto
  have "alloc_post s b s'"
    using 2 1 log_frame_trans [OF 1(10) 2(7)] by (auto simp: alloc_post_def split: if_splits)
  then show ?thesis using 1(1-4) 2(1) same_sb(1) [OF 1(11)]
    by (intro exI [of _ i] exI [of _ s1] exI [of _ s2] exI [of _ s3] exI [of _ s']) simp
qed

text \<open>A map block without a free bit is read and put back.\<close>

lemma alloc_skip:
  assumes a: "alloc_ready s" and k: "k * BPB < unat (sb_size (sb s))"
  shows "\<exists>i s1 s'. bread 1 (BBLOCK (k * BPB) (sb s)) s = Ok (i, s1) \<and> bdata (bufs s1 i) = blk s (BBLOCK (k * BPB) (sb s)) \<and>
    sb s1 = sb s \<and> brelse i s1 = Ok s' \<and> alloc_ready s' \<and> blk s' = blk s \<and> disk s' = disk s \<and> heldb s' = heldb s \<and> lhn s' = lhn s \<and>
    sb s' = sb s \<and> log_frame s s' \<and> used s' = used s"
proof -
  let ?n = "BBLOCK (k * BPB) (sb s)"
  have r: "linv s" "map_geom s" "card (heldb s) + length (logged s) + 1 < NBUF" "?n \<notin> heldb s"
    using a k by (auto simp: alloc_ready_def)
  have "room s ?n" using linv_room [OF r(1)] r(3) by simp
  from tx_read [OF r(1) BBLOCK_facts(2) [OF r(2) k] r(4) this] obtain i s1 s' where
    1: "bread 1 ?n s = Ok (i, s1)" "bdata (bufs s1 i) = blk s ?n" "brelse i s1 = Ok s'" "linv s'" "blk s' = blk s" "disk s' = disk s"
    "heldb s' = heldb s" "lhn s' = lhn s" "logged s' = logged s" "same_but_cache s s'" "same_but_cache s s1" by blast
  note e = same_lst [OF 1(10)] same_sb(1) [OF 1(10)]
  have u: "used s' = used s" by (rule ext) (simp add: used_def 1(5) e)
  then have "alloc_ready s'"
    using a 1 e by (simp add: alloc_ready_def map_geom_def is_meta_def)
  then show ?thesis using 1 e u same_sb(1) [OF 1(11)] log_frame_same [OF 1(10)]
    by (intro exI [of _ i] exI [of _ s1] exI [of _ s']) simp
qed

lemma alloc_post_trans:
  assumes "blk t = blk s" "disk t = disk s" "heldb t = heldb s" "lhn t = lhn s" "sb t = sb s" "log_frame s t" "alloc_post t b s'"
  shows "alloc_post s b s'"
  using assms log_frame_trans [OF assms(6)] by (simp add: alloc_post_def)

lemma balloc_loop_spec:
  assumes "alloc_ready s" "\<forall>k\<in>set ks. k * BPB < unat (sb_size (sb s))"
  shows "if \<exists>b < unat (sb_size (sb s)). b div BPB \<in> set ks \<and> \<not> used s b
    then \<exists>b s'. balloc_loop 1 (map (\<lambda>k. k * BPB) ks) s = Ok (of_nat b, s') \<and> b < unat (sb_size (sb s)) \<and> \<not> used s b \<and> alloc_post s b s'
    else balloc_loop 1 (map (\<lambda>k. k * BPB) ks) s = panic ''balloc: out of blocks''"
  using assms
proof (induction ks arbitrary: s)
  case (Cons k ks)
  let ?n = "unat (sb_size (sb s))" and ?B = "BBLOCK (k * BPB) (sb s)"
  let ?P = "\<lambda>bi. k * BPB + bi < ?n \<and> bit_free (blk s ?B) bi"
  show ?case
  proof (cases "find ?P [0..<BPB]")
    case (Some bi)
    then have bi: "bi < BPB" "k * BPB + bi < ?n" "\<not> used s (k * BPB + bi)"
      by (auto simp: find_Some_iff used_add)
    let ?b = "k * BPB + bi"
    have B: "BBLOCK ?b (sb s) = ?B" "?b mod BPB = bi" "?b div BPB = k" using bi(1) BBLOCK_add by auto
    from alloc_step [OF Cons.prems(1) bi(2,3)] obtain i s1 s2 s3 s' where
      "bread 1 ?B s = Ok (i, s1)" "bdata (bufs s1 i) = blk s ?B" "sb s1 = sb s"
      "log_write i (set_data i (bit_set bi (blk s ?B)) s1) = Ok s2" "brelse i s2 = Ok s3" "bzero 1 (of_nat ?b) s3 = Ok s'"
      "alloc_post s ?b s'" unfolding B by blast
    with Some have "balloc_loop 1 (map (\<lambda>k. k * BPB) (k # ks)) s = Ok (of_nat ?b, s')" by simp
    moreover have "\<exists>b<?n. b div BPB \<in> set (k # ks) \<and> \<not> used s b" using bi(2,3) B(3) by (intro exI [of _ ?b]) simp
    ultimately show ?thesis using bi \<open>alloc_post s ?b s'\<close> by (simp only: if_True) blast
  next
    case None
    have kk: "k * BPB < ?n" using Cons.prems(2) by simp
    from alloc_skip [OF Cons.prems(1) kk] obtain i s1 s' where
      1: "bread 1 ?B s = Ok (i, s1)" "bdata (bufs s1 i) = blk s ?B" "sb s1 = sb s" "brelse i s1 = Ok s'" "alloc_ready s'" "blk s' = blk s"
      "disk s' = disk s" "heldb s' = heldb s" "lhn s' = lhn s" "sb s' = sb s" "log_frame s s'" "used s' = used s" by blast
    have full: "used s b" if "b < ?n" "b div BPB = k" for b
    proof -
      have e: "b = k * BPB + b mod BPB" and l: "b mod BPB < BPB" using that(2) by (auto simp: BPB_def BSIZE_def)
      with None that(1) have "\<not> bit_free (blk s ?B) (b mod BPB)" by (auto simp: find_None_iff)
      then show ?thesis using used_add [OF l, of s k] e by simp
    qed
    have ex: "(\<exists>b<?n. b div BPB \<in> set (k # ks) \<and> \<not> used s b) \<longleftrightarrow> (\<exists>b<?n. b div BPB \<in> set ks \<and> \<not> used s b)"
      using full by auto
    have st: "balloc_loop 1 (map (\<lambda>k. k * BPB) (k # ks)) s = balloc_loop 1 (map (\<lambda>k. k * BPB) ks) s'"
      using 1(1-4) None by simp
    have IH: "if \<exists>b<?n. b div BPB \<in> set ks \<and> \<not> used s b
      then \<exists>b s''. balloc_loop 1 (map (\<lambda>k. k * BPB) ks) s' = Ok (of_nat b, s'') \<and> b < ?n \<and> \<not> used s b \<and> alloc_post s' b s''
      else balloc_loop 1 (map (\<lambda>k. k * BPB) ks) s' = panic ''balloc: out of blocks''"
      using Cons.IH [OF 1(5)] Cons.prems(2) unfolding 1(10,12) by simp
    have tr: "alloc_post s' b s'' \<Longrightarrow> alloc_post s b s''" for b s''
      by (rule alloc_post_trans [OF 1(6-11)])
    show ?thesis unfolding ex st using IH tr by (auto split: if_splits)
  qed
qed simp

lemma alloc_post_used:
  assumes a: "alloc_ready s" and b: "b < unat (sb_size (sb s))" "\<not> used s b" and p: "alloc_post s b s'"
    and c: "c < unat (sb_size (sb s))"
  shows "used s' c \<longleftrightarrow> used s c \<or> c = b"
proof -
  have r: "linv s" "map_geom s" "\<And>b. is_meta s b \<Longrightarrow> b < unat (sb_size (sb s)) \<Longrightarrow> used s b" using a by (auto simp: alloc_ready_def)
  have bi: "binv s" using r(1) by (simp add: linv_def)
  have p': "sb s' = sb s" "blk s' = (blk s)(BBLOCK b (sb s) := bit_set (b mod BPB) (blk s (BBLOCK b (sb s))), of_nat b := replicate BSIZE 0)"
    using p same_sb(2) by (auto simp: alloc_post_def)
  note C = BBLOCK_facts [OF r(2) c]
  have "unat (of_nat b :: u32) = b" using b(1) unat_u32_less [of "sb_size (sb s)"] by (intro unat_of_nat_small) simp
  then have "BBLOCK c (sb s) \<noteq> of_nat b" using C(4) r(3) [of b] b by auto
  then have us: "used s' c \<longleftrightarrow> \<not> bit_free (if BBLOCK c (sb s) = BBLOCK b (sb s) then bit_set (b mod BPB) (blk s (BBLOCK b (sb s)))
      else blk s (BBLOCK c (sb s))) (c mod BPB)"
    by (simp add: used_def p')
  have "(b mod BPB) div 8 < length (blk s (BBLOCK b (sb s)))"
    unfolding length_blk [OF bi] by (rule BPB_div8) (simp add: BPB_def BSIZE_def)
  note bs = bit_free_set [OF this]
  show ?thesis
  proof (cases "c div BPB = b div BPB")
    case True
    then have "b mod BPB = c mod BPB \<longleftrightarrow> c = b" by (metis div_mod_decomp)
    moreover have "BBLOCK c (sb s) = BBLOCK b (sb s)" using BBLOCK_eq [OF r(2) c b(1)] True by simp
    ultimately show ?thesis using us bs [of "c mod BPB"] by (simp add: used_def)
  next
    case False
    then show ?thesis using BBLOCK_eq [OF r(2) c b(1)] us by (auto simp: used_def)
  qed
qed

lemma bmap_starts_all:
  "k \<in> set [0..<(n + BPB - 1) div BPB] \<Longrightarrow> k * BPB < n" "b < n \<Longrightarrow> b div BPB \<in> set [0..<(n + BPB - 1) div BPB]"
proof -
  have p: "0 < BPB" by (simp add: BPB_def BSIZE_def)
  show "k * BPB < n" if "k \<in> set [0..<(n + BPB - 1) div BPB]"
  proof -
    have "Suc k \<le> (n + BPB - 1) div BPB" using that by simp
    then have "Suc k * BPB \<le> n + BPB - 1" using p by (simp add: less_eq_div_iff_mult_less_eq)
    then show ?thesis using p by simp
  qed
  show "b div BPB \<in> set [0..<(n + BPB - 1) div BPB]" if "b < n"
  proof -
    have "b div BPB * BPB \<le> b" "Suc (b div BPB) * BPB = b div BPB * BPB + BPB" by simp_all
    then have "Suc (b div BPB) * BPB \<le> n + BPB - 1" using that p by linarith
    then have "Suc (b div BPB) \<le> (n + BPB - 1) div BPB" using p by (simp add: less_eq_div_iff_mult_less_eq)
    then show ?thesis by simp
  qed
qed

lemma balloc_spec:
  assumes a: "alloc_ready s"
  shows "if \<exists>b < unat (sb_size (sb s)). \<not> used s b
    then \<exists>b s'. balloc 1 s = Ok (of_nat b, s') \<and> b < unat (sb_size (sb s)) \<and> \<not> used s b \<and> alloc_post s b s'
    else balloc 1 s = panic ''balloc: out of blocks''"
proof -
  let ?n = "unat (sb_size (sb s))"
  let ?ks = "[0..<(?n + BPB - 1) div BPB]"
  have "\<forall>k\<in>set ?ks. k * BPB < ?n" using bmap_starts_all(1) by blast
  from balloc_loop_spec [OF a this]
  show ?thesis unfolding balloc_def bmap_starts_def using bmap_starts_all(2) [of _ ?n] by (auto split: if_splits)
qed

lemma bfree_spec:
  assumes r: "linv s" "map_geom s" "1 \<le> outstanding s" "lhn s + 1 < lsize s" "card (heldb s) + length (logged s) < NBUF"
    and b: "unat b < unat (sb_size (sb s))" "BBLOCK (unat b) (sb s) \<notin> heldb s"
  shows "if used s (unat b)
    then \<exists>s'. bfree 1 b s = Ok s' \<and> linv s' \<and> log_frame s s' \<and> disk s' = disk s \<and> heldb s' = heldb s \<and>
      blk s' = (blk s)(BBLOCK (unat b) (sb s) := bit_clear (unat b mod BPB) (blk s (BBLOCK (unat b) (sb s)))) \<and>
      (\<forall>c < unat (sb_size (sb s)). used s' c \<longleftrightarrow> used s c \<and> c \<noteq> unat b)
    else bfree 1 b s = panic ''freeing free block''"
proof -
  let ?n = "BBLOCK (unat b) (sb s)" and ?bi = "unat b mod BPB"
  note n = BBLOCK_facts [OF r(2) b(1)]
  have bi: "binv s" using r(1) by (simp add: linv_def)
  have fl: "length (bit_clear ?bi (blk s ?n)) = BSIZE" using length_blk [OF bi] by simp
  have cc: "lhn s < lsize s - 1" using r(4) by simp
  from tx_update [OF r(1) n(2) b(2) linv_room [OF r(1,5)] n(3) cc r(3), of "bit_clear ?bi", OF fl] obtain i s1 s2 s' where
    1: "bread 1 ?n s = Ok (i, s1)" "bdata (bufs s1 i) = blk s ?n" "log_write i (set_data i (bit_clear ?bi (blk s ?n)) s1) = Ok s2"
    "brelse i s2 = Ok s'" "linv s'" "blk s' = (blk s)(?n := bit_clear ?bi (blk s ?n))" "disk s' = disk s" "heldb s' = heldb s"
    "log_frame s s'" by blast
  show ?thesis
  proof (cases "used s (unat b)")
    case True
    then have "bfree 1 b s = Ok s'" using 1 by (simp add: bfree_def Let_def used_def)
    moreover have "used s' c \<longleftrightarrow> used s c \<and> c \<noteq> unat b" if c: "c < unat (sb_size (sb s))" for c
    proof -
      have "?bi div 8 < length (blk s ?n)" unfolding length_blk [OF bi] by (rule BPB_div8) (simp add: BPB_def BSIZE_def)
      note bc = bit_free_clear [OF this]
      have sb: "sb s' = sb s" by (rule same_sb(2) [OF 1(9)])
      show ?thesis
      proof (cases "c div BPB = unat b div BPB")
        case True
        then have "?bi = c mod BPB \<longleftrightarrow> c = unat b" by (metis div_mod_decomp)
        moreover have "BBLOCK c (sb s) = ?n" using BBLOCK_eq [OF r(2) c b(1)] True by simp
        ultimately show ?thesis using bc [of "c mod BPB"] by (simp add: used_def 1(6) sb)
      next
        case False
        then show ?thesis using BBLOCK_eq [OF r(2) c b(1)] by (auto simp: used_def 1(6) sb)
      qed
    qed
    ultimately show ?thesis using True 1 by auto
  next
    case False
    then show ?thesis using 1(1,2) by (simp add: bfree_def Let_def used_def)
  qed
qed

text \<open>C10: \<^verbatim>\<open>balloc\<close> returns a block that was free, marks that block and no other, zeroes it and leaves every
  other block as it was; when no block is free it panics.\<close>

theorem balloc_correct:
  assumes "alloc_ready s"
  shows "if \<exists>b < unat (sb_size (sb s)). \<not> used s b
    then \<exists>b s'. balloc 1 s = Ok (b, s') \<and> linv s' \<and> \<not> used s (unat b) \<and> unat b < unat (sb_size (sb s)) \<and>
      (\<forall>c < unat (sb_size (sb s)). used s' c \<longleftrightarrow> used s c \<or> c = unat b) \<and> blk s' b = replicate BSIZE 0 \<and>
      (\<forall>m. m \<noteq> b \<and> m \<noteq> BBLOCK (unat b) (sb s) \<longrightarrow> blk s' m = blk s m)
    else balloc 1 s = panic ''balloc: out of blocks''"
proof (cases "\<exists>b < unat (sb_size (sb s)). \<not> used s b")
  case True
  then obtain b s' where b: "balloc 1 s = Ok (of_nat b, s')" "b < unat (sb_size (sb s))" "\<not> used s b" "alloc_post s b s'"
    using balloc_spec [OF assms] by auto
  have "unat (of_nat b :: u32) = b" using b(2) unat_u32_less [of "sb_size (sb s)"] by (intro unat_of_nat_small) simp
  with True b show ?thesis
    using alloc_post_used [OF assms b(2-4)] by (auto simp: alloc_post_def intro!: exI [of _ "of_nat b"] exI [of _ s'])
next
  case False
  then show ?thesis using balloc_spec [OF assms] by auto
qed

text \<open>Freeing a block that was just allocated succeeds and restores the free map.\<close>

theorem balloc_bfree_roundtrip:
  assumes a: "alloc_ready s" "lhn s + 3 < lsize s" "card (heldb s) + length (logged s) + 2 < NBUF" and b: "balloc 1 s = Ok (b, s')"
  shows "\<exists>s''. bfree 1 b s' = Ok s'' \<and> linv s'' \<and> (\<forall>c < unat (sb_size (sb s)). used s'' c \<longleftrightarrow> used s c)"
proof -
  let ?n = "unat (sb_size (sb s))"
  have "\<exists>c<?n. \<not> used s c" using balloc_spec [OF a(1)] b by (cases "\<exists>c<?n. \<not> used s c") simp_all
  then obtain c where c: "b = of_nat c" "c < ?n" "\<not> used s c" "alloc_post s c s'"
    using balloc_spec [OF a(1)] b by auto
  have uc: "unat b = c" using c(1,2) unat_u32_less [of "sb_size (sb s)"] by (simp add: unat_of_nat_small)
  have r: "linv s" "map_geom s" "1 \<le> outstanding s" "BBLOCK c (sb s) \<notin> heldb s"
    using a(1) c(2) by (auto simp: alloc_ready_def)
  have p: "linv s'" "log_frame s s'" "heldb s' = heldb s" "lhn s' \<le> lhn s + 2" using c(4) by (simp_all add: alloc_post_def)
  note f = log_frameD [OF p(2)] same_sb(2) [OF p(2)]
  have g: "map_geom s'" using r(2) f by (simp add: map_geom_def)
  have u: "used s' x \<longleftrightarrow> used s x \<or> x = c" if "x < ?n" for x by (rule alloc_post_used [OF a(1) c(2-4) that])
  have "0 \<le> lhn s" using r(1) by (simp add: linv_def)
  then have ll: "length (logged s') \<le> length (logged s) + 2"
    using length_logged [OF r(1)] length_logged [OF p(1)] p(4) by simp
  have "used s' (unat b)" using u [OF c(2)] uc by simp
  then obtain s'' where "bfree 1 b s' = Ok s''" "linv s''" "\<forall>x<?n. used s'' x \<longleftrightarrow> used s' x \<and> x \<noteq> c"
    using bfree_spec [OF p(1) g, of b] r(3,4) a(2,3) p(3,4) f uc c(2) ll by auto
  then show ?thesis using u c(3) by auto
qed

text \<open>A file system of 1000 blocks with its free map in block 58, all of whose data blocks are free.\<close>

definition demo_map :: block where
  "demo_map = replicate 7 255 @ [7] @ replicate 504 0"

definition demo_sb :: superblock where
  "demo_sb = \<lparr>sb_size = 1000, sb_nblocks = 941, sb_ninodes = 200, sb_nlog = 30, sb_logstart = 2, sb_inodestart = 32, sb_bmapstart = 58\<rparr>"

definition demo_sbst :: sbst where
  "demo_sbst = binit \<lparr>mem = (\<lambda>_. 0), kend = 0, use_lock = False, freelist = 0,
     disk = (\<lambda>n. if n = 58 then demo_map else replicate BSIZE 0),
     disksize = 1000, dwrites = [], bufs = (\<lambda>_. zbuf), curpid = 1,
     lstart = 2, lsize = 30, outstanding = 1, committing = False, ldev = 1, lhn = 0, lhblock = replicate 30 0, sb = demo_sb\<rparr>"

lemma demo_map_free: "b < 59 \<Longrightarrow> \<not> bit_free demo_map b" "bit_free demo_map 59"
proof -
  have "bit (255 :: u8) k" if "k < 8" for k
  proof -
    have "(255 :: u8) = mask 8" by (simp add: mask_eq_exp_minus_1)
    then show ?thesis using that by (simp only: bit_mask_iff) simp
  qed
  moreover have "bit (7 :: u8) k" if "k < 3" for k
  proof -
    have "(7 :: u8) = mask 3" by (simp add: mask_eq_exp_minus_1)
    then show ?thesis using that by (simp only: bit_mask_iff) simp
  qed
  moreover assume "b < 59"
  moreover have "b div 8 < 7 \<or> b div 8 = 7 \<and> b mod 8 < 3" using \<open>b < 59\<close> by presburger
  ultimately show "\<not> bit_free demo_map b" by (auto simp: bit_free_iff demo_map_def nth_append)
next
  have "\<not> bit (7 :: u8) 3"
  proof -
    have "(7 :: u8) = mask 3" by (simp add: mask_eq_exp_minus_1)
    then show ?thesis by (simp only: bit_mask_iff) simp
  qed
  then show "bit_free demo_map 59" by (simp add: bit_free_iff demo_map_def nth_append)
qed

lemma demo_sbst_ready: "alloc_ready demo_sbst" "lhn demo_sbst = 0" "lsize demo_sbst = 30" "heldb demo_sbst = {}" "logged demo_sbst = []"
  "sb demo_sbst = demo_sb" "\<not> used demo_sbst 59"
proof -
  let ?s = demo_sbst
  let ?z = "\<lparr>mem = (\<lambda>_. 0), kend = 0, use_lock = False, freelist = 0,
     disk = (\<lambda>n. if n = 58 then demo_map else replicate BSIZE 0),
     disksize = 1000, dwrites = [], bufs = (\<lambda>_. zbuf), curpid = 1,
     lstart = 2, lsize = 30, outstanding = 1, committing = False, ldev = 1, lhn = 0, lhblock = replicate 30 0, sb = demo_sb\<rparr> :: sbst"
  have "length (disk ?z n) = BSIZE" for n by (simp add: BSIZE_def demo_map_def)
  note b = binit_spec [of ?z, OF _ this, folded demo_sbst_def, simplified]
  have f: "lstart ?s = 2" "lsize ?s = 30" "ldev ?s = 1" "lhn ?s = 0" "lhblock ?s = replicate 30 0" "disksize ?s = 1000"
    "disk ?s = disk ?z" "outstanding ?s = 1" "sb ?s = demo_sb"
    by (simp_all add: demo_sbst_def binit_def Let_def)
  show lg: "logged ?s = []" by (simp add: logged_def f)
  show "lhn ?s = 0" "lsize ?s = 30" "sb ?s = demo_sb" by (simp_all add: f)
  show h: "heldb ?s = {}" by (rule b(3))
  have g: "log_geom ?s" by (simp add: log_geom_def f LOGSIZE_def)
  have "word_at (replicate BSIZE 0) 0 = 0" by (simp add: word_at_def BSIZE_def of_le32_def)
  then have "hdr_n (disk ?s (lstart ?s)) = 0" by (simp add: hdr_n_def f)
  then have l: "linv ?s" using b(1-3) g by (intro linv_boot) (simp_all add: f LOGSIZE_def)
  have mg: "map_geom ?s" by (simp add: map_geom_def f demo_sb_def BPB_def BSIZE_def)
  have B: "BBLOCK c demo_sb = 58" if "c < 1000" for c using that by (simp add: BBLOCK_def demo_sb_def BPB_def BSIZE_def)
  have us: "used ?s c \<longleftrightarrow> \<not> bit_free demo_map c" if "c < 1000" for c
    using B [OF that] that by (simp add: used_def f b(4) BPB_def BSIZE_def)
  show "\<not> used ?s 59" using us [of 59] demo_map_free(2) by simp
  have "used ?s c" if "is_meta ?s c" for c
    using that us [of c] demo_map_free(1) [of c] by (simp add: is_meta_def f demo_sb_def BPB_def BSIZE_def)
  then show "alloc_ready ?s" using l mg h lg by (simp add: alloc_ready_def f NBUF_def)
qed

theorem balloc_correct_witness:
  "alloc_ready demo_sbst \<and> (\<exists>b s'. balloc 1 demo_sbst = Ok (b, s') \<and> \<not> used demo_sbst (unat b) \<and> used s' (unat b) \<and>
     blk s' b = replicate BSIZE 0)"
proof -
  have "\<exists>b<unat (sb_size (sb demo_sbst)). \<not> used demo_sbst b"
    using demo_sbst_ready(6,7) by (intro exI [of _ 59]) (simp add: demo_sb_def)
  with balloc_correct [OF demo_sbst_ready(1)] demo_sbst_ready(1) show ?thesis by auto
qed

theorem balloc_bfree_roundtrip_witness:
  "\<exists>b s' s''. balloc 1 demo_sbst = Ok (b, s') \<and> bfree 1 b s' = Ok s'' \<and> (\<forall>c<1000. used s'' c \<longleftrightarrow> used demo_sbst c)"
proof -
  have "\<exists>b<unat (sb_size (sb demo_sbst)). \<not> used demo_sbst b"
    using demo_sbst_ready(6,7) by (intro exI [of _ 59]) (simp add: demo_sb_def)
  then obtain b s' where b: "balloc 1 demo_sbst = Ok (b, s')" using balloc_spec [OF demo_sbst_ready(1)] by auto
  have "\<exists>s''. bfree 1 b s' = Ok s'' \<and> linv s'' \<and> (\<forall>c < unat (sb_size (sb demo_sbst)). used s'' c \<longleftrightarrow> used demo_sbst c)"
    by (rule balloc_bfree_roundtrip [OF demo_sbst_ready(1) _ _ b]) (simp_all add: demo_sbst_ready(2-5) NBUF_def)
  then show ?thesis using b by (auto simp: demo_sbst_ready(6) demo_sb_def)
qed

end
