(* ===== verification/Inode.thy ===== *)
theory Inode
  imports Balloc
begin

text \<open>
  Inodes (\<^verbatim>\<open>fs.c\<close> from \<^verbatim>\<open>iinit\<close> to \<^verbatim>\<open>writei\<close>): the in-memory inode cache, the on-disk inodes, and the mapping
  from a file's bytes to disk blocks. A \<^verbatim>\<open>struct inode *\<close> is the index of an entry of the cache. Data copied
  to or from a caller's buffer is a list of bytes. Device files call through \<^verbatim>\<open>devsw\<close>, which is an argument
  (\<open>dsw\<close>) of the routines that may reach it.
\<close>

section \<open>Data (fs.h, file.h, stat.h)\<close>

definition NDIRECT :: nat where "NDIRECT = 12"
definition NINDIRECT :: nat where "NINDIRECT = BSIZE div 4"
definition MAXFILE :: nat where "MAXFILE = NDIRECT + NINDIRECT"
definition NINODE :: nat where "NINODE = 50"
definition NDEV :: nat where "NDEV = 10"
definition ROOTDEV :: u32 where "ROOTDEV = 1"
definition ROOTINO :: u32 where "ROOTINO = 1"
definition T_DIR :: u16 where "T_DIR = 1"
definition T_FILE :: u16 where "T_FILE = 2"
definition T_DEV :: u16 where "T_DEV = 3"

record dinode =
  d_type :: u16
  d_major :: u16
  d_minor :: u16
  d_nlink :: u16
  d_size :: u32
  d_addrs :: "u32 list"

record inode =
  idev :: u32
  inum :: u32
  iref :: int
  ilk :: sleeplock
  ivalid :: bool
  itype :: u16
  imajor :: u16
  iminor :: u16
  inlink :: u16
  isize :: u32
  iaddrs :: "u32 list"

record ist = sbst +
  inodes :: "nat \<Rightarrow> inode"
  cwd :: nat

record stat =
  st_type :: u16
  st_dev :: u32
  st_ino :: u32
  st_nlink :: u16
  st_size :: u32

text \<open>\<^verbatim>\<open>devsw[major]\<close>: a device's \<^verbatim>\<open>read\<close> yields the bytes it stores in the caller's buffer, or fails.\<close>

record 's devops =
  dv_read :: "(nat \<Rightarrow> u32 \<Rightarrow> 's \<Rightarrow> (u8 list option \<times> 's) res) option"
  dv_write :: "(nat \<Rightarrow> u8 list \<Rightarrow> 's \<Rightarrow> (int \<times> 's) res) option"

type_synonym 's devsw = "nat \<Rightarrow> 's devops"

section \<open>On-disk inodes\<close>

definition sizeof_dinode :: nat where "sizeof_dinode = 64"
definition IPB :: nat where "IPB = BSIZE div sizeof_dinode"

definition IBLOCK :: "u32 \<Rightarrow> superblock \<Rightarrow> u32" where
  "IBLOCK i sp = i div of_nat IPB + sb_inodestart sp"

text \<open>\<^verbatim>\<open>(struct dinode*)bp->data + inum%IPB\<close>\<close>

definition dinode_off :: "u32 \<Rightarrow> nat" where
  "dinode_off i = unat i mod IPB * sizeof_dinode"

definition dinode_at :: "nat \<Rightarrow> block \<Rightarrow> dinode" where
  "dinode_at p d = \<lparr>d_type = of_le16 (take 2 (drop p d)), d_major = of_le16 (take 2 (drop (p + 2) d)),
     d_minor = of_le16 (take 2 (drop (p + 4) d)), d_nlink = of_le16 (take 2 (drop (p + 6) d)),
     d_size = of_le32 (take 4 (drop (p + 8) d)),
     d_addrs = map (\<lambda>i. of_le32 (take 4 (drop (p + 12 + 4 * i) d))) [0..<NDIRECT + 1]\<rparr>"

definition dinode_bytes :: "dinode \<Rightarrow> u8 list" where
  "dinode_bytes di = le16 (d_type di) @ le16 (d_major di) @ le16 (d_minor di) @ le16 (d_nlink di) @ le32 (d_size di) @
     concat (map le32 (d_addrs di))"

definition put_dinode :: "nat \<Rightarrow> dinode \<Rightarrow> block \<Rightarrow> block" where
  "put_dinode p di d = splice_at p (dinode_bytes di) d"

definition dinode_of :: "inode \<Rightarrow> dinode" where
  "dinode_of ip = \<lparr>d_type = itype ip, d_major = imajor ip, d_minor = iminor ip, d_nlink = inlink ip, d_size = isize ip,
     d_addrs = iaddrs ip\<rparr>"

section \<open>The inode cache\<close>

definition upd_inode :: "nat \<Rightarrow> (inode \<Rightarrow> inode) \<Rightarrow> 'a ist_scheme \<Rightarrow> 'a ist_scheme" where
  "upd_inode ip f s = s\<lparr>inodes := (inodes s)(ip := f (inodes s ip))\<rparr>"

definition iinit :: "u32 \<Rightarrow> 'a ist_scheme \<Rightarrow> 'a ist_scheme res" where
  "iinit dev s =
     (let s = s\<lparr>inodes := (\<lambda>i. if i < NINODE then (inodes s i)\<lparr>ilk := initsleeplock\<rparr> else inodes s i)\<rparr> in
      bind_res (readsb dev s) (\<lambda>(sp, s). Ok (s\<lparr>sb := sp\<rparr>)))"

text \<open>The scan of \<^verbatim>\<open>iget\<close>: the cached entry, else the first free one.\<close>

fun iget_scan :: "u32 \<Rightarrow> u32 \<Rightarrow> (nat \<Rightarrow> inode) \<Rightarrow> nat option \<Rightarrow> nat list \<Rightarrow> nat option \<times> nat option" where
  "iget_scan dev i ins em [] = (None, em)"
| "iget_scan dev i ins em (ip # ips) =
     (if iref (ins ip) > 0 \<and> idev (ins ip) = dev \<and> inum (ins ip) = i then (Some ip, em)
      else iget_scan dev i ins (if em = None \<and> iref (ins ip) = 0 then Some ip else em) ips)"

definition iget :: "u32 \<Rightarrow> u32 \<Rightarrow> 'a ist_scheme \<Rightarrow> (nat \<times> 'a ist_scheme) res" where
  "iget dev i s =
     (case iget_scan dev i (inodes s) None [0..<NINODE] of
        (Some ip, _) \<Rightarrow> Ok (ip, upd_inode ip (\<lambda>n. n\<lparr>iref := iref n + 1\<rparr>) s)
      | (None, None) \<Rightarrow> panic ''iget: no inodes''
      | (None, Some ip) \<Rightarrow> Ok (ip, upd_inode ip (\<lambda>n. n\<lparr>idev := dev, inum := i, iref := 1, ivalid := False\<rparr>) s))"

fun ialloc_loop :: "u32 \<Rightarrow> u16 \<Rightarrow> nat list \<Rightarrow> 'a ist_scheme \<Rightarrow> (nat \<times> 'a ist_scheme) res" where
  "ialloc_loop dev ty [] s = panic ''ialloc: no inodes''"
| "ialloc_loop dev ty (i # rest) s =
     bind_res (bread dev (IBLOCK (of_nat i) (sb s)) s) (\<lambda>(bp, s).
       let p = dinode_off (of_nat i); d = bdata (bufs s bp) in
       if d_type (dinode_at p d) = 0
       then let di = \<lparr>d_type = ty, d_major = 0, d_minor = 0, d_nlink = 0, d_size = 0, d_addrs = replicate (NDIRECT + 1) 0\<rparr> in
            bind_res (log_write bp (set_data bp (put_dinode p di d) s)) (\<lambda>s.
            bind_res (brelse bp s) (iget dev (of_nat i)))
       else bind_res (brelse bp s) (ialloc_loop dev ty rest))"

definition ialloc :: "u32 \<Rightarrow> u16 \<Rightarrow> 'a ist_scheme \<Rightarrow> (nat \<times> 'a ist_scheme) res" where
  "ialloc dev ty s = ialloc_loop dev ty [1..<unat (sb_ninodes (sb s))] s"

definition iupdate :: "nat \<Rightarrow> 'a ist_scheme \<Rightarrow> 'a ist_scheme res" where
  "iupdate ip s =
     (let n = inodes s ip in
      bind_res (bread (idev n) (IBLOCK (inum n) (sb s)) s) (\<lambda>(bp, s).
      bind_res (log_write bp (set_data bp (put_dinode (dinode_off (inum n)) (dinode_of n) (bdata (bufs s bp))) s)) (\<lambda>s.
      brelse bp s)))"

definition idup :: "nat \<Rightarrow> 'a ist_scheme \<Rightarrow> 'a ist_scheme" where
  "idup ip s = upd_inode ip (\<lambda>n. n\<lparr>iref := iref n + 1\<rparr>) s"

definition ilock :: "nat \<Rightarrow> 'a ist_scheme \<Rightarrow> 'a ist_scheme res" where
  "ilock ip s =
     (if iref (inodes s ip) < 1 then panic ''ilock''
      else bind_res (acquiresleep (curpid s) (ilk (inodes s ip))) (\<lambda>lk.
        let s = upd_inode ip (\<lambda>n. n\<lparr>ilk := lk\<rparr>) s; n = inodes s ip in
        if ivalid n then Ok s
        else bind_res (bread (idev n) (IBLOCK (inum n) (sb s)) s) (\<lambda>(bp, s).
          let di = dinode_at (dinode_off (inum n)) (bdata (bufs s bp));
              s = upd_inode ip (\<lambda>n. n\<lparr>itype := d_type di, imajor := d_major di, iminor := d_minor di, inlink := d_nlink di,
                                     isize := d_size di, iaddrs := d_addrs di\<rparr>) s in
          bind_res (brelse bp s) (\<lambda>s.
            let s = upd_inode ip (\<lambda>n. n\<lparr>ivalid := True\<rparr>) s in
            if itype (inodes s ip) = 0 then panic ''ilock: no type'' else Ok s))))"

definition iunlock :: "nat \<Rightarrow> 'a ist_scheme \<Rightarrow> 'a ist_scheme res" where
  "iunlock ip s =
     (if \<not> holdingsleep (curpid s) (ilk (inodes s ip)) \<or> iref (inodes s ip) < 1 then panic ''iunlock''
      else Ok (upd_inode ip (\<lambda>n. n\<lparr>ilk := releasesleep (ilk n)\<rparr>) s))"

section \<open>Inode content\<close>

definition bmap :: "nat \<Rightarrow> u32 \<Rightarrow> 'a ist_scheme \<Rightarrow> (u32 \<times> 'a ist_scheme) res" where
  "bmap ip bn s =
     (if bn < of_nat NDIRECT
      then let addr = iaddrs (inodes s ip) ! unat bn in
        if addr = 0
        then bind_res (balloc (idev (inodes s ip)) s) (\<lambda>(addr, s).
          Ok (addr, upd_inode ip (\<lambda>n. n\<lparr>iaddrs := (iaddrs n)[unat bn := addr]\<rparr>) s))
        else Ok (addr, s)
      else let bn = bn - of_nat NDIRECT in
        if bn < of_nat NINDIRECT
        then bind_res
          (let addr = iaddrs (inodes s ip) ! NDIRECT in
           if addr = 0
           then bind_res (balloc (idev (inodes s ip)) s) (\<lambda>(addr, s).
             Ok (addr, upd_inode ip (\<lambda>n. n\<lparr>iaddrs := (iaddrs n)[NDIRECT := addr]\<rparr>) s))
           else Ok (addr, s))
          (\<lambda>(addr, s).
            bind_res (bread (idev (inodes s ip)) addr s) (\<lambda>(bp, s).
              let addr = word_at (bdata (bufs s bp)) (unat bn) in
              bind_res
                (if addr = 0
                 then bind_res (balloc (idev (inodes s ip)) s) (\<lambda>(addr, s).
                   bind_res (log_write bp (set_data bp (put_word (unat bn) addr (bdata (bufs s bp))) s)) (\<lambda>s. Ok (addr, s)))
                 else Ok (addr, s))
                (\<lambda>(addr, s). bind_res (brelse bp s) (\<lambda>s. Ok (addr, s)))))
        else panic ''bmap: out of range'')"

fun itrunc_direct :: "nat \<Rightarrow> nat list \<Rightarrow> 'a ist_scheme \<Rightarrow> 'a ist_scheme res" where
  "itrunc_direct ip [] s = Ok s"
| "itrunc_direct ip (i # rest) s =
     (let a = iaddrs (inodes s ip) ! i in
      if a \<noteq> 0
      then bind_res (bfree (idev (inodes s ip)) a s) (\<lambda>s.
        itrunc_direct ip rest (upd_inode ip (\<lambda>n. n\<lparr>iaddrs := (iaddrs n)[i := 0]\<rparr>) s))
      else itrunc_direct ip rest s)"

fun itrunc_indirect :: "nat \<Rightarrow> nat \<Rightarrow> nat list \<Rightarrow> 'a ist_scheme \<Rightarrow> 'a ist_scheme res" where
  "itrunc_indirect ip bp [] s = Ok s"
| "itrunc_indirect ip bp (j # js) s =
     (let a = word_at (bdata (bufs s bp)) j in
      if a \<noteq> 0 then bind_res (bfree (idev (inodes s ip)) a s) (itrunc_indirect ip bp js)
      else itrunc_indirect ip bp js s)"

definition itrunc :: "nat \<Rightarrow> 'a ist_scheme \<Rightarrow> 'a ist_scheme res" where
  "itrunc ip s =
     bind_res (itrunc_direct ip [0..<NDIRECT] s) (\<lambda>s.
     bind_res
       (let a = iaddrs (inodes s ip) ! NDIRECT in
        if a \<noteq> 0
        then bind_res (bread (idev (inodes s ip)) a s) (\<lambda>(bp, s).
             bind_res (itrunc_indirect ip bp [0..<NINDIRECT] s) (\<lambda>s.
             bind_res (brelse bp s) (\<lambda>s.
             bind_res (bfree (idev (inodes s ip)) (iaddrs (inodes s ip) ! NDIRECT) s) (\<lambda>s.
             Ok (upd_inode ip (\<lambda>n. n\<lparr>iaddrs := (iaddrs n)[NDIRECT := 0]\<rparr>) s)))))
        else Ok s)
       (\<lambda>s. iupdate ip (upd_inode ip (\<lambda>n. n\<lparr>isize := 0\<rparr>) s)))"

definition iput :: "nat \<Rightarrow> 'a ist_scheme \<Rightarrow> 'a ist_scheme res" where
  "iput ip s =
     bind_res (acquiresleep (curpid s) (ilk (inodes s ip))) (\<lambda>lk.
       let s = upd_inode ip (\<lambda>n. n\<lparr>ilk := lk\<rparr>) s; n = inodes s ip in
       bind_res
         (if ivalid n \<and> inlink n = 0 \<and> iref n = 1
          then bind_res (itrunc ip s) (\<lambda>s.
               bind_res (iupdate ip (upd_inode ip (\<lambda>n. n\<lparr>itype := 0\<rparr>) s)) (\<lambda>s.
               Ok (upd_inode ip (\<lambda>n. n\<lparr>ivalid := False\<rparr>) s)))
          else Ok s)
         (\<lambda>s. Ok (upd_inode ip (\<lambda>n. n\<lparr>ilk := releasesleep (ilk n), iref := iref n - 1\<rparr>) s)))"

definition iunlockput :: "nat \<Rightarrow> 'a ist_scheme \<Rightarrow> 'a ist_scheme res" where
  "iunlockput ip s = bind_res (iunlock ip s) (iput ip)"

definition stati :: "nat \<Rightarrow> 'a ist_scheme \<Rightarrow> stat" where
  "stati ip s = (let n = inodes s ip in
     \<lparr>st_type = itype n, st_dev = idev n, st_ino = inum n, st_nlink = inlink n, st_size = isize n\<rparr>)"

text \<open>The copy loops. \<open>off\<close> is the file offset, \<open>rem\<close> is \<^verbatim>\<open>n - tot\<close>; the callers have checked that \<^verbatim>\<open>off + n\<close>
  does not wrap.\<close>

definition chunk :: "nat \<Rightarrow> nat \<Rightarrow> nat" where
  "chunk off rem = min rem (BSIZE - off mod BSIZE)"

lemma chunk_pos: "0 < rem \<Longrightarrow> 0 < chunk off rem"
  by (simp add: chunk_def BSIZE_def)

function readi_loop :: "nat \<Rightarrow> nat \<Rightarrow> nat \<Rightarrow> u8 list \<Rightarrow> 'a ist_scheme \<Rightarrow> (u8 list \<times> 'a ist_scheme) res" where
  "readi_loop ip off rem acc s =
     (if rem = 0 then Ok (acc, s)
      else bind_res (bmap ip (of_nat (off div BSIZE)) s) (\<lambda>(a, s).
           bind_res (bread (idev (inodes s ip)) a s) (\<lambda>(bp, s).
             let m = chunk off rem; d = take m (drop (off mod BSIZE) (bdata (bufs s bp))) in
             bind_res (brelse bp s) (\<lambda>s. readi_loop ip (off + m) (rem - m) (acc @ d) s))))"
  by pat_completeness auto
termination
  by (relation "measure (\<lambda>(ip, off, rem, acc, s). rem)") (auto simp: chunk_pos)

definition readi :: "'a ist_scheme devsw \<Rightarrow> nat \<Rightarrow> u32 \<Rightarrow> u32 \<Rightarrow> 'a ist_scheme \<Rightarrow> (u8 list option \<times> 'a ist_scheme) res" where
  "readi dsw ip off n s =
     (let i = inodes s ip in
      if itype i = T_DEV
      then if sint (imajor i) < 0 \<or> int NDEV \<le> sint (imajor i) then Ok (None, s)
           else (case dv_read (dsw (unat (imajor i))) of None \<Rightarrow> Ok (None, s) | Some rd \<Rightarrow> rd ip n s)
      else if isize i < off \<or> off + n < off then Ok (None, s)
      else let n = (if isize i < off + n then isize i - off else n) in
           bind_res (readi_loop ip (unat off) (unat n) [] s) (\<lambda>(d, s). Ok (Some d, s)))"

function writei_loop :: "nat \<Rightarrow> nat \<Rightarrow> u8 list \<Rightarrow> 'a ist_scheme \<Rightarrow> (nat \<times> 'a ist_scheme) res" where
  "writei_loop ip off src s =
     (if src = [] then Ok (off, s)
      else bind_res (bmap ip (of_nat (off div BSIZE)) s) (\<lambda>(a, s).
           bind_res (bread (idev (inodes s ip)) a s) (\<lambda>(bp, s).
             let m = chunk off (length src) in
             bind_res (log_write bp (set_data bp (splice_at (off mod BSIZE) (take m src) (bdata (bufs s bp))) s)) (\<lambda>s.
             bind_res (brelse bp s) (\<lambda>s. writei_loop ip (off + m) (drop m src) s)))))"
  by pat_completeness auto
termination
  by (relation "measure (\<lambda>(ip, off, src, s). length src)") (auto simp: chunk_pos)

definition writei :: "'a ist_scheme devsw \<Rightarrow> nat \<Rightarrow> u8 list \<Rightarrow> u32 \<Rightarrow> 'a ist_scheme \<Rightarrow> (int \<times> 'a ist_scheme) res" where
  "writei dsw ip src off s =
     (let i = inodes s ip; n = of_nat (length src) in
      if itype i = T_DEV
      then if sint (imajor i) < 0 \<or> int NDEV \<le> sint (imajor i) then Ok (- 1, s)
           else (case dv_write (dsw (unat (imajor i))) of None \<Rightarrow> Ok (- 1, s) | Some wr \<Rightarrow> wr ip src s)
      else if isize i < off \<or> off + n < off then Ok (- 1, s)
      else if of_nat (MAXFILE * BSIZE) < off + n then Ok (- 1, s)
      else bind_res (writei_loop ip (unat off) src s) (\<lambda>(off', s).
        bind_res
          (if 0 < n \<and> isize (inodes s ip) < of_nat off'
           then iupdate ip (upd_inode ip (\<lambda>n. n\<lparr>isize := of_nat off'\<rparr>) s)
           else Ok s)
          (\<lambda>s. Ok (sint n, s))))"

declare readi_loop.simps [simp del] writei_loop.simps [simp del]

section \<open>Reading back an inode\<close>

lemma length_dinode_bytes: "length (d_addrs di) = NDIRECT + 1 \<Longrightarrow> length (dinode_bytes di) = sizeof_dinode"
  by (simp add: dinode_bytes_def sizeof_dinode_def NDIRECT_def)

lemma dinode_at_put:
  assumes a: "length (d_addrs di) = NDIRECT + 1" and p: "p + sizeof_dinode \<le> length d"
  shows "dinode_at p (put_dinode p di d) = di"
proof -
  let ?b = "dinode_bytes di"
  have l: "length ?b = 64" using length_dinode_bytes [OF a] by (simp add: sizeof_dinode_def)
  have sub: "take n (drop (p + k) (put_dinode p di d)) = take n (drop k ?b)" if "k + n \<le> 64" for k n
    unfolding put_dinode_def by (rule take_drop_splice_at_sub) (use that l p in \<open>simp_all add: sizeof_dinode_def\<close>)
  have ad: "take 4 (drop (p + 12 + 4 * i) (put_dinode p di d)) = le32 (d_addrs di ! i)" if "i < NDIRECT + 1" for i
    using sub [of "12 + 4 * i" 4] that take_drop_concat_le32 [of i "d_addrs di"] a
    by (simp add: add.assoc NDIRECT_def dinode_bytes_def)
  have "map (\<lambda>i. of_le32 (take 4 (drop (p + 12 + 4 * i) (put_dinode p di d)))) [0..<NDIRECT + 1] = d_addrs di"
    by (rule nth_equalityI) (use a in \<open>simp_all add: ad del: upt_Suc\<close>)
  then show ?thesis
    using sub [of 0 2] sub [of 2 2] sub [of 4 2] sub [of 6 2] sub [of 8 4]
    by (simp add: dinode_at_def) (simp add: dinode_bytes_def)
qed

lemma dinode_off_bound: "dinode_off i + sizeof_dinode \<le> BSIZE"
proof -
  have "unat i mod IPB < 8" by (simp add: IPB_def BSIZE_def sizeof_dinode_def)
  then show ?thesis by (simp add: dinode_off_def sizeof_dinode_def BSIZE_def)
qed

lemma length_put_dinode:
  "length (d_addrs di) = NDIRECT + 1 \<Longrightarrow> length d = BSIZE \<Longrightarrow> length (put_dinode (dinode_off i) di d) = BSIZE"
  unfolding put_dinode_def using dinode_off_bound [of i] by (subst length_splice_at) (simp_all add: length_dinode_bytes)

text \<open>Inode operations leave everything below the inode layer alone, and the block operations the inodes.\<close>

lemma view_upd_inode [simp]:
  "binv (upd_inode ip f s) = binv s" "blk (upd_inode ip f s) = blk s" "heldb (upd_inode ip f s) = heldb s"
  "dirtyb (upd_inode ip f s) = dirtyb s" "holds (upd_inode ip f s) = holds s" "linv (upd_inode ip f s) = linv s"
  "disk (upd_inode ip f s) = disk s" "sb (upd_inode ip f s) = sb s" "disksize (upd_inode ip f s) = disksize s"
  "log_region (upd_inode ip f s) = log_region s" "lhn (upd_inode ip f s) = lhn s" "lsize (upd_inode ip f s) = lsize s"
  "outstanding (upd_inode ip f s) = outstanding s" "logged (upd_inode ip f s) = logged s" "room (upd_inode ip f s) = room s"
  "curpid (upd_inode ip f s) = curpid s" "bufs (upd_inode ip f s) = bufs s"
  "inodes (upd_inode ip f s) = (inodes s)(ip := f (inodes s ip))"
proof -
  note v = view_cong [of "upd_inode ip f s" s, simplified upd_inode_def, simplified]
  show "binv (upd_inode ip f s) = binv s" "blk (upd_inode ip f s) = blk s" "heldb (upd_inode ip f s) = heldb s"
    "dirtyb (upd_inode ip f s) = dirtyb s" "holds (upd_inode ip f s) = holds s"
    using v by (simp_all add: upd_inode_def)
  then show "room (upd_inode ip f s) = room s" by (simp add: room_def fun_eq_iff)
  show "linv (upd_inode ip f s) = linv s"
    using v by (simp add: linv_def log_geom_def trans_ok_def log_region_def logged_def upd_inode_def)
qed (simp_all add: upd_inode_def log_region_def logged_def)

lemma linv_transfer:
  assumes "linv s" "binv s'" "dirtyb s' = dirtyb s" "heldb s' = heldb s" "disk s' = disk s" "lstart s' = lstart s" "lsize s' = lsize s"
    "ldev s' = ldev s" "lhn s' = lhn s" "lhblock s' = lhblock s" "disksize s' = disksize s"
  shows "linv s'"
proof -
  have "log_region s' = log_region s" "logged s' = logged s" "log_geom s' = log_geom s"
    by (simp_all add: log_region_def logged_def log_geom_def assms(6-11))
  then show ?thesis using assms by (simp add: linv_def trans_ok_def)
qed

lemma same_inodes: "same_but_cache s s' \<Longrightarrow> inodes s' = inodes s" "log_frame s s' \<Longrightarrow> inodes s' = inodes s"
proof -
  assume "same_but_cache s s'"
  from arg_cong [OF this [unfolded same_but_cache_def], of inodes] show "inodes s' = inodes s" by simp
next
  assume "log_frame s s'"
  from arg_cong [OF this [unfolded log_frame_def], of inodes] show "inodes s' = inodes s" by simp
qed

text \<open>The on-disk home of an inode is a block the transaction may write.\<close>

definition inode_home :: "'a ist_scheme \<Rightarrow> nat \<Rightarrow> bool" where
  "inode_home s ip \<longleftrightarrow> (let n = IBLOCK (inum (inodes s ip)) (sb s) in
     idev (inodes s ip) = 1 \<and> n < disksize s \<and> n \<notin> heldb s \<and> n \<notin> log_region s)"

lemma iupdate_spec:
  assumes l: "linv s" and h: "inode_home s ip" and a: "length (iaddrs (inodes s ip)) = NDIRECT + 1"
    and c: "lhn s < lsize s - 1" "1 \<le> outstanding s" "card (heldb s) + length (logged s) < NBUF"
  shows "\<exists>s'. iupdate ip s = Ok s' \<and> linv s' \<and> log_frame s s' \<and> disk s' = disk s \<and> heldb s' = heldb s \<and>
    lhn s' \<le> lhn s + 1 \<and>
    blk s' = (blk s)(IBLOCK (inum (inodes s ip)) (sb s) :=
      put_dinode (dinode_off (inum (inodes s ip))) (dinode_of (inodes s ip)) (blk s (IBLOCK (inum (inodes s ip)) (sb s))))"
proof -
  let ?n = "IBLOCK (inum (inodes s ip)) (sb s)" and ?i = "inodes s ip"
  let ?f = "put_dinode (dinode_off (inum ?i)) (dinode_of ?i)"
  have n: "idev ?i = 1" "?n < disksize s" "?n \<notin> heldb s" "?n \<notin> log_region s" using h by (simp_all add: inode_home_def Let_def)
  have "binv s" using l by (simp add: linv_def)
  then have fl: "length (?f (blk s ?n)) = BSIZE"
    by (intro length_put_dinode) (simp_all add: dinode_of_def a length_blk)
  from tx_update [OF l n(2,3) linv_room [OF l c(3)] n(4) c(1,2), of ?f, OF fl] obtain i s1 s2 s' where
    1: "bread 1 ?n s = Ok (i, s1)" "bdata (bufs s1 i) = blk s ?n" "log_write i (set_data i (?f (blk s ?n)) s1) = Ok s2"
    "brelse i s2 = Ok s'" "linv s'" "blk s' = (blk s)(?n := ?f (blk s ?n))" "disk s' = disk s" "heldb s' = heldb s"
    "lhn s' = (if ?n \<in> set (logged s) then lhn s else lhn s + 1)" "log_frame s s'" by blast
  have "iupdate ip s = Ok s'" using 1(1-4) n(1) by (simp add: iupdate_def Let_def)
  then show ?thesis using 1 by (intro exI [of _ s']) auto
qed

text \<open>Loading an inode: its fields are those of the on-disk inode.\<close>

lemma ilock_load:
  assumes l: "linv s" and h: "inode_home s ip" and v: "\<not> ivalid (inodes s ip)" "\<not> locked (ilk (inodes s ip))" "1 \<le> iref (inodes s ip)"
    and c: "card (heldb s) + length (logged s) < NBUF"
    and t: "d_type (dinode_at (dinode_off (inum (inodes s ip))) (blk s (IBLOCK (inum (inodes s ip)) (sb s)))) \<noteq> 0"
  shows "\<exists>s'. ilock ip s = Ok s' \<and> linv s' \<and> blk s' = blk s \<and> ivalid (inodes s' ip) \<and> holdingsleep (curpid s) (ilk (inodes s' ip)) \<and>
    dinode_of (inodes s' ip) = dinode_at (dinode_off (inum (inodes s ip))) (blk s (IBLOCK (inum (inodes s ip)) (sb s))) \<and>
    (\<forall>j. j \<noteq> ip \<longrightarrow> inodes s' j = inodes s j) \<and> inum (inodes s' ip) = inum (inodes s ip) \<and> iref (inodes s' ip) = iref (inodes s ip)"
proof -
  let ?n = "IBLOCK (inum (inodes s ip)) (sb s)"
  define u where "u = upd_inode ip (\<lambda>n. n\<lparr>ilk := (ilk (inodes s ip))\<lparr>locked := True, lk_pid := curpid s\<rparr>\<rparr>) s"
  have n: "idev (inodes s ip) = 1" "?n < disksize s" "?n \<notin> heldb s" "?n \<notin> log_region s"
    using h by (simp_all add: inode_home_def Let_def)
  have lu: "linv u" "blk u = blk s" "heldb u = heldb s" "disksize u = disksize s" "sb u = sb s" "logged u = logged s"
    "inum (inodes u ip) = inum (inodes s ip)" "idev (inodes u ip) = 1" "\<not> ivalid (inodes u ip)" "log_region u = log_region s"
    using l n v by (simp_all add: u_def)
  have bu: "binv u" and hu: "heldb u \<inter> log_region u = {}" using lu(1) by (simp_all add: linv_def)
  have "room u ?n" by (rule linv_room [OF lu(1)]) (simp add: lu c)
  then obtain i s1 where 1: "bread 1 ?n u = Ok (i, s1)" "binv s1" "holds s1 i ?n" "blk s1 = blk u" "disk s1 = disk u"
    "dirtyb s1 = dirtyb u" "heldb s1 = insert ?n (heldb u)" "same_but_cache u s1"
    using bread_law [OF bu, of ?n] n lu by auto
  note e1 = same_inodes(1) [OF 1(8)] same_sb(1) [OF 1(8)] same_lst [OF 1(8)]
  have dat: "bdata (bufs s1 i) = blk s ?n" using holds_facts(4) [OF 1(2,3)] 1(4) lu(2) by simp
  define di where "di = dinode_at (dinode_off (inum (inodes s ip))) (blk s ?n)"
  define w where "w = upd_inode ip (\<lambda>n. n\<lparr>itype := d_type di, imajor := d_major di, iminor := d_minor di, inlink := d_nlink di,
      isize := d_size di, iaddrs := d_addrs di\<rparr>) s1"
  have hw: "binv w" "holds w i ?n" "blk w = blk s" "dirtyb w = dirtyb u" "heldb w = insert ?n (heldb s)" "disk w = disk u"
    using 1 lu by (simp_all add: w_def)
  have "?n \<in> dirtyb w \<or> blk w ?n = disk w ?n" using blk_clean [OF bu, of ?n] n(3) lu hw by auto
  from brelse_law [OF hw(1,2) this] obtain s2 where 2: "brelse i w = Ok s2" "binv s2" "blk s2 = blk s" "disk s2 = disk u"
    "dirtyb s2 = dirtyb u" "heldb s2 = heldb s" "same_but_cache w s2" using hw n(3) by auto
  note e2 = same_inodes(1) [OF 2(7)]
  define s' where "s' = upd_inode ip (\<lambda>n. n\<lparr>ivalid := True\<rparr>) s2"
  have is': "inodes s' ip = (inodes u ip)\<lparr>itype := d_type di, imajor := d_major di, iminor := d_minor di, inlink := d_nlink di,
      isize := d_size di, iaddrs := d_addrs di, ivalid := True\<rparr>" "\<forall>j. j \<noteq> ip \<longrightarrow> inodes s' j = inodes s j"
    by (simp_all add: s'_def e2 w_def e1 u_def)
  have ty: "itype (inodes s2 ip) = d_type di" by (simp add: e2 w_def)
  have "ilock ip s = bind_res (brelse i w) (\<lambda>s. let s = upd_inode ip (\<lambda>n. n\<lparr>ivalid := True\<rparr>) s in
      if itype (inodes s ip) = 0 then panic ''ilock: no type'' else Ok s)"
    using v 1(1) n(1) e1 dat unfolding ilock_def acquiresleep_def
    by (simp add: u_def [symmetric] lu Let_def di_def [symmetric] w_def [symmetric])
  then have "ilock ip s = Ok s'"
    using t ty by (simp add: 2(1) Let_def di_def [symmetric] s'_def)
  moreover have "linv s'"
  proof -
    have "linv s2"
      by (rule linv_transfer [OF lu(1) 2(2,5)]) (use same_lst [OF 2(7)] e1 2 lu in \<open>simp_all add: w_def upd_inode_def\<close>)
    then show ?thesis by (simp add: s'_def)
  qed
  moreover have "dinode_of (inodes s' ip) = di" by (simp add: is' dinode_of_def)
  moreover have "holdingsleep (curpid s) (ilk (inodes s' ip))" by (simp add: is' u_def holdingsleep_def)
  moreover have "blk s' = blk s" "ivalid (inodes s' ip)" "inum (inodes s' ip) = inum (inodes s ip)" "iref (inodes s' ip) = iref (inodes s ip)"
    by (simp_all add: s'_def 2(3) e2 w_def e1 u_def)
  ultimately show ?thesis using is'(2) unfolding di_def by blast
qed

section \<open>Reading a file\<close>

text \<open>The block that holds block \<open>bn\<close> of the file (0: none), and the byte at position \<open>k\<close>.\<close>

definition bmap_addr :: "'a ist_scheme \<Rightarrow> nat \<Rightarrow> nat \<Rightarrow> u32" where
  "bmap_addr s ip bn =
     (if bn < NDIRECT then iaddrs (inodes s ip) ! bn
      else if iaddrs (inodes s ip) ! NDIRECT = 0 then 0
      else word_at (blk s (iaddrs (inodes s ip) ! NDIRECT)) (bn - NDIRECT))"

definition file_byte :: "'a ist_scheme \<Rightarrow> nat \<Rightarrow> nat \<Rightarrow> u8" where
  "file_byte s ip k = blk s (bmap_addr s ip (k div BSIZE)) ! (k mod BSIZE)"

text \<open>Block \<open>n\<close> can be read: it is on the disk and nobody holds it.\<close>

definition readable :: "'a ist_scheme \<Rightarrow> u32 \<Rightarrow> bool" where
  "readable s n \<longleftrightarrow> n \<noteq> 0 \<and> n < disksize s \<and> n \<notin> heldb s"

text \<open>A regular file or directory whose blocks up to its size are all there.\<close>

definition file_ok :: "'a ist_scheme \<Rightarrow> nat \<Rightarrow> bool" where
  "file_ok s ip \<longleftrightarrow> linv s \<and> card (heldb s) + length (logged s) < NBUF \<and> itype (inodes s ip) \<noteq> T_DEV \<and> idev (inodes s ip) = 1 \<and>
     unat (isize (inodes s ip)) \<le> MAXFILE * BSIZE \<and>
     (\<forall>bn. bn * BSIZE < unat (isize (inodes s ip)) \<longrightarrow> readable s (bmap_addr s ip bn) \<and>
        (NDIRECT \<le> bn \<longrightarrow> readable s (iaddrs (inodes s ip) ! NDIRECT)))"

lemma file_ok_same:
  assumes f: "file_ok s ip" and "same_but_cache s s'" "linv s'" "blk s' = blk s" "heldb s' = heldb s" "logged s' = logged s"
  shows "file_ok s' ip" "file_byte s' ip = file_byte s ip" "bmap_addr s' ip = bmap_addr s ip"
proof -
  note e = same_inodes(1) [OF assms(2)] same_lst [OF assms(2)]
  show b: "bmap_addr s' ip = bmap_addr s ip" by (rule ext) (simp add: bmap_addr_def e assms(4))
  show "file_byte s' ip = file_byte s ip" by (rule ext) (simp add: file_byte_def b assms(4))
  show "file_ok s' ip" using f assms(3-6) by (simp add: file_ok_def readable_def e b)
qed

lemma bmap_mapped:
  assumes f: "file_ok s ip" and b: "bn * BSIZE < unat (isize (inodes s ip))"
  shows "\<exists>s'. bmap ip (of_nat bn) s = Ok (bmap_addr s ip bn, s') \<and> same_but_cache s s' \<and> linv s' \<and> blk s' = blk s \<and> disk s' = disk s \<and>
    heldb s' = heldb s \<and> logged s' = logged s"
proof -
  have r: "readable s (bmap_addr s ip bn)" "NDIRECT \<le> bn \<Longrightarrow> readable s (iaddrs (inodes s ip) ! NDIRECT)"
    "linv s" "idev (inodes s ip) = 1" "card (heldb s) + length (logged s) < NBUF"
    using f b by (auto simp: file_ok_def)
  have "unat (isize (inodes s ip)) \<le> MAXFILE * BSIZE" using f by (simp add: file_ok_def)
  with b have bn: "bn < MAXFILE" by (metis le_less_trans mult_less_cancel2 not_less)
  have ub: "unat (of_nat bn :: u32) = bn" using bn by (intro unat_of_nat_small) (simp add: MAXFILE_def NDIRECT_def NINDIRECT_def BSIZE_def)
  have un: "unat (of_nat NDIRECT :: u32) = NDIRECT" by (intro unat_of_nat_small) (simp add: NDIRECT_def)
  have lt: "(of_nat bn :: u32) < of_nat NDIRECT \<longleftrightarrow> bn < NDIRECT" by (simp add: word_less_nat_alt ub un)
  show ?thesis
  proof (cases "bn < NDIRECT")
    case True
    then have "bmap ip (of_nat bn) s = Ok (bmap_addr s ip bn, s)"
      using r(1) lt ub by (simp add: bmap_def bmap_addr_def readable_def)
    then show ?thesis using r(3) by (intro exI [of _ s]) simp
  next
    case False
    let ?n = "iaddrs (inodes s ip) ! NDIRECT"
    have n: "?n \<noteq> 0" "?n < disksize s" "?n \<notin> heldb s" using r(2) False by (simp_all add: readable_def)
    have ui: "unat (of_nat bn - of_nat NDIRECT :: u32) = bn - NDIRECT"
      using False unat_sub_le [of "of_nat NDIRECT" "of_nat bn :: u32"] by (simp add: word_le_nat_alt ub un)
    have li: "(of_nat bn - of_nat NDIRECT :: u32) < of_nat NINDIRECT"
    proof -
      have "unat (of_nat NINDIRECT :: u32) = NINDIRECT" by (intro unat_of_nat_small) (simp add: NINDIRECT_def BSIZE_def)
      then show ?thesis using ui bn False by (simp add: word_less_nat_alt MAXFILE_def) 
    qed
    from tx_read [OF r(3) n(2,3) linv_room [OF r(3,5)]] obtain i s1 s' where
      1: "bread 1 ?n s = Ok (i, s1)" "bdata (bufs s1 i) = blk s ?n" "brelse i s1 = Ok s'" "linv s'" "blk s' = blk s" "disk s' = disk s"
      "heldb s' = heldb s" "logged s' = logged s" "same_but_cache s s'" by blast
    have a: "word_at (blk s ?n) (bn - NDIRECT) = bmap_addr s ip bn" using False n by (simp add: bmap_addr_def)
    have "bmap ip (of_nat bn) s = Ok (bmap_addr s ip bn, s')"
      using 1(1-3) r(1,4) n(1) False lt li ui a by (simp add: bmap_def Let_def readable_def)
    then show ?thesis using 1 by (intro exI [of _ s']) simp
  qed
qed

lemma in_block:
  fixes off j :: nat
  assumes "off mod b + j < b"
  shows "(off + j) div b = off div b" "(off + j) mod b = off mod b + j"
proof -
  have b: "b \<noteq> 0" using assms by auto
  have s: "off + j = (off mod b + j) + b * (off div b)" using mult_div_mod_eq [of b off] by linarith
  show "(off + j) div b = off div b" using assms by (subst s) (simp only: div_mult_self2 [OF b] div_less add_0_right)
  show "(off + j) mod b = off mod b + j" using assms by (subst s) (simp only: mod_mult_self2 mod_less)
qed

lemma readi_loop_spec:
  assumes "file_ok s ip" "off + rem \<le> unat (isize (inodes s ip))"
  shows "\<exists>s'. readi_loop ip off rem acc s = Ok (acc @ map (file_byte s ip) [off..<off + rem], s') \<and> same_but_cache s s' \<and>
    file_ok s' ip \<and> blk s' = blk s \<and> disk s' = disk s \<and> heldb s' = heldb s"
  using assms
proof (induction rem arbitrary: off acc s rule: less_induct)
  case (less rem)
  show ?case
  proof (cases "rem = 0")
    case True
    then show ?thesis using less.prems by (subst readi_loop.simps) simp
  next
    case False
    let ?bn = "off div BSIZE" and ?m = "chunk off rem"
    let ?a = "bmap_addr s ip ?bn"
    have m: "0 < ?m" "?m \<le> rem" "off mod BSIZE + ?m \<le> BSIZE" using False by (simp_all add: chunk_pos) (simp_all add: chunk_def BSIZE_def)
    have "?bn * BSIZE \<le> off" by simp
    then have bn: "?bn * BSIZE < unat (isize (inodes s ip))" using less.prems(2) False by linarith
    have f: "linv s" "idev (inodes s ip) = 1" "card (heldb s) + length (logged s) < NBUF" "?a < disksize s" "?a \<notin> heldb s"
      using less.prems(1) bn by (auto simp: file_ok_def readable_def)
    obtain s1 where 1: "bmap ip (of_nat ?bn) s = Ok (?a, s1)" "same_but_cache s s1" "linv s1" "blk s1 = blk s" "disk s1 = disk s"
      "heldb s1 = heldb s" "logged s1 = logged s" using bmap_mapped [OF less.prems(1) bn] by blast
    have "room s1 ?a" by (rule linv_room [OF 1(3)]) (simp add: 1 f)
    from tx_read [OF 1(3) _ _ this] obtain i s2 s3 where
      2: "bread 1 ?a s1 = Ok (i, s2)" "bdata (bufs s2 i) = blk s ?a" "brelse i s2 = Ok s3" "linv s3" "blk s3 = blk s" "disk s3 = disk s"
      "heldb s3 = heldb s" "logged s3 = logged s" "same_but_cache s1 s3" using f same_lst(8) [OF 1(2)] 1 by auto
    have s3: "same_but_cache s s3" by (rule same_but_cache_trans [OF 1(2) 2(9)])
    note fs = file_ok_same [OF less.prems(1) s3 2(4,5,7,8)]
    have e: "inodes s1 = inodes s" "inodes s3 = inodes s" by (rule same_inodes(1) [OF 1(2)], rule same_inodes(1) [OF s3])
    let ?d = "take ?m (drop (off mod BSIZE) (blk s ?a))"
    have st: "readi_loop ip off rem acc s = readi_loop ip (off + ?m) (rem - ?m) (acc @ ?d) s3"
      using False 1(1) 2(1-3) f(2) by (subst readi_loop.simps) (simp add: e Let_def)
    have "length (blk s ?a) = BSIZE" using f(1) by (intro length_blk) (simp add: linv_def)
    then have d: "?d = map (file_byte s ip) [off..<off + ?m]"
    proof (intro nth_equalityI)
      fix j assume "length (blk s ?a) = BSIZE" "j < length ?d"
      then have j: "j < ?m" by simp
      have "(off + j) div BSIZE = ?bn" "(off + j) mod BSIZE = off mod BSIZE + j"
        by (rule in_block, use j m(3) in linarith)+
      then show "?d ! j = map (file_byte s ip) [off..<off + ?m] ! j"
        using j m \<open>length (blk s ?a) = BSIZE\<close> by (simp add: file_byte_def)
    qed (use m in simp)
    have lt: "rem - ?m < rem" using m False by simp
    have le: "off + ?m + (rem - ?m) \<le> unat (isize (inodes s3 ip))" using less.prems(2) m by (simp add: e)
    from less.IH [OF lt fs(1) le, of "acc @ ?d"] obtain s' where
      3: "readi_loop ip (off + ?m) (rem - ?m) (acc @ ?d) s3 = Ok ((acc @ ?d) @ map (file_byte s ip) [off + ?m..<off + ?m + (rem - ?m)], s')"
      "same_but_cache s3 s'" "file_ok s' ip" "blk s' = blk s" "disk s' = disk s" "heldb s' = heldb s"
      unfolding fs(2) using 2(5,6,7) by auto
    have "map (file_byte s ip) [off..<off + ?m] @ map (file_byte s ip) [off + ?m..<off + ?m + (rem - ?m)] = map (file_byte s ip) [off..<off + rem]"
      using m upt_add_eq_append [of off "off + ?m" "rem - ?m"] by (simp flip: map_append)
    then show ?thesis
      using st 3 d same_but_cache_trans [OF s3 3(2)] by (intro exI [of _ s']) simp
  qed
qed

lemma readi_spec:
  assumes f: "file_ok s ip"
  shows "if isize (inodes s ip) < off \<or> off + n < off then readi dsw ip off n s = Ok (None, s)
    else \<exists>s'. readi dsw ip off n s = Ok (Some (map (file_byte s ip) [unat off..<min (unat off + unat n) (unat (isize (inodes s ip)))]), s') \<and>
      blk s' = blk s \<and> disk s' = disk s \<and> file_ok s' ip \<and> inodes s' = inodes s \<and> same_but_cache s s'"
proof (cases "isize (inodes s ip) < off \<or> off + n < off")
  case True
  then show ?thesis using f by (auto simp: readi_def file_ok_def Let_def)
next
  case False
  let ?sz = "isize (inodes s ip)"
  have w: "unat (off + n) = unat off + unat n" using False by (metis not_less unat_plus_simple word_le_nat_alt)
  let ?n = "if ?sz < off + n then ?sz - off else n"
  have "unat off \<le> unat ?sz" using False by (simp add: not_less word_le_nat_alt)
  then have n: "unat off + unat ?n = min (unat off + unat n) (unat ?sz)"
    using w unat_sub_le [of off ?sz] by (auto simp: word_less_nat_alt word_le_nat_alt)
  then have "unat off + unat ?n \<le> unat ?sz" by simp
  from readi_loop_spec [OF f this, of "[]"] obtain s' where
    1: "readi_loop ip (unat off) (unat ?n) [] s = Ok (map (file_byte s ip) [unat off..<unat off + unat ?n], s')" "same_but_cache s s'"
    "file_ok s' ip" "blk s' = blk s" "disk s' = disk s" by auto
  have "itype (inodes s ip) \<noteq> T_DEV" using f by (simp add: file_ok_def)
  then have "readi dsw ip off n s = Ok (Some (map (file_byte s ip) [unat off..<min (unat off + unat n) (unat ?sz)]), s')"
    using False 1(1) unfolding n by (simp add: readi_def Let_def)
  then show ?thesis using False 1 same_inodes(1) [OF 1(2)] by auto
qed

text \<open>C11: \<^verbatim>\<open>readi\<close> on a file whose blocks are all there returns exactly the bytes from \<open>off\<close> on, cut at the end
  of the file, and fails exactly when the offset is beyond the end or \<^verbatim>\<open>off + n\<close> wraps around. It changes no
  block.\<close>

theorem readi_correct:
  assumes f: "file_ok s ip"
  shows "if isize (inodes s ip) < off \<or> off + n < off then readi dsw ip off n s = Ok (None, s)
    else \<exists>s'. readi dsw ip off n s = Ok (Some (map (file_byte s ip) [unat off..<min (unat off + unat n) (unat (isize (inodes s ip)))]), s') \<and>
      blk s' = blk s \<and> disk s' = disk s \<and> file_ok s' ip \<and> inodes s' = inodes s"
  using readi_spec [OF f, of off n dsw] by auto

text \<open>A system that has just booted, with a file of five bytes in block 100 behind entry 0 of the inode cache.\<close>

lemma linv_fresh:
  assumes "bufs z = (\<lambda>_. zbuf)" "\<And>n. length (disk z n) = BSIZE" "lstart z = 2" "lsize z = 30" "ldev z = 1" "disksize z = 1000" "lhn z = 0"
    "length (lhblock z) = 30" "hdr_n (disk z 2) = 0"
  shows "linv (binit z)" "heldb (binit z) = {}" "blk (binit z) = disk z" "logged (binit z) = []"
proof -
  note b = binit_spec [OF assms(1,2)]
  have f: "lstart (binit z) = 2" "lsize (binit z) = 30" "ldev (binit z) = 1" "disksize (binit z) = 1000" "lhn (binit z) = 0"
    "lhblock (binit z) = lhblock z" "disk (binit z) = disk z"
    using assms by (simp_all add: binit_def Let_def)
  show "heldb (binit z) = {}" "blk (binit z) = disk z" by (rule b)+
  show "logged (binit z) = []" by (simp add: logged_def f)
  show "linv (binit z)"
    using b(1-3) assms by (intro linv_boot) (simp_all add: f log_geom_def LOGSIZE_def)
qed

lemma hdr_n_zero: "hdr_n (replicate BSIZE 0) = 0"
  by (simp add: hdr_n_def word_at_def BSIZE_def of_le32_def)

definition demo_inode :: inode where
  "demo_inode = \<lparr>idev = 1, inum = 5, iref = 1, ilk = initsleeplock, ivalid = True, itype = T_FILE, imajor = 0, iminor = 0, inlink = 1,
     isize = 5, iaddrs = 100 # replicate 12 0\<rparr>"

definition demo_ist0 :: ist where
  "demo_ist0 = \<lparr>mem = (\<lambda>_. 0), kend = 0, use_lock = False, freelist = 0,
     disk = (\<lambda>n. if n = 58 then demo_map else if n = 100 then replicate BSIZE 9 else replicate BSIZE 0),
     disksize = 1000, dwrites = [], bufs = (\<lambda>_. zbuf), curpid = 1,
     lstart = 2, lsize = 30, outstanding = 1, committing = False, ldev = 1, lhn = 0, lhblock = replicate 30 0, sb = demo_sb,
     inodes = (\<lambda>i. demo_inode\<lparr>iref := (if i = 0 then 1 else 0)\<rparr>), cwd = 0\<rparr>"

definition demo_ist :: ist where "demo_ist = binit demo_ist0"

lemma demo_ist_facts:
  "linv demo_ist" "heldb demo_ist = {}" "blk demo_ist = disk demo_ist0" "logged demo_ist = []" "inodes demo_ist = inodes demo_ist0"
  "disksize demo_ist = 1000" "sb demo_ist = demo_sb" "curpid demo_ist = 1" "lsize demo_ist = 30" "outstanding demo_ist = 1" "lhn demo_ist = 0"
  "log_region demo_ist = {n. 2 \<le> unat n \<and> unat n < 32}"
proof -
  have z: "bufs demo_ist0 = (\<lambda>_. zbuf)" "\<And>n. length (disk demo_ist0 n) = BSIZE" "lstart demo_ist0 = 2" "lsize demo_ist0 = 30" "ldev demo_ist0 = 1"
    "disksize demo_ist0 = 1000" "lhn demo_ist0 = 0" "length (lhblock demo_ist0) = 30" "hdr_n (disk demo_ist0 2) = 0"
    by (simp_all add: demo_ist0_def demo_map_def BSIZE_def) (simp add: hdr_n_zero [unfolded BSIZE_def])
  from linv_fresh [OF z] show "linv demo_ist" "heldb demo_ist = {}" "blk demo_ist = disk demo_ist0" "logged demo_ist = []"
    by (simp_all add: demo_ist_def)
qed (simp_all add: demo_ist_def binit_def Let_def demo_ist0_def log_region_def)

lemma demo_file_ok: "file_ok demo_ist 0"
proof -
  have i: "inodes demo_ist 0 = demo_inode" by (simp add: demo_ist_facts(5) demo_ist0_def demo_inode_def)
  have "bmap_addr demo_ist 0 0 = 100" by (simp add: bmap_addr_def i NDIRECT_def demo_inode_def)
  then have "readable demo_ist (bmap_addr demo_ist 0 0)" "\<not> NDIRECT \<le> 0"
    by (simp_all add: readable_def demo_ist_facts(2,6) NDIRECT_def)
  moreover have "bn = 0" if "bn * BSIZE < 5" for bn using that by (cases bn) (simp_all add: BSIZE_def)
  ultimately have r: "readable demo_ist (bmap_addr demo_ist 0 bn) \<and> \<not> NDIRECT \<le> bn" if "bn * BSIZE < 5" for bn
    using that by metis
  have "5 \<le> MAXFILE * BSIZE" by (simp add: MAXFILE_def BSIZE_def NDIRECT_def NINDIRECT_def)
  with r show ?thesis
    unfolding file_ok_def i by (simp add: demo_ist_facts(1,2,4) demo_inode_def NBUF_def T_FILE_def T_DEV_def)
qed

theorem readi_correct_witness:
  "file_ok demo_ist 0 \<and> (\<exists>s'. readi (\<lambda>_. \<lparr>dv_read = None, dv_write = None\<rparr>) 0 2 10 demo_ist = Ok (Some [9, 9, 9], s'))"
proof -
  let ?dsw = "\<lambda>_. \<lparr>dv_read = None, dv_write = None\<rparr>"
  have i: "isize (inodes demo_ist 0) = 5" "iaddrs (inodes demo_ist 0) = 100 # replicate 12 0"
    by (simp_all add: demo_ist_facts(5) demo_ist0_def demo_inode_def)
  have "file_byte demo_ist 0 k = 9" if "k < 5" for k
    using that by (simp add: file_byte_def bmap_addr_def i NDIRECT_def BSIZE_def demo_ist_facts(3) demo_ist0_def)
  then have "map (file_byte demo_ist 0) [2..<5] = [9, 9, 9]" by (simp add: upt_conv_Cons)
  with readi_correct [OF demo_file_ok, of 2 10 ?dsw] demo_file_ok show ?thesis by (auto simp: i)
qed

section \<open>The inode cache holds an inode once\<close>

definition icache_inv :: "(nat \<Rightarrow> inode) \<Rightarrow> bool" where
  "icache_inv ins \<longleftrightarrow> (\<forall>i<NINODE. 0 \<le> iref (ins i)) \<and>
     (\<forall>i<NINODE. \<forall>j<NINODE. 0 < iref (ins i) \<and> 0 < iref (ins j) \<and> idev (ins i) = idev (ins j) \<and> inum (ins i) = inum (ins j) \<longrightarrow> i = j)"

lemma iget_scan_found:
  "iget_scan dev n ins em ips = (Some ip, em') \<Longrightarrow> ip \<in> set ips \<and> 0 < iref (ins ip) \<and> idev (ins ip) = dev \<and> inum (ins ip) = n"
  by (induction ips arbitrary: em) (auto split: if_splits)

lemma iget_scan_none:
  "iget_scan dev n ins em ips = (None, em') \<Longrightarrow>
   (\<forall>ip\<in>set ips. \<not> (0 < iref (ins ip) \<and> idev (ins ip) = dev \<and> inum (ins ip) = n)) \<and>
   (case em' of None \<Rightarrow> em = None \<and> (\<forall>ip\<in>set ips. iref (ins ip) \<noteq> 0)
    | Some e \<Rightarrow> em = Some e \<or> em = None \<and> e \<in> set ips \<and> iref (ins e) = 0)"
proof (induction ips arbitrary: em)
  case (Cons ip ips)
  from Cons.prems have nf: "\<not> (0 < iref (ins ip) \<and> idev (ins ip) = dev \<and> inum (ins ip) = n)"
    and r: "iget_scan dev n ins (if em = None \<and> iref (ins ip) = 0 then Some ip else em) ips = (None, em')"
    by (auto split: if_splits)
  from Cons.IH [OF r] nf show ?case by (auto split: option.splits if_splits)
qed (auto split: option.split)


lemma demo_icache_inv: "icache_inv (inodes demo_ist)"
  by (auto simp: icache_inv_def demo_ist_facts(5) demo_ist0_def)


text \<open>C13: An inode written by \<^verbatim>\<open>iupdate\<close> is read back unchanged: whatever a recycled cache entry for the same inode
  held before, \<^verbatim>\<open>ilock\<close> gives it the type, link count, size and addresses that were written.\<close>

theorem iupdate_ilock_roundtrip:
  assumes l: "linv s" and h: "inode_home s ip" and a: "length (iaddrs (inodes s ip)) = NDIRECT + 1" "itype (inodes s ip) \<noteq> 0"
    and c: "lhn s < lsize s - 1" "1 \<le> outstanding s" "card (heldb s) + length (logged s) + 1 < NBUF"
    and m: "inum m = inum (inodes s ip)" "idev m = idev (inodes s ip)" "\<not> ivalid m" "\<not> locked (ilk m)" "1 \<le> iref m"
  shows "\<exists>s1 s2. iupdate ip s = Ok s1 \<and> ilock ip (upd_inode ip (\<lambda>_. m) s1) = Ok s2 \<and> dinode_of (inodes s2 ip) = dinode_of (inodes s ip)"
proof -
  let ?i = "inodes s ip"
  let ?n = "IBLOCK (inum ?i) (sb s)" and ?p = "dinode_off (inum ?i)"
  have c3: "card (heldb s) + length (logged s) < NBUF" using c(3) by simp
  from iupdate_spec [OF l h a(1) c(1,2) c3] obtain s1 where 1: "iupdate ip s = Ok s1" "linv s1" "log_frame s s1" "heldb s1 = heldb s"
    "lhn s1 \<le> lhn s + 1" "blk s1 = (blk s)(?n := put_dinode ?p (dinode_of ?i) (blk s ?n))" by blast
  note f = log_frameD [OF 1(3)] same_sb(2) [OF 1(3)] same_inodes(2) [OF 1(3)]
  let ?t = "upd_inode ip (\<lambda>_. m) s1"
  have "0 \<le> lhn s" "0 \<le> lhn s1" using l 1(2) by (simp_all add: linv_def)
  then have "length (logged s1) \<le> length (logged s) + 1" using length_logged [OF l] length_logged [OF 1(2)] 1(5) by simp
  then have room: "card (heldb ?t) + length (logged ?t) < NBUF" using c(3) 1(4) by simp
  have home: "inode_home ?t ip" using h m(1,2) by (simp add: inode_home_def f 1(4))
  have "binv s" using l by (simp add: linv_def)
  then have "dinode_at ?p (put_dinode ?p (dinode_of ?i) (blk s ?n)) = dinode_of ?i"
    using dinode_off_bound [of "inum ?i"] by (intro dinode_at_put) (simp_all add: dinode_of_def a length_blk)
  then have di: "dinode_at (dinode_off (inum (inodes ?t ip))) (blk ?t (IBLOCK (inum (inodes ?t ip)) (sb ?t))) = dinode_of ?i"
    using m(1) by (simp add: 1(6) f)
  have "linv ?t" using 1(2) by simp
  moreover have "\<not> ivalid (inodes ?t ip)" "\<not> locked (ilk (inodes ?t ip))" "1 \<le> iref (inodes ?t ip)" using m by simp_all
  moreover have "d_type (dinode_of ?i) \<noteq> 0" using a(2) by (simp add: dinode_of_def)
  ultimately obtain s2 where "ilock ip ?t = Ok s2" "dinode_of (inodes s2 ip) = dinode_of ?i"
    using ilock_load [OF _ home _ _ _ room] unfolding di by blast
  then show ?thesis using 1(1) by blast
qed

theorem iupdate_ilock_roundtrip_witness:
  "\<exists>s1 s2. iupdate 0 demo_ist = Ok s1 \<and>
     ilock 0 (upd_inode 0 (\<lambda>_. demo_inode\<lparr>ivalid := False, isize := 77, iaddrs := []\<rparr>) s1) = Ok s2 \<and>
     isize (inodes s2 0) = 5"
proof -
  let ?m = "demo_inode\<lparr>ivalid := False, isize := 77, iaddrs := []\<rparr>"
  have i: "inodes demo_ist 0 = demo_inode" by (simp add: demo_ist_facts(5) demo_ist0_def demo_inode_def)
  have "inode_home demo_ist 0"
    by (simp add: inode_home_def i demo_ist_facts(2,6,7,12) demo_inode_def IBLOCK_def IPB_def BSIZE_def sizeof_dinode_def demo_sb_def)
  then have "\<exists>s1 s2. iupdate 0 demo_ist = Ok s1 \<and> ilock 0 (upd_inode 0 (\<lambda>_. ?m) s1) = Ok s2 \<and>
      dinode_of (inodes s2 0) = dinode_of (inodes demo_ist 0)"
    by (intro iupdate_ilock_roundtrip)
      (simp_all add: i demo_ist_facts(1,2,4,9-11) demo_inode_def NDIRECT_def NBUF_def T_FILE_def initsleeplock_def)
  then obtain s1 s2 where s: "iupdate 0 demo_ist = Ok s1" "ilock 0 (upd_inode 0 (\<lambda>_. ?m) s1) = Ok s2"
    "dinode_of (inodes s2 0) = dinode_of demo_inode" unfolding i by blast
  have "isize (inodes s2 0) = 5" using arg_cong [OF s(3), of d_size] by (simp add: dinode_of_def demo_inode_def)
  with s show ?thesis by blast
qed

end
