(* ===== verification/Dir.thy ===== *)
theory Dir
  imports Inode
begin

text \<open>
  Directories and path names (\<^verbatim>\<open>namecmp\<close> to \<^verbatim>\<open>nameiparent\<close> of \<^verbatim>\<open>fs.c\<close>). A directory is a file of 16-byte
  entries. A path or a name is the list of its bytes up to the terminating NUL, which is not part of it;
  a name buffer holds at most \<open>DIRSIZ\<close> bytes. The path parser \<^verbatim>\<open>skipelem\<close> is related to splitting at slashes.
\<close>

section \<open>Directory entries (fs.h)\<close>

definition DIRSIZ :: nat where "DIRSIZ = 14"
definition sizeof_dirent :: nat where "sizeof_dirent = 16"
definition slash :: u8 where "slash = 0x2f"

record dirent =
  de_inum :: u16
  de_name :: "u8 list"

definition dirent_of :: "u8 list \<Rightarrow> dirent" where
  "dirent_of bs = \<lparr>de_inum = of_le16 (take 2 bs), de_name = take DIRSIZ (drop 2 bs)\<rparr>"

definition dirent_bytes :: "dirent \<Rightarrow> u8 list" where
  "dirent_bytes de = le16 (de_inum de) @ de_name de"

text \<open>\<^verbatim>\<open>strncmp\<close> and \<^verbatim>\<open>strncpy\<close> on byte lists with the NUL left out.\<close>

fun strncmp_list :: "nat \<Rightarrow> u8 list \<Rightarrow> u8 list \<Rightarrow> int" where
  "strncmp_list 0 p q = 0"
| "strncmp_list (Suc n) p q =
     (if char0 p \<noteq> 0 \<and> char0 p = char0 q then strncmp_list n (tl p) (tl q) else uint (char0 p) - uint (char0 q))"

definition strncpy_list :: "nat \<Rightarrow> u8 list \<Rightarrow> u8 list" where
  "strncpy_list n s = (let t = take n (takeWhile (\<lambda>c. c \<noteq> 0) s) in t @ replicate (n - length t) 0)"

definition namecmp :: "u8 list \<Rightarrow> u8 list \<Rightarrow> int" where
  "namecmp s t = strncmp_list DIRSIZ s t"

section \<open>Looking up and adding entries\<close>

text \<open>The offsets \<^verbatim>\<open>0, 16, ...\<close> below the size of the directory.\<close>

definition dir_offs :: "u32 \<Rightarrow> nat list" where
  "dir_offs n = map (\<lambda>k. k * sizeof_dirent) [0..<(unat n + sizeof_dirent - 1) div sizeof_dirent]"

fun dirlookup_loop :: "'a ist_scheme devsw \<Rightarrow> nat \<Rightarrow> u8 list \<Rightarrow> nat list \<Rightarrow> 'a ist_scheme \<Rightarrow> ((nat \<times> u32) option \<times> 'a ist_scheme) res" where
  "dirlookup_loop dsw dp name [] s = Ok (None, s)"
| "dirlookup_loop dsw dp name (off # offs) s =
     bind_res (readi dsw dp (of_nat off) (of_nat sizeof_dirent) s) (\<lambda>(r, s).
       case r of
         None \<Rightarrow> panic ''dirlookup read''
       | Some bs \<Rightarrow>
           if length bs \<noteq> sizeof_dirent then panic ''dirlookup read''
           else let de = dirent_of bs in
             if de_inum de = 0 then dirlookup_loop dsw dp name offs s
             else if namecmp name (de_name de) = 0
             then bind_res (iget (idev (inodes s dp)) (ucast (de_inum de)) s) (\<lambda>(ip, s). Ok (Some (ip, of_nat off), s))
             else dirlookup_loop dsw dp name offs s)"

definition dirlookup :: "'a ist_scheme devsw \<Rightarrow> nat \<Rightarrow> u8 list \<Rightarrow> 'a ist_scheme \<Rightarrow> ((nat \<times> u32) option \<times> 'a ist_scheme) res" where
  "dirlookup dsw dp name s =
     (if itype (inodes s dp) \<noteq> T_DIR then panic ''dirlookup not DIR''
      else dirlookup_loop dsw dp name (dir_offs (isize (inodes s dp))) s)"

text \<open>The offset of the first empty entry, else the offset the loop ends with.\<close>

fun dirlink_find :: "'a ist_scheme devsw \<Rightarrow> nat \<Rightarrow> nat \<Rightarrow> nat list \<Rightarrow> 'a ist_scheme \<Rightarrow> (nat \<times> 'a ist_scheme) res" where
  "dirlink_find dsw dp e [] s = Ok (e, s)"
| "dirlink_find dsw dp e (off # offs) s =
     bind_res (readi dsw dp (of_nat off) (of_nat sizeof_dirent) s) (\<lambda>(r, s).
       case r of
         None \<Rightarrow> panic ''dirlink read''
       | Some bs \<Rightarrow>
           if length bs \<noteq> sizeof_dirent then panic ''dirlink read''
           else if de_inum (dirent_of bs) = 0 then Ok (off, s)
           else dirlink_find dsw dp e offs s)"

definition dirlink :: "'a ist_scheme devsw \<Rightarrow> nat \<Rightarrow> u8 list \<Rightarrow> u32 \<Rightarrow> 'a ist_scheme \<Rightarrow> (int \<times> 'a ist_scheme) res" where
  "dirlink dsw dp name i s =
     bind_res (dirlookup dsw dp name s) (\<lambda>(r, s).
       case r of
         Some (ip, _) \<Rightarrow> bind_res (iput ip s) (\<lambda>s. Ok (- 1, s))
       | None \<Rightarrow>
           let offs = dir_offs (isize (inodes s dp)) in
           bind_res (dirlink_find dsw dp (length offs * sizeof_dirent) offs s) (\<lambda>(off, s).
           bind_res (writei dsw dp (dirent_bytes \<lparr>de_inum = ucast i, de_name = strncpy_list DIRSIZ name\<rparr>) (of_nat off) s) (\<lambda>(r, s).
             if r \<noteq> int sizeof_dirent then panic ''dirlink'' else Ok (0, s))))"

section \<open>Paths\<close>

text \<open>\<open>skipelem path = Some (name, rest)\<close>: the name stored and the path returned; \<open>None\<close>: the null pointer.\<close>

definition skipelem :: "u8 list \<Rightarrow> (u8 list \<times> u8 list) option" where
  "skipelem path =
     (let path = dropWhile (\<lambda>c. c = slash) path in
      if path = [] then None
      else let elem = takeWhile (\<lambda>c. c \<noteq> slash) path; path = dropWhile (\<lambda>c. c \<noteq> slash) path;
               name = (if DIRSIZ \<le> length elem then take DIRSIZ elem else elem)
           in Some (name, dropWhile (\<lambda>c. c = slash) path))"

lemma skipelem_shorter: "skipelem path = Some (name, rest) \<Longrightarrow> length rest < length path"
proof -
  assume a: "skipelem path = Some (name, rest)"
  let ?p = "dropWhile (\<lambda>c. c = slash) path"
  from a have ne: "?p \<noteq> []" and r: "rest = dropWhile (\<lambda>c. c = slash) (dropWhile (\<lambda>c. c \<noteq> slash) ?p)"
    by (auto simp: skipelem_def Let_def split: if_splits)
  have "hd ?p \<noteq> slash" using hd_dropWhile [OF ne] by simp
  with ne have "length (dropWhile (\<lambda>c. c \<noteq> slash) ?p) < length ?p" by (cases ?p) (auto simp: length_dropWhile_le le_imp_less_Suc)
  then show ?thesis
    using length_dropWhile_le [of "\<lambda>c. c = slash" path] length_dropWhile_le [of "\<lambda>c. c = slash" "dropWhile (\<lambda>c. c \<noteq> slash) ?p"]
    unfolding r by linarith
qed

text \<open>The walk of \<^verbatim>\<open>namex\<close> from inode \<open>ip\<close>. The result is the inode found and, for \<^verbatim>\<open>nameiparent\<close>, the last name.\<close>

function namex_loop :: "'a ist_scheme devsw \<Rightarrow> bool \<Rightarrow> nat \<Rightarrow> u8 list \<Rightarrow> 'a ist_scheme \<Rightarrow> ((nat \<times> u8 list) option \<times> 'a ist_scheme) res" where
  "namex_loop dsw nameiparent ip path s =
     (case skipelem path of
        None \<Rightarrow> if nameiparent then bind_res (iput ip s) (\<lambda>s. Ok (None, s)) else Ok (Some (ip, []), s)
      | Some (name, rest) \<Rightarrow>
          bind_res (ilock ip s) (\<lambda>s.
            if itype (inodes s ip) \<noteq> T_DIR then bind_res (iunlockput ip s) (\<lambda>s. Ok (None, s))
            else if nameiparent \<and> rest = [] then bind_res (iunlock ip s) (\<lambda>s. Ok (Some (ip, name), s))
            else bind_res (dirlookup dsw ip name s) (\<lambda>(r, s).
              case r of
                None \<Rightarrow> bind_res (iunlockput ip s) (\<lambda>s. Ok (None, s))
              | Some (next, _) \<Rightarrow> bind_res (iunlockput ip s) (\<lambda>s. namex_loop dsw nameiparent next rest s))))"
  by pat_completeness auto
termination
  by (relation "measure (\<lambda>(dsw, par, ip, path, s). length path)") (auto simp: skipelem_shorter)

definition namex :: "'a ist_scheme devsw \<Rightarrow> u8 list \<Rightarrow> bool \<Rightarrow> 'a ist_scheme \<Rightarrow> ((nat \<times> u8 list) option \<times> 'a ist_scheme) res" where
  "namex dsw path par s =
     bind_res (if char0 path = slash then iget ROOTDEV ROOTINO s else Ok (cwd s, idup (cwd s) s))
       (\<lambda>(ip, s). namex_loop dsw par ip path s)"

definition namei :: "'a ist_scheme devsw \<Rightarrow> u8 list \<Rightarrow> 'a ist_scheme \<Rightarrow> (nat option \<times> 'a ist_scheme) res" where
  "namei dsw path s = bind_res (namex dsw path False s) (\<lambda>(r, s). Ok (map_option fst r, s))"

definition nameiparent :: "'a ist_scheme devsw \<Rightarrow> u8 list \<Rightarrow> 'a ist_scheme \<Rightarrow> ((nat \<times> u8 list) option \<times> 'a ist_scheme) res" where
  "nameiparent dsw path s = namex dsw path True s"

declare namex_loop.simps [simp del]

section \<open>Path elements\<close>

text \<open>The names \<^verbatim>\<open>namex\<close> looks up, one after the other, and the elements of a path: what stands between
  slashes.\<close>

function path_elems :: "u8 list \<Rightarrow> u8 list list" where
  "path_elems path = (case skipelem path of None \<Rightarrow> [] | Some (name, rest) \<Rightarrow> name # path_elems rest)"
  by pat_completeness auto
termination
  by (relation "measure length") (auto simp: skipelem_shorter)

declare path_elems.simps [simp del]

fun split_slash :: "u8 list \<Rightarrow> u8 list list" where
  "split_slash [] = [[]]"
| "split_slash (c # cs) =
     (if c = slash then [] # split_slash cs else (c # hd (split_slash cs)) # tl (split_slash cs))"

lemma split_slash_ne [simp]: "split_slash p \<noteq> []"
  by (induction p) auto

lemma split_slash_word: "slash \<notin> set w \<Longrightarrow> split_slash w = [w]"
  by (induction w) auto

lemma split_slash_append: "slash \<notin> set w \<Longrightarrow> split_slash (w @ slash # r) = w # split_slash r"
  by (induction w) auto

lemma elems_dropWhile:
  "filter (\<lambda>w. w \<noteq> []) (split_slash (dropWhile (\<lambda>c. c = slash) p)) = filter (\<lambda>w. w \<noteq> []) (split_slash p)"
  by (induction p) auto

text \<open>\<^verbatim>\<open>skipelem\<close>, called again and again as \<^verbatim>\<open>namex\<close> does, yields the non-empty elements between the slashes of
  the path, each cut to \<open>DIRSIZ\<close> bytes, however many slashes stand between, before or after them.\<close>

theorem path_elems_split: "path_elems p = map (take DIRSIZ) (filter (\<lambda>w. w \<noteq> []) (split_slash p))"
proof (induction p rule: path_elems.induct)
  case (1 path)
  define p where "p = dropWhile (\<lambda>c. c = slash) path"
  define w where "w = takeWhile (\<lambda>c. c \<noteq> slash) p"
  define r where "r = dropWhile (\<lambda>c. c \<noteq> slash) p"
  define rest where "rest = dropWhile (\<lambda>c. c = slash) r"
  have el: "filter (\<lambda>w. w \<noteq> []) (split_slash path) = filter (\<lambda>w. w \<noteq> []) (split_slash p)"
    using elems_dropWhile [of path] by (simp add: p_def)
  show ?case
  proof (cases "p = []")
    case True
    then show ?thesis unfolding el by (simp add: path_elems.simps skipelem_def p_def [symmetric])
  next
    case False
    have sk: "skipelem path = Some (take DIRSIZ w, rest)"
      using False by (simp add: skipelem_def Let_def p_def [symmetric] w_def [symmetric] r_def [symmetric] rest_def [symmetric])
    have "hd p \<noteq> slash" using hd_dropWhile [of "\<lambda>c. c = slash" path] False by (simp add: p_def)
    then have w: "w \<noteq> []" using False by (cases p) (simp_all add: w_def)
    have ws: "slash \<notin> set w" unfolding w_def by (auto dest: set_takeWhileD)
    have pw: "p = w @ r" by (simp add: w_def r_def)
    have "filter (\<lambda>w. w \<noteq> []) (split_slash p) = w # filter (\<lambda>w. w \<noteq> []) (split_slash rest)"
    proof (cases r)
      case Nil
      then show ?thesis using w split_slash_word [OF ws] by (simp add: pw rest_def)
    next
      case (Cons c r')
      then have "c = slash" using hd_dropWhile [of "\<lambda>c. c \<noteq> slash" p] by (simp add: r_def)
      then show ?thesis using w Cons split_slash_append [OF ws, of r'] elems_dropWhile [of r'] by (simp add: pw rest_def)
    qed
    moreover have "path_elems path = take DIRSIZ w # path_elems rest" by (subst path_elems.simps) (simp add: sk)
    moreover have "path_elems rest = map (take DIRSIZ) (filter (\<lambda>w. w \<noteq> []) (split_slash rest))"
      by (rule "1.IH" [OF sk refl])
    ultimately show ?thesis unfolding el by simp
  qed
qed

section \<open>Looking up a name\<close>

text \<open>The string in a name buffer.\<close>

definition cname :: "u8 list \<Rightarrow> u8 list" where
  "cname bs = take DIRSIZ (takeWhile (\<lambda>c. c \<noteq> 0) bs)"

lemma strncmp_list_0: "strncmp_list n p q = 0 \<longleftrightarrow> take n (takeWhile (\<lambda>c. c \<noteq> 0) p) = take n (takeWhile (\<lambda>c. c \<noteq> 0) q)"
proof (induction n arbitrary: p q)
  case (Suc n)
  show ?case using Suc.IH [of "tl p" "tl q"] by (cases p; cases q) (auto simp: uint_inject_iff)
qed simp

lemma namecmp_0: "namecmp p q = 0 \<longleftrightarrow> cname p = cname q"
  by (simp add: namecmp_def cname_def strncmp_list_0)

text \<open>Entry \<open>k\<close> of a directory, read off the bytes of the file.\<close>

definition dir_entry :: "'a ist_scheme \<Rightarrow> nat \<Rightarrow> nat \<Rightarrow> dirent" where
  "dir_entry s dp k = dirent_of (map (file_byte s dp) [16 * k..<16 * k + 16])"

definition dir_match :: "'a ist_scheme \<Rightarrow> nat \<Rightarrow> u8 list \<Rightarrow> nat \<Rightarrow> bool" where
  "dir_match s dp name k \<longleftrightarrow> de_inum (dir_entry s dp k) \<noteq> 0 \<and> cname name = cname (de_name (dir_entry s dp k))"

lemma read_entry:
  assumes f: "file_ok s dp" and k: "16 * k + 16 \<le> unat (isize (inodes s dp))"
  obtains s' where "readi dsw dp (of_nat (k * sizeof_dirent)) (of_nat sizeof_dirent) s =
      Ok (Some (map (file_byte s dp) [16 * k..<16 * k + 16]), s')" "same_but_cache s s'" "file_ok s' dp" "blk s' = blk s"
proof -
  let ?sz = "isize (inodes s dp)"
  have "unat ?sz < 2 ^ 32" using unat_u32_less [of ?sz] by simp
  then have u: "unat (of_nat (k * sizeof_dirent) :: u32) = 16 * k"
    using k by (subst unat_of_nat_small) (auto simp: sizeof_dirent_def)
  have n: "unat (of_nat sizeof_dirent :: u32) = 16" by (subst unat_of_nat_small) (auto simp: sizeof_dirent_def)
  have w: "unat (of_nat (k * sizeof_dirent) + of_nat sizeof_dirent :: u32) = 16 * k + 16"
    using unat_add_no_wrap [of "of_nat (k * sizeof_dirent) :: u32" "of_nat sizeof_dirent"] u n k \<open>unat ?sz < 2 ^ 32\<close> by simp
  have "\<not> (?sz < of_nat (k * sizeof_dirent) \<or> (of_nat (k * sizeof_dirent) + of_nat sizeof_dirent :: u32) < of_nat (k * sizeof_dirent))"
    using k unfolding word_less_nat_alt u w by simp
  moreover have "min (16 * k + 16) (unat ?sz) = 16 * k + 16" using k by simp
  ultimately show thesis
    using readi_spec [OF f, of "of_nat (k * sizeof_dirent)" "of_nat sizeof_dirent" dsw] that unfolding u n by auto
qed

lemma dir_entry_same:
  assumes "file_ok s dp" "same_but_cache s s'" "file_ok s' dp" "blk s' = blk s"
  shows "dir_entry s' dp = dir_entry s dp" "dir_match s' dp = dir_match s dp"
proof -
  have "bmap_addr s' dp = bmap_addr s dp" by (rule ext) (simp add: bmap_addr_def same_inodes(1) [OF assms(2)] assms(4))
  then have "file_byte s' dp = file_byte s dp" by (intro ext) (simp add: file_byte_def assms(4))
  then show e: "dir_entry s' dp = dir_entry s dp" by (intro ext) (simp add: dir_entry_def)
  show "dir_match s' dp = dir_match s dp" by (intro ext) (simp add: dir_match_def e)
qed

lemma dirlookup_loop_spec:
  assumes "file_ok s dp" "\<forall>k\<in>set ks. 16 * k + 16 \<le> unat (isize (inodes s dp))"
  shows "\<exists>s'. same_but_cache s s' \<and> blk s' = blk s \<and> file_ok s' dp \<and>
    dirlookup_loop dsw dp name (map (\<lambda>k. k * sizeof_dirent) ks) s =
      (case find (dir_match s dp name) ks of
         None \<Rightarrow> Ok (None, s')
       | Some k \<Rightarrow> bind_res (iget 1 (ucast (de_inum (dir_entry s dp k))) s') (\<lambda>(ip, s). Ok (Some (ip, of_nat (k * sizeof_dirent)), s)))"
  using assms
proof (induction ks arbitrary: s)
  case Nil
  then show ?case by (intro exI [of _ s]) simp
next
  case (Cons k ks)
  have k: "16 * k + 16 \<le> unat (isize (inodes s dp))" using Cons.prems(2) by simp
  obtain s1 where 1: "readi dsw dp (of_nat (k * sizeof_dirent)) (of_nat sizeof_dirent) s =
      Ok (Some (map (file_byte s dp) [16 * k..<16 * k + 16]), s1)" "same_but_cache s s1" "file_ok s1 dp" "blk s1 = blk s"
    using read_entry [OF Cons.prems(1) k] by blast
  have d: "idev (inodes s1 dp) = 1" using 1(3) by (simp add: file_ok_def)
  have l: "length (map (file_byte s dp) [16 * k..<16 * k + 16]) = sizeof_dirent" by (simp add: sizeof_dirent_def)
  have st: "dirlookup_loop dsw dp name (map (\<lambda>k. k * sizeof_dirent) (k # ks)) s =
    (if dir_match s dp name k
     then bind_res (iget 1 (ucast (de_inum (dir_entry s dp k))) s1) (\<lambda>(ip, s). Ok (Some (ip, of_nat (k * sizeof_dirent)), s))
     else dirlookup_loop dsw dp name (map (\<lambda>k. k * sizeof_dirent) ks) s1)"
    using 1(1) l d by (simp add: Let_def dir_match_def dir_entry_def [symmetric] namecmp_0 del: length_map)
  show ?case
  proof (cases "dir_match s dp name k")
    case True
    then show ?thesis using st 1 by (intro exI [of _ s1]) simp
  next
    case False
    note e = dir_entry_same [OF Cons.prems(1) 1(2-4)]
    have "\<forall>k\<in>set ks. 16 * k + 16 \<le> unat (isize (inodes s1 dp))" using Cons.prems(2) by (simp add: same_inodes(1) [OF 1(2)])
    from Cons.IH [OF 1(3) this] obtain s' where 2: "same_but_cache s1 s'" "blk s' = blk s1" "file_ok s' dp"
      "dirlookup_loop dsw dp name (map (\<lambda>k. k * sizeof_dirent) ks) s1 =
      (case find (dir_match s dp name) ks of
         None \<Rightarrow> Ok (None, s')
       | Some k \<Rightarrow> bind_res (iget 1 (ucast (de_inum (dir_entry s dp k))) s') (\<lambda>(ip, s). Ok (Some (ip, of_nat (k * sizeof_dirent)), s)))"
      unfolding e by blast
    then show ?thesis
      using st False 1(4) same_but_cache_trans [OF 1(2) 2(1)] by (intro exI [of _ s']) simp
  qed
qed

text \<open>C14: \<^verbatim>\<open>dirlookup\<close> returns (through \<^verbatim>\<open>iget\<close>) the inode of the first entry in use whose name agrees with the one
  looked for up to the first NUL or \<open>DIRSIZ\<close> bytes, with the offset of that entry, and null when there is none.
  It changes no block.\<close>

theorem dirlookup_correct:
  assumes f: "file_ok s dp" and d: "itype (inodes s dp) = T_DIR" and sz: "unat (isize (inodes s dp)) = 16 * n"
  shows "\<exists>s'. blk s' = blk s \<and> inodes s' = inodes s \<and>
    dirlookup dsw dp name s =
      (case find (dir_match s dp name) [0..<n] of
         None \<Rightarrow> Ok (None, s')
       | Some k \<Rightarrow> bind_res (iget 1 (ucast (de_inum (dir_entry s dp k))) s') (\<lambda>(ip, s). Ok (Some (ip, of_nat (16 * k)), s)))"
proof -
  have os: "dir_offs (isize (inodes s dp)) = map (\<lambda>k. k * sizeof_dirent) [0..<n]"
    by (simp add: dir_offs_def sz sizeof_dirent_def)
  have "\<forall>k\<in>set [0..<n]. 16 * k + 16 \<le> unat (isize (inodes s dp))" by (simp add: sz)
  from dirlookup_loop_spec [OF f this, of dsw name] obtain s' where s': "same_but_cache s s'" "blk s' = blk s"
    "dirlookup_loop dsw dp name (map (\<lambda>k. k * sizeof_dirent) [0..<n]) s =
      (case find (dir_match s dp name) [0..<n] of
         None \<Rightarrow> Ok (None, s')
       | Some k \<Rightarrow> bind_res (iget 1 (ucast (de_inum (dir_entry s dp k))) s') (\<lambda>(ip, s). Ok (Some (ip, of_nat (k * sizeof_dirent)), s)))"
    by blast
  have c: "k * sizeof_dirent = 16 * k" for k by (simp add: sizeof_dirent_def)
  have "dirlookup dsw dp name s = dirlookup_loop dsw dp name (map (\<lambda>k. k * sizeof_dirent) [0..<n]) s"
    using d by (simp only: dirlookup_def os) simp
  then show ?thesis
    using s'(2) same_inodes(1) [OF s'(1)] s'(3) unfolding c by (intro exI [of _ s']) simp
qed

text \<open>A directory with an empty entry and an entry \<open>ab\<close> for inode 7.\<close>

definition demo_dir_block :: "u8 list" where
  "demo_dir_block = replicate 16 0 @ [7, 0, 97, 98] @ replicate 492 0"

definition demo_dir0 :: ist where
  "demo_dir0 = demo_ist0\<lparr>disk := (disk demo_ist0)(100 := demo_dir_block),
     inodes := (\<lambda>_. demo_inode\<lparr>itype := T_DIR, isize := 32\<rparr>)\<rparr>"

definition demo_dir :: ist where "demo_dir = binit demo_dir0"

lemma demo_dir_facts:
  "linv demo_dir" "heldb demo_dir = {}" "blk demo_dir = disk demo_dir0" "logged demo_dir = []" "inodes demo_dir = inodes demo_dir0"
  "disksize demo_dir = 1000"
proof -
  have z: "bufs demo_dir0 = (\<lambda>_. zbuf)" "\<And>n. length (disk demo_dir0 n) = BSIZE" "lstart demo_dir0 = 2" "lsize demo_dir0 = 30" "ldev demo_dir0 = 1"
    "disksize demo_dir0 = 1000" "lhn demo_dir0 = 0" "length (lhblock demo_dir0) = 30" "hdr_n (disk demo_dir0 2) = 0"
    by (simp_all add: demo_dir0_def demo_dir_block_def demo_ist0_def demo_map_def BSIZE_def) (simp add: hdr_n_zero [unfolded BSIZE_def])
  from linv_fresh [OF z] show "linv demo_dir" "heldb demo_dir = {}" "blk demo_dir = disk demo_dir0" "logged demo_dir = []"
    by (simp_all add: demo_dir_def)
qed (simp_all add: demo_dir_def binit_def Let_def demo_dir0_def demo_ist0_def)

lemma demo_dir_inode: "inodes demo_dir 0 = demo_inode\<lparr>itype := T_DIR, isize := 32\<rparr>"
  by (simp add: demo_dir_facts(5) demo_dir0_def)

lemma demo_dir_ok: "file_ok demo_dir 0"
proof -
  have "bmap_addr demo_dir 0 0 = 100" by (simp add: bmap_addr_def demo_dir_inode NDIRECT_def demo_inode_def)
  then have "readable demo_dir (bmap_addr demo_dir 0 0)" "\<not> NDIRECT \<le> 0"
    by (simp_all add: readable_def demo_dir_facts(2,6) NDIRECT_def)
  moreover have "bn = 0" if "bn * BSIZE < 32" for bn using that by (cases bn) (simp_all add: BSIZE_def)
  ultimately have r: "readable demo_dir (bmap_addr demo_dir 0 bn) \<and> \<not> NDIRECT \<le> bn" if "bn * BSIZE < 32" for bn
    using that by metis
  have "32 \<le> MAXFILE * BSIZE" by (simp add: MAXFILE_def BSIZE_def NDIRECT_def NINDIRECT_def)
  with r show ?thesis
    unfolding file_ok_def demo_dir_inode by (simp add: demo_dir_facts(1,2,4) demo_inode_def NBUF_def T_DIR_def T_DEV_def)
qed

lemma demo_dir_find: "find (dir_match demo_dir 0 [97, 98, 0]) [0..<2] = Some 1" "de_inum (dir_entry demo_dir 0 1) = 7"
proof -
  have b: "file_byte demo_dir 0 k = demo_dir_block ! k" if "k < 32" for k
    using that by (simp add: file_byte_def bmap_addr_def demo_dir_inode demo_inode_def NDIRECT_def BSIZE_def demo_dir_facts(3) demo_dir0_def)
  have e: "map (file_byte demo_dir 0) [16 * k..<16 * k + 16] = take 16 (drop (16 * k) demo_dir_block)" if "k < 2" for k
  proof (rule nth_equalityI)
    have l: "length demo_dir_block = 512" by (simp add: demo_dir_block_def)
    show "length (map (file_byte demo_dir 0) [16 * k..<16 * k + 16]) = length (take 16 (drop (16 * k) demo_dir_block))" using that by (simp add: l)
    show "map (file_byte demo_dir 0) [16 * k..<16 * k + 16] ! i = take 16 (drop (16 * k) demo_dir_block) ! i"
      if "i < length (map (file_byte demo_dir 0) [16 * k..<16 * k + 16])" for i
      using that \<open>k < 2\<close> by (simp add: l b)
  qed
  have 0: "dir_entry demo_dir 0 0 = \<lparr>de_inum = 0, de_name = replicate 14 0\<rparr>"
    using e [of 0] by (simp add: dir_entry_def dirent_of_def demo_dir_block_def of_le16_def DIRSIZ_def)
  have 1: "dir_entry demo_dir 0 1 = \<lparr>de_inum = 7, de_name = [97, 98] @ replicate 12 0\<rparr>"
    using e [of 1] by (simp add: dir_entry_def dirent_of_def demo_dir_block_def of_le16_def DIRSIZ_def)
  show "de_inum (dir_entry demo_dir 0 1) = 7" by (simp only: 1) simp
  have "\<not> dir_match demo_dir 0 [97, 98, 0] 0" by (simp add: dir_match_def 0)
  moreover have "dir_match demo_dir 0 [97, 98, 0] 1" unfolding dir_match_def 1 by (simp add: cname_def DIRSIZ_def)
  moreover have "[0..<2] = [0, 1]" by (simp add: upt_conv_Cons)
  ultimately show "find (dir_match demo_dir 0 [97, 98, 0]) [0..<2] = Some 1" by simp
qed

theorem dirlookup_correct_witness:
  "file_ok demo_dir 0 \<and> (\<exists>s'. dirlookup (\<lambda>_. \<lparr>dv_read = None, dv_write = None\<rparr>) 0 [97, 98, 0] demo_dir =
     bind_res (iget 1 7 s') (\<lambda>(ip, s). Ok (Some (ip, 16), s)))"
proof -
  have "itype (inodes demo_dir 0) = T_DIR" "unat (isize (inodes demo_dir 0)) = 16 * 2" by (simp_all add: demo_dir_inode)
  from dirlookup_correct [OF demo_dir_ok this, of "\<lambda>_. \<lparr>dv_read = None, dv_write = None\<rparr>" "[97, 98, 0]"] demo_dir_ok
  show ?thesis unfolding demo_dir_find option.case demo_dir_find(2) by auto
qed

end
