(* ===== verification/Vm.thy ===== *)
theory Vm
  imports Dir
begin

text \<open>
  Virtual memory (\<^verbatim>\<open>vm.c\<close>, with the parts of \<^verbatim>\<open>mmu.h\<close> it uses). Page directories and page tables live in
  the memory of the page allocator and are read and written there word by word. The segment descriptors and the task
  state are those of the CPU the code runs on. \<open>kdata\<close> is the linker symbol \<^verbatim>\<open>data\<close>. The messages
  \<^verbatim>\<open>allocuvm\<close> prints when it runs out of memory are left out.
\<close>

section \<open>Entries, indices and flags (mmu.h)\<close>

definition PTE_P :: u32 where "PTE_P = 1"
definition PTE_W :: u32 where "PTE_W = 2"
definition PTE_U :: u32 where "PTE_U = 4"
definition PDX :: "u32 \<Rightarrow> u32" where "PDX va = drop_bit 22 va AND 0x3FF"
definition PTX :: "u32 \<Rightarrow> u32" where "PTX va = drop_bit 12 va AND 0x3FF"
definition PGADDR :: "u32 \<Rightarrow> u32 \<Rightarrow> u32 \<Rightarrow> u32" where "PGADDR d t off = push_bit 22 d OR push_bit 12 t OR off"
definition PTE_ADDR :: "u32 \<Rightarrow> u32" where "PTE_ADDR pte = pte AND NOT 0xFFF"
definition PTE_FLAGS :: "u32 \<Rightarrow> u32" where "PTE_FLAGS pte = pte AND 0xFFF"
definition NPDENTRIES :: nat where "NPDENTRIES = 1024"
definition KSTACKSIZE :: u32 where "KSTACKSIZE = 4096"

record segdesc =
  lim_15_0 :: u32
  base_15_0 :: u32
  base_23_16 :: u32
  seg_type :: u32
  seg_s :: u32
  seg_dpl :: u32
  seg_p :: u32
  lim_19_16 :: u32
  seg_avl :: u32
  seg_rsv1 :: u32
  seg_db :: u32
  seg_g :: u32
  base_31_24 :: u32

definition SEG :: "u32 \<Rightarrow> u32 \<Rightarrow> u32 \<Rightarrow> u32 \<Rightarrow> segdesc" where
  "SEG ty base lim dpl =
     \<lparr>lim_15_0 = drop_bit 12 lim AND 0xffff, base_15_0 = base AND 0xffff, base_23_16 = drop_bit 16 base AND 0xff,
      seg_type = ty, seg_s = 1, seg_dpl = dpl, seg_p = 1, lim_19_16 = drop_bit 28 lim, seg_avl = 0, seg_rsv1 = 0,
      seg_db = 1, seg_g = 1, base_31_24 = drop_bit 24 base\<rparr>"

definition SEG16 :: "u32 \<Rightarrow> u32 \<Rightarrow> u32 \<Rightarrow> u32 \<Rightarrow> segdesc" where
  "SEG16 ty base lim dpl =
     \<lparr>lim_15_0 = lim AND 0xffff, base_15_0 = base AND 0xffff, base_23_16 = drop_bit 16 base AND 0xff,
      seg_type = ty, seg_s = 1, seg_dpl = dpl, seg_p = 1, lim_19_16 = drop_bit 16 lim, seg_avl = 0, seg_rsv1 = 0,
      seg_db = 1, seg_g = 0, base_31_24 = drop_bit 24 base\<rparr>"

definition SEG_KCODE :: nat where "SEG_KCODE = 1"
definition SEG_KDATA :: nat where "SEG_KDATA = 2"
definition SEG_UCODE :: nat where "SEG_UCODE = 3"
definition SEG_UDATA :: nat where "SEG_UDATA = 4"
definition SEG_TSS :: nat where "SEG_TSS = 5"
definition STA_X :: u32 where "STA_X = 8"
definition STA_W :: u32 where "STA_W = 2"
definition STA_R :: u32 where "STA_R = 2"
definition STS_T32A :: u32 where "STS_T32A = 9"
definition DPL_USER :: u32 where "DPL_USER = 3"

text \<open>The task state segment, without its padding.\<close>

record taskstate =
  ts_link :: u32
  ts_esp0 :: u32
  ts_ss0 :: u16
  ts_esp1 :: u32
  ts_ss1 :: u16
  ts_esp2 :: u32
  ts_ss2 :: u16
  ts_cr3 :: u32
  ts_eip :: u32
  ts_eflags :: u32
  ts_eax :: u32
  ts_ecx :: u32
  ts_edx :: u32
  ts_ebx :: u32
  ts_esp :: u32
  ts_ebp :: u32
  ts_esi :: u32
  ts_edi :: u32
  ts_es :: u16
  ts_cs :: u16
  ts_ss :: u16
  ts_ds :: u16
  ts_fs :: u16
  ts_gs :: u16
  ts_ldt :: u16
  ts_t :: u16
  ts_iomb :: u16

record vst = ist +
  kdata :: u32
  kpgdir :: u32
  cr3 :: u32
  gdt :: "nat \<Rightarrow> segdesc"
  ts :: taskstate
  ts_addr :: u32
  tr :: u16

section \<open>Operations\<close>

text \<open>\<^verbatim>\<open>lgdt\<close> makes the processor use the table just written.\<close>

definition seginit :: "'a vst_scheme \<Rightarrow> 'a vst_scheme" where
  "seginit s = s\<lparr>gdt := (gdt s)(SEG_KCODE := SEG (STA_X OR STA_R) 0 0xffffffff 0, SEG_KDATA := SEG STA_W 0 0xffffffff 0,
     SEG_UCODE := SEG (STA_X OR STA_R) 0 0xffffffff DPL_USER, SEG_UDATA := SEG STA_W 0 0xffffffff DPL_USER)\<rparr>"

text \<open>The address of the entry for \<open>va\<close>; 0 is the null pointer.\<close>

definition walkpgdir :: "u32 \<Rightarrow> u32 \<Rightarrow> bool \<Rightarrow> 'a mst_scheme \<Rightarrow> u32 \<times> 'a mst_scheme" where
  "walkpgdir pgdir va alloc s =
     (let pde = pgdir + 4 * PDX va; e = load32 (mem s) pde in
      if e AND PTE_P \<noteq> 0 then (P2V (PTE_ADDR e) + 4 * PTX va, s)
      else if \<not> alloc then (0, s)
      else let (pgtab, s) = kalloc s in
        if pgtab = 0 then (0, s)
        else (pgtab + 4 * PTX va,
              s\<lparr>mem := store32 pde (V2P pgtab OR PTE_P OR PTE_W OR PTE_U) (memset pgtab 0 PGSIZE (mem s))\<rparr>))"

text \<open>The pages the loop of \<^verbatim>\<open>mappages\<close> visits: from \<open>a\<close> in steps of a page until \<open>hi\<close>, around the end of the address
  space where that comes in between.\<close>

definition page_range :: "u32 \<Rightarrow> u32 \<Rightarrow> u32 list" where
  "page_range a hi = map (\<lambda>k. a + of_nat k * PGSIZE) [0..<unat (hi - a) div 4096 + 1]"

fun mappages_loop :: "u32 \<Rightarrow> u32 list \<Rightarrow> u32 \<Rightarrow> u32 \<Rightarrow> 'a mst_scheme \<Rightarrow> (int \<times> 'a mst_scheme) res" where
  "mappages_loop pgdir [] pa perm s = Ok (0, s)"
| "mappages_loop pgdir (a # as) pa perm s =
     (case walkpgdir pgdir a True s of (pte, s) \<Rightarrow>
      if pte = 0 then Ok (- 1, s)
      else if load32 (mem s) pte AND PTE_P \<noteq> 0 then panic ''remap''
      else mappages_loop pgdir as (pa + PGSIZE) perm (s\<lparr>mem := store32 pte (pa OR perm OR PTE_P) (mem s)\<rparr>))"

definition mappages :: "u32 \<Rightarrow> u32 \<Rightarrow> u32 \<Rightarrow> u32 \<Rightarrow> u32 \<Rightarrow> 'a mst_scheme \<Rightarrow> (int \<times> 'a mst_scheme) res" where
  "mappages pgdir va sz pa perm s =
     mappages_loop pgdir (page_range (PGROUNDDOWN va) (PGROUNDDOWN (va + sz - 1))) pa perm s"

text \<open>The loop of \<^verbatim>\<open>deallocuvm\<close>. Where \<^verbatim>\<open>oldsz\<close> is in the last page of the address space \<^verbatim>\<open>a\<close> wraps
  around and the loop does not end: its value is then \<open>None\<close>.\<close>

partial_function (option) deallocuvm_loop :: "u32 \<Rightarrow> u32 \<Rightarrow> u32 \<Rightarrow> 'a mst_scheme \<Rightarrow> 'a mst_scheme res option" where
  "deallocuvm_loop pgdir a oldsz s =
     (if \<not> a < oldsz then Some (Ok s)
      else let pte = fst (walkpgdir pgdir a False s); e = load32 (mem s) pte in
        if pte = 0 then deallocuvm_loop pgdir (PGADDR (PDX a + 1) 0 0 - PGSIZE + PGSIZE) oldsz s
        else if e AND PTE_P = 0 then deallocuvm_loop pgdir (a + PGSIZE) oldsz s
        else if PTE_ADDR e = 0 then Some (panic ''kfree'')
        else (case kfree (P2V (PTE_ADDR e)) s of
                Err err \<Rightarrow> Some (Err err)
              | Ok s \<Rightarrow> deallocuvm_loop pgdir (a + PGSIZE) oldsz (s\<lparr>mem := store32 pte 0 (mem s)\<rparr>)))"

definition deallocuvm :: "u32 \<Rightarrow> u32 \<Rightarrow> u32 \<Rightarrow> 'a mst_scheme \<Rightarrow> (u32 \<times> 'a mst_scheme) res" where
  "deallocuvm pgdir oldsz newsz s =
     (if oldsz \<le> newsz then Ok (oldsz, s)
      else case deallocuvm_loop pgdir (PGROUNDUP newsz) oldsz s of
             None \<Rightarrow> Err Hang
           | Some r \<Rightarrow> bind_res r (\<lambda>s. Ok (newsz, s)))"

fun freevm_loop :: "u32 \<Rightarrow> nat list \<Rightarrow> 'a mst_scheme \<Rightarrow> 'a mst_scheme res" where
  "freevm_loop pgdir [] s = Ok s"
| "freevm_loop pgdir (i # is) s =
     (let e = load32 (mem s) (pgdir + 4 * of_nat i) in
      if e AND PTE_P \<noteq> 0 then bind_res (kfree (P2V (PTE_ADDR e)) s) (freevm_loop pgdir is)
      else freevm_loop pgdir is s)"

definition freevm :: "u32 \<Rightarrow> 'a mst_scheme \<Rightarrow> 'a mst_scheme res" where
  "freevm pgdir s =
     (if pgdir = 0 then panic ''freevm: no pgdir''
      else bind_res (deallocuvm pgdir KERNBASE 0 s) (\<lambda>(_, s).
           bind_res (freevm_loop pgdir [0..<NPDENTRIES] s) (kfree pgdir)))"

text \<open>The four rows of \<^verbatim>\<open>kmap\<close>: virtual start, physical start, physical end, permissions.\<close>

definition kmap :: "u32 \<Rightarrow> (u32 \<times> u32 \<times> u32 \<times> u32) list" where
  "kmap dat = [(KERNBASE, 0, EXTMEM, PTE_W), (KERNLINK, V2P KERNLINK, V2P dat, 0), (dat, V2P dat, PHYSTOP, PTE_W), (DEVSPACE, DEVSPACE, 0, PTE_W)]"

fun setupkvm_loop :: "u32 \<Rightarrow> (u32 \<times> u32 \<times> u32 \<times> u32) list \<Rightarrow> 'a mst_scheme \<Rightarrow> (u32 \<times> 'a mst_scheme) res" where
  "setupkvm_loop pgdir [] s = Ok (pgdir, s)"
| "setupkvm_loop pgdir ((virt, pstart, pend, perm) # ks) s =
     bind_res (mappages pgdir virt (pend - pstart) pstart perm s) (\<lambda>(r, s).
       if r < 0 then bind_res (freevm pgdir s) (\<lambda>s. Ok (0, s)) else setupkvm_loop pgdir ks s)"

definition setupkvm :: "'a vst_scheme \<Rightarrow> (u32 \<times> 'a vst_scheme) res" where
  "setupkvm s =
     (case kalloc s of (pgdir, s) \<Rightarrow>
      if pgdir = 0 then Ok (0, s)
      else let s = s\<lparr>mem := memset pgdir 0 PGSIZE (mem s)\<rparr> in
        if DEVSPACE < P2V PHYSTOP then panic ''PHYSTOP too high''
        else setupkvm_loop pgdir (kmap (kdata s)) s)"

definition switchkvm :: "'a vst_scheme \<Rightarrow> 'a vst_scheme" where
  "switchkvm s = s\<lparr>cr3 := V2P (kpgdir s)\<rparr>"

definition kvmalloc :: "'a vst_scheme \<Rightarrow> 'a vst_scheme res" where
  "kvmalloc s = bind_res (setupkvm s) (\<lambda>(d, s). Ok (switchkvm (s\<lparr>kpgdir := d\<rparr>)))"

text \<open>The process is given by the two fields the code reads.\<close>

definition switchuvm :: "(u32 \<times> u32) option \<Rightarrow> 'a vst_scheme \<Rightarrow> 'a vst_scheme res" where
  "switchuvm p s =
     (case p of None \<Rightarrow> panic ''switchuvm: no process''
      | Some (kstack, pgdir) \<Rightarrow>
        if kstack = 0 then panic ''switchuvm: no kstack''
        else if pgdir = 0 then panic ''switchuvm: no pgdir''
        else Ok (s\<lparr>gdt := (gdt s)(SEG_TSS := (SEG16 STS_T32A (ts_addr s) (104 - 1) 0)\<lparr>seg_s := 0\<rparr>),
                   ts := (ts s)\<lparr>ts_ss0 := of_nat SEG_KDATA * 8, ts_esp0 := kstack + KSTACKSIZE, ts_iomb := 0xFFFF\<rparr>,
                   tr := of_nat SEG_TSS * 8, cr3 := V2P pgdir\<rparr>))"

definition inituvm :: "u32 \<Rightarrow> u32 \<Rightarrow> u32 \<Rightarrow> 'a mst_scheme \<Rightarrow> 'a mst_scheme res" where
  "inituvm pgdir init sz s =
     (if PGSIZE \<le> sz then panic ''inituvm: more than a page''
      else case kalloc s of (m, s) \<Rightarrow>
        if m = 0 then Err Wild
        else bind_res (mappages pgdir 0 PGSIZE (V2P m) (PTE_W OR PTE_U) (s\<lparr>mem := memset m 0 PGSIZE (mem s)\<rparr>)) (\<lambda>(_, s).
          Ok (s\<lparr>mem := memmove m init sz (mem s)\<rparr>)))"

text \<open>Storing a list of bytes: what \<^verbatim>\<open>readi\<close> and \<^verbatim>\<open>memmove\<close> do from a buffer that is not the target.\<close>

fun store_bytes :: "u32 \<Rightarrow> u8 list \<Rightarrow> memory \<Rightarrow> memory" where
  "store_bytes a [] m = m"
| "store_bytes a (b # bs) m = store_bytes (a + 1) bs (m(a := b))"

text \<open>The offsets \<^verbatim>\<open>i = 0, PGSIZE, ...\<close> below \<^verbatim>\<open>sz\<close> that the loops of \<^verbatim>\<open>loaduvm\<close>, \<^verbatim>\<open>allocuvm\<close> and
  \<^verbatim>\<open>copyuvm\<close> go through, from page \<open>lo\<close>. The counter does not wrap: \<^verbatim>\<open>allocuvm\<close> checks \<^verbatim>\<open>newsz\<close>, \<^verbatim>\<open>copyuvm\<close>
  panics at the first kernel page, and \<^verbatim>\<open>exec\<close> loads below \<^verbatim>\<open>KERNBASE\<close>.\<close>

definition page_steps :: "u32 \<Rightarrow> u32 \<Rightarrow> u32 list" where
  "page_steps lo sz = map (\<lambda>k. lo + of_nat k * PGSIZE) [0..<(unat sz - unat lo + 4095) div 4096]"

fun loaduvm_loop :: "'a ist_scheme devsw \<Rightarrow> u32 \<Rightarrow> u32 \<Rightarrow> nat \<Rightarrow> u32 \<Rightarrow> u32 \<Rightarrow> u32 list \<Rightarrow> 'a ist_scheme \<Rightarrow> (int \<times> 'a ist_scheme) res" where
  "loaduvm_loop dsw pgdir addr ip offset sz [] s = Ok (0, s)"
| "loaduvm_loop dsw pgdir addr ip offset sz (i # is) s =
     (let pte = fst (walkpgdir pgdir (addr + i) False s) in
      if pte = 0 then panic ''loaduvm: address should exist''
      else let pa = PTE_ADDR (load32 (mem s) pte); n = (if sz - i < PGSIZE then sz - i else PGSIZE) in
        bind_res (readi dsw ip (offset + i) n s) (\<lambda>(r, s).
          case r of None \<Rightarrow> Ok (- 1, s)
          | Some bs \<Rightarrow>
            let s = s\<lparr>mem := store_bytes (P2V pa) bs (mem s)\<rparr> in
            if length bs \<noteq> unat n then Ok (- 1, s) else loaduvm_loop dsw pgdir addr ip offset sz is s))"

definition loaduvm :: "'a ist_scheme devsw \<Rightarrow> u32 \<Rightarrow> u32 \<Rightarrow> nat \<Rightarrow> u32 \<Rightarrow> u32 \<Rightarrow> 'a ist_scheme \<Rightarrow> (int \<times> 'a ist_scheme) res" where
  "loaduvm dsw pgdir addr ip offset sz s =
     (if addr mod PGSIZE \<noteq> 0 then panic ''loaduvm: addr must be page aligned''
      else loaduvm_loop dsw pgdir addr ip offset sz (page_steps 0 sz) s)"

fun allocuvm_loop :: "u32 \<Rightarrow> u32 \<Rightarrow> u32 \<Rightarrow> u32 list \<Rightarrow> 'a mst_scheme \<Rightarrow> (u32 \<times> 'a mst_scheme) res" where
  "allocuvm_loop pgdir oldsz newsz [] s = Ok (newsz, s)"
| "allocuvm_loop pgdir oldsz newsz (a # as) s =
     (case kalloc s of (m, s) \<Rightarrow>
      if m = 0 then bind_res (deallocuvm pgdir newsz oldsz s) (\<lambda>(_, s). Ok (0, s))
      else bind_res (mappages pgdir a PGSIZE (V2P m) (PTE_W OR PTE_U) (s\<lparr>mem := memset m 0 PGSIZE (mem s)\<rparr>)) (\<lambda>(r, s).
        if r < 0 then bind_res (deallocuvm pgdir newsz oldsz s) (\<lambda>(_, s). bind_res (kfree m s) (\<lambda>s. Ok (0, s)))
        else allocuvm_loop pgdir oldsz newsz as s))"

definition allocuvm :: "u32 \<Rightarrow> u32 \<Rightarrow> u32 \<Rightarrow> 'a mst_scheme \<Rightarrow> (u32 \<times> 'a mst_scheme) res" where
  "allocuvm pgdir oldsz newsz s =
     (if KERNBASE \<le> newsz then Ok (0, s)
      else if newsz < oldsz then Ok (oldsz, s)
      else allocuvm_loop pgdir oldsz newsz (page_steps (PGROUNDUP oldsz) newsz) s)"

definition clearpteu :: "u32 \<Rightarrow> u32 \<Rightarrow> 'a mst_scheme \<Rightarrow> 'a mst_scheme res" where
  "clearpteu pgdir uva s =
     (let pte = fst (walkpgdir pgdir uva False s) in
      if pte = 0 then panic ''clearpteu''
      else Ok (s\<lparr>mem := store32 pte (load32 (mem s) pte AND NOT PTE_U) (mem s)\<rparr>))"

fun copyuvm_loop :: "u32 \<Rightarrow> u32 \<Rightarrow> u32 list \<Rightarrow> 'a mst_scheme \<Rightarrow> (u32 \<times> 'a mst_scheme) res" where
  "copyuvm_loop pgdir d [] s = Ok (d, s)"
| "copyuvm_loop pgdir d (i # is) s =
     (let pte = fst (walkpgdir pgdir i False s); e = load32 (mem s) pte in
      if pte = 0 then panic ''copyuvm: pte should exist''
      else if e AND PTE_P = 0 then panic ''copyuvm: page not present''
      else case kalloc s of (m, s) \<Rightarrow>
        if m = 0 then bind_res (freevm d s) (\<lambda>s. Ok (0, s))
        else bind_res (mappages d i PGSIZE (V2P m) (PTE_FLAGS e) (s\<lparr>mem := memmove m (P2V (PTE_ADDR e)) PGSIZE (mem s)\<rparr>)) (\<lambda>(r, s).
          if r < 0 then bind_res (kfree m s) (\<lambda>s. bind_res (freevm d s) (\<lambda>s. Ok (0, s)))
          else copyuvm_loop pgdir d is s))"

definition copyuvm :: "u32 \<Rightarrow> u32 \<Rightarrow> 'a vst_scheme \<Rightarrow> (u32 \<times> 'a vst_scheme) res" where
  "copyuvm pgdir sz s =
     bind_res (setupkvm s) (\<lambda>(d, s).
       if d = 0 then Ok (0, s) else copyuvm_loop pgdir d (page_steps 0 sz) s)"

text \<open>\<^verbatim>\<open>uva2ka\<close> does not look at whether \<^verbatim>\<open>walkpgdir\<close> returned null before it reads the entry.\<close>

definition uva2ka :: "u32 \<Rightarrow> u32 \<Rightarrow> 'a mst_scheme \<Rightarrow> u32 res" where
  "uva2ka pgdir uva s =
     (let pte = fst (walkpgdir pgdir uva False s); e = load32 (mem s) pte in
      if pte = 0 then Err Wild
      else if e AND PTE_P = 0 then Ok 0
      else if e AND PTE_U = 0 then Ok 0
      else Ok (P2V (PTE_ADDR e)))"

lemma page_offset: "unat (va - PGROUNDDOWN va) = unat va mod 4096"
proof -
  have "PGROUNDDOWN va \<le> va" by (simp add: word_le_nat_alt unat_PGROUNDDOWN)
  then show ?thesis by (simp add: unat_sub_le unat_PGROUNDDOWN minus_div_mult_eq_mod)
qed

text \<open>\<open>bs\<close> are the \<^verbatim>\<open>len\<close> bytes at \<^verbatim>\<open>p\<close>.\<close>

function copyout :: "u32 \<Rightarrow> u32 \<Rightarrow> u8 list \<Rightarrow> 'a mst_scheme \<Rightarrow> (int \<times> 'a mst_scheme) res" where
  "copyout pgdir va bs s =
     (if bs = [] then Ok (0, s)
      else let va0 = PGROUNDDOWN va in
        bind_res (uva2ka pgdir va0 s) (\<lambda>pa0.
          if pa0 = 0 then Ok (- 1, s)
          else let n = min (4096 - unat (va - va0)) (length bs) in
            copyout pgdir (va0 + PGSIZE) (drop n bs) (s\<lparr>mem := store_bytes (pa0 + (va - va0)) (take n bs) (mem s)\<rparr>)))"
  by pat_completeness auto

termination copyout
  by (relation "measure (\<lambda>(pgdir, va, bs, s). length bs)") (auto simp: page_offset)

declare copyout.simps [simp del]

section \<open>Page tables as functions\<close>

text \<open>The two indices of a virtual address as numbers, and the entries a directory holds.\<close>

definition pdx :: "u32 \<Rightarrow> nat" where "pdx va = unat va div 2 ^ 22"
definition ptx :: "u32 \<Rightarrow> nat" where "ptx va = unat va div 4096 mod 1024"
definition vpn :: "u32 \<Rightarrow> nat" where "vpn va = unat va div 4096"

definition present :: "u32 \<Rightarrow> bool" where "present e \<longleftrightarrow> e AND PTE_P \<noteq> 0"

definition pde :: "memory \<Rightarrow> u32 \<Rightarrow> nat \<Rightarrow> u32" where "pde m d i = load32 m (d + 4 * of_nat i)"
definition ptab :: "memory \<Rightarrow> u32 \<Rightarrow> nat \<Rightarrow> u32" where "ptab m d i = P2V (PTE_ADDR (pde m d i))"

text \<open>The abstract page table: the entry for every virtual address, 0 where there is no table.\<close>

definition pte_of :: "memory \<Rightarrow> u32 \<Rightarrow> u32 \<Rightarrow> u32" where
  "pte_of m d va = (if present (pde m d (pdx va)) then load32 m (ptab m d (pdx va) + 4 * of_nat (ptx va)) else 0)"

definition tables :: "memory \<Rightarrow> u32 \<Rightarrow> u32 set" where
  "tables m d = ptab m d ` {i. i < 1024 \<and> present (pde m d i)}"

text \<open>\<open>d\<close> is the root of a well-formed page table: the directory and its tables are pairwise different pages, none of them
  free; \<open>xs\<close> are the free pages.\<close>

definition vm_ok :: "'a mst_scheme \<Rightarrow> u32 \<Rightarrow> u32 list \<Rightarrow> bool" where
  "vm_ok s d xs \<longleftrightarrow> kinv s xs \<and> page_ok s d \<and> d \<notin> set xs \<and>
     (\<forall>i<1024. present (pde (mem s) d i) \<longrightarrow> page_ok s (ptab (mem s) d i) \<and> ptab (mem s) d i \<notin> set xs \<and> ptab (mem s) d i \<noteq> d) \<and>
     (\<forall>i<1024. \<forall>j<1024. present (pde (mem s) d i) \<and> present (pde (mem s) d j) \<and> ptab (mem s) d i = ptab (mem s) d j \<longrightarrow> i = j)"

lemma PDX_pdx: "PDX va = of_nat (pdx va)" "pdx va < 1024"
proof -
  show "pdx va < 1024" using unat_u32_less [of va] by (simp add: pdx_def)
  have "unat (drop_bit 22 va AND 0x3FF) = unat va div 2 ^ 22"
  proof -
    have "drop_bit 22 va AND 0x3FF = drop_bit 22 va AND mask 10" by (simp add: mask_eq_exp_minus_1)
    also have "\<dots> = take_bit 10 (drop_bit 22 va)" by (simp add: take_bit_eq_mask)
    finally show ?thesis
      using unat_u32_less [of va] by (simp add: take_bit_eq_mod unat_mod drop_bit_eq_div unat_div)
  qed
  then show "PDX va = of_nat (pdx va)" unfolding PDX_def pdx_def by (metis unat_eq_imp_of_nat)
qed

lemma PTX_ptx: "PTX va = of_nat (ptx va)" "ptx va < 1024"
proof -
  show "ptx va < 1024" by (simp add: ptx_def)
  have "unat (drop_bit 12 va AND 0x3FF) = unat va div 4096 mod 1024"
  proof -
    have "drop_bit 12 va AND 0x3FF = drop_bit 12 va AND mask 10" by (simp add: mask_eq_exp_minus_1)
    also have "\<dots> = take_bit 10 (drop_bit 12 va)" by (simp add: take_bit_eq_mask)
    finally show ?thesis by (simp add: take_bit_eq_mod unat_mod drop_bit_eq_div unat_div)
  qed
  then show "PTX va = of_nat (ptx va)" unfolding PTX_def ptx_def by (metis unat_eq_imp_of_nat)
qed

lemma vpn_eq_iff: "pdx va = pdx vb \<and> ptx va = ptx vb \<longleftrightarrow> vpn va = vpn vb"
proof -
  have s: "vpn va = pdx va * 1024 + ptx va" for va
  proof -
    have "unat va div 2 ^ 22 = unat va div 4096 div 1024" by (simp add: div_mult2_eq [symmetric])
    then show ?thesis by (simp add: vpn_def pdx_def ptx_def)
  qed
  have "pdx va = vpn va div 1024" "ptx va = vpn va mod 1024" for va
    using PTX_ptx(2) [of va] by (simp_all add: s)
  then show ?thesis by (metis s)
qed

text \<open>Words at different slots of pages do not overlap.\<close>

lemma slot_other:
  assumes "p mod PGSIZE = 0" "q mod PGSIZE = 0" "i < 1024" "j < 1024" "p \<noteq> q \<or> i \<noteq> j"
  shows "load32 (store32 (p + 4 * of_nat i) v m) (q + 4 * of_nat j) = load32 m (q + 4 * of_nat j)"
proof (rule load32_cong)
  fix k :: nat assume k: "k < 4"
  let ?x = "q + 4 * of_nat j + of_nat k" and ?a = "p + 4 * of_nat i"
  have "\<not> unat (?x - ?a) < 4"
  proof
    assume l: "unat (?x - ?a) < 4"
    define l' where "l' = unat (?x - ?a)"
    have "?x - ?a = of_nat l'" by (simp add: l'_def)
    then have "?x = ?a + of_nat l'" by (simp add: algebra_simps)
    then have e: "q + of_nat (4 * j + k) = p + of_nat (4 * i + l')" by (simp add: algebra_simps)
    have b: "4 * j + k < 4096" "4 * i + l' < 4096" using assms(3,4) k l by (simp_all add: l'_def)
    have "in_page q (q + of_nat (4 * j + k))" "in_page p (q + of_nat (4 * j + k))"
      using in_page_word [OF b(1), of q] in_page_word [OF b(2), of p] e by simp_all
    then have "p = q" using pages_apart [OF assms(1,2)] by blast
    then have "(of_nat (4 * j + k) :: u32) = of_nat (4 * i + l')" using e by simp
    moreover have "unat (of_nat (4 * j + k) :: u32) = 4 * j + k" "unat (of_nat (4 * i + l') :: u32) = 4 * i + l'"
      by (rule unat_of_nat_small, use b in simp)+
    ultimately have "4 * j + k = 4 * i + l'" by metis
    then have "i = j" using k l by (simp add: l'_def)
    with \<open>p = q\<close> assms(5) show False by simp
  qed
  then show "store32 ?a v m ?x = m ?x" by (simp add: store32_apply)
qed

lemma store32_in_page:
  assumes "i < 1024" "\<not> in_page p x"
  shows "store32 (p + 4 * of_nat i) v m x = m x"
proof -
  have "\<not> unat (x - (p + 4 * of_nat i)) < 4"
  proof
    assume l: "unat (x - (p + 4 * of_nat i)) < 4"
    define l' where "l' = unat (x - (p + 4 * of_nat i))"
    have "x - (p + 4 * of_nat i) = of_nat l'" by (simp add: l'_def)
    then have "x = p + of_nat (4 * i + l')" by (simp add: algebra_simps)
    moreover have "4 * i + l' < 4096" using assms(1) l by (simp add: l'_def)
    ultimately show False using in_page_word [of "4 * i + l'" p] assms(2) by simp
  qed
  then show ?thesis by (simp add: store32_apply)
qed

lemma slot_in_page: "i < 1024 \<Longrightarrow> k < 4 \<Longrightarrow> in_page p (p + 4 * of_nat i + of_nat k)"
  using in_page_word [of "4 * i + k" p] by (simp add: algebra_simps)

lemma load32_slot_cong:
  "i < 1024 \<Longrightarrow> (\<And>a. in_page p a \<Longrightarrow> m' a = m a) \<Longrightarrow> load32 m' (p + 4 * of_nat i) = load32 m (p + 4 * of_nat i)"
  by (rule load32_cong) (simp add: slot_in_page)

lemma PTE_ADDR_or:
  assumes "a mod PGSIZE = 0" "f AND NOT 0xFFF = 0"
  shows "PTE_ADDR (a OR f) = a"
proof -
  have "PGROUNDDOWN a = a" using assms(1) unfolding aligned_unat by (auto simp: word_unat_eq_iff unat_PGROUNDDOWN)
  then have "a AND NOT 0xFFF = a" by (simp add: PGROUNDDOWN_def PGSIZE_def)
  then show ?thesis using assms(2) by (simp add: PTE_ADDR_def bit.conj_disj_distrib2)
qed

lemma V2P_aligned: "v mod PGSIZE = 0 \<Longrightarrow> V2P v mod PGSIZE = 0"
proof -
  assume v: "v mod PGSIZE = 0"
  have "unat (V2P v) mod 4096 = 0"
    using v by (auto simp: aligned_unat V2P_def KERNBASE_def unat_sub_if')
  then show ?thesis by (simp add: aligned_unat)
qed

lemma P2V_V2P [simp]: "P2V (V2P v) = v" "V2P (P2V v) = v"
  by (simp_all add: P2V_def V2P_def)

text \<open>An operation of this theory changes memory and the free list only.\<close>

definition mem_only :: "'a mst_scheme \<Rightarrow> 'a mst_scheme \<Rightarrow> bool" where
  "mem_only s s' \<longleftrightarrow> s' = s\<lparr>mem := mem s', freelist := freelist s'\<rparr>"

lemma mem_only_upd [simp]: "mem_only s (s\<lparr>mem := m, freelist := f\<rparr>)" "mem_only s (s\<lparr>mem := m\<rparr>)" "mem_only s (s\<lparr>freelist := f\<rparr>)" "mem_only s s"
  by (simp_all add: mem_only_def)

lemma mem_only_trans: "mem_only s s' \<Longrightarrow> mem_only s' s'' \<Longrightarrow> mem_only s s''"
proof -
  assume a: "mem_only s s'" "mem_only s' s''"
  have "s'' = s'\<lparr>mem := mem s'', freelist := freelist s''\<rparr>" using a(2) by (simp add: mem_only_def)
  also have "\<dots> = s\<lparr>mem := mem s', freelist := freelist s'\<rparr>\<lparr>mem := mem s'', freelist := freelist s''\<rparr>"
    using a(1) unfolding mem_only_def by (rule arg_cong)
  finally show ?thesis unfolding mem_only_def by simp
qed

lemma mem_only_page_ok:
  assumes "mem_only s s'"
  shows "page_ok s' = page_ok s" "kend s' = kend s"
proof -
  show "kend s' = kend s" using arg_cong [OF assms [unfolded mem_only_def], of kend] by simp
  then show "page_ok s' = page_ok s" by (simp add: page_ok_def fun_eq_iff)
qed

lemma kfree_mem_only: "kfree v s = Ok s' \<Longrightarrow> mem_only s s'"
  by (auto simp: kfree_def Let_def mem_only_def split: if_splits)

lemma deallocuvm_loop_mem_only:
  assumes "deallocuvm_loop d a oldsz s = Some (Ok s')"
  shows "mem_only s s'"
proof -
  have "\<forall>s'. r = Ok s' \<longrightarrow> mem_only s s'" if "deallocuvm_loop d a oldsz s = Some r" for r
  proof (rule deallocuvm_loop.raw_induct [where P = "\<lambda>d a oldsz s r. \<forall>s'. r = Ok s' \<longrightarrow> mem_only s s'", OF _ that], intro allI impI)
    fix loop :: "u32 \<Rightarrow> u32 \<Rightarrow> u32 \<Rightarrow> 'a mst_scheme \<Rightarrow> 'a mst_scheme res option" and d a oldsz and s :: "'a mst_scheme" and r s'
    let ?pte = "fst (walkpgdir d a False s)"
    let ?e = "load32 (mem s) ?pte"
    assume "\<And>d a oldsz s y. loop d a oldsz s = Some y \<Longrightarrow> \<forall>s'. y = Ok s' \<longrightarrow> mem_only s s'"
    then have IH: "mem_only s s'" if "loop d a oldsz s = Some (Ok s')" for d a oldsz s s' using that by blast
    assume eq: "(if \<not> a < oldsz then Some (Ok s)
      else let pte = ?pte; e = load32 (mem s) pte in
        if pte = 0 then loop d (PGADDR (PDX a + 1) 0 0 - PGSIZE + PGSIZE) oldsz s
        else if e AND PTE_P = 0 then loop d (a + PGSIZE) oldsz s
        else if PTE_ADDR e = 0 then Some (panic ''kfree'')
        else (case kfree (P2V (PTE_ADDR e)) s of
                Ok s \<Rightarrow> loop d (a + PGSIZE) oldsz (s\<lparr>mem := store32 pte 0 (mem s)\<rparr>)
              | Err err \<Rightarrow> Some (Err err))) = Some r" and r: "r = Ok s'"
    show "mem_only s s'"
    proof (cases "kfree (P2V (PTE_ADDR ?e)) s")
      case (Ok s1)
      have "mem_only s1 (s1\<lparr>mem := store32 ?pte 0 (mem s1)\<rparr>)" by simp
      with kfree_mem_only [OF Ok] have "mem_only s (s1\<lparr>mem := store32 ?pte 0 (mem s1)\<rparr>)" by (rule mem_only_trans)
      then have "mem_only s s'" if "loop d (a + PGSIZE) oldsz (s1\<lparr>mem := store32 ?pte 0 (mem s1)\<rparr>) = Some (Ok s')"
        using IH [OF that] by (rule mem_only_trans)
      then show ?thesis using eq IH Ok by (auto simp: Let_def r split: if_splits)
    qed (use eq IH in \<open>auto simp: Let_def r split: if_splits\<close>)
  qed
  then show ?thesis using assms by blast
qed

lemma deallocuvm_mem_only:
  assumes "deallocuvm d oldsz newsz s = Ok (r, s')"
  shows "mem_only s s'"
proof (cases "oldsz \<le> newsz")
  case False
  then obtain s1 where "deallocuvm_loop d (PGROUNDUP newsz) oldsz s = Some (Ok s1)" "s' = s1"
    using assms by (auto simp: deallocuvm_def bind_res_eq_Ok split: option.splits)
  then show ?thesis using deallocuvm_loop_mem_only by blast
qed (use assms in \<open>simp add: deallocuvm_def\<close>)

lemma freevm_mem_only:
  assumes "freevm d s = Ok s'"
  shows "mem_only s s'"
proof -
  have l: "mem_only s s'" if "freevm_loop d is s = Ok s'" for "is" s s'
    using that
  proof (induction "is" arbitrary: s)
    case (Cons i "is")
    then show ?case by (auto simp: Let_def bind_res_eq_Ok split: if_splits dest: kfree_mem_only intro: mem_only_trans)
  qed simp
  from assms obtain r s1 s2 where "deallocuvm d KERNBASE 0 s = Ok (r, s1)" "freevm_loop d [0..<NPDENTRIES] s1 = Ok s2" "kfree d s2 = Ok s'"
    by (auto simp: freevm_def bind_res_eq_Ok split: if_splits)
  from deallocuvm_mem_only [OF this(1)] l [OF this(2)] kfree_mem_only [OF this(3)] show ?thesis by (metis mem_only_trans)
qed

lemma kinv_mem:
  assumes "kinv s xs" "\<And>x a. x \<in> set xs \<Longrightarrow> in_page x a \<Longrightarrow> m' a = mem s a"
  shows "kinv (s\<lparr>mem := m'\<rparr>) xs"
proof -
  have "chain m' (freelist s) xs = chain (mem s) (freelist s) xs" by (rule chain_cong) (rule assms(2))
  moreover have "page_ok (s\<lparr>mem := m'\<rparr>) = page_ok s" by (rule mem_only_page_ok) simp
  ultimately show ?thesis using assms(1) by (simp add: kinv_def)
qed

lemma memset_page:
  "in_page p a \<Longrightarrow> memset p 0 PGSIZE m a = 0" "\<not> in_page p a \<Longrightarrow> memset p 0 PGSIZE m a = m a"
  by (simp_all add: memset_apply in_page_def PGSIZE_def)

lemma load32_memset:
  "i < 1024 \<Longrightarrow> load32 (memset p 0 PGSIZE m) (p + 4 * of_nat i) = 0"
  "i < 1024 \<Longrightarrow> p mod PGSIZE = 0 \<Longrightarrow> q mod PGSIZE = 0 \<Longrightarrow> p \<noteq> q \<Longrightarrow>
    load32 (memset p 0 PGSIZE m) (q + 4 * of_nat i) = load32 m (q + 4 * of_nat i)"
proof -
  show "load32 (memset p 0 PGSIZE m) (p + 4 * of_nat i) = 0" if "i < 1024"
  proof -
    have "load32 (memset p 0 PGSIZE m) (p + 4 * of_nat i) = load32 (\<lambda>_. 0) (p + 4 * of_nat i)"
      by (rule load32_cong) (rule memset_page(1), rule slot_in_page [OF that])
    then show ?thesis by (simp add: load32_def of_le32_def)
  qed
  show "load32 (memset p 0 PGSIZE m) (q + 4 * of_nat i) = load32 m (q + 4 * of_nat i)"
    if "i < 1024" "p mod PGSIZE = 0" "q mod PGSIZE = 0" "p \<noteq> q"
    by (rule load32_slot_cong [OF that(1)]) (rule memset_page(2), rule pages_apart [OF that(2-4)])
qed

lemma vm_okD:
  assumes "vm_ok s d xs"
  shows "kinv s xs" "page_ok s d" "d \<notin> set xs" "d mod PGSIZE = 0"
    "\<And>i. i < 1024 \<Longrightarrow> present (pde (mem s) d i) \<Longrightarrow> page_ok s (ptab (mem s) d i) \<and> ptab (mem s) d i \<notin> set xs \<and>
        ptab (mem s) d i \<noteq> d \<and> ptab (mem s) d i mod PGSIZE = 0"
    "\<And>i j. i < 1024 \<Longrightarrow> j < 1024 \<Longrightarrow> present (pde (mem s) d i) \<Longrightarrow> present (pde (mem s) d j) \<Longrightarrow>
        ptab (mem s) d i = ptab (mem s) d j \<Longrightarrow> i = j"
    "\<And>x. x \<in> set xs \<Longrightarrow> page_ok s x \<and> x mod PGSIZE = 0"
proof -
  show "kinv s xs" "page_ok s d" "d \<notin> set xs" "d mod PGSIZE = 0" using assms by (auto simp: vm_ok_def page_ok_def)
  show "page_ok s (ptab (mem s) d i) \<and> ptab (mem s) d i \<notin> set xs \<and> ptab (mem s) d i \<noteq> d \<and> ptab (mem s) d i mod PGSIZE = 0"
    if "i < 1024" "present (pde (mem s) d i)" for i
    using assms that by (auto simp: vm_ok_def page_ok_def)
  show "i = j" if "i < 1024" "j < 1024" "present (pde (mem s) d i)" "present (pde (mem s) d j)" "ptab (mem s) d i = ptab (mem s) d j" for i j
    using assms that unfolding vm_ok_def by metis
  show "page_ok s x \<and> x mod PGSIZE = 0" if "x \<in> set xs" for x
    using assms that by (auto simp: vm_ok_def kinv_def page_ok_def)
qed

lemma walk_False [simp]:
  "walkpgdir d va False s = (if present (pde (mem s) d (pdx va)) then ptab (mem s) d (pdx va) + 4 * of_nat (ptx va) else 0, s)"
  by (simp add: walkpgdir_def Let_def PDX_pdx(1) PTX_ptx(1) pde_def ptab_def present_def)

lemma walk_present:
  "present (pde (mem s) d (pdx va)) \<Longrightarrow> walkpgdir d va True s = (ptab (mem s) d (pdx va) + 4 * of_nat (ptx va), s)"
  by (simp add: walkpgdir_def Let_def PDX_pdx(1) PTX_ptx(1) pde_def ptab_def present_def)

lemma walk_full:
  assumes "vm_ok s d []" "\<not> present (pde (mem s) d (pdx va))"
  shows "walkpgdir d va True s = (0, s)"
  using assms kmem.alloc_none [OF vm_okD(1) [OF assms(1)]]
  by (simp add: walkpgdir_def Let_def PDX_pdx(1) pde_def present_def)

lemma present_bit: "present e \<longleftrightarrow> bit e 0"
  by (simp add: present_def PTE_P_def and_one_eq mod_2_eq_odd bit_0)

lemma new_pde:
  assumes "y mod PGSIZE = 0"
  shows "present (V2P y OR PTE_P OR PTE_W OR PTE_U)" "P2V (PTE_ADDR (V2P y OR PTE_P OR PTE_W OR PTE_U)) = y"
proof -
  have "PTE_ADDR (V2P y OR 7) = V2P y" by (rule PTE_ADDR_or [OF V2P_aligned [OF assms]]) simp
  then show "P2V (PTE_ADDR (V2P y OR PTE_P OR PTE_W OR PTE_U)) = y" by (simp add: PTE_P_def PTE_W_def PTE_U_def)
  show "present (V2P y OR PTE_P OR PTE_W OR PTE_U)" by (simp add: present_bit bit_simps PTE_P_def)
qed

lemma walk_new:
  assumes v: "vm_ok s d (y # ys)" and n: "\<not> present (pde (mem s) d (pdx va))"
  obtains s' where "walkpgdir d va True s = (y + 4 * of_nat (ptx va), s')" "vm_ok s' d ys" "mem_only s s'"
    "\<And>vb. pte_of (mem s') d vb = pte_of (mem s) d vb" "present (pde (mem s') d (pdx va))" "ptab (mem s') d (pdx va) = y"
    "\<And>a. \<not> in_page d a \<Longrightarrow> \<not> in_page y a \<Longrightarrow> mem s' a = mem s a" "tables (mem s') d = insert y (tables (mem s) d)"
proof -
  note D = vm_okD [OF v]
  let ?i = "pdx va" and ?e = "V2P y OR PTE_P OR PTE_W OR PTE_U"
  have y: "page_ok s y" "y mod PGSIZE = 0" "y \<noteq> d" "y \<notin> set ys"
    using D(1,3,7) by (auto simp: kinv_def)
  obtain s1 where s1: "kalloc s = (y, s1)" "kinv s1 ys" "mem s1 = mem s" and s1': "s1 = s\<lparr>freelist := load32 (mem s) y\<rparr>"
    using kmem.alloc_some [OF D(1)] D(1) by (auto simp: kalloc_def kinv_def Let_def)
  define m1 where "m1 = memset y 0 PGSIZE (mem s)"
  define m2 where "m2 = store32 (d + 4 * of_nat ?i) ?e m1"
  define s2 where "s2 = s1\<lparr>mem := m2\<rparr>"
  have w: "walkpgdir d va True s = (y + 4 * of_nat (ptx va), s2)"
    using n s1(1,3) page_ok_nonzero [OF y(1)]
    by (simp add: walkpgdir_def Let_def PDX_pdx(1) PTX_ptx(1) pde_def present_def s2_def m2_def m1_def)
  have ms: "mem s2 = m2" by (simp add: s2_def)
  have mo: "mem_only s s2" by (simp add: mem_only_def s2_def s1')
  have fr: "m2 a = mem s a" if "\<not> in_page d a" "\<not> in_page y a" for a
    using that by (simp add: m2_def m1_def store32_in_page PDX_pdx(2) memset_page(2))
  have slot: "load32 m2 (q + 4 * of_nat j) =
      (if q = d \<and> j = ?i then ?e else if q = y then 0 else load32 (mem s) (q + 4 * of_nat j))"
    if "q mod PGSIZE = 0" "j < 1024" for q j
  proof (cases "q = d \<and> j = ?i")
    case True
    then show ?thesis by (simp add: m2_def)
  next
    case False
    then have "load32 m2 (q + 4 * of_nat j) = load32 m1 (q + 4 * of_nat j)"
      unfolding m2_def by (intro slot_other D(4) that PDX_pdx(2)) auto
    also have "\<dots> = (if q = y then 0 else load32 (mem s) (q + 4 * of_nat j))"
      unfolding m1_def using load32_memset(1) [OF that(2)] load32_memset(2) [OF that(2) y(2) that(1)] by auto
    finally show ?thesis using False by auto
  qed
  have pd: "pde m2 d j = (if j = ?i then ?e else pde (mem s) d j)" if "j < 1024" for j
    using slot [OF D(4) that] y(3) by (auto simp: pde_def)
  have pt: "ptab m2 d j = (if j = ?i then y else ptab (mem s) d j)" if "j < 1024" for j
    using pd [OF that] new_pde(2) [OF y(2)] by (simp add: ptab_def)
  have ppd: "present (pde m2 d j) \<longleftrightarrow> j = ?i \<or> present (pde (mem s) d j)" if "j < 1024" for j
    using pd [OF that] new_pde(1) [OF y(2)] by auto
  have old: "page_ok s (ptab (mem s) d j) \<and> ptab (mem s) d j \<notin> set (y # ys) \<and> ptab (mem s) d j \<noteq> d \<and> ptab (mem s) d j mod PGSIZE = 0 \<and> j \<noteq> ?i"
    if "j < 1024" "present (pde (mem s) d j)" for j
    using D(5) [OF that] n that by auto
  have pg: "page_ok s2 = page_ok s" by (rule mem_only_page_ok(1) [OF mo])
  have k: "kinv s2 ys"
    unfolding s2_def
  proof (rule kinv_mem [OF s1(2)])
    fix x a assume x: "x \<in> set ys" "in_page x a"
    have "x mod PGSIZE = 0" "x \<noteq> d" "x \<noteq> y" using D(7) [of x] D(3) y(4) x(1) by auto
    then have "\<not> in_page d a" "\<not> in_page y a" using pages_apart [OF D(4) _ _ x(2)] pages_apart [OF y(2) _ _ x(2)] by auto
    then show "m2 a = mem s1 a" using fr s1(3) by simp
  qed
  have ok: "vm_ok s2 d ys"
    unfolding vm_ok_def pg ms
  proof (intro conjI allI impI)
    show "kinv s2 ys" "page_ok s d" by (rule k D)+
    show "d \<notin> set ys" using D(3) by simp
  next
    fix j assume j: "j < 1024" "present (pde m2 d j)"
    show "page_ok s (ptab m2 d j)" "ptab m2 d j \<notin> set ys" "ptab m2 d j \<noteq> d"
      using old [OF j(1)] j(2) y pt [OF j(1)] ppd [OF j(1)] by auto
  next
    fix i j assume i: "i < 1024" and j: "j < 1024" and e: "present (pde m2 d i) \<and> present (pde m2 d j) \<and> ptab m2 d i = ptab m2 d j"
    show "i = j"
    proof (cases "i = ?i \<or> j = ?i")
      case True
      have "ptab (mem s) d k \<noteq> y" if "k < 1024" "present (pde (mem s) d k)" for k using old [OF that] by simp
      with True e i j ppd pt show ?thesis by metis
    next
      case False
      with e i j ppd pt have "present (pde (mem s) d i)" "present (pde (mem s) d j)" "ptab (mem s) d i = ptab (mem s) d j" by simp_all
      then show ?thesis by (rule D(6) [OF i j])
    qed
  qed
  have pte: "pte_of m2 d vb = pte_of (mem s) d vb" for vb
  proof (cases "pdx vb = ?i")
    case True
    then show ?thesis using n pt [OF PDX_pdx(2)] ppd [OF PDX_pdx(2)] slot [OF y(2) PTX_ptx(2)] y(3) by (simp add: pte_of_def)
  next
    case False
    show ?thesis
    proof (cases "present (pde (mem s) d (pdx vb))")
      case True
      then show ?thesis
        using False pt [OF PDX_pdx(2), of vb] ppd [OF PDX_pdx(2), of vb] old [OF PDX_pdx(2) True] slot [of "ptab (mem s) d (pdx vb)", OF _ PTX_ptx(2), of vb]
        by (simp add: pte_of_def)
    qed (use False ppd [OF PDX_pdx(2), of vb] in \<open>simp add: pte_of_def\<close>)
  qed
  have tb: "tables m2 d = insert y (tables (mem s) d)"
  proof -
    have "{i. i < 1024 \<and> present (pde m2 d i)} = insert ?i {i. i < 1024 \<and> present (pde (mem s) d i)}"
      using ppd PDX_pdx(2) by auto
    moreover have "ptab m2 d ` {i. i < 1024 \<and> present (pde (mem s) d i)} = ptab (mem s) d ` {i. i < 1024 \<and> present (pde (mem s) d i)}"
    proof (rule image_cong [OF refl])
      fix j assume "j \<in> {i. i < 1024 \<and> present (pde (mem s) d i)}"
      then have "j < 1024" "j \<noteq> ?i" using n by auto
      then show "ptab m2 d j = ptab (mem s) d j" using pt by simp
    qed
    ultimately show ?thesis using pt [OF PDX_pdx(2)] by (simp add: tables_def)
  qed
  show thesis
    by (rule that [OF w ok mo]) (use pte fr tb pt [OF PDX_pdx(2)] ppd [OF PDX_pdx(2)] in \<open>simp_all add: ms\<close>)
qed

section \<open>Entering mappings\<close>

lemma pte_of_vpn: "vpn va = vpn vb \<Longrightarrow> pte_of m d va = pte_of m d vb"
  using vpn_eq_iff [of va vb] by (simp add: pte_of_def)

lemma slot_nonzero:
  assumes "p mod PGSIZE = 0" "p \<noteq> 0" "i < 1024"
  shows "p + 4 * of_nat i \<noteq> 0"
proof -
  have "unat p \<noteq> 0" "unat p mod 4096 = 0" using assms(1,2) by (auto simp: aligned_unat unat_eq_0)
  then obtain k where k: "unat p = 4096 * k" "k > 0" by (auto elim!: dvdE)
  have "unat (4 * of_nat i :: u32) = 4 * i"
    using unat_of_nat_small [where 'a = 32, of "4 * i"] assms(3) by simp
  then have "unat (p + 4 * of_nat i) = 4096 * k + 4 * i"
    using k assms(3) unat_u32_less [of p] by (subst unat_add_no_wrap) auto
  then show ?thesis using k(2) by (metis add_is_0 mult_is_0 not_gr0 unat_0 zero_neq_numeral)
qed

lemma pte_write:
  fixes s :: "'a mst_scheme" and e :: u32
  assumes v: "vm_ok s d xs" and p: "present (pde (mem s) d (pdx va))"
  defines "t \<equiv> ptab (mem s) d (pdx va)"
  defines "m' \<equiv> store32 (t + 4 * of_nat (ptx va)) e (mem s)"
  shows "vm_ok (s\<lparr>mem := m'\<rparr>) d xs"
    "pte_of m' d vb = (if vpn vb = vpn va then e else pte_of (mem s) d vb)"
    "tables m' d = tables (mem s) d" "\<not> in_page t a \<Longrightarrow> m' a = mem s a"
    "load32 (mem s) (t + 4 * of_nat (ptx va)) = pte_of (mem s) d va" "t + 4 * of_nat (ptx va) \<noteq> 0" "t \<in> tables (mem s) d"
proof -
  note D = vm_okD [OF v]
  have t: "page_ok s t" "t \<notin> set xs" "t \<noteq> d" "t mod PGSIZE = 0" using D(5) [OF PDX_pdx(2) p] by (auto simp: t_def)
  show f: "m' a = mem s a" if "\<not> in_page t a" for a using that by (simp add: m'_def store32_in_page PTX_ptx(2))
  have pd: "pde m' d j = pde (mem s) d j" if "j < 1024" for j
    unfolding pde_def by (rule load32_slot_cong [OF that], rule f, rule pages_apart [OF t(4) D(4) t(3)])
  then have pt: "ptab m' d j = ptab (mem s) d j" if "j < 1024" for j using that by (simp add: ptab_def)
  show "tables m' d = tables (mem s) d"
    unfolding tables_def using pd pt by (intro image_cong) auto
  have pg: "page_ok (s\<lparr>mem := m'\<rparr>) = page_ok s" by (rule mem_only_page_ok) simp
  have k: "kinv (s\<lparr>mem := m'\<rparr>) xs"
  proof (rule kinv_mem [OF D(1)])
    fix x a assume x: "x \<in> set xs" "in_page x a"
    then have "\<not> in_page t a" using pages_apart [OF t(4) _ _ x(2)] D(7) [OF x(1)] t(2) by auto
    then show "m' a = mem s a" by (rule f)
  qed
  show "vm_ok (s\<lparr>mem := m'\<rparr>) d xs"
    using v k pd pt unfolding vm_ok_def pg by simp
  show "load32 (mem s) (t + 4 * of_nat (ptx va)) = pte_of (mem s) d va" using p by (simp add: pte_of_def t_def)
  show "t + 4 * of_nat (ptx va) \<noteq> 0" using t(4) page_ok_nonzero [OF t(1)] PTX_ptx(2) by (rule slot_nonzero)
  show "t \<in> tables (mem s) d" using p PDX_pdx(2) by (auto simp: tables_def t_def)
  show "pte_of m' d vb = (if vpn vb = vpn va then e else pte_of (mem s) d vb)"
  proof (cases "vpn vb = vpn va")
    case True
    then have "pte_of m' d vb = pte_of m' d va" by (rule pte_of_vpn)
    also have "\<dots> = e" using p pd [OF PDX_pdx(2)] pt [OF PDX_pdx(2)] by (simp add: pte_of_def t_def [symmetric]) (simp add: m'_def)
    finally show ?thesis using True by simp
  next
    case False
    have "load32 m' (ptab (mem s) d (pdx vb) + 4 * of_nat (ptx vb)) = load32 (mem s) (ptab (mem s) d (pdx vb) + 4 * of_nat (ptx vb))"
      if b: "present (pde (mem s) d (pdx vb))"
    proof -
      have "t \<noteq> ptab (mem s) d (pdx vb) \<or> ptx va \<noteq> ptx vb"
        using D(6) [OF PDX_pdx(2) PDX_pdx(2) p b] False vpn_eq_iff [of vb va] by (auto simp: t_def)
      then show ?thesis
        unfolding m'_def using D(5) [OF PDX_pdx(2) b] t(4) PTX_ptx(2) by (intro slot_other) auto
    qed
    then show ?thesis using False pd [OF PDX_pdx(2)] pt [OF PDX_pdx(2)] by (simp add: pte_of_def)
  qed
qed

text \<open>What the page table code changes is inside the directory and its tables.\<close>

definition in_tables :: "memory \<Rightarrow> u32 \<Rightarrow> u32 \<Rightarrow> bool" where
  "in_tables m d a \<longleftrightarrow> in_page d a \<or> (\<exists>t\<in>tables m d. in_page t a)"

text \<open>Finding the slot for \<open>va\<close> and writing \<open>e\<close> to it.\<close>

lemma walk_write:
  fixes s :: "'a mst_scheme"
  assumes v: "vm_ok s d xs"
  shows "xs = [] \<and> \<not> present (pte_of (mem s) d va) \<and> walkpgdir d va True s = (0, s) \<or>
    (\<exists>pte s1 ys zs. walkpgdir d va True s = (pte, s1) \<and> pte \<noteq> 0 \<and> load32 (mem s1) pte = pte_of (mem s) d va \<and> xs = ys @ zs \<and>
      (\<forall>e. let s2 = s1\<lparr>mem := store32 pte e (mem s1)\<rparr> in
        vm_ok s2 d zs \<and> mem_only s s2 \<and> tables (mem s2) d = set ys \<union> tables (mem s) d \<and>
        (\<forall>vb. pte_of (mem s2) d vb = (if vpn vb = vpn va then e else pte_of (mem s) d vb)) \<and>
        (\<forall>a. \<not> in_tables (mem s2) d a \<longrightarrow> mem s2 a = mem s a)))"
proof (cases "present (pde (mem s) d (pdx va))")
  case True
  note W = pte_write [OF v True]
  show ?thesis
    by (rule disjI2, rule exI [of _ "ptab (mem s) d (pdx va) + 4 * of_nat (ptx va)"], rule exI [of _ s],
        rule exI [of _ "[]"], rule exI [of _ xs]) (use walk_present [OF True] W in \<open>auto simp: Let_def in_tables_def\<close>)
next
  case False
  show ?thesis
  proof (cases xs)
    case Nil
    then show ?thesis using walk_full [of s d va] False v by (simp add: pte_of_def present_def)
  next
    case (Cons y ys)
    from walk_new [OF v [unfolded Cons] False] obtain s1 where w: "walkpgdir d va True s = (y + 4 * of_nat (ptx va), s1)" "vm_ok s1 d ys" "mem_only s s1"
      "\<And>vb. pte_of (mem s1) d vb = pte_of (mem s) d vb" "present (pde (mem s1) d (pdx va))" "ptab (mem s1) d (pdx va) = y"
      "\<And>a. \<not> in_page d a \<Longrightarrow> \<not> in_page y a \<Longrightarrow> mem s1 a = mem s a" "tables (mem s1) d = insert y (tables (mem s) d)" by blast
    note W = pte_write [OF w(2,5), unfolded w(6)]
    have "let s2 = s1\<lparr>mem := store32 (y + 4 * of_nat (ptx va)) e (mem s1)\<rparr> in
        vm_ok s2 d ys \<and> mem_only s s2 \<and> tables (mem s2) d = set [y] \<union> tables (mem s) d \<and>
        (\<forall>vb. pte_of (mem s2) d vb = (if vpn vb = vpn va then e else pte_of (mem s) d vb)) \<and>
        (\<forall>a. \<not> in_tables (mem s2) d a \<longrightarrow> mem s2 a = mem s a)" for e
    proof -
      have f: "store32 (y + 4 * of_nat (ptx va)) e (mem s1) a = mem s a" if "\<not> in_page d a" "\<not> in_page y a" for a
        using W(4) [OF that(2)] w(7) [OF that] by simp
      have "mem_only s (s1\<lparr>mem := store32 (y + 4 * of_nat (ptx va)) e (mem s1)\<rparr>)"
        by (rule mem_only_trans [OF w(3)]) simp
      then show ?thesis using W(1-3) w(4,8) f by (auto simp: Let_def in_tables_def)
    qed
    note u = this
    show ?thesis
      by (rule disjI2, rule exI [of _ "y + 4 * of_nat (ptx va)"], rule exI [of _ s1], rule exI [of _ "[y]"], rule exI [of _ ys])
        (use u Cons w(1,4) W(5,6) in simp)
  qed
qed

text \<open>The entries after mapping the first \<open>k\<close> pages of \<open>as\<close> to \<open>pa\<close> and up, and what else a run of the page table code
  keeps: it takes the pages \<open>ys\<close> off the free list, for tables.\<close>

definition mapped_upto :: "(u32 \<Rightarrow> u32) \<Rightarrow> u32 list \<Rightarrow> nat \<Rightarrow> u32 \<Rightarrow> u32 \<Rightarrow> (u32 \<Rightarrow> u32) \<Rightarrow> bool" where
  "mapped_upto f as k pa perm f' \<longleftrightarrow>
     (\<forall>j<k. f' (as ! j) = (pa + of_nat j * PGSIZE) OR perm OR PTE_P) \<and> (\<forall>vb. vpn vb \<notin> vpn ` set (take k as) \<longrightarrow> f' vb = f vb)"

definition table_step :: "u32 \<Rightarrow> 'a mst_scheme \<Rightarrow> u32 list \<Rightarrow> 'a mst_scheme \<Rightarrow> bool" where
  "table_step d s ys s' \<longleftrightarrow> mem_only s s' \<and> tables (mem s') d = set ys \<union> tables (mem s) d \<and>
     (\<forall>a. \<not> in_tables (mem s') d a \<longrightarrow> mem s' a = mem s a)"

lemma table_step_refl [simp]: "table_step d s [] s"
  by (simp add: table_step_def)

lemma table_step_trans:
  assumes 1: "table_step d s ys s'" and 2: "table_step d s' zs s''"
  shows "table_step d s (ys @ zs) s''"
proof -
  have t: "tables (mem s'') d = set (ys @ zs) \<union> tables (mem s) d" using 1 2 by (auto simp: table_step_def)
  have "mem s'' a = mem s a" if "\<not> in_tables (mem s'') d a" for a
  proof -
    have "\<not> in_tables (mem s') d a" using that 2 by (auto simp: in_tables_def table_step_def)
    then show ?thesis using that 1 2 by (simp add: table_step_def)
  qed
  then show ?thesis using t mem_only_trans 1 2 unfolding table_step_def by blast
qed

lemma mappages_loop_spec:
  fixes s :: "'a mst_scheme"
  assumes "vm_ok s d xs" "\<forall>a\<in>set as. \<not> present (pte_of (mem s) d a)" "distinct (map vpn as)"
  shows "\<exists>r s' ys zs k. mappages_loop d as pa perm s = Ok (r, s') \<and> vm_ok s' d zs \<and> xs = ys @ zs \<and> table_step d s ys s' \<and>
    mapped_upto (pte_of (mem s) d) as k pa perm (pte_of (mem s') d) \<and>
    (r = 0 \<and> k = length as \<or> r = - 1 \<and> k < length as \<and> zs = [])"
  using assms
proof (induction as arbitrary: pa s xs)
  case Nil
  show ?case
    by (rule exI [of _ 0], rule exI [of _ s], rule exI [of _ "[]"], rule exI [of _ xs], rule exI [of _ 0])
      (use Nil in \<open>simp add: mapped_upto_def\<close>)
next
  case (Cons a as)
  have np: "\<not> present (pte_of (mem s) d a)" using Cons.prems(2) by simp
  from walk_write [OF Cons.prems(1), of a] show ?case
  proof (elim disjE exE conjE)
    assume "xs = []" "walkpgdir d a True s = (0, s)"
    then show ?thesis
      by (intro exI [of _ "- 1"] exI [of _ s] exI [of _ "[]"] exI [of _ 0]) (use Cons.prems in \<open>simp add: mapped_upto_def\<close>)
  next
    fix pte s1 ys zs
    assume w: "walkpgdir d a True s = (pte, s1)" "pte \<noteq> 0" "load32 (mem s1) pte = pte_of (mem s) d a" "xs = ys @ zs"
      and "\<forall>e. let s2 = s1\<lparr>mem := store32 pte e (mem s1)\<rparr> in
        vm_ok s2 d zs \<and> mem_only s s2 \<and> tables (mem s2) d = set ys \<union> tables (mem s) d \<and>
        (\<forall>vb. pte_of (mem s2) d vb = (if vpn vb = vpn a then e else pte_of (mem s) d vb)) \<and>
        (\<forall>a. \<not> in_tables (mem s2) d a \<longrightarrow> mem s2 a = mem s a)"
    note all = this(5)
    define e where "e = pa OR perm OR PTE_P"
    define s2 where "s2 = s1\<lparr>mem := store32 pte e (mem s1)\<rparr>"
    from all [rule_format, of e, folded s2_def]
    have s2: "vm_ok s2 d zs" "table_step d s ys s2" "\<And>vb. pte_of (mem s2) d vb = (if vpn vb = vpn a then e else pte_of (mem s) d vb)"
      by (simp_all add: Let_def table_step_def)
    have st: "mappages_loop d (a # as) pa perm s = mappages_loop d as (pa + PGSIZE) perm s2"
      using w(1-3) np by (simp add: present_def s2_def e_def)
    have na: "vpn a \<notin> vpn ` set as" "distinct (map vpn as)" using Cons.prems(3) by simp_all
    have "\<forall>b\<in>set as. \<not> present (pte_of (mem s2) d b)"
    proof
      fix b assume b: "b \<in> set as"
      then have "vpn b \<noteq> vpn a" using na(1) by (metis imageI)
      then show "\<not> present (pte_of (mem s2) d b)" using b Cons.prems(2) by (simp add: s2(3))
    qed
    from Cons.IH [OF s2(1) this na(2), of "pa + PGSIZE"] obtain r s' ys' zs' k where
      IH: "mappages_loop d as (pa + PGSIZE) perm s2 = Ok (r, s')" "vm_ok s' d zs'" "zs = ys' @ zs'" "table_step d s2 ys' s'"
        "mapped_upto (pte_of (mem s2) d) as k (pa + PGSIZE) perm (pte_of (mem s') d)"
        "r = 0 \<and> k = length as \<or> r = - 1 \<and> k < length as \<and> zs' = []" by blast
    have nk: "vpn a \<notin> vpn ` set (take k as)" using na(1) set_take_subset [of k as] by blast
    have "mapped_upto (pte_of (mem s) d) (a # as) (Suc k) pa perm (pte_of (mem s') d)"
      unfolding mapped_upto_def
    proof (intro conjI allI impI)
      fix j assume j: "j < Suc k"
      show "pte_of (mem s') d ((a # as) ! j) = (pa + of_nat j * PGSIZE) OR perm OR PTE_P"
      proof (cases j)
        case 0
        have "pte_of (mem s') d a = pte_of (mem s2) d a" using IH(5) nk by (simp add: mapped_upto_def)
        then show ?thesis using 0 by (simp add: s2(3) e_def)
      next
        case (Suc i)
        then show ?thesis using IH(5) j by (simp add: mapped_upto_def algebra_simps)
      qed
    next
      fix vb assume "vpn vb \<notin> vpn ` set (take (Suc k) (a # as))"
      then have "vpn vb \<noteq> vpn a" "vpn vb \<notin> vpn ` set (take k as)" by auto
      then show "pte_of (mem s') d vb = pte_of (mem s) d vb" using IH(5) s2(3) by (simp add: mapped_upto_def)
    qed
    moreover have "table_step d s (ys @ ys') s'" by (rule table_step_trans [OF s2(2) IH(4)])
    ultimately show ?thesis
      using st IH(1-3,6) w(4)
      by (intro exI [of _ r] exI [of _ s'] exI [of _ "ys @ ys'"] exI [of _ zs'] exI [of _ "Suc k"]) simp
  qed
qed

lemma page_range_facts:
  assumes "va \<le> vb"
  shows "map vpn (page_range (PGROUNDDOWN va) (PGROUNDDOWN vb)) = [vpn va..<Suc (vpn vb)]"
    "length (page_range (PGROUNDDOWN va) (PGROUNDDOWN vb)) = Suc (vpn vb - vpn va)"
    "k \<le> vpn vb - vpn va \<Longrightarrow> vpn (page_range (PGROUNDDOWN va) (PGROUNDDOWN vb) ! k) = vpn va + k"
proof -
  have le: "vpn va \<le> vpn vb" using assms by (simp add: vpn_def word_le_nat_alt div_le_mono)
  have u: "unat (PGROUNDDOWN w) = 4096 * vpn w" for w by (simp add: unat_PGROUNDDOWN vpn_def)
  have "unat (PGROUNDDOWN vb - PGROUNDDOWN va) = 4096 * (vpn vb - vpn va)"
    using le by (subst unat_sub_le) (simp_all add: word_le_nat_alt u diff_mult_distrib2)
  then have l: "unat (PGROUNDDOWN vb - PGROUNDDOWN va) div 4096 = vpn vb - vpn va" by simp
  show len: "length (page_range (PGROUNDDOWN va) (PGROUNDDOWN vb)) = Suc (vpn vb - vpn va)" by (simp add: page_range_def l)
  show n: "vpn (page_range (PGROUNDDOWN va) (PGROUNDDOWN vb) ! k) = vpn va + k" if k: "k \<le> vpn vb - vpn va" for k
  proof -
    have b: "4096 * vpn va + 4096 * k \<le> 4096 * vpn vb" using k le by simp
    have vb: "4096 * vpn vb < 2 ^ 32" using unat_u32_less [of vb] by (simp add: vpn_def)
    have "unat (of_nat k * PGSIZE) = 4096 * k"
      using unat_of_nat_small [where 'a = 32, of "4096 * k"] b vb by (simp add: PGSIZE_def mult.commute)
    then have "unat (PGROUNDDOWN va + of_nat k * PGSIZE) = 4096 * (vpn va + k)"
      using b vb by (subst unat_add_no_wrap) (simp_all add: u)
    then have "vpn (PGROUNDDOWN va + of_nat k * PGSIZE) = vpn va + k" by (simp add: vpn_def)
    moreover have "page_range (PGROUNDDOWN va) (PGROUNDDOWN vb) ! k = PGROUNDDOWN va + of_nat k * PGSIZE"
      unfolding page_range_def l using k by (simp only: Suc_eq_plus1 [symmetric]) (simp del: upt_Suc)
    ultimately show ?thesis by simp
  qed
  show "map vpn (page_range (PGROUNDDOWN va) (PGROUNDDOWN vb)) = [vpn va..<Suc (vpn vb)]"
  proof (rule nth_equalityI)
    show "length (map vpn (page_range (PGROUNDDOWN va) (PGROUNDDOWN vb))) = length [vpn va..<Suc (vpn vb)]"
      using le by (simp add: len)
    fix k assume "k < length (map vpn (page_range (PGROUNDDOWN va) (PGROUNDDOWN vb)))"
    then have "k \<le> vpn vb - vpn va" by (simp add: len)
    then show "map vpn (page_range (PGROUNDDOWN va) (PGROUNDDOWN vb)) ! k = [vpn va..<Suc (vpn vb)] ! k"
      using le by (simp add: n len del: upt_Suc)
  qed
qed

lemma mappages_spec:
  fixes s :: "'a mst_scheme"
  assumes v: "vm_ok s d xs" and sz: "va \<le> va + sz - 1"
    and free: "\<And>vb. vpn va \<le> vpn vb \<Longrightarrow> vpn vb \<le> vpn (va + sz - 1) \<Longrightarrow> \<not> present (pte_of (mem s) d vb)"
  obtains (Mapped) s' ys zs where "mappages d va sz pa perm s = Ok (0, s')" "vm_ok s' d zs" "xs = ys @ zs" "table_step d s ys s'"
      "\<And>vb. pte_of (mem s') d vb = (if vpn va \<le> vpn vb \<and> vpn vb \<le> vpn (va + sz - 1)
          then (pa + of_nat (vpn vb - vpn va) * PGSIZE) OR perm OR PTE_P else pte_of (mem s) d vb)"
  | (Full) s' k where "mappages d va sz pa perm s = Ok (- 1, s')" "vm_ok s' d []" "table_step d s xs s'" "k \<le> vpn (va + sz - 1) - vpn va"
      "\<And>vb. pte_of (mem s') d vb = (if vpn va \<le> vpn vb \<and> vpn vb < vpn va + k
          then (pa + of_nat (vpn vb - vpn va) * PGSIZE) OR perm OR PTE_P else pte_of (mem s) d vb)"
proof -
  define as where "as = page_range (PGROUNDDOWN va) (PGROUNDDOWN (va + sz - 1))"
  note R = page_range_facts [OF sz, folded as_def]
  have le: "vpn va \<le> vpn (va + sz - 1)" using sz by (simp add: vpn_def word_le_nat_alt div_le_mono)
  have "\<forall>a\<in>set as. \<not> present (pte_of (mem s) d a)"
  proof
    fix a assume "a \<in> set as"
    then have "vpn a \<in> set (map vpn as)" by simp
    then show "\<not> present (pte_of (mem s) d a)" unfolding R(1) by (intro free) auto
  qed
  moreover have "distinct (map vpn as)" unfolding R(1) by simp
  ultimately obtain r s' ys zs k where
    M: "mappages_loop d as pa perm s = Ok (r, s')" "vm_ok s' d zs" "xs = ys @ zs" "table_step d s ys s'"
      "mapped_upto (pte_of (mem s) d) as k pa perm (pte_of (mem s') d)"
      "r = 0 \<and> k = length as \<or> r = - 1 \<and> k < length as \<and> zs = []"
    using mappages_loop_spec [OF v] by blast
  have kl: "k \<le> length as" using M(6) by auto
  have tk: "vpn ` set (take k as) = {vpn va..<vpn va + k}"
  proof -
    have "vpn ` set (take k as) = set (take k (map vpn as))" by (simp add: take_map)
    also have "\<dots> = set (take k [vpn va..<Suc (vpn (va + sz - 1))])" unfolding R(1) ..
    finally show ?thesis using kl le R(2) by (simp del: upt_Suc add: take_upt)
  qed
  have pt: "pte_of (mem s') d vb = (if vpn va \<le> vpn vb \<and> vpn vb < vpn va + k
          then (pa + of_nat (vpn vb - vpn va) * PGSIZE) OR perm OR PTE_P else pte_of (mem s) d vb)" for vb
  proof (cases "vpn va \<le> vpn vb \<and> vpn vb < vpn va + k")
    case True
    define j where "j = vpn vb - vpn va"
    have j: "j < k" using True by (simp add: j_def) linarith
    then have j2: "j \<le> vpn (va + sz - 1) - vpn va" using kl R(2) by linarith
    have "vpn (as ! j) = vpn vb" using R(3) [OF j2] True by (simp add: j_def)
    then have "pte_of (mem s') d vb = pte_of (mem s') d (as ! j)" by (metis pte_of_vpn)
    then show ?thesis using M(5) j True by (simp add: mapped_upto_def j_def)
  next
    case False
    then have "vpn vb \<notin> vpn ` set (take k as)" unfolding tk by simp
    then have "pte_of (mem s') d vb = pte_of (mem s) d vb" using M(5) unfolding mapped_upto_def by blast
    then show ?thesis using False by auto
  qed
  from M(6) show thesis
  proof (elim disjE conjE)
    assume r: "r = 0" "k = length as"
    have "(vpn va \<le> vpn vb \<and> vpn vb < vpn va + k) \<longleftrightarrow> (vpn va \<le> vpn vb \<and> vpn vb \<le> vpn (va + sz - 1))" for vb
      using r(2) R(2) le by auto
    then show thesis using Mapped [of s' zs ys] M(1-4) r(1) pt by (simp add: mappages_def as_def)
  next
    assume r: "r = - 1" "k < length as" "zs = []"
    then show thesis using Full [of s' k] M(1-4) pt R(2) by (simp add: mappages_def as_def)
  qed
qed

section \<open>User memory\<close>

text \<open>The kernel address of the page behind a user address, and the pages of an address space below \<open>KERNBASE\<close>.\<close>

definition upage :: "memory \<Rightarrow> u32 \<Rightarrow> u32 \<Rightarrow> u32" where "upage m d va = P2V (PTE_ADDR (pte_of m d va))"

definition user_va :: "memory \<Rightarrow> u32 \<Rightarrow> u32 \<Rightarrow> bool" where "user_va m d va \<longleftrightarrow> va < KERNBASE \<and> present (pte_of m d va)"

definition upages :: "memory \<Rightarrow> u32 \<Rightarrow> u32 set" where "upages m d = upage m d ` {va. user_va m d va}"

text \<open>The invariant of an address space: no page of user memory is free, holds a page table, or is mapped twice.\<close>

definition uvm_ok :: "'a mst_scheme \<Rightarrow> u32 \<Rightarrow> u32 list \<Rightarrow> bool" where
  "uvm_ok s d xs \<longleftrightarrow> vm_ok s d xs \<and> KERNBASE < kend s \<and>
     (\<forall>va. user_va (mem s) d va \<longrightarrow> page_ok s (upage (mem s) d va) \<and> upage (mem s) d va \<notin> set xs \<union> insert d (tables (mem s) d)) \<and>
     (\<forall>va vb. user_va (mem s) d va \<and> user_va (mem s) d vb \<and> upage (mem s) d va = upage (mem s) d vb \<longrightarrow> vpn va = vpn vb)"

text \<open>All the pages there are for the address space: free ones, the directory, its tables, and user memory.\<close>

definition pool :: "'a mst_scheme \<Rightarrow> u32 \<Rightarrow> u32 list \<Rightarrow> u32 set" where
  "pool s d xs = set xs \<union> insert d (tables (mem s) d \<union> upages (mem s) d)"

definition outside :: "u32 set \<Rightarrow> u32 \<Rightarrow> bool" where "outside P a \<longleftrightarrow> (\<forall>p\<in>P. \<not> in_page p a)"

lemma uvm_okD:
  assumes "uvm_ok s d xs"
  shows "vm_ok s d xs"
    "\<And>va. user_va (mem s) d va \<Longrightarrow> page_ok s (upage (mem s) d va) \<and> upage (mem s) d va \<notin> set xs \<and> upage (mem s) d va \<noteq> d \<and>
       upage (mem s) d va \<notin> tables (mem s) d \<and> upage (mem s) d va mod PGSIZE = 0"
    "\<And>va vb. user_va (mem s) d va \<Longrightarrow> user_va (mem s) d vb \<Longrightarrow> upage (mem s) d va = upage (mem s) d vb \<Longrightarrow> vpn va = vpn vb"
    "KERNBASE < kend s"
proof -
  show "vm_ok s d xs" "KERNBASE < kend s" using assms by (simp_all add: uvm_ok_def)
  show "page_ok s (upage (mem s) d va) \<and> upage (mem s) d va \<notin> set xs \<and> upage (mem s) d va \<noteq> d \<and>
       upage (mem s) d va \<notin> tables (mem s) d \<and> upage (mem s) d va mod PGSIZE = 0" if "user_va (mem s) d va" for va
    using assms that by (auto simp: uvm_ok_def page_ok_def)
  show "vpn va = vpn vb" if "user_va (mem s) d va" "user_va (mem s) d vb" "upage (mem s) d va = upage (mem s) d vb" for va vb
    using assms that unfolding uvm_ok_def by blast
qed

lemma tables_aligned: "vm_ok s d xs \<Longrightarrow> t \<in> tables (mem s) d \<Longrightarrow> t mod PGSIZE = 0 \<and> page_ok s t \<and> t \<notin> set xs \<and> t \<noteq> d"
  unfolding tables_def by (auto dest: vm_okD(5))

text \<open>Page tables are read in the pages of \<open>in_tables\<close> only.\<close>

lemma tables_cong:
  assumes v: "vm_ok s d xs" and m: "\<forall>a. in_tables (mem s) d a \<longrightarrow> m' a = mem s a"
  shows "\<And>i. i < 1024 \<Longrightarrow> pde m' d i = pde (mem s) d i" "\<And>i. i < 1024 \<Longrightarrow> ptab m' d i = ptab (mem s) d i"
    "tables m' d = tables (mem s) d" "pte_of m' d = pte_of (mem s) d"
proof -
  show pd: "pde m' d i = pde (mem s) d i" if "i < 1024" for i
    unfolding pde_def by (rule load32_slot_cong [OF that], rule m [rule_format]) (simp add: in_tables_def)
  show pt: "ptab m' d i = ptab (mem s) d i" if "i < 1024" for i using pd [OF that] by (simp add: ptab_def)
  show "tables m' d = tables (mem s) d" unfolding tables_def using pd pt by (intro image_cong) auto
  show "pte_of m' d = pte_of (mem s) d"
  proof
    fix va
    have "load32 m' (ptab (mem s) d (pdx va) + 4 * of_nat (ptx va)) = load32 (mem s) (ptab (mem s) d (pdx va) + 4 * of_nat (ptx va))"
      if "present (pde (mem s) d (pdx va))"
    proof (rule load32_slot_cong [OF PTX_ptx(2)], rule m [rule_format])
      fix a assume "in_page (ptab (mem s) d (pdx va)) a"
      then show "in_tables (mem s) d a" using that PDX_pdx(2) by (auto simp: in_tables_def tables_def)
    qed
    then show "pte_of m' d va = pte_of (mem s) d va" using pd [OF PDX_pdx(2)] pt [OF PDX_pdx(2)] by (simp add: pte_of_def)
  qed
qed

lemma vm_ok_cong:
  assumes v: "vm_ok s d xs" and m: "\<forall>a. in_tables (mem s) d a \<longrightarrow> mem s' a = mem s a" and o: "mem_only s s'"
    and k: "kinv s' xs'" and x: "set xs' \<inter> insert d (tables (mem s) d) = {}"
  shows "vm_ok s' d xs'"
proof -
  note C = tables_cong [of s d xs "mem s'", OF v m]
  note D = vm_okD [OF v]
  have pg: "page_ok s' = page_ok s" by (rule mem_only_page_ok(1) [OF o])
  show ?thesis
    unfolding vm_ok_def pg
  proof (intro conjI allI impI)
    show "kinv s' xs'" "page_ok s d" by (rule k D)+
    show "d \<notin> set xs'" using x by auto
  next
    fix i assume i: "i < 1024" "present (pde (mem s') d i)"
    then have p: "present (pde (mem s) d i)" by (simp add: C(1))
    have "ptab (mem s) d i \<in> tables (mem s) d" using i(1) p by (auto simp: tables_def)
    then show "page_ok s (ptab (mem s') d i)" "ptab (mem s') d i \<notin> set xs'" "ptab (mem s') d i \<noteq> d"
      using D(5) [OF i(1) p] x by (auto simp: C(2) [OF i(1)])
  next
    fix i j assume i: "i < 1024" and j: "j < 1024" and e: "present (pde (mem s') d i) \<and> present (pde (mem s') d j) \<and> ptab (mem s') d i = ptab (mem s') d j"
    then have "present (pde (mem s) d i)" "present (pde (mem s) d j)" "ptab (mem s) d i = ptab (mem s) d j"
      using C(1,2) [OF i] C(1,2) [OF j] by simp_all
    then show "i = j" by (rule D(6) [OF i j])
  qed
qed

lemma uvm_ok_cong:
  assumes u: "uvm_ok s d xs" and m: "\<forall>a. in_tables (mem s) d a \<longrightarrow> mem s' a = mem s a" and o: "mem_only s s'"
    and k: "kinv s' xs'" and x: "set xs' \<inter> insert d (tables (mem s) d \<union> upages (mem s) d) = {}"
  shows "uvm_ok s' d xs'" "pte_of (mem s') d = pte_of (mem s) d" "tables (mem s') d = tables (mem s) d"
    "upage (mem s') d = upage (mem s) d" "upages (mem s') d = upages (mem s) d"
proof -
  note v = uvm_okD(1) [OF u]
  note C = tables_cong [of s d xs "mem s'", OF v m]
  show p: "pte_of (mem s') d = pte_of (mem s) d" "tables (mem s') d = tables (mem s) d" by (rule C(4), rule C(3))
  then show up: "upage (mem s') d = upage (mem s) d" by (simp add: upage_def fun_eq_iff)
  have uv: "user_va (mem s') d = user_va (mem s) d" by (simp add: user_va_def fun_eq_iff p)
  show "upages (mem s') d = upages (mem s) d" by (simp add: upages_def up uv)
  have pg: "page_ok s' = page_ok s" by (rule mem_only_page_ok(1) [OF o])
  have "vm_ok s' d xs'" by (rule vm_ok_cong [OF v m o k]) (use x in auto)
  moreover have "upage (mem s) d va \<notin> set xs'" if "user_va (mem s) d va" for va
    using that x unfolding upages_def by blast
  ultimately show "uvm_ok s' d xs'" using u unfolding uvm_ok_def p up uv pg mem_only_page_ok(2) [OF o] by blast
qed

text \<open>Taking a page off the free list and clearing it.\<close>

lemma uvm_take:
  assumes u: "uvm_ok s d (y # ys)"
  obtains s1 s2 where "kalloc s = (y, s1)" "s2 = s1\<lparr>mem := memset y 0 PGSIZE (mem s1)\<rparr>" "uvm_ok s2 d ys" "mem_only s s2" "page_ok s y" "y \<noteq> 0"
    "pte_of (mem s2) d = pte_of (mem s) d" "y \<notin> pool s2 d ys" "pool s d (y # ys) = insert y (pool s2 d ys)"
    "\<forall>a. in_page y a \<longrightarrow> mem s2 a = 0" "\<forall>a. \<not> in_page y a \<longrightarrow> mem s2 a = mem s a" "tables (mem s2) d = tables (mem s) d"
proof -
  note v = uvm_okD(1) [OF u]
  note D = vm_okD [OF v]
  have y: "page_ok s y" "y mod PGSIZE = 0" "y \<noteq> d" "y \<notin> set ys" using D(1,3,7) by (auto simp: kinv_def)
  obtain s1 where s1: "kalloc s = (y, s1)" "kinv s1 ys" "mem s1 = mem s" and s1': "s1 = s\<lparr>freelist := load32 (mem s) y\<rparr>"
    using kmem.alloc_some [OF D(1)] D(1) by (auto simp: kalloc_def kinv_def Let_def)
  define s2 where "s2 = s1\<lparr>mem := memset y 0 PGSIZE (mem s1)\<rparr>"
  have f: "\<forall>a. in_page y a \<longrightarrow> mem s2 a = 0" "\<forall>a. \<not> in_page y a \<longrightarrow> mem s2 a = mem s a" by (simp_all add: s2_def memset_page s1(3))
  have mo: "mem_only s s2" by (simp add: mem_only_def s2_def s1')
  have nt: "y \<notin> tables (mem s) d" using tables_aligned [OF v] by auto
  have m: "\<forall>a. in_tables (mem s) d a \<longrightarrow> mem s2 a = mem s a"
  proof (intro allI impI)
    fix a assume "in_tables (mem s) d a"
    then have "\<not> in_page y a"
      using pages_apart [OF y(2) D(4) y(3)] pages_apart [OF y(2)] tables_aligned [OF v] nt unfolding in_tables_def by blast
    then show "mem s2 a = mem s a" using f(2) by blast
  qed
  have k: "kinv s2 ys" unfolding s2_def
  proof (rule kinv_mem [OF s1(2)])
    fix x a assume x: "x \<in> set ys" "in_page x a"
    then have "\<not> in_page y a" using pages_apart [OF y(2) _ _ x(2)] D(7) [of x] y(4) by auto
    then show "memset y 0 PGSIZE (mem s1) a = mem s1 a" by (rule memset_page(2))
  qed
  have nu: "set (y # ys) \<inter> upages (mem s) d = {}" using uvm_okD(2) [OF u] by (auto simp: upages_def)
  have "set ys \<inter> insert d (tables (mem s) d \<union> upages (mem s) d) = {}"
    using nu tables_aligned [OF v] D(3) by auto
  note C = uvm_ok_cong [OF u m mo k this]
  have "y \<notin> pool s2 d ys" using y(3,4) nt nu by (simp add: pool_def C(3,5))
  moreover have "pool s d (y # ys) = insert y (pool s2 d ys)" by (auto simp: pool_def C(3,5))
  ultimately show thesis using that [OF s1(1) s2_def C(1) mo y(1) page_ok_nonzero [OF y(1)] C(2)] f C(3) by blast
qed

text \<open>Freeing the page behind a user address and clearing its entry.\<close>

lemma uvm_drop:
  assumes u: "uvm_ok s d xs" and va: "user_va (mem s) d va"
  obtains s1 s2 where "kfree (upage (mem s) d va) s = Ok s1"
    "s2 = s1\<lparr>mem := store32 (ptab (mem s) d (pdx va) + 4 * of_nat (ptx va)) 0 (mem s1)\<rparr>"
    "uvm_ok s2 d (upage (mem s) d va # xs)" "mem_only s s2"
    "\<And>vb. pte_of (mem s2) d vb = (if vpn vb = vpn va then 0 else pte_of (mem s) d vb)"
    "pool s2 d (upage (mem s) d va # xs) = pool s d xs"
    "\<And>a. \<not> in_tables (mem s) d a \<Longrightarrow> \<not> in_page (upage (mem s) d va) a \<Longrightarrow> mem s2 a = mem s a"
    "tables (mem s2) d = tables (mem s) d"
proof -
  note v = uvm_okD(1) [OF u]
  note D = vm_okD [OF v]
  define p where "p = upage (mem s) d va"
  have p: "page_ok s p" "p \<notin> set xs" "p \<noteq> d" "p \<notin> tables (mem s) d" "p mod PGSIZE = 0"
    using uvm_okD(2) [OF u va] by (auto simp: p_def)
  obtain s1 where s1: "kfree p s = Ok s1" "kinv s1 (p # xs)" "\<forall>a. \<not> in_page p a \<longrightarrow> mem s1 a = mem s a"
    using kfree_kinv [OF D(1) p(1,2)] by blast
  have mo1: "mem_only s s1" using s1(1) by (auto simp: kfree_def Let_def mem_only_def split: if_splits)
  have m: "\<forall>a. in_tables (mem s) d a \<longrightarrow> mem s1 a = mem s a"
  proof (intro allI impI)
    fix a assume "in_tables (mem s) d a"
    then have "\<not> in_page p a"
      using pages_apart [OF p(5) D(4) p(3)] pages_apart [OF p(5)] tables_aligned [OF v] p(4) unfolding in_tables_def by blast
    then show "mem s1 a = mem s a" using s1(3) by blast
  qed
  have v1: "vm_ok s1 d (p # xs)"
    by (rule vm_ok_cong [OF v m mo1 s1(2)]) (use p D(3) tables_aligned [OF v] in auto)
  note C = tables_cong [OF v m]
  have pr: "present (pde (mem s) d (pdx va))" using va by (auto simp: user_va_def pte_of_def present_def split: if_splits)
  then have pr1: "present (pde (mem s1) d (pdx va))" using C(1) [OF PDX_pdx(2)] by simp
  define s2 where "s2 = s1\<lparr>mem := store32 (ptab (mem s) d (pdx va) + 4 * of_nat (ptx va)) 0 (mem s1)\<rparr>"
  note W = pte_write(1-4) [OF v1 pr1, where e = 0, unfolded C(2) [OF PDX_pdx(2)], folded s2_def]
  have ms2: "mem s2 = store32 (ptab (mem s) d (pdx va) + 4 * of_nat (ptx va)) 0 (mem s1)" by (simp add: s2_def)
  have pt: "pte_of (mem s2) d vb = (if vpn vb = vpn va then 0 else pte_of (mem s) d vb)" for vb
    using W(2) [of vb] by (simp add: ms2 C(4))
  have tb: "tables (mem s2) d = tables (mem s) d" using W(3) by (simp add: ms2 C(3))
  have mo: "mem_only s s2" using mo1 by (rule mem_only_trans) (simp add: s2_def)
  have pg: "page_ok s2 = page_ok s" by (rule mem_only_page_ok(1) [OF mo])
  have uv: "user_va (mem s2) d vb \<longleftrightarrow> user_va (mem s) d vb \<and> vpn vb \<noteq> vpn va" for vb
    by (simp add: user_va_def pt present_def)
  have up: "upage (mem s2) d vb = upage (mem s) d vb" if "vpn vb \<noteq> vpn va" for vb
    using that by (simp add: upage_def pt)
  have np: "upage (mem s) d vb \<noteq> p" if "user_va (mem s) d vb" "vpn vb \<noteq> vpn va" for vb
    using uvm_okD(3) [OF u that(1) va] that(2) unfolding p_def by blast
  have ok: "uvm_ok s2 d (p # xs)"
    unfolding uvm_ok_def pg tb mem_only_page_ok(2) [OF mo]
  proof (intro conjI allI impI)
    show "vm_ok s2 d (p # xs)" "KERNBASE < kend s" by (rule W(1), rule uvm_okD(4) [OF u])
  next
    fix vb assume b: "user_va (mem s2) d vb"
    then show "page_ok s (upage (mem s2) d vb)" "upage (mem s2) d vb \<notin> set (p # xs) \<union> insert d (tables (mem s) d)"
      using uv [of vb] uvm_okD(2) [OF u, of vb] np [of vb] up [of vb] by auto
  next
    fix vb vc assume "user_va (mem s2) d vb \<and> user_va (mem s2) d vc \<and> upage (mem s2) d vb = upage (mem s2) d vc"
    then show "vpn vb = vpn vc" using uv [of vb] uv [of vc] up [of vb] up [of vc] uvm_okD(3) [OF u, of vb vc] by simp
  qed
  have "insert p (upages (mem s2) d) = upages (mem s) d"
  proof -
    have "upage (mem s) d vb = p" if "vb \<in> {vb. user_va (mem s) d vb \<and> vpn vb = vpn va}" for vb
      using pte_of_vpn [of vb va "mem s" d] that by (simp add: upage_def p_def)
    then have "upage (mem s) d ` {vb. user_va (mem s) d vb \<and> vpn vb = vpn va} = (\<lambda>_. p) ` {vb. user_va (mem s) d vb \<and> vpn vb = vpn va}"
      by (rule image_cong [OF refl])
    also have "\<dots> = {p}" by (rule image_constant [of va]) (use va in simp)
    finally have "upage (mem s) d ` {vb. user_va (mem s) d vb \<and> vpn vb = vpn va} = {p}" .
    moreover have "{vb. user_va (mem s) d vb} = {vb. user_va (mem s) d vb \<and> vpn vb = vpn va} \<union> {vb. user_va (mem s) d vb \<and> vpn vb \<noteq> vpn va}"
      by blast
    ultimately have "upage (mem s) d ` {vb. user_va (mem s) d vb} = insert p (upage (mem s) d ` {vb. user_va (mem s) d vb \<and> vpn vb \<noteq> vpn va})"
      by (simp only: image_Un) simp
    moreover have "upage (mem s2) d ` {vb. user_va (mem s2) d vb} = upage (mem s) d ` {vb. user_va (mem s) d vb \<and> vpn vb \<noteq> vpn va}"
      unfolding uv by (rule image_cong [OF refl], rule up) simp
    ultimately show ?thesis by (simp add: upages_def)
  qed
  then have pl: "pool s2 d (p # xs) = pool s d xs" unfolding pool_def tb by auto
  have fr: "mem s2 a = mem s a" if "\<not> in_tables (mem s) d a" "\<not> in_page p a" for a
  proof -
    have "\<not> in_page (ptab (mem s) d (pdx va)) a" using that(1) pr PDX_pdx(2) by (auto simp: in_tables_def tables_def)
    from W(4) [OF this] show ?thesis using s1(3) that(2) by (simp add: ms2)
  qed
  show thesis
    by (rule that [OF s1(1) [unfolded p_def] s2_def ok [unfolded p_def] mo pt pl [unfolded p_def] fr [unfolded p_def] tb])
qed

section \<open>Shrinking and growing\<close>

text \<open>The entries after the pages from \<open>a\<close> up to \<open>oldsz\<close> are gone.\<close>

definition unmapped :: "(u32 \<Rightarrow> u32) \<Rightarrow> u32 \<Rightarrow> u32 \<Rightarrow> (u32 \<Rightarrow> u32) \<Rightarrow> bool" where
  "unmapped f a oldsz f' \<longleftrightarrow>
     (\<forall>vb. f' vb = (if vpn a \<le> vpn vb \<and> 4096 * vpn vb < unat oldsz \<and> present (f vb) then 0 else f vb))"

definition freed :: "u32 \<Rightarrow> 'a mst_scheme \<Rightarrow> u32 list \<Rightarrow> u32 list \<Rightarrow> 'a mst_scheme \<Rightarrow> bool" where
  "freed d s xs ps s' \<longleftrightarrow> uvm_ok s' d (ps @ xs) \<and> mem_only s s' \<and> pool s' d (ps @ xs) = pool s d xs \<and> tables (mem s') d = tables (mem s) d \<and>
     set ps \<subseteq> upages (mem s) d \<and> (\<forall>a. \<not> in_tables (mem s) d a \<and> outside (set ps) a \<longrightarrow> mem s' a = mem s a)"

lemma next_table:
  assumes "a < KERNBASE"
  shows "unat (PGADDR (PDX a + 1) 0 0 - PGSIZE + PGSIZE) = (pdx a + 1) * 2 ^ 22"
proof -
  have "pdx a < 512" using assms by (simp add: pdx_def KERNBASE_def word_less_nat_alt)
  then have "unat (push_bit 22 (of_nat (pdx a + 1)) :: u32) = (pdx a + 1) * 2 ^ 22"
    using unat_of_nat_small [where 'a = 32, of "(pdx a + 1) * 2 ^ 22"] by (simp add: push_bit_eq_mult)
  then show ?thesis by (simp add: PGADDR_def PDX_pdx(1) add.commute)
qed

lemma next_page:
  assumes "a < oldsz" "oldsz \<le> KERNBASE"
  shows "unat (a + PGSIZE) = unat a + 4096" "vpn (a + PGSIZE) = vpn a + 1"
proof -
  have "unat a < 2 ^ 31" using assms by (simp add: KERNBASE_def word_less_nat_alt word_le_nat_alt)
  then show "unat (a + PGSIZE) = unat a + 4096" by (subst unat_add_no_wrap) (simp_all add: PGSIZE_def)
  then show "vpn (a + PGSIZE) = vpn a + 1" by (simp add: vpn_def)
qed

lemma unmapped_step:
  assumes "vpn b = vpn a + 1" "4096 * vpn a < unat oldsz" "\<And>vb. vpn vb = vpn a \<Longrightarrow> f1 vb = (if present (f vb) then 0 else f vb)"
    "\<And>vb. vpn vb \<noteq> vpn a \<Longrightarrow> f1 vb = f vb" "unmapped f1 b oldsz f'"
  shows "unmapped f a oldsz f'"
  unfolding unmapped_def
proof
  fix vb
  have np: "\<not> present 0" by (simp add: present_def)
  show "f' vb = (if vpn a \<le> vpn vb \<and> 4096 * vpn vb < unat oldsz \<and> present (f vb) then 0 else f vb)"
  proof (cases "vpn vb = vpn a")
    case True
    then show ?thesis using assms np unfolding unmapped_def by auto
  next
    case False
    then show ?thesis using assms unfolding unmapped_def by auto
  qed
qed

lemma freed_trans:
  assumes 1: "freed d s xs ps s'" and 2: "freed d s' (ps @ xs) qs s''"
  shows "freed d s xs (qs @ ps) s''"
proof -
  have u: "upages (mem s') d \<subseteq> upages (mem s) d"
  proof -
    have "uvm_ok s' d (ps @ xs)" using 1 by (simp add: freed_def)
    note U = uvm_okD(2) [OF this]
    have "p \<notin> set (ps @ xs) \<union> insert d (tables (mem s') d)" if "p \<in> upages (mem s') d" for p
    proof -
      obtain va where "user_va (mem s') d va" "p = upage (mem s') d va" using \<open>p \<in> upages (mem s') d\<close> by (auto simp: upages_def)
      then show ?thesis using U [of va] by simp
    qed
    then show ?thesis using 1 unfolding freed_def pool_def by auto
  qed
  have m: "mem s'' a = mem s a" if "\<not> in_tables (mem s) d a" "outside (set (qs @ ps)) a" for a
  proof -
    have t: "\<not> in_tables (mem s') d a" using that(1) 1 by (simp add: freed_def in_tables_def)
    have "outside (set qs) a" "outside (set ps) a" using that(2) by (auto simp: outside_def)
    then have "mem s'' a = mem s' a" "mem s' a = mem s a" using t that(1) 1 2 by (simp_all add: freed_def)
    then show ?thesis by simp
  qed
  have "set (qs @ ps) \<subseteq> upages (mem s) d" using 1 2 u by (auto simp: freed_def)
  moreover have "mem_only s s''" using 1 2 unfolding freed_def by (blast intro: mem_only_trans)
  ultimately show ?thesis using 1 2 m by (simp add: freed_def)
qed

lemma deallocuvm_loop_spec:
  fixes s :: "'a mst_scheme"
  assumes "uvm_ok s d xs" "a mod PGSIZE = 0" "oldsz \<le> KERNBASE"
  shows "\<exists>s' ps. deallocuvm_loop d a oldsz s = Some (Ok s') \<and> freed d s xs ps s' \<and> unmapped (pte_of (mem s) d) a oldsz (pte_of (mem s') d)"
  using assms(1,2)
proof (induction "unat oldsz - unat a" arbitrary: a s xs rule: less_induct)
  case less
  show ?case
  proof (cases "a < oldsz")
    case False
    have c: "\<not> 4096 * vpn vb < unat oldsz" if "vpn a \<le> vpn vb" for vb
    proof -
      have "unat a = 4096 * vpn a" using less.prems(2) by (auto simp: aligned_unat vpn_def)
      then show ?thesis using that False by (simp add: word_less_nat_alt)
    qed
    have "unmapped (pte_of (mem s) d) a oldsz (pte_of (mem s) d)" unfolding unmapped_def by (simp add: c cong: conj_cong)
    moreover have "freed d s xs [] s" using less.prems(1) by (simp add: freed_def)
    ultimately show ?thesis using False deallocuvm_loop.simps [of d a oldsz s] by (intro exI [of _ s] exI [of _ "[]"]) simp
  next
    case True
    note n = next_page [OF True assms(3)]
    have ak: "a < KERNBASE" using True assms(3) by simp
    have av: "unat a = 4096 * vpn a" using less.prems(2) by (auto simp: aligned_unat vpn_def)
    then have va: "4096 * vpn a < unat oldsz" using True by (simp add: word_less_nat_alt)
    have al: "(a + PGSIZE) mod PGSIZE = 0" using less.prems(2) n(1) by (simp add: aligned_unat)
    have dec: "unat oldsz - unat (a + PGSIZE) < unat oldsz - unat a" using n(1) True by (simp add: word_less_nat_alt)
    note v = uvm_okD(1) [OF less.prems(1)]
    show ?thesis
    proof (cases "present (pde (mem s) d (pdx a))")
      case no: False
      define b where "b = PGADDR (PDX a + 1) 0 0 - PGSIZE + PGSIZE"
      have b: "unat b = (pdx a + 1) * 2 ^ 22" unfolding b_def by (rule next_table [OF ak])
      have st: "deallocuvm_loop d a oldsz s = deallocuvm_loop d b oldsz s"
        using deallocuvm_loop.simps [of d a oldsz s] True no by (simp add: Let_def b_def)
      have ab: "unat a < unat b" unfolding b pdx_def by (simp add: dividend_less_div_times)
      have bm: "b mod PGSIZE = 0" using b by (simp add: aligned_unat)
      have bd: "unat oldsz - unat b < unat oldsz - unat a" using ab True by (simp add: word_less_nat_alt)
      obtain s' ps where
        IH: "deallocuvm_loop d b oldsz s = Some (Ok s')" "freed d s xs ps s'" "unmapped (pte_of (mem s) d) b oldsz (pte_of (mem s') d)"
        using less.hyps [OF bd less.prems(1) bm] by blast
      have "\<not> present (pte_of (mem s) d vb)" if "vpn a \<le> vpn vb" "\<not> vpn b \<le> vpn vb" for vb
      proof -
        have "vpn b = 1024 * Suc (pdx a)" by (simp add: vpn_def b)
        moreover have pv: "pdx w = vpn w div 1024" for w by (simp add: vpn_def pdx_def div_mult2_eq [symmetric])
        moreover have "1024 * pdx a \<le> vpn a" unfolding pv by simp
        ultimately have "vpn vb div 1024 = pdx a" using that by (intro div_nat_eqI) simp_all
        then show ?thesis using no by (simp add: pte_of_def present_def pv [symmetric])
      qed
      moreover have "vpn a \<le> vpn b" using ab by (simp add: vpn_def div_le_mono)
      ultimately have u: "vpn b \<le> vpn vb \<longleftrightarrow> vpn a \<le> vpn vb" if "present (pte_of (mem s) d vb)" for vb
        using that by (metis order_trans)
      have "(vpn b \<le> vpn vb \<and> 4096 * vpn vb < unat oldsz \<and> present (pte_of (mem s) d vb)) =
          (vpn a \<le> vpn vb \<and> 4096 * vpn vb < unat oldsz \<and> present (pte_of (mem s) d vb))" for vb
        using u [of vb] by blast
      then have "unmapped (pte_of (mem s) d) a oldsz (pte_of (mem s') d)" using IH(3) unfolding unmapped_def by presburger
      then show ?thesis using st IH(1,2) by (intro exI [of _ s'] exI [of _ ps]) simp
    next
      case yes: True
      define pte where "pte = ptab (mem s) d (pdx a) + 4 * of_nat (ptx a)"
      note W = pte_write(5,6) [OF v yes, folded pte_def]
      show ?thesis
      proof (cases "present (pte_of (mem s) d a)")
        case np: False
        have st: "deallocuvm_loop d a oldsz s = deallocuvm_loop d (a + PGSIZE) oldsz s"
          using deallocuvm_loop.simps [of d a oldsz s] True yes W np by (simp add: Let_def pte_def [symmetric] present_def)
        from less.hyps [OF dec less.prems(1) al] obtain s' ps where
          IH: "deallocuvm_loop d (a + PGSIZE) oldsz s = Some (Ok s')" "freed d s xs ps s'"
            "unmapped (pte_of (mem s) d) (a + PGSIZE) oldsz (pte_of (mem s') d)" by blast
        have "unmapped (pte_of (mem s) d) a oldsz (pte_of (mem s') d)"
        proof (rule unmapped_step [OF n(2) va _ _ IH(3)])
          show "pte_of (mem s) d vb = (if present (pte_of (mem s) d vb) then 0 else pte_of (mem s) d vb)" if "vpn vb = vpn a" for vb
            using np pte_of_vpn [OF that, of "mem s" d] by simp
        qed simp
        then show ?thesis using st IH(1,2) by (intro exI [of _ s'] exI [of _ ps]) simp
      next
        case pr: True
        then have ua: "user_va (mem s) d a" using ak by (simp add: user_va_def)
        define p where "p = upage (mem s) d a"
        from uvm_drop [OF less.prems(1) ua, folded p_def pte_def] obtain s1 s2 where
          S: "kfree p s = Ok s1" "s2 = s1\<lparr>mem := store32 pte 0 (mem s1)\<rparr>" "uvm_ok s2 d (p # xs)" "mem_only s s2"
            "\<And>vb. pte_of (mem s2) d vb = (if vpn vb = vpn a then 0 else pte_of (mem s) d vb)"
            "pool s2 d (p # xs) = pool s d xs"
            "\<And>a. \<not> in_tables (mem s) d a \<Longrightarrow> \<not> in_page p a \<Longrightarrow> mem s2 a = mem s a" "tables (mem s2) d = tables (mem s) d" by blast
        have "kend s \<le> p" using uvm_okD(2) [OF less.prems(1) ua] by (simp add: p_def page_ok_def)
        then have "p \<noteq> KERNBASE" using uvm_okD(4) [OF less.prems(1)] by auto
        then have "PTE_ADDR (pte_of (mem s) d a) \<noteq> 0" by (auto simp: p_def upage_def P2V_def)
        then have st: "deallocuvm_loop d a oldsz s = deallocuvm_loop d (a + PGSIZE) oldsz s2"
          using deallocuvm_loop.simps [of d a oldsz s] True yes W pr S(1,2)
          by (simp add: Let_def pte_def [symmetric] present_def p_def upage_def)
        from less.hyps [OF dec S(3) al] obtain s' ps where
          IH: "deallocuvm_loop d (a + PGSIZE) oldsz s2 = Some (Ok s')" "freed d s2 (p # xs) ps s'"
            "unmapped (pte_of (mem s2) d) (a + PGSIZE) oldsz (pte_of (mem s') d)" by blast
        have "freed d s xs [p] s2"
          unfolding freed_def using S(3,4,6,8) S(7) ua by (auto simp: outside_def upages_def p_def)
        from freed_trans [OF this] IH(2) have "freed d s xs (ps @ [p]) s'" by simp
        moreover have "unmapped (pte_of (mem s) d) a oldsz (pte_of (mem s') d)"
        proof (rule unmapped_step [OF n(2) va _ _ IH(3)])
          show "pte_of (mem s2) d vb = (if present (pte_of (mem s) d vb) then 0 else pte_of (mem s) d vb)" if "vpn vb = vpn a" for vb
            using pr pte_of_vpn [OF that, of "mem s" d] that by (simp add: S(5))
        qed (simp add: S(5))
        ultimately show ?thesis using st IH(1) by (intro exI [of _ s'] exI [of _ "ps @ [p]"]) simp
      qed
    qed
  qed
qed

lemma deallocuvm_spec:
  fixes s :: "'a mst_scheme"
  assumes u: "uvm_ok s d xs" and le: "newsz \<le> oldsz" and o: "oldsz \<le> KERNBASE"
  obtains s' ps where "deallocuvm d oldsz newsz s = Ok (newsz, s')" "freed d s xs ps s'"
    "unmapped (pte_of (mem s) d) (PGROUNDUP newsz) oldsz (pte_of (mem s') d)"
    "\<And>p. p \<in> set ps \<Longrightarrow> \<exists>vb. user_va (mem s) d vb \<and> p = upage (mem s) d vb \<and> vpn (PGROUNDUP newsz) \<le> vpn vb \<and> 4096 * vpn vb < unat oldsz"
proof -
  from deallocuvm_loop_spec [OF u PGROUNDUP_aligned o] obtain s' ps where
    S: "deallocuvm_loop d (PGROUNDUP newsz) oldsz s = Some (Ok s')" "freed d s xs ps s'"
      "unmapped (pte_of (mem s) d) (PGROUNDUP newsz) oldsz (pte_of (mem s') d)" by blast
  have u': "uvm_ok s' d (ps @ xs)" using S(2) by (simp add: freed_def)
  show thesis
  proof (rule that [of s' ps])
    show "deallocuvm d oldsz newsz s = Ok (newsz, s')"
    proof (cases "oldsz \<le> newsz")
      case True
      then have "oldsz = newsz" using le by simp
      moreover have "\<not> PGROUNDUP newsz < newsz"
      proof -
        have "unat newsz \<le> 2 ^ 31" using True le o by (simp add: KERNBASE_def word_le_nat_alt)
        then show ?thesis by (simp add: word_less_nat_alt unat_PGROUNDUP)
      qed
      ultimately have "s' = s" using S(1) deallocuvm_loop.simps [of d "PGROUNDUP newsz" oldsz s] by simp
      then show ?thesis using \<open>oldsz = newsz\<close> by (simp add: deallocuvm_def)
    qed (use S(1) in \<open>simp add: deallocuvm_def\<close>)
    fix p assume p: "p \<in> set ps"
    then obtain vb where vb: "user_va (mem s) d vb" "p = upage (mem s) d vb" using S(2) by (auto simp: freed_def upages_def)
    have "vpn (PGROUNDUP newsz) \<le> vpn vb \<and> 4096 * vpn vb < unat oldsz"
    proof (rule ccontr)
      assume n: "\<not> ?thesis"
      then have "pte_of (mem s') d vb = pte_of (mem s) d vb" using S(3) unfolding unmapped_def by auto
      then have "user_va (mem s') d vb" "upage (mem s') d vb = p" using vb by (simp_all add: user_va_def upage_def)
      then show False using uvm_okD(2) [OF u', of vb] p by simp
    qed
    then show "\<exists>vb. user_va (mem s) d vb \<and> p = upage (mem s) d vb \<and> vpn (PGROUNDUP newsz) \<le> vpn vb \<and> 4096 * vpn vb < unat oldsz"
      using vb by blast
  qed (rule S)+
qed

lemma uvm_table_step:
  assumes u: "uvm_ok s d (ys @ zs)" and t: "table_step d s ys s'" and v: "vm_ok s' d zs" and p: "pte_of (mem s') d = pte_of (mem s) d"
  shows "uvm_ok s' d zs" "pool s' d zs = pool s d (ys @ zs)"
proof -
  have up: "upage (mem s') d = upage (mem s) d" "user_va (mem s') d = user_va (mem s) d"
    by (simp_all add: upage_def user_va_def fun_eq_iff p)
  have mo: "mem_only s s'" and tb: "tables (mem s') d = set ys \<union> tables (mem s) d" using t by (auto simp: table_step_def)
  show "uvm_ok s' d zs"
    unfolding uvm_ok_def up mem_only_page_ok [OF mo] tb
  proof (intro conjI allI impI)
    show "vm_ok s' d zs" "KERNBASE < kend s" by (rule v, rule uvm_okD(4) [OF u])
  next
    fix va assume "user_va (mem s) d va"
    then show "page_ok s (upage (mem s) d va)" "upage (mem s) d va \<notin> set zs \<union> insert d (set ys \<union> tables (mem s) d)"
      using uvm_okD(2) [OF u, of va] by auto
  next
    fix va vb assume "user_va (mem s) d va \<and> user_va (mem s) d vb \<and> upage (mem s) d va = upage (mem s) d vb"
    then show "vpn va = vpn vb" using uvm_okD(3) [OF u] by blast
  qed
  show "pool s' d zs = pool s d (ys @ zs)" by (auto simp: pool_def tb upages_def up)
qed

lemma user_pte:
  assumes "y mod PGSIZE = 0"
  shows "present (V2P y OR (PTE_W OR PTE_U) OR PTE_P)" "P2V (PTE_ADDR (V2P y OR (PTE_W OR PTE_U) OR PTE_P)) = y"
    "PTE_FLAGS (V2P y OR (PTE_W OR PTE_U) OR PTE_P) = PTE_P OR PTE_W OR PTE_U"
proof -
  have e: "V2P y OR (PTE_W OR PTE_U) OR PTE_P = V2P y OR PTE_P OR PTE_W OR PTE_U" by (simp add: ac_simps)
  show "present (V2P y OR (PTE_W OR PTE_U) OR PTE_P)" "P2V (PTE_ADDR (V2P y OR (PTE_W OR PTE_U) OR PTE_P)) = y"
    unfolding e by (rule new_pde [OF assms])+
  have "PGROUNDDOWN (V2P y) = V2P y"
    using V2P_aligned [OF assms] unfolding aligned_unat by (auto simp: word_unat_eq_iff unat_PGROUNDDOWN)
  then have "V2P y AND NOT 0xFFF = V2P y" by (simp add: PGROUNDDOWN_def PGSIZE_def)
  then have "V2P y AND 0xFFF = 0" by (metis and.assoc and_zero_eq bit.conj_cancel_left)
  then show "PTE_FLAGS (V2P y OR (PTE_W OR PTE_U) OR PTE_P) = PTE_P OR PTE_W OR PTE_U"
    by (simp add: PTE_FLAGS_def bit.conj_disj_distrib2 PTE_P_def PTE_W_def PTE_U_def)
qed

text \<open>Mapping a page the caller holds at a user address that has none.\<close>

lemma uvm_map:
  fixes s :: "'a mst_scheme"
  assumes u: "uvm_ok s d xs" and y: "page_ok s y" "y \<notin> pool s d xs" and a: "a mod PGSIZE = 0" "a < KERNBASE"
    and np: "\<not> present (pte_of (mem s) d a)"
  obtains (Mapped) s' ys zs where "mappages d a PGSIZE (V2P y) (PTE_W OR PTE_U) s = Ok (0, s')" "uvm_ok s' d zs" "xs = ys @ zs" "table_step d s ys s'"
      "\<And>vb. pte_of (mem s') d vb = (if vpn vb = vpn a then V2P y OR (PTE_W OR PTE_U) OR PTE_P else pte_of (mem s) d vb)"
      "pool s' d zs = insert y (pool s d xs)"
  | (Full) s' where "mappages d a PGSIZE (V2P y) (PTE_W OR PTE_U) s = Ok (- 1, s')" "uvm_ok s' d []" "table_step d s xs s'"
      "pte_of (mem s') d = pte_of (mem s) d" "pool s' d [] = pool s d xs"
proof -
  note v = uvm_okD(1) [OF u]
  have al: "unat a = 4096 * vpn a" using a(1) by (auto simp: aligned_unat vpn_def)
  have "unat (a + PGSIZE - 1) = unat a + 4095"
  proof -
    have "a + PGSIZE - 1 = a + 4095" by (simp add: PGSIZE_def)
    moreover have "unat (a + 4095) = unat a + 4095"
      using a(2) by (subst unat_add_no_wrap) (simp_all add: KERNBASE_def word_less_nat_alt)
    ultimately show ?thesis by (simp only:)
  qed
  then have hi: "vpn (a + PGSIZE - 1) = vpn a" "a \<le> a + PGSIZE - 1" by (simp_all add: vpn_def [of "a + PGSIZE - 1"] al word_le_nat_alt)
  have free: "\<not> present (pte_of (mem s) d vb)" if "vpn a \<le> vpn vb" "vpn vb \<le> vpn (a + PGSIZE - 1)" for vb
    using np pte_of_vpn [of vb a "mem s" d] that hi(1) by simp
  have ya: "y mod PGSIZE = 0" using y(1) by (simp add: page_ok_def)
  note e = user_pte [OF ya]
  show thesis
  proof (rule mappages_spec [OF v hi(2) free, of "V2P y" "PTE_W OR PTE_U"])
    fix s' k
    assume S: "mappages d a PGSIZE (V2P y) (PTE_W OR PTE_U) s = Ok (- 1, s')" "vm_ok s' d []" "table_step d s xs s'" "k \<le> vpn (a + PGSIZE - 1) - vpn a"
      "\<And>vb. pte_of (mem s') d vb = (if vpn a \<le> vpn vb \<and> vpn vb < vpn a + k
          then (V2P y + of_nat (vpn vb - vpn a) * PGSIZE) OR (PTE_W OR PTE_U) OR PTE_P else pte_of (mem s) d vb)"
    have "k = 0" using S(4) hi(1) by simp
    then have "pte_of (mem s') d = pte_of (mem s) d" by (intro ext) (auto simp: S(5))
    moreover have "uvm_ok s' d []" "pool s' d [] = pool s d xs"
      using uvm_table_step [of s d xs "[]" s'] u S(2,3) calculation by simp_all
    ultimately show thesis using Full S(1,3) by blast
  next
    fix s' ys zs
    assume S: "mappages d a PGSIZE (V2P y) (PTE_W OR PTE_U) s = Ok (0, s')" "vm_ok s' d zs" "xs = ys @ zs" "table_step d s ys s'"
      "\<And>vb. pte_of (mem s') d vb = (if vpn a \<le> vpn vb \<and> vpn vb \<le> vpn (a + PGSIZE - 1)
          then (V2P y + of_nat (vpn vb - vpn a) * PGSIZE) OR (PTE_W OR PTE_U) OR PTE_P else pte_of (mem s) d vb)"
    have pt: "pte_of (mem s') d vb = (if vpn vb = vpn a then V2P y OR (PTE_W OR PTE_U) OR PTE_P else pte_of (mem s) d vb)" for vb
      by (auto simp: S(5) hi(1))
    have mo: "mem_only s s'" and tb: "tables (mem s') d = set ys \<union> tables (mem s) d" using S(4) by (auto simp: table_step_def)
    have uv: "user_va (mem s') d vb \<longleftrightarrow> vpn vb = vpn a \<and> vb < KERNBASE \<or> vpn vb \<noteq> vpn a \<and> user_va (mem s) d vb" for vb
      using e(1) by (auto simp: user_va_def pt)
    have up: "upage (mem s') d vb = (if vpn vb = vpn a then y else upage (mem s) d vb)" for vb
      using e(2) by (simp add: upage_def pt)
    have ny: "upage (mem s) d vb \<noteq> y" if "user_va (mem s) d vb" for vb
      using y(2) that unfolding pool_def upages_def by blast
    have "uvm_ok s' d zs"
      unfolding uvm_ok_def mem_only_page_ok [OF mo] tb
    proof (intro conjI allI impI)
      show "vm_ok s' d zs" "KERNBASE < kend s" by (rule S(2), rule uvm_okD(4) [OF u])
    next
      fix va assume w: "user_va (mem s') d va"
      have "page_ok s (upage (mem s') d va) \<and> upage (mem s') d va \<notin> set zs \<union> insert d (set ys \<union> tables (mem s) d)"
      proof (cases "vpn va = vpn a")
        case True
        then have "upage (mem s') d va = y" by (simp add: up)
        then show ?thesis using y S(3) by (auto simp: pool_def)
      next
        case False
        then show ?thesis using uvm_okD(2) [OF u, of va] w uv [of va] S(3) by (simp add: up)
      qed
      then show "page_ok s (upage (mem s') d va)" "upage (mem s') d va \<notin> set zs \<union> insert d (set ys \<union> tables (mem s) d)" by blast+
    next
      fix va vb assume "user_va (mem s') d va \<and> user_va (mem s') d vb \<and> upage (mem s') d va = upage (mem s') d vb"
      then show "vpn va = vpn vb"
        using uv [of va] uv [of vb] up [of va] up [of vb] ny [of va] ny [of vb] uvm_okD(3) [OF u, of va vb] by metis
    qed
    moreover have "upages (mem s') d = insert y (upages (mem s) d)"
    proof (rule set_eqI)
      fix q
      have "q \<in> upages (mem s') d \<longleftrightarrow> (\<exists>vb. user_va (mem s') d vb \<and> q = upage (mem s') d vb)" by (auto simp: upages_def)
      also have "\<dots> \<longleftrightarrow> q = y \<or> (\<exists>vb. user_va (mem s) d vb \<and> q = upage (mem s) d vb)"
      proof
        assume "\<exists>vb. user_va (mem s') d vb \<and> q = upage (mem s') d vb"
        then show "q = y \<or> (\<exists>vb. user_va (mem s) d vb \<and> q = upage (mem s) d vb)" using uv up by metis
      next
        assume "q = y \<or> (\<exists>vb. user_va (mem s) d vb \<and> q = upage (mem s) d vb)"
        moreover have "user_va (mem s') d a" "upage (mem s') d a = y" using uv [of a] up [of a] a(2) by auto
        moreover have "vpn vb \<noteq> vpn a" if "user_va (mem s) d vb" for vb
          using that np pte_of_vpn [of vb a "mem s" d] by (auto simp: user_va_def)
        ultimately show "\<exists>vb. user_va (mem s') d vb \<and> q = upage (mem s') d vb" using uv up by metis
      qed
      also have "\<dots> \<longleftrightarrow> q \<in> insert y (upages (mem s) d)" by (auto simp: upages_def)
      finally show "q \<in> upages (mem s') d \<longleftrightarrow> q \<in> insert y (upages (mem s) d)" .
    qed
    then have "pool s' d zs = insert y (pool s d xs)" using S(3) by (auto simp: pool_def tb)
    ultimately show thesis using Mapped [OF S(1) _ S(3,4) pt] by blast
  qed
qed

text \<open>A page of user memory that is there for reading and writing, and zero.\<close>

definition fresh_page :: "'a mst_scheme \<Rightarrow> u32 \<Rightarrow> u32 \<Rightarrow> bool" where
  "fresh_page s d va \<longleftrightarrow> PTE_FLAGS (pte_of (mem s) d va) = PTE_P OR PTE_W OR PTE_U \<and> present (pte_of (mem s) d va) \<and>
     (\<forall>a. in_page (upage (mem s) d va) a \<longrightarrow> mem s a = 0)"

definition in_growth :: "u32 \<Rightarrow> u32 \<Rightarrow> u32 \<Rightarrow> bool" where
  "in_growth oldsz newsz vb \<longleftrightarrow> vpn (PGROUNDUP oldsz) \<le> vpn vb \<and> 4096 * vpn vb < unat newsz"

text \<open>What growing does when it succeeds, and when it runs out of memory. \<open>F\<close> are the pages it may write.\<close>

definition grown :: "u32 \<Rightarrow> 'a mst_scheme \<Rightarrow> u32 list \<Rightarrow> u32 list \<Rightarrow> 'a mst_scheme \<Rightarrow> bool" where
  "grown d s xs as s' \<longleftrightarrow> (\<forall>a\<in>set as. fresh_page s' d a) \<and> (\<forall>vb. vpn vb \<notin> vpn ` set as \<longrightarrow> pte_of (mem s') d vb = pte_of (mem s) d vb) \<and>
     (\<forall>a. outside (set xs \<union> insert d (tables (mem s) d)) a \<longrightarrow> mem s' a = mem s a)"

definition not_grown :: "u32 \<Rightarrow> 'a mst_scheme \<Rightarrow> u32 set \<Rightarrow> u32 \<Rightarrow> u32 \<Rightarrow> 'a mst_scheme \<Rightarrow> bool" where
  "not_grown d s F oldsz newsz s' \<longleftrightarrow>
     (\<forall>vb. if in_growth oldsz newsz vb then \<not> present (pte_of (mem s') d vb) else pte_of (mem s') d vb = pte_of (mem s) d vb) \<and>
     (\<forall>a. outside F a \<longrightarrow> mem s' a = mem s a)"

lemma outside_mono: "outside F a \<Longrightarrow> G \<subseteq> F \<Longrightarrow> outside G a"
  by (auto simp: outside_def)

lemma outside_tables: "outside F a \<Longrightarrow> insert d (tables m d) \<subseteq> F \<Longrightarrow> \<not> in_tables m d a"
  by (auto simp: outside_def in_tables_def)

lemma shrink_back:
  fixes s :: "'a mst_scheme"
  assumes u: "uvm_ok s d xs" and sz: "oldsz \<le> newsz" "newsz < KERNBASE"
    and F: "insert d (tables (mem s) d) \<subseteq> F" "\<And>vb. user_va (mem s) d vb \<Longrightarrow> in_growth oldsz newsz vb \<Longrightarrow> upage (mem s) d vb \<in> F"
  obtains s' ps where "deallocuvm d newsz oldsz s = Ok (oldsz, s')" "uvm_ok s' d (ps @ xs)" "mem_only s s'" "pool s' d (ps @ xs) = pool s d xs"
    "not_grown d s F oldsz newsz s'"
proof -
  have "newsz \<le> KERNBASE" using sz(2) by simp
  from deallocuvm_spec [OF u sz(1) this] obtain s' ps where
    S: "deallocuvm d newsz oldsz s = Ok (oldsz, s')" "freed d s xs ps s'"
      "unmapped (pte_of (mem s) d) (PGROUNDUP oldsz) newsz (pte_of (mem s') d)"
      "\<And>p. p \<in> set ps \<Longrightarrow> \<exists>vb. user_va (mem s) d vb \<and> p = upage (mem s) d vb \<and> vpn (PGROUNDUP oldsz) \<le> vpn vb \<and> 4096 * vpn vb < unat newsz"
    by blast
  have "set ps \<subseteq> F" using S(4) F(2) by (auto simp: in_growth_def)
  then have "mem s' a = mem s a" if "outside F a" for a
    using S(2) outside_tables [OF that F(1)] outside_mono [OF that, of "set ps"] by (simp add: freed_def)
  moreover have "if in_growth oldsz newsz vb then \<not> present (pte_of (mem s') d vb) else pte_of (mem s') d vb = pte_of (mem s) d vb" for vb
    using S(3) unfolding unmapped_def in_growth_def by (auto simp: present_def)
  ultimately have "not_grown d s F oldsz newsz s'" by (simp add: not_grown_def)
  moreover have "uvm_ok s' d (ps @ xs)" "mem_only s s'" "pool s' d (ps @ xs) = pool s d xs" using S(2) by (simp_all add: freed_def)
  ultimately show thesis using that S(1) by blast
qed

text \<open>Giving back a page the caller holds.\<close>

lemma uvm_give:
  assumes u: "uvm_ok s d xs" and y: "page_ok s y" "y \<notin> pool s d xs"
  obtains s' where "kfree y s = Ok s'" "uvm_ok s' d (y # xs)" "mem_only s s'" "pte_of (mem s') d = pte_of (mem s) d"
    "pool s' d (y # xs) = insert y (pool s d xs)" "\<forall>a. \<not> in_page y a \<longrightarrow> mem s' a = mem s a"
proof -
  note v = uvm_okD(1) [OF u]
  note D = vm_okD [OF v]
  have n: "y \<notin> set xs" "y \<noteq> d" "y \<notin> tables (mem s) d" "y \<notin> upages (mem s) d" "y mod PGSIZE = 0"
    using y by (auto simp: pool_def page_ok_def)
  obtain s1 where s1: "kfree y s = Ok s1" "kinv s1 (y # xs)" "\<forall>a. \<not> in_page y a \<longrightarrow> mem s1 a = mem s a"
    using kfree_kinv [OF D(1) y(1) n(1)] by blast
  have mo: "mem_only s s1" using s1(1) by (auto simp: kfree_def Let_def mem_only_def split: if_splits)
  have m: "\<forall>a. in_tables (mem s) d a \<longrightarrow> mem s1 a = mem s a"
  proof (intro allI impI)
    fix a assume "in_tables (mem s) d a"
    then have "\<not> in_page y a"
      using pages_apart [OF n(5) D(4) n(2)] pages_apart [OF n(5)] tables_aligned [OF v] n(3) unfolding in_tables_def by blast
    then show "mem s1 a = mem s a" using s1(3) by blast
  qed
  have "x \<notin> upages (mem s) d" if "x \<in> set xs" for x using uvm_okD(2) [OF u] that unfolding upages_def by blast
  then have "set (y # xs) \<inter> insert d (tables (mem s) d \<union> upages (mem s) d) = {}"
    using n D(3) tables_aligned [OF v] by auto
  note C = uvm_ok_cong [OF u m mo s1(2) this]
  have "pool s1 d (y # xs) = insert y (pool s d xs)" unfolding pool_def C(3,5) by auto
  then show thesis using that [OF s1(1) C(1) mo C(2)] s1(3) by blast
qed

text \<open>Memory after a page was taken off the free list, cleared, and entered.\<close>

lemma one_page_frame:
  assumes "table_step d s2 ys s3" "\<forall>a. \<not> in_page y a \<longrightarrow> mem s2 a = mem s a" "tables (mem s2) d = tables (mem s) d"
    and "outside (insert y (set ys \<union> insert d (tables (mem s) d))) a"
  shows "mem s3 a = mem s a"
proof -
  have "\<not> in_tables (mem s3) d a" "\<not> in_page y a" using assms(1,3,4) by (auto simp: table_step_def outside_def in_tables_def)
  then show ?thesis using assms(1,2) by (simp add: table_step_def)
qed

lemma upage_outside:
  assumes u: "uvm_ok s d xs" and va: "user_va (mem s) d va" and b: "in_page (upage (mem s) d va) b"
  shows "outside (set xs \<union> insert d (tables (mem s) d)) b"
  unfolding outside_def
proof
  note v = uvm_okD(1) [OF u] and U = uvm_okD(2) [OF u va]
  fix p assume p: "p \<in> set xs \<union> insert d (tables (mem s) d)"
  have "p \<noteq> upage (mem s) d va" using p U by auto
  moreover have "p mod PGSIZE = 0" using p vm_okD(4) [OF v] vm_okD(7) [OF v, of p] tables_aligned [OF v, of p] by (elim UnE insertE) simp_all
  moreover have "upage (mem s) d va mod PGSIZE = 0" using U by simp
  ultimately show "\<not> in_page p b" using pages_apart [of p "upage (mem s) d va" b] b by simp
qed

lemma grown_step:
  assumes u: "uvm_ok s3 d zs" and t: "table_step d s2 ys s3" and z: "\<forall>a. in_page y a \<longrightarrow> mem s2 a = 0" and y: "y mod PGSIZE = 0"
    and a: "a < KERNBASE" "vpn a \<notin> vpn ` set as"
    and pt: "\<And>vb. pte_of (mem s3) d vb = (if vpn vb = vpn a then V2P y OR (PTE_W OR PTE_U) OR PTE_P else pte_of (mem s) d vb)"
    and fr: "\<And>b. outside (set xs \<union> insert d (tables (mem s) d)) b \<Longrightarrow> mem s3 b = mem s b"
    and sub: "set zs \<union> insert d (tables (mem s3) d) \<subseteq> set xs \<union> insert d (tables (mem s) d)"
    and g: "grown d s3 zs as s'"
  shows "grown d s xs (a # as) s'"
proof -
  note e = user_pte [OF y]
  have p: "pte_of (mem s') d a = V2P y OR (PTE_W OR PTE_U) OR PTE_P" using g a(2) pt [of a] by (simp add: grown_def)
  have up: "upage (mem s') d a = y" "upage (mem s3) d a = y" using p pt [of a] e(2) by (simp_all add: upage_def)
  have ua: "user_va (mem s3) d a" using a(1) pt [of a] e(1) by (simp add: user_va_def)
  have "mem s' b = 0" if "in_page y b" for b
  proof -
    have o: "outside (set zs \<union> insert d (tables (mem s3) d)) b" by (rule upage_outside [OF u ua]) (simp add: up that)
    then have "\<not> in_tables (mem s3) d b" by (rule outside_tables) auto
    then have "mem s3 b = 0" using t z that by (simp add: table_step_def)
    then show ?thesis using g o by (simp add: grown_def)
  qed
  then have "fresh_page s' d a" using e p up by (simp add: fresh_page_def)
  moreover have "pte_of (mem s') d vb = pte_of (mem s) d vb" if "vpn vb \<notin> vpn ` set (a # as)" for vb
    using g pt [of vb] that by (simp add: grown_def)
  moreover have "mem s' b = mem s b" if "outside (set xs \<union> insert d (tables (mem s) d)) b" for b
    using g fr [OF that] outside_mono [OF that sub] by (simp add: grown_def)
  ultimately show ?thesis using g by (simp add: grown_def)
qed

lemma allocuvm_loop_spec:
  fixes s :: "'a mst_scheme"
  assumes "uvm_ok s d xs" and sz: "oldsz \<le> newsz" "newsz < KERNBASE"
    and "\<forall>a\<in>set as. a mod PGSIZE = 0 \<and> a < newsz \<and> in_growth oldsz newsz a \<and> \<not> present (pte_of (mem s) d a)" "distinct (map vpn as)"
    and "set xs \<union> insert d (tables (mem s) d) \<subseteq> F" "\<And>vb. user_va (mem s) d vb \<Longrightarrow> in_growth oldsz newsz vb \<Longrightarrow> upage (mem s) d vb \<in> F"
  shows "\<exists>r s' zs. allocuvm_loop d oldsz newsz as s = Ok (r, s') \<and> uvm_ok s' d zs \<and> mem_only s s' \<and> pool s' d zs = pool s d xs \<and>
    (r = newsz \<and> grown d s xs as s' \<or> r = 0 \<and> not_grown d s F oldsz newsz s')"
  using assms(1,4-)
proof (induction as arbitrary: s xs)
  case Nil
  show ?case
    by (intro exI [of _ newsz] exI [of _ s] exI [of _ xs]) (use Nil in \<open>simp add: grown_def\<close>)
next
  case (Cons a as)
  note P = Cons.prems and IH = Cons.IH
  have a: "a mod PGSIZE = 0" "a < newsz" "in_growth oldsz newsz a" "\<not> present (pte_of (mem s) d a)" using P(2) by simp_all
  have ak: "a < KERNBASE" using a(2) sz(2) by simp
  have na: "vpn a \<notin> vpn ` set as" "distinct (map vpn as)" using P(3) by simp_all
  have dF: "insert d (tables (mem s) d) \<subseteq> F" using P(4) by auto
  show ?case
  proof (cases xs)
    case Nil
    from kmem.alloc_none [of s] vm_okD(1) [OF uvm_okD(1) [OF P(1)]] have k: "kalloc s = (0, s)" by (simp add: Nil)
    from shrink_back [OF P(1) sz dF P(5)] obtain s' ps where
      "deallocuvm d newsz oldsz s = Ok (oldsz, s')" "uvm_ok s' d (ps @ xs)" "mem_only s s'" "pool s' d (ps @ xs) = pool s d xs" "not_grown d s F oldsz newsz s'"
      by blast
    then show ?thesis using k by (intro exI [of _ 0] exI [of _ s'] exI [of _ "ps @ xs"]) simp
  next
    case C: (Cons y ys)
    from uvm_take [OF P(1) [unfolded C]] obtain s1 s2 where
      S: "kalloc s = (y, s1)" "s2 = s1\<lparr>mem := memset y 0 PGSIZE (mem s1)\<rparr>" "uvm_ok s2 d ys" "mem_only s s2" "page_ok s y" "y \<noteq> 0"
        "pte_of (mem s2) d = pte_of (mem s) d" "y \<notin> pool s2 d ys" "pool s d (y # ys) = insert y (pool s2 d ys)"
        "\<forall>a. in_page y a \<longrightarrow> mem s2 a = 0" "\<forall>a. \<not> in_page y a \<longrightarrow> mem s2 a = mem s a" "tables (mem s2) d = tables (mem s) d" by blast
    have pg2: "page_ok s2 y" using S(5) mem_only_page_ok(1) [OF S(4)] by simp
    have yal: "y mod PGSIZE = 0" using S(5) by (simp add: page_ok_def)
    have np2: "\<not> present (pte_of (mem s2) d a)" using a(4) S(7) by simp
    have yF: "y \<in> F" "set ys \<subseteq> F" using P(4) C by auto
    show ?thesis
    proof (rule uvm_map [OF S(3) pg2 S(8) a(1) ak np2])
      fix s3
      assume M: "mappages d a PGSIZE (V2P y) (PTE_W OR PTE_U) s2 = Ok (- 1, s3)" "uvm_ok s3 d []" "table_step d s2 ys s3"
        "pte_of (mem s3) d = pte_of (mem s2) d" "pool s3 d [] = pool s2 d ys"
      have pt: "pte_of (mem s3) d = pte_of (mem s) d" using M(4) S(7) by simp
      have tb: "tables (mem s3) d = set ys \<union> tables (mem s) d" using M(3) S(12) by (simp add: table_step_def)
      have mo3: "mem_only s s3" using S(4) M(3) unfolding table_step_def by (blast intro: mem_only_trans)
      have dF3: "insert d (tables (mem s3) d) \<subseteq> F" using dF yF by (simp add: tb)
      have up3: "upage (mem s3) d vb \<in> F" if "user_va (mem s3) d vb" "in_growth oldsz newsz vb" for vb
        using P(5) [of vb] that by (simp add: upage_def user_va_def pt)
      from shrink_back [OF M(2) sz dF3 up3] obtain s4 ps where
        D: "deallocuvm d newsz oldsz s3 = Ok (oldsz, s4)" "uvm_ok s4 d ps" "mem_only s3 s4" "pool s4 d ps = pool s2 d ys" "not_grown d s3 F oldsz newsz s4"
        using M(5) by auto
      have mo4: "mem_only s s4" by (rule mem_only_trans [OF mo3 D(3)])
      have "page_ok s4 y" "y \<notin> pool s4 d ps" using S(5,8) D(4) mem_only_page_ok(1) [OF mo4] by simp_all
      from uvm_give [OF D(2) this] obtain s5 where
        G: "kfree y s4 = Ok s5" "uvm_ok s5 d (y # ps)" "mem_only s4 s5" "pte_of (mem s5) d = pte_of (mem s4) d"
          "pool s5 d (y # ps) = insert y (pool s4 d ps)" "\<forall>a. \<not> in_page y a \<longrightarrow> mem s5 a = mem s4 a" by blast
      have "mem s5 a = mem s a" if "outside F a" for a
      proof -
        have "outside (insert y (set ys \<union> insert d (tables (mem s) d))) a" by (rule outside_mono [OF that]) (use dF yF in auto)
        from one_page_frame [OF M(3) S(11,12) this] have "mem s3 a = mem s a" .
        moreover have "\<not> in_page y a" using that yF(1) by (auto simp: outside_def)
        ultimately show ?thesis using G(6) D(5) that by (simp add: not_grown_def)
      qed
      then have "not_grown d s F oldsz newsz s5" using D(5) by (simp add: not_grown_def G(4) pt)
      moreover have "pool s5 d (y # ps) = pool s d xs" using G(5) D(4) S(9) by (simp add: C)
      moreover have "allocuvm_loop d oldsz newsz (a # as) s = Ok (0, s5)" using S(1,2,6) M(1) D(1) G(1) by simp
      ultimately show ?thesis
        using G(2) mem_only_trans [OF mo4 G(3)] by (intro exI [of _ 0] exI [of _ s5] exI [of _ "y # ps"]) simp
    next
      fix s3 ys' zs
      assume M: "mappages d a PGSIZE (V2P y) (PTE_W OR PTE_U) s2 = Ok (0, s3)" "uvm_ok s3 d zs" "ys = ys' @ zs" "table_step d s2 ys' s3"
        "\<And>vb. pte_of (mem s3) d vb = (if vpn vb = vpn a then V2P y OR (PTE_W OR PTE_U) OR PTE_P else pte_of (mem s2) d vb)"
        "pool s3 d zs = insert y (pool s2 d ys)"
      have pt: "pte_of (mem s3) d vb = (if vpn vb = vpn a then V2P y OR (PTE_W OR PTE_U) OR PTE_P else pte_of (mem s) d vb)" for vb
        using M(5) S(7) by simp
      have tb: "tables (mem s3) d = set ys' \<union> tables (mem s) d" using M(4) S(12) by (simp add: table_step_def)
      have mo3: "mem_only s s3" using S(4) M(4) unfolding table_step_def by (blast intro: mem_only_trans)
      note e = user_pte [OF yal]
      have up3: "upage (mem s3) d vb \<in> F" if "user_va (mem s3) d vb" "in_growth oldsz newsz vb" for vb
        using P(5) [of vb] that yF(1) e(2) by (cases "vpn vb = vpn a") (simp_all add: upage_def user_va_def pt)
      have as3: "\<forall>b\<in>set as. b mod PGSIZE = 0 \<and> b < newsz \<and> in_growth oldsz newsz b \<and> \<not> present (pte_of (mem s3) d b)"
      proof
        fix b assume b: "b \<in> set as"
        then have "vpn b \<noteq> vpn a" using na(1) by (metis imageI)
        then show "b mod PGSIZE = 0 \<and> b < newsz \<and> in_growth oldsz newsz b \<and> \<not> present (pte_of (mem s3) d b)" using P(2) b by (simp add: pt)
      qed
      have F3: "set zs \<union> insert d (tables (mem s3) d) \<subseteq> F" using dF yF(2) M(3) by (auto simp: tb)
      from IH [OF M(2) as3 na(2) F3 up3] obtain r s' ws where
        I: "allocuvm_loop d oldsz newsz as s3 = Ok (r, s')" "uvm_ok s' d ws" "mem_only s3 s'" "pool s' d ws = pool s3 d zs"
          "r = newsz \<and> grown d s3 zs as s' \<or> r = 0 \<and> not_grown d s3 F oldsz newsz s'" by blast
      have fr: "mem s3 b = mem s b" if "outside (set xs \<union> insert d (tables (mem s) d)) b" for b
        by (rule one_page_frame [OF M(4) S(11,12)], rule outside_mono [OF that]) (use M(3) C in auto)
      have "set zs \<union> insert d (tables (mem s3) d) \<subseteq> set xs \<union> insert d (tables (mem s) d)" using M(3) by (auto simp: tb C)
      then have "grown d s xs (a # as) s'" if "grown d s3 zs as s'"
        using grown_step [OF M(2,4) S(10) yal ak na(1) pt fr] that by blast
      moreover have "not_grown d s F oldsz newsz s'" if g: "not_grown d s3 F oldsz newsz s'"
      proof -
        have "mem s' b = mem s b" if "outside F b" for b
          using g that fr [OF outside_mono [OF that P(4)]] by (simp add: not_grown_def)
        moreover have "if in_growth oldsz newsz vb then \<not> present (pte_of (mem s') d vb) else pte_of (mem s') d vb = pte_of (mem s) d vb" for vb
        proof (cases "vpn vb = vpn a")
          case True
          then have "in_growth oldsz newsz vb" using a(3) by (simp add: in_growth_def)
          then show ?thesis using g unfolding not_grown_def by auto
        qed (use g in \<open>auto simp: not_grown_def pt split: if_splits\<close>)
        ultimately show ?thesis by (simp add: not_grown_def)
      qed
      moreover have "allocuvm_loop d oldsz newsz (a # as) s = Ok (r, s')" using S(1,2,6) M(1) I(1) by simp
      moreover have "pool s' d ws = pool s d xs" using I(4) M(6) S(9) by (simp add: C)
      ultimately show ?thesis
        using I(2,5) mem_only_trans [OF mo3 I(3)] by (intro exI [of _ r] exI [of _ s'] exI [of _ ws]) auto
    qed
  qed
qed

lemma page_steps_facts:
  assumes "lo mod PGSIZE = 0" "newsz < KERNBASE"
  shows "map vpn (page_steps lo newsz) = [vpn lo..<(unat newsz + 4095) div 4096]"
    "\<And>a. a \<in> set (page_steps lo newsz) \<Longrightarrow> a mod PGSIZE = 0 \<and> a < newsz \<and> vpn lo \<le> vpn a \<and> 4096 * vpn a < unat newsz"
proof -
  have lo: "unat lo = 4096 * vpn lo" using assms(1) by (auto simp: aligned_unat vpn_def)
  have nz: "unat newsz < 2 ^ 31" using assms(2) by (simp add: KERNBASE_def word_less_nat_alt)
  define n where "n = (unat newsz - unat lo + 4095) div 4096"
  have n: "n = (unat newsz + 4095) div 4096 - vpn lo"
  proof (cases "unat lo \<le> unat newsz")
    case True
    then have "unat newsz + 4095 = (unat newsz - unat lo + 4095) + 4096 * vpn lo" using lo by simp
    then show ?thesis by (simp add: n_def)
  next
    case False
    then have "unat newsz + 4095 < 4096 * (vpn lo + 1)" using lo by simp
    then have "(unat newsz + 4095) div 4096 < vpn lo + 1" by (simp add: less_mult_imp_div_less mult.commute)
    then show ?thesis using False by (simp add: n_def)
  qed
  have k: "unat (lo + of_nat k * PGSIZE) = 4096 * (vpn lo + k)" "4096 * (vpn lo + k) < unat newsz" if "k < n" for k
  proof -
    have "vpn lo + k + 1 \<le> (unat newsz + 4095) div 4096" using that n by simp
    then have "(vpn lo + k + 1) * 4096 \<le> unat newsz + 4095" using div_times_less_eq_dividend [of "unat newsz + 4095" 4096] mult_le_mono1 order_trans by blast
    then show b: "4096 * (vpn lo + k) < unat newsz" by simp
    have "unat (of_nat k * PGSIZE) = 4096 * k"
      using unat_of_nat_small [where 'a = 32, of "4096 * k"] b nz by (simp add: PGSIZE_def mult.commute)
    then show "unat (lo + of_nat k * PGSIZE) = 4096 * (vpn lo + k)" using b nz lo by (subst unat_add_no_wrap) simp_all
  qed
  have st: "page_steps lo newsz = map (\<lambda>k. lo + of_nat k * PGSIZE) [0..<n]" by (simp add: page_steps_def n_def)
  have vk: "vpn (lo + of_nat k * PGSIZE) = vpn lo + k" if "k < n" for k using k(1) [OF that] by (simp add: vpn_def [of "lo + of_nat k * PGSIZE"])
  have "map vpn (page_steps lo newsz) = map (\<lambda>k. vpn lo + k) [0..<n]" unfolding st using vk by simp
  also have "\<dots> = [vpn lo..<(unat newsz + 4095) div 4096]" by (rule nth_equalityI) (simp_all add: n)
  finally show "map vpn (page_steps lo newsz) = [vpn lo..<(unat newsz + 4095) div 4096]" .
  fix a assume "a \<in> set (page_steps lo newsz)"
  then obtain k where "k < n" "a = lo + of_nat k * PGSIZE" by (auto simp: st)
  then show "a mod PGSIZE = 0 \<and> a < newsz \<and> vpn lo \<le> vpn a \<and> 4096 * vpn a < unat newsz"
    using k [of k] vk [of k] by (simp add: aligned_unat word_less_nat_alt)
qed

lemma in_growth_pages:
  assumes "newsz < KERNBASE"
  shows "vpn vb \<in> vpn ` set (page_steps (PGROUNDUP oldsz) newsz) \<longleftrightarrow> in_growth oldsz newsz vb"
proof -
  have "vpn ` set (page_steps (PGROUNDUP oldsz) newsz) = {vpn (PGROUNDUP oldsz)..<(unat newsz + 4095) div 4096}"
    using arg_cong [OF page_steps_facts(1) [OF PGROUNDUP_aligned assms, of oldsz], of set] by simp
  moreover have "k < (unat newsz + 4095) div 4096 \<longleftrightarrow> 4096 * k < unat newsz" for k by linarith
  ultimately show ?thesis by (simp add: in_growth_def)
qed

lemma allocuvm_spec:
  fixes s :: "'a mst_scheme"
  assumes u: "uvm_ok s d xs" and sz: "oldsz \<le> newsz" "newsz < KERNBASE"
    and free: "\<And>vb. in_growth oldsz newsz vb \<Longrightarrow> \<not> present (pte_of (mem s) d vb)"
  obtains r s' zs where "allocuvm d oldsz newsz s = Ok (r, s')" "uvm_ok s' d zs" "mem_only s s'" "pool s' d zs = pool s d xs"
    "r = newsz \<and> grown d s xs (page_steps (PGROUNDUP oldsz) newsz) s' \<or> r = 0 \<and> not_grown d s (set xs \<union> insert d (tables (mem s) d)) oldsz newsz s'"
proof -
  let ?as = "page_steps (PGROUNDUP oldsz) newsz"
  note St = page_steps_facts [OF PGROUNDUP_aligned [of oldsz] sz(2)]
  have "\<forall>a\<in>set ?as. a mod PGSIZE = 0 \<and> a < newsz \<and> in_growth oldsz newsz a \<and> \<not> present (pte_of (mem s) d a)"
    using St(2) free unfolding in_growth_def by blast
  moreover have "distinct (map vpn ?as)" unfolding St(1) by simp
  moreover have "upage (mem s) d vb \<in> set xs \<union> insert d (tables (mem s) d)" if "user_va (mem s) d vb" "in_growth oldsz newsz vb" for vb
    using that free by (simp add: user_va_def)
  ultimately have "\<exists>r s' zs. allocuvm_loop d oldsz newsz ?as s = Ok (r, s') \<and> uvm_ok s' d zs \<and> mem_only s s' \<and> pool s' d zs = pool s d xs \<and>
    (r = newsz \<and> grown d s xs ?as s' \<or> r = 0 \<and> not_grown d s (set xs \<union> insert d (tables (mem s) d)) oldsz newsz s')"
    using allocuvm_loop_spec [OF u sz _ _ order.refl] by blast
  moreover have "allocuvm d oldsz newsz s = allocuvm_loop d oldsz newsz ?as s" using sz by (auto simp: allocuvm_def)
  ultimately show thesis using that by auto
qed

lemma pool_tables: "set xs \<union> insert d (tables (mem s) d) \<subseteq> pool s d xs"
  by (auto simp: pool_def)

lemma fresh_page_vpn: "vpn va = vpn vb \<Longrightarrow> fresh_page s d va = fresh_page s d vb"
  using pte_of_vpn [of va vb "mem s" d] by (simp add: fresh_page_def upage_def)

text \<open>C15: Growing user memory. \<^verbatim>\<open>allocuvm\<close> either makes every address up to \<^verbatim>\<open>newsz\<close> a readable and writable zero
  byte, or runs out of memory and returns 0 with the address space as it was. In both cases no page gets lost or mapped twice, the
  user memory there was keeps its pages and their contents, and no other page of memory changes.\<close>

theorem allocuvm_correct:
  assumes u: "uvm_ok s d xs" and sz: "oldsz \<le> newsz" "newsz < KERNBASE"
    and free: "\<forall>va. in_growth oldsz newsz va \<longrightarrow> \<not> user_va (mem s) d va"
  shows "\<exists>r s' zs. allocuvm d oldsz newsz s = Ok (r, s') \<and> uvm_ok s' d zs \<and> pool s' d zs = pool s d xs \<and>
    (r = newsz \<and> (\<forall>va. in_growth oldsz newsz va \<longrightarrow> fresh_page s' d va) \<or> r = 0 \<and> (\<forall>va. user_va (mem s') d va = user_va (mem s) d va)) \<and>
    (\<forall>va. user_va (mem s) d va \<longrightarrow> user_va (mem s') d va \<and> upage (mem s') d va = upage (mem s) d va \<and>
       (\<forall>a. in_page (upage (mem s) d va) a \<longrightarrow> mem s' a = mem s a)) \<and>
    (\<forall>a. outside (pool s d xs) a \<longrightarrow> mem s' a = mem s a)"
proof -
  have "\<not> present (pte_of (mem s) d vb)" if "in_growth oldsz newsz vb" for vb
  proof -
    have "unat vb < 4096 * vpn vb + 4096" by (simp add: vpn_def dividend_less_times_div)
    moreover have "unat newsz < 2 ^ 31" using sz(2) by (simp add: KERNBASE_def word_less_nat_alt)
    moreover have "4096 * vpn vb < unat newsz" using that by (simp add: in_growth_def)
    ultimately have "4096 * vpn vb < 4096 * 524288" by simp
    then have "vpn vb < 524288" by simp
    then have "vb < KERNBASE" using \<open>unat vb < 4096 * vpn vb + 4096\<close> by (simp add: KERNBASE_def word_less_nat_alt)
    then show ?thesis using free that by (simp add: user_va_def)
  qed
  from allocuvm_spec [OF u sz this] obtain r s' zs where
    S: "allocuvm d oldsz newsz s = Ok (r, s')" "uvm_ok s' d zs" "mem_only s s'" "pool s' d zs = pool s d xs"
      "r = newsz \<and> grown d s xs (page_steps (PGROUNDUP oldsz) newsz) s' \<or> r = 0 \<and> not_grown d s (set xs \<union> insert d (tables (mem s) d)) oldsz newsz s'"
    by blast
  note G = in_growth_pages [OF sz(2), of _ oldsz]
  have fr: "mem s' a = mem s a" if "outside (set xs \<union> insert d (tables (mem s) d)) a" for a
    using S(5) that by (auto simp: grown_def not_grown_def)
  have pt: "pte_of (mem s') d va = pte_of (mem s) d va" if "\<not> in_growth oldsz newsz va" for va
    using S(5) that by (auto simp: grown_def not_grown_def G)
  have kept: "user_va (mem s') d va \<and> upage (mem s') d va = upage (mem s) d va" if "user_va (mem s) d va" for va
  proof -
    have "\<not> in_growth oldsz newsz va" using that free by blast
    from pt [OF this] show ?thesis using that by (simp add: user_va_def upage_def)
  qed
  have "r = newsz \<and> (\<forall>va. in_growth oldsz newsz va \<longrightarrow> fresh_page s' d va) \<or> r = 0 \<and> (\<forall>va. user_va (mem s') d va = user_va (mem s) d va)"
    using S(5)
  proof (elim disjE conjE)
    assume g: "r = newsz" "grown d s xs (page_steps (PGROUNDUP oldsz) newsz) s'"
    have "fresh_page s' d va" if "in_growth oldsz newsz va" for va
    proof -
      from that [folded G] obtain vb where "vb \<in> set (page_steps (PGROUNDUP oldsz) newsz)" "vpn va = vpn vb" by blast
      then show ?thesis using g(2) fresh_page_vpn [of va vb s' d] by (simp add: grown_def)
    qed
    then show ?thesis using g(1) by blast
  next
    assume n: "r = 0" "not_grown d s (set xs \<union> insert d (tables (mem s) d)) oldsz newsz s'"
    have "user_va (mem s') d va = user_va (mem s) d va" for va
    proof (cases "in_growth oldsz newsz va")
      case True
      then have "\<not> present (pte_of (mem s') d va)" using n(2) by (simp add: not_grown_def)
      then show ?thesis using free True by (simp add: user_va_def)
    qed (use pt in \<open>simp add: user_va_def\<close>)
    then show ?thesis using n(1) by simp
  qed
  moreover have "mem s' a = mem s a" if "user_va (mem s) d va" "in_page (upage (mem s) d va) a" for va a
    by (rule fr, rule upage_outside [OF u that])
  moreover have "mem s' a = mem s a" if "outside (pool s d xs) a" for a by (rule fr, rule outside_mono [OF that pool_tables])
  ultimately show ?thesis using S(1,2,4) kept by (intro exI [of _ r] exI [of _ s'] exI [of _ zs]) blast
qed

text \<open>C16: Shrinking user memory. \<^verbatim>\<open>deallocuvm\<close> returns, for every size up to \<^verbatim>\<open>KERNBASE\<close>; it unmaps exactly the pages from
  \<^verbatim>\<open>newsz\<close> up to \<^verbatim>\<open>oldsz\<close> and puts each of them on the free list once; the rest of user memory keeps its pages and
  contents.\<close>

theorem deallocuvm_correct:
  assumes u: "uvm_ok s d xs" and sz: "newsz \<le> oldsz" "oldsz \<le> KERNBASE"
  shows "\<exists>s' ps. deallocuvm d oldsz newsz s = Ok (newsz, s') \<and> uvm_ok s' d (ps @ xs) \<and> pool s' d (ps @ xs) = pool s d xs \<and>
    set ps = upage (mem s) d ` {va. user_va (mem s) d va \<and> in_growth newsz oldsz va} \<and>
    (\<forall>va. user_va (mem s') d va \<longleftrightarrow> user_va (mem s) d va \<and> \<not> in_growth newsz oldsz va) \<and>
    (\<forall>va. user_va (mem s') d va \<longrightarrow> upage (mem s') d va = upage (mem s) d va \<and> (\<forall>a. in_page (upage (mem s) d va) a \<longrightarrow> mem s' a = mem s a))"
proof -
  from deallocuvm_spec [OF u sz] obtain s' ps where
    S: "deallocuvm d oldsz newsz s = Ok (newsz, s')" "freed d s xs ps s'"
      "unmapped (pte_of (mem s) d) (PGROUNDUP newsz) oldsz (pte_of (mem s') d)"
      "\<And>p. p \<in> set ps \<Longrightarrow> \<exists>vb. user_va (mem s) d vb \<and> p = upage (mem s) d vb \<and> vpn (PGROUNDUP newsz) \<le> vpn vb \<and> 4096 * vpn vb < unat oldsz"
    by blast
  have u': "uvm_ok s' d (ps @ xs)" "pool s' d (ps @ xs) = pool s d xs" "tables (mem s') d = tables (mem s) d"
    "\<And>a. \<not> in_tables (mem s) d a \<Longrightarrow> outside (set ps) a \<Longrightarrow> mem s' a = mem s a" using S(2) by (simp_all add: freed_def)
  have pt: "pte_of (mem s') d va = (if in_growth newsz oldsz va \<and> present (pte_of (mem s) d va) then 0 else pte_of (mem s) d va)" for va
    using S(3) unfolding unmapped_def in_growth_def by simp
  have uv: "user_va (mem s') d va \<longleftrightarrow> user_va (mem s) d va \<and> \<not> in_growth newsz oldsz va" for va
    unfolding user_va_def pt by (auto simp: present_def)
  have up: "upage (mem s') d va = upage (mem s) d va" if "user_va (mem s') d va" for va
    using that uv [of va] by (simp add: upage_def pt)
  have ps: "set ps = upage (mem s) d ` {va. user_va (mem s) d va \<and> in_growth newsz oldsz va}"
  proof
    show "set ps \<subseteq> upage (mem s) d ` {va. user_va (mem s) d va \<and> in_growth newsz oldsz va}"
      using S(4) unfolding in_growth_def by blast
    show "upage (mem s) d ` {va. user_va (mem s) d va \<and> in_growth newsz oldsz va} \<subseteq> set ps"
    proof (rule image_subsetI, clarify)
      fix va assume va: "user_va (mem s) d va" "in_growth newsz oldsz va"
      have "upage (mem s) d va \<in> pool s' d (ps @ xs)" unfolding u'(2) using va(1) by (auto simp: pool_def upages_def)
      moreover have "upage (mem s) d va \<notin> upages (mem s') d"
      proof
        assume "upage (mem s) d va \<in> upages (mem s') d"
        then obtain vb where vb: "user_va (mem s') d vb" "upage (mem s) d va = upage (mem s') d vb" by (auto simp: upages_def)
        then have "vpn va = vpn vb" using uvm_okD(3) [OF u va(1), of vb] uv [of vb] up [of vb] by simp
        then have "in_growth newsz oldsz vb" using va(2) by (simp add: in_growth_def)
        then show False using uv vb(1) by blast
      qed
      ultimately show "upage (mem s) d va \<in> set ps" using uvm_okD(2) [OF u va(1)] u'(3) by (simp add: pool_def)
    qed
  qed
  have "mem s' a = mem s a" if va: "user_va (mem s') d va" and a: "in_page (upage (mem s) d va) a" for va a
  proof -
    have o: "outside (set (ps @ xs) \<union> insert d (tables (mem s) d)) a"
      using upage_outside [OF u'(1) va] a up [OF va] u'(3) by simp
    have "\<not> in_tables (mem s) d a" "outside (set ps) a" by (rule outside_tables [OF o], blast, rule outside_mono [OF o], auto)
    then show ?thesis by (rule u'(4))
  qed
  then show ?thesis using S(1) u'(1,2) ps uv up by (intro exI [of _ s'] exI [of _ ps]) blast
qed


section \<open>A small machine\<close>

text \<open>An empty directory at \<open>0x80300000\<close> and three free pages.\<close>

definition demo_d :: u32 where "demo_d = 0x80300000"
definition demo_vm0 :: mst where "demo_vm0 = \<lparr>mem = (\<lambda>_. 0), kend = 0x80200000, use_lock = False, freelist = 0\<rparr>"

definition give :: "u32 \<Rightarrow> mst \<Rightarrow> mst" where "give p s = (case kfree p s of Ok s' \<Rightarrow> s' | Err _ \<Rightarrow> s)"

definition demo_vm :: mst where "demo_vm = give 0x80303000 (give 0x80302000 (give 0x80301000 demo_vm0))"

lemma demo_vm0_ok: "uvm_ok demo_vm0 demo_d []" "pte_of (mem demo_vm0) demo_d = (\<lambda>_. 0)" "pool demo_vm0 demo_d [] = {demo_d}"
proof -
  have p: "\<not> present (pde (mem demo_vm0) demo_d i)" for i
    by (simp add: demo_vm0_def pde_def present_def load32_def of_le32_def)
  then show t: "pte_of (mem demo_vm0) demo_d = (\<lambda>_. 0)" by (simp add: pte_of_def fun_eq_iff)
  then have u: "\<not> user_va (mem demo_vm0) demo_d va" for va by (simp add: user_va_def present_def)
  have "kinv demo_vm0 []" "page_ok demo_vm0 demo_d" "KERNBASE < kend demo_vm0"
    by (simp_all add: kinv_def page_ok_def demo_vm0_def demo_d_def layout_defs)
  then show "uvm_ok demo_vm0 demo_d []" using p u by (simp add: uvm_ok_def vm_ok_def)
  show "pool demo_vm0 demo_d [] = {demo_d}" using p u by (simp add: pool_def tables_def upages_def)
qed

lemma give_ok:
  assumes "uvm_ok s d xs" "page_ok s y" "y \<notin> pool s d xs" "pte_of (mem s) d = (\<lambda>_. 0)"
  shows "uvm_ok (give y s) d (y # xs)" "pool (give y s) d (y # xs) = insert y (pool s d xs)" "pte_of (mem (give y s)) d = (\<lambda>_. 0)"
    "page_ok (give y s) = page_ok s"
proof -
  from uvm_give [OF assms(1-3)] obtain s' where
    G: "kfree y s = Ok s'" "uvm_ok s' d (y # xs)" "mem_only s s'" "pte_of (mem s') d = pte_of (mem s) d" "pool s' d (y # xs) = insert y (pool s d xs)"
    by (rule uvm_give [OF assms(1-3)]) (rule that)
  have g: "give y s = s'" by (simp add: give_def G(1))
  show "uvm_ok (give y s) d (y # xs)" "pool (give y s) d (y # xs) = insert y (pool s d xs)" "page_ok (give y s) = page_ok s"
    unfolding g by (rule G(2), rule G(5), rule mem_only_page_ok(1) [OF G(3)])
  show "pte_of (mem (give y s)) d = (\<lambda>_. 0)" unfolding g using G(4) assms(4) by (rule trans)
qed

lemma demo_vm_ok: "uvm_ok demo_vm demo_d [0x80303000, 0x80302000, 0x80301000]" "pte_of (mem demo_vm) demo_d = (\<lambda>_. 0)"
proof -
  have pg: "page_ok demo_vm0 0x80301000" "page_ok demo_vm0 0x80302000" "page_ok demo_vm0 0x80303000"
    by (simp_all add: page_ok_def demo_vm0_def layout_defs)
  note 0 = demo_vm0_ok
  have n: "0x80301000 \<notin> pool demo_vm0 demo_d []" unfolding 0(3) by (simp add: demo_d_def)
  note 1 = give_ok [OF 0(1) pg(1) n 0(2)]
  have n: "0x80302000 \<notin> pool (give 0x80301000 demo_vm0) demo_d [0x80301000]" unfolding 1(2) 0(3) by (simp add: demo_d_def)
  note 2 = give_ok [OF 1(1) pg(2) [folded 1(4)] n 1(3)]
  have n: "0x80303000 \<notin> pool (give 0x80302000 (give 0x80301000 demo_vm0)) demo_d [0x80302000, 0x80301000]" unfolding 2(2) 1(2) 0(3) by (simp add: demo_d_def)
  have "page_ok (give 0x80302000 (give 0x80301000 demo_vm0)) 0x80303000" using pg(3) by (simp add: 2(4) 1(4))
  note 3 = give_ok [OF 2(1) this n 2(3)]
  show "uvm_ok demo_vm demo_d [0x80303000, 0x80302000, 0x80301000]" "pte_of (mem demo_vm) demo_d = (\<lambda>_. 0)"
    unfolding demo_vm_def by (rule 3(1), rule 3(3))
qed

theorem allocuvm_correct_witness:
  "uvm_ok demo_vm demo_d [0x80303000, 0x80302000, 0x80301000] \<and> (\<exists>r s'. allocuvm demo_d 0 8192 demo_vm = Ok (r, s') \<and> (r = 8192 \<or> r = 0))"
proof -
  have "\<forall>va. in_growth 0 8192 va \<longrightarrow> \<not> user_va (mem demo_vm) demo_d va" by (simp add: user_va_def demo_vm_ok(2) present_def)
  note f = this
  have "(0 :: u32) \<le> 8192" "(8192 :: u32) < KERNBASE" by (simp_all add: KERNBASE_def)
  from allocuvm_correct [OF demo_vm_ok(1) this f] obtain r s' where "allocuvm demo_d 0 8192 demo_vm = Ok (r, s')"
    "r = 8192 \<and> (\<forall>va. in_growth 0 8192 va \<longrightarrow> fresh_page s' demo_d va) \<or> r = 0 \<and> (\<forall>va. user_va (mem s') demo_d va = user_va (mem demo_vm) demo_d va)"
    by (elim exE conjE) (rule that)
  then have "\<exists>r s'. allocuvm demo_d 0 8192 demo_vm = Ok (r, s') \<and> (r = 8192 \<or> r = 0)" by metis
  then show ?thesis using demo_vm_ok(1) by simp
qed

theorem deallocuvm_correct_witness:
  "uvm_ok demo_vm demo_d [0x80303000, 0x80302000, 0x80301000] \<and> (\<exists>s'. deallocuvm demo_d KERNBASE 0 demo_vm = Ok (0, s'))"
proof -
  have "(0 :: u32) \<le> KERNBASE" "KERNBASE \<le> KERNBASE" by simp_all
  from deallocuvm_correct [OF demo_vm_ok(1) this] have "\<exists>s'. deallocuvm demo_d KERNBASE 0 demo_vm = Ok (0, s')" by blast
  then show ?thesis using demo_vm_ok(1) by simp
qed


end
