(* ===== verification/Spinlock.thy ===== *)
theory Spinlock
  imports Kalloc
begin

text \<open>
  Spin locks (\<^verbatim>\<open>spinlock.c\<close>) on several CPUs. \<^verbatim>\<open>acquire\<close> and \<^verbatim>\<open>release\<close> are cut at the accesses to the
  shared word \<^verbatim>\<open>lk->locked\<close>, which is where other CPUs can come in between; each definition is one such piece, and the step
  relation at the end lets the pieces of any number of CPUs interleave. CPUs are numbered; \<open>iflag\<close> is the interrupt flag
  \<^verbatim>\<open>FL_IF\<close> of a CPU. The rest of the kernel is modelled with the routines under a lock as atomic steps, which is what the
  theorem on mutual exclusion here justifies.
\<close>

section \<open>State (spinlock.h, proc.h)\<close>

record spinlock =
  lk_locked :: u32
  lk_name :: string
  lk_cpu :: "nat option"
  lk_pcs :: "u32 list"

record cpu =
  ncli :: int
  intena :: bool
  iflag :: bool

section \<open>Operations\<close>

definition initlock :: "string \<Rightarrow> spinlock \<Rightarrow> spinlock" where
  "initlock name lk = lk\<lparr>lk_name := name, lk_locked := 0, lk_cpu := None\<rparr>"

text \<open>\<^verbatim>\<open>mycpu\<close> may only be called with interrupts off.\<close>

definition mycpu :: "nat \<Rightarrow> cpu \<Rightarrow> nat res" where
  "mycpu i c = (if iflag c then panic ''mycpu called with interrupts enabled'' else Ok i)"

definition pushcli :: "cpu \<Rightarrow> cpu" where
  "pushcli c =
     (let eflags = iflag c; c = c\<lparr>iflag := False\<rparr>;
          c = (if ncli c = 0 then c\<lparr>intena := eflags\<rparr> else c)
      in c\<lparr>ncli := ncli c + 1\<rparr>)"

definition popcli :: "cpu \<Rightarrow> cpu res" where
  "popcli c =
     (if iflag c then panic ''popcli - interruptible''
      else let c = c\<lparr>ncli := ncli c - 1\<rparr> in
        if ncli c < 0 then panic ''popcli''
        else Ok (if ncli c = 0 \<and> intena c then c\<lparr>iflag := True\<rparr> else c))"

definition holding :: "nat \<Rightarrow> cpu \<Rightarrow> spinlock \<Rightarrow> (bool \<times> cpu) res" where
  "holding i c lk =
     (let c = pushcli c in
      bind_res (mycpu i c) (\<lambda>me. bind_res (popcli c) (\<lambda>c'. Ok (lk_locked lk \<noteq> 0 \<and> lk_cpu lk = Some me, c'))))"

text \<open>The call stack above the frame of argument \<open>v\<close>, by the chain of saved frame pointers.\<close>

fun pcs_loop :: "nat \<Rightarrow> u32 \<Rightarrow> memory \<Rightarrow> u32 list" where
  "pcs_loop 0 ebp m = []"
| "pcs_loop (Suc n) ebp m =
     (if ebp = 0 \<or> ebp < KERNBASE \<or> ebp = 0xffffffff then replicate (Suc n) 0
      else load32 m (ebp + 4) # pcs_loop n (load32 m ebp) m)"

definition getcallerpcs :: "u32 \<Rightarrow> memory \<Rightarrow> u32 list" where
  "getcallerpcs v m = pcs_loop 10 (v - 8) m"

text \<open>\<^verbatim>\<open>xchg(&lk->locked, newval)\<close>: the old value and the lock after it, in one step.\<close>

definition xchg :: "u32 \<Rightarrow> spinlock \<Rightarrow> u32 \<times> spinlock" where
  "xchg newval lk = (lk_locked lk, lk\<lparr>lk_locked := newval\<rparr>)"

text \<open>The three pieces of \<^verbatim>\<open>acquire\<close>: up to the loop, one turn of the loop, and after it.\<close>

definition acquire_enter :: "nat \<Rightarrow> cpu \<Rightarrow> spinlock \<Rightarrow> cpu res" where
  "acquire_enter i c lk = bind_res (holding i (pushcli c) lk) (\<lambda>(h, c). if h then panic ''acquire'' else Ok c)"

definition acquire_try :: "spinlock \<Rightarrow> bool \<times> spinlock" where
  "acquire_try lk = (case xchg 1 lk of (old, lk) \<Rightarrow> (old = 0, lk))"

definition acquire_exit :: "nat \<Rightarrow> cpu \<Rightarrow> u32 list \<Rightarrow> spinlock \<Rightarrow> spinlock res" where
  "acquire_exit i c pcs lk = bind_res (mycpu i c) (\<lambda>me. Ok (lk\<lparr>lk_cpu := Some me, lk_pcs := pcs\<rparr>))"

text \<open>The two pieces of \<^verbatim>\<open>release\<close>: the check and the debugging fields, and the store that frees the lock.\<close>

definition release_enter :: "nat \<Rightarrow> cpu \<Rightarrow> spinlock \<Rightarrow> (cpu \<times> spinlock) res" where
  "release_enter i c lk =
     bind_res (holding i c lk) (\<lambda>(h, c). if \<not> h then panic ''release'' else Ok (c, lk\<lparr>lk_pcs := (lk_pcs lk)[0 := 0], lk_cpu := None\<rparr>))"

definition release_exit :: "cpu \<Rightarrow> spinlock \<Rightarrow> (cpu \<times> spinlock) res" where
  "release_exit c lk = bind_res (popcli c) (\<lambda>c. Ok (c, lk\<lparr>lk_locked := 0\<rparr>))"

section \<open>Matched pairs on one CPU\<close>

text \<open>A CPU in order: with pushes outstanding its interrupts are off.\<close>

definition cpu_ok :: "cpu \<Rightarrow> bool" where
  "cpu_ok c \<longleftrightarrow> 0 \<le> ncli c \<and> (0 < ncli c \<longrightarrow> \<not> iflag c)"

lemma pushcli_ok: "cpu_ok c \<Longrightarrow> cpu_ok (pushcli c) \<and> ncli (pushcli c) = ncli c + 1 \<and> \<not> iflag (pushcli c)"
  by (simp add: cpu_ok_def pushcli_def Let_def)

lemma popcli_ok:
  assumes "cpu_ok c" "0 < ncli c"
  obtains c' where "popcli c = Ok c'" "cpu_ok c'" "ncli c' = ncli c - 1"
proof (rule that)
  show "popcli c = Ok (if ncli c = 1 \<and> intena c then c\<lparr>ncli := ncli c - 1, iflag := True\<rparr> else c\<lparr>ncli := ncli c - 1\<rparr>)"
    using assms by (simp add: cpu_ok_def popcli_def Let_def)
qed (use assms in \<open>simp_all add: cpu_ok_def\<close>)

lemma popcli_pushcli:
  assumes "cpu_ok c"
  shows "\<exists>c'. popcli (pushcli c) = Ok c' \<and> ncli c' = ncli c \<and> iflag c' = iflag c \<and> (0 < ncli c \<longrightarrow> c' = c)"
proof (cases "ncli c = 0")
  case True
  then show ?thesis by (simp add: popcli_def pushcli_def Let_def)
next
  case False
  then have "\<not> iflag c" "0 < ncli c" using assms by (auto simp: cpu_ok_def)
  then show ?thesis by (simp add: popcli_def pushcli_def Let_def)
qed

lemma holding_ok:
  assumes "cpu_ok c" "0 < ncli c"
  shows "holding i c lk = Ok (lk_locked lk \<noteq> 0 \<and> lk_cpu lk = Some i, c)"
proof -
  from popcli_pushcli [OF assms(1)] assms(2) have "popcli (pushcli c) = Ok c" by auto
  moreover have "mycpu i (pushcli c) = Ok i" using pushcli_ok [OF assms(1)] by (simp add: mycpu_def)
  ultimately show ?thesis by (simp add: holding_def Let_def)
qed

lemma length_getcallerpcs: "length (getcallerpcs v m) = 10"
proof -
  have "length (pcs_loop n ebp m) = n" for n ebp by (induction n arbitrary: ebp) auto
  then show ?thesis by (simp add: getcallerpcs_def)
qed

section \<open>Several CPUs and one lock\<close>

text \<open>Where a CPU is with respect to the lock: not using it, in the loop, just past it, holding it, about to free it.\<close>

datatype lphase = LIdle | LSpin | LGot | LHold | LFree

record lsys =
  slk :: spinlock
  scpu :: "nat \<Rightarrow> cpu"
  sph :: "nat \<Rightarrow> lphase"

text \<open>The steps of CPU \<open>i\<close>. Besides the pieces above it may do other matched \<^verbatim>\<open>pushcli\<close>/\<^verbatim>\<open>popcli\<close> (other locks), and
  turn interrupts on or off while it uses none. A CPU that already holds the lock does not take it again.\<close>

inductive lstep :: "lsys \<Rightarrow> lsys \<Rightarrow> bool" where
  l_enter: "sph s i = LIdle \<Longrightarrow> acquire_enter i (scpu s i) (slk s) = Ok c \<Longrightarrow>
    lstep s (s\<lparr>scpu := (scpu s)(i := c), sph := (sph s)(i := LSpin)\<rparr>)"
| l_spin: "sph s i = LSpin \<Longrightarrow> acquire_try (slk s) = (False, lk) \<Longrightarrow> lstep s (s\<lparr>slk := lk\<rparr>)"
| l_got: "sph s i = LSpin \<Longrightarrow> acquire_try (slk s) = (True, lk) \<Longrightarrow> lstep s (s\<lparr>slk := lk, sph := (sph s)(i := LGot)\<rparr>)"
| l_hold: "sph s i = LGot \<Longrightarrow> acquire_exit i (scpu s i) pcs (slk s) = Ok lk \<Longrightarrow> lstep s (s\<lparr>slk := lk, sph := (sph s)(i := LHold)\<rparr>)"
| l_release: "sph s i = LHold \<Longrightarrow> release_enter i (scpu s i) (slk s) = Ok (c, lk) \<Longrightarrow>
    lstep s (s\<lparr>slk := lk, scpu := (scpu s)(i := c), sph := (sph s)(i := LFree)\<rparr>)"
| l_free: "sph s i = LFree \<Longrightarrow> release_exit (scpu s i) (slk s) = Ok (c, lk) \<Longrightarrow>
    lstep s (s\<lparr>slk := lk, scpu := (scpu s)(i := c), sph := (sph s)(i := LIdle)\<rparr>)"
| l_push: "lstep s (s\<lparr>scpu := (scpu s)(i := pushcli (scpu s i))\<rparr>)"
| l_pop: "(if sph s i = LIdle then 1 else 2) \<le> ncli (scpu s i) \<Longrightarrow> popcli (scpu s i) = Ok c \<Longrightarrow> lstep s (s\<lparr>scpu := (scpu s)(i := c)\<rparr>)"
| l_intr: "sph s i = LIdle \<Longrightarrow> ncli (scpu s i) = 0 \<Longrightarrow> lstep s (s\<lparr>scpu := (scpu s)(i := (scpu s i)\<lparr>iflag := b\<rparr>)\<rparr>)"

inductive_cases lstepE: "lstep s s'"

inductive lreach :: "lsys \<Rightarrow> bool" where
  l_init: "(\<And>i. sph s i = LIdle) \<Longrightarrow> (\<And>i. ncli (scpu s i) = 0) \<Longrightarrow> slk s = initlock name lk \<Longrightarrow> lreach s"
| l_step: "lreach s \<Longrightarrow> lstep s s' \<Longrightarrow> lreach s'"

definition inside :: "lphase \<Rightarrow> bool" where "inside p \<longleftrightarrow> p = LGot \<or> p = LHold \<or> p = LFree"

definition lock_inv :: "lsys \<Rightarrow> bool" where
  "lock_inv s \<longleftrightarrow>
     (\<forall>i. cpu_ok (scpu s i) \<and> (sph s i \<noteq> LIdle \<longrightarrow> 1 \<le> ncli (scpu s i))) \<and>
     (\<forall>i j. inside (sph s i) \<and> inside (sph s j) \<longrightarrow> i = j) \<and>
     (lk_locked (slk s) \<noteq> 0 \<longleftrightarrow> (\<exists>i. inside (sph s i))) \<and>
     (\<forall>i. lk_cpu (slk s) = Some i \<longleftrightarrow> sph s i = LHold)"

lemma lock_invD:
  assumes "lock_inv s"
  shows "cpu_ok (scpu s i)" "sph s i \<noteq> LIdle \<Longrightarrow> 1 \<le> ncli (scpu s i)" "inside (sph s i) \<Longrightarrow> inside (sph s j) \<Longrightarrow> i = j"
    "lk_locked (slk s) \<noteq> 0 \<longleftrightarrow> (\<exists>i. inside (sph s i))" "lk_cpu (slk s) = Some i \<longleftrightarrow> sph s i = LHold"
  using assms unfolding lock_inv_def by blast+

lemma inside_simps [simp]: "\<not> inside LIdle" "\<not> inside LSpin" "inside LGot" "inside LHold" "inside LFree"
  by (simp_all add: inside_def)

text \<open>What the pieces do in a state of the invariant; in particular none of them panics.\<close>

lemma enter_ok:
  assumes "cpu_ok c" "lk_cpu lk \<noteq> Some i"
  shows "acquire_enter i c lk = Ok (pushcli c)"
  using pushcli_ok [OF assms(1)] holding_ok [of "pushcli c" i lk] assms by (simp add: acquire_enter_def cpu_ok_def)

lemma exit_ok: "cpu_ok c \<Longrightarrow> 1 \<le> ncli c \<Longrightarrow> acquire_exit i c pcs lk = Ok (lk\<lparr>lk_cpu := Some i, lk_pcs := pcs\<rparr>)"
  by (simp add: acquire_exit_def mycpu_def cpu_ok_def)

lemma release_enter_ok:
  "cpu_ok c \<Longrightarrow> 1 \<le> ncli c \<Longrightarrow> lk_locked lk \<noteq> 0 \<Longrightarrow> lk_cpu lk = Some i \<Longrightarrow>
     release_enter i c lk = Ok (c, lk\<lparr>lk_pcs := (lk_pcs lk)[0 := 0], lk_cpu := None\<rparr>)"
  by (simp add: release_enter_def holding_ok)

lemma release_exit_ok:
  assumes "cpu_ok c" "1 \<le> ncli c"
  obtains c' where "release_exit c lk = Ok (c', lk\<lparr>lk_locked := 0\<rparr>)" "cpu_ok c'" "ncli c' = ncli c - 1"
proof -
  obtain c' where "popcli c = Ok c'" "cpu_ok c'" "ncli c' = ncli c - 1" using popcli_ok [of c] assms by auto
  then show thesis by (intro that [of c']) (simp_all add: release_exit_def)
qed

lemma lock_inv_cpu:
  assumes "lock_inv s" "cpu_ok c" "sph s i \<noteq> LIdle \<Longrightarrow> 1 \<le> ncli c"
  shows "lock_inv (s\<lparr>scpu := (scpu s)(i := c)\<rparr>)"
  using assms unfolding lock_inv_def by simp

lemma lock_inv_step:
  assumes "lstep s s'" "lock_inv s"
  shows "lock_inv s'"
  using assms(1)
proof cases
  case (l_enter i c)
  note D = lock_invD [OF assms(2)]
  have "lk_cpu (slk s) \<noteq> Some i" using D(5) [of i] l_enter(2) by simp
  from enter_ok [OF D(1) [of i] this] l_enter(3) have c: "c = pushcli (scpu s i)" by simp
  have "cpu_ok c" "1 \<le> ncli c" using pushcli_ok [OF D(1) [of i]] D(1) [of i] by (simp_all add: c cpu_ok_def)
  moreover have "inside (((sph s)(i := LSpin)) j) \<longleftrightarrow> inside (sph s j)" for j using l_enter(2) by simp
  moreover have "((sph s)(i := LSpin)) j = LHold \<longleftrightarrow> sph s j = LHold" for j using l_enter(2) by simp
  ultimately show ?thesis using assms(2) unfolding lock_inv_def l_enter(1) by simp
next
  case (l_spin i lk)
  then have "lk = slk s\<lparr>lk_locked := 1\<rparr>" "lk_locked (slk s) \<noteq> 0" by (auto simp: acquire_try_def xchg_def)
  then show ?thesis using assms(2) unfolding lock_inv_def l_spin(1) by simp
next
  case (l_got i lk)
  then have lk: "lk = slk s\<lparr>lk_locked := 1\<rparr>" "lk_locked (slk s) = 0" by (auto simp: acquire_try_def xchg_def)
  note D = lock_invD [OF assms(2)]
  have n: "\<not> inside (sph s j)" for j using D(4) lk(2) by blast
  have nh: "sph s j \<noteq> LHold" for j using n [of j] by auto
  have "lk_cpu (slk s) \<noteq> Some j" for j using D(5) nh by blast
  then show ?thesis
    unfolding lock_inv_def l_got(1) using D(1,2) n l_got(2) by (simp add: lk(1)) (auto simp: nh)
next
  case (l_hold i pcs lk)
  note D = lock_invD [OF assms(2)]
  have ph: "sph s i = LGot" by (rule l_hold(2))
  have lk: "lk = slk s\<lparr>lk_cpu := Some i, lk_pcs := pcs\<rparr>"
    using exit_ok [OF D(1) [of i] D(2) [of i]] ph l_hold(3) by simp
  have n: "\<not> inside (sph s j)" if "j \<noteq> i" for j using D(3) [of i j] ph that by auto
  have nh: "sph s j \<noteq> LHold" if "j \<noteq> i" for j using n [OF that] by auto
  have il: "lk_locked (slk s) \<noteq> 0" using D(4) ph by (metis inside_simps(3))
  show ?thesis
    unfolding lock_inv_def l_hold(1) using D(1,2) n il ph by (simp add: lk) (auto dest: nh)
next
  case (l_release i c lk)
  note D = lock_invD [OF assms(2)]
  have ph: "sph s i = LHold" by (rule l_release(2))
  have il: "lk_locked (slk s) \<noteq> 0" using D(4) ph by (metis inside_simps(4))
  have "lk_cpu (slk s) = Some i" using D(5) ph by blast
  then have c: "c = scpu s i" "lk = slk s\<lparr>lk_pcs := (lk_pcs (slk s))[0 := 0], lk_cpu := None\<rparr>"
    using release_enter_ok [OF D(1) [of i] D(2) [of i] il] ph l_release(3) by simp_all
  have n: "\<not> inside (sph s j)" if "j \<noteq> i" for j using D(3) [of i j] ph that by auto
  have nh: "sph s j \<noteq> LHold" if "j \<noteq> i" for j using n [OF that] by auto
  show ?thesis
    unfolding lock_inv_def l_release(1) using D(1,2) n il ph by (simp add: c) (auto dest: nh)
next
  case (l_free i c lk)
  note D = lock_invD [OF assms(2)]
  have ph: "sph s i = LFree" by (rule l_free(2))
  obtain c' where c': "release_exit (scpu s i) (slk s) = Ok (c', slk s\<lparr>lk_locked := 0\<rparr>)" "cpu_ok c'"
    using release_exit_ok [OF D(1) [of i] D(2) [of i], of "slk s"] ph by auto
  then have c: "cpu_ok c" "lk = slk s\<lparr>lk_locked := 0\<rparr>" using l_free(3) by simp_all
  have n: "\<not> inside (sph s j)" if "j \<noteq> i" for j using D(3) [of i j] ph that by auto
  have nh: "sph s j \<noteq> LHold" for j using n [of j] ph by (cases "j = i") auto
  have "lk_cpu (slk s) \<noteq> Some j" for j using D(5) nh by blast
  then show ?thesis
    unfolding lock_inv_def l_free(1) using D(1,2) n c by (simp add: c) (auto simp: nh)
next
  case (l_push i)
  note D = lock_invD [OF assms(2)]
  show ?thesis unfolding l_push(1)
    by (rule lock_inv_cpu [OF assms(2)]) (use pushcli_ok [OF D(1) [of i]] D(1) [of i] in \<open>auto simp: cpu_ok_def\<close>)
next
  case (l_pop i c)
  note D = lock_invD [OF assms(2)]
  have "0 < ncli (scpu s i)" using l_pop(2) by (simp split: if_splits)
  then obtain c' where "popcli (scpu s i) = Ok c'" "cpu_ok c'" "ncli c' = ncli (scpu s i) - 1"
    using popcli_ok [OF D(1) [of i]] by blast
  then have "cpu_ok c" "ncli c = ncli (scpu s i) - 1" using l_pop(3) by simp_all
  then show ?thesis unfolding l_pop(1) by (intro lock_inv_cpu [OF assms(2)]) (use l_pop(2) in \<open>simp_all split: if_splits\<close>)
next
  case (l_intr i b)
  show ?thesis unfolding l_intr(1)
    by (rule lock_inv_cpu [OF assms(2)]) (use l_intr(2,3) in \<open>simp_all add: cpu_ok_def\<close>)
qed

lemma lreach_lock_inv: "lreach s \<Longrightarrow> lock_inv s"
proof (induction rule: lreach.induct)
  case (l_init s name lk)
  then show ?case by (simp add: lock_inv_def cpu_ok_def initlock_def)
next
  case (l_step s s')
  then show ?case using lock_inv_step by blast
qed

text \<open>C18: Spin locks exclude: however the pieces of \<^verbatim>\<open>acquire\<close> and \<^verbatim>\<open>release\<close> of any number of CPUs interleave, at most
  one CPU is between them, its interrupts are off, the lock word is set, and its \<^verbatim>\<open>release\<close> finds the lock held and does not
  panic.\<close>

theorem spinlock_mutual_exclusion:
  assumes "lreach s" "sph s i = LHold"
  shows "(\<forall>j. inside (sph s j) \<longrightarrow> j = i) \<and> lk_locked (slk s) \<noteq> 0 \<and> \<not> iflag (scpu s i) \<and>
    (\<exists>c lk. release_enter i (scpu s i) (slk s) = Ok (c, lk))"
proof -
  note D = lock_invD [OF lreach_lock_inv [OF assms(1)]]
  have ins: "inside (sph s i)" by (simp add: assms(2))
  have n: "1 \<le> ncli (scpu s i)" using D(2) [of i] assms(2) by simp
  have l: "lk_locked (slk s) \<noteq> 0" using D(4) ins by blast
  have "lk_cpu (slk s) = Some i" using D(5) assms(2) by blast
  from release_enter_ok [OF D(1) n l this] have "\<exists>c lk. release_enter i (scpu s i) (slk s) = Ok (c, lk)" by blast
  moreover have "\<not> iflag (scpu s i)" using D(1) [of i] n by (simp add: cpu_ok_def)
  ultimately show ?thesis using l D(3) [OF _ ins] by blast
qed

text \<open>A CPU that wants the lock and finds it free gets it, and no \<^verbatim>\<open>acquire\<close> of a CPU that does not hold the lock
  panics.\<close>

theorem spinlock_progress:
  assumes "lreach s"
  shows "(sph s i = LIdle \<longrightarrow> (\<exists>c. acquire_enter i (scpu s i) (slk s) = Ok c)) \<and>
    (sph s i = LSpin \<and> (\<forall>j. \<not> inside (sph s j)) \<longrightarrow> fst (acquire_try (slk s)))"
proof -
  note D = lock_invD [OF lreach_lock_inv [OF assms]]
  have "\<exists>c. acquire_enter i (scpu s i) (slk s) = Ok c" if "sph s i = LIdle"
    using enter_ok [OF D(1) [of i], of "slk s" i] D(5) [of i] that by auto
  moreover have "fst (acquire_try (slk s))" if "\<forall>j. \<not> inside (sph s j)"
    using D(4) that by (simp add: acquire_try_def xchg_def)
  ultimately show ?thesis by blast
qed

text \<open>Two CPUs; the first takes the lock.\<close>

definition demo_cpus :: lsys where
  "demo_cpus = \<lparr>slk = \<lparr>lk_locked = 0, lk_name = ''demo'', lk_cpu = None, lk_pcs = replicate 10 0\<rparr>,
     scpu = (\<lambda>_. \<lparr>ncli = 0, intena = False, iflag = True\<rparr>), sph = (\<lambda>_. LIdle)\<rparr>"

definition demo_cpus1 :: lsys where
  "demo_cpus1 = demo_cpus\<lparr>scpu := (scpu demo_cpus)(0 := \<lparr>ncli = 1, intena = True, iflag = False\<rparr>), sph := (sph demo_cpus)(0 := LSpin)\<rparr>"

definition demo_cpus2 :: lsys where
  "demo_cpus2 = demo_cpus1\<lparr>slk := (slk demo_cpus1)\<lparr>lk_locked := 1\<rparr>, sph := (sph demo_cpus1)(0 := LGot)\<rparr>"

definition demo_cpus3 :: lsys where
  "demo_cpus3 = demo_cpus2\<lparr>slk := (slk demo_cpus2)\<lparr>lk_cpu := Some 0, lk_pcs := replicate 10 0\<rparr>, sph := (sph demo_cpus2)(0 := LHold)\<rparr>"

lemma demo_cpus_reach: "lreach demo_cpus" "lreach demo_cpus3"
proof -
  show 0: "lreach demo_cpus"
  proof (rule l_init)
    show "slk demo_cpus = initlock ''demo'' (slk demo_cpus)" by (simp add: demo_cpus_def initlock_def)
  qed (simp_all add: demo_cpus_def)
  have "lstep demo_cpus demo_cpus1" unfolding demo_cpus1_def
    by (rule lstep.l_enter) (simp_all add: demo_cpus_def acquire_enter_def holding_def pushcli_def popcli_def mycpu_def Let_def)
  with 0 have 1: "lreach demo_cpus1" by (rule l_step)
  have "lstep demo_cpus1 demo_cpus2" unfolding demo_cpus2_def
    by (rule lstep.l_got) (simp_all add: demo_cpus1_def demo_cpus_def acquire_try_def xchg_def)
  with 1 have 2: "lreach demo_cpus2" by (rule l_step)
  have "lstep demo_cpus2 demo_cpus3" unfolding demo_cpus3_def
    by (rule lstep.l_hold) (simp_all add: demo_cpus2_def demo_cpus1_def demo_cpus_def acquire_exit_def mycpu_def)
  with 2 show "lreach demo_cpus3" by (rule l_step)
qed

theorem spinlock_mutual_exclusion_witness:
  "lreach demo_cpus3 \<and> sph demo_cpus3 0 = LHold \<and> \<not> inside (sph demo_cpus3 1) \<and> \<not> iflag (scpu demo_cpus3 0)"
proof -
  have h: "sph demo_cpus3 0 = LHold" by (simp add: demo_cpus3_def)
  show ?thesis using spinlock_mutual_exclusion [OF demo_cpus_reach(2) h] h demo_cpus_reach(2) by (metis one_neq_zero)
qed

theorem spinlock_progress_witness:
  "lreach demo_cpus \<and> (\<exists>c. acquire_enter 1 (scpu demo_cpus 1) (slk demo_cpus) = Ok c)"
proof -
  have "sph demo_cpus 1 = LIdle" by (simp add: demo_cpus_def)
  then show ?thesis using spinlock_progress [OF demo_cpus_reach(1), of 1] demo_cpus_reach(1) by blast
qed

end
