(* ===== verification/Sched.thy ===== *)
theory Sched
  imports Vm Spinlock
begin

text \<open>
  The process table (\<^verbatim>\<open>proc.c\<close>, \<^verbatim>\<open>proc.h\<close>, and the trap frame of \<^verbatim>\<open>x86.h\<close>): allocation of processes,
  sleeping and waking, waiting for children, killing, memory growth, and the scheduler. Each routine that runs under
  \<^verbatim>\<open>ptable.lock\<close> is one step. A routine that ends in \<^verbatim>\<open>sched()\<close> is modelled up to that call: the state it leaves behind is
  the one the scheduler finds. Saved registers on a kernel stack (\<^verbatim>\<open>p->tf\<close>, \<^verbatim>\<open>p->context\<close> and the return address
  above it) are fields of the process instead of bytes in its stack page. While a process runs, its \<^verbatim>\<open>pid\<close> and \<^verbatim>\<open>cwd\<close> are also
  in the fields \<open>curpid\<close> and \<open>cwd\<close>, where the file system code reads them.
\<close>

section \<open>State (proc.h, x86.h)\<close>

definition NPROC :: nat where "NPROC = 64"
definition NOFILE :: nat where "NOFILE = 16"

datatype procstate = UNUSED | EMBRYO | SLEEPING | RUNNABLE | RUNNING | ZOMBIE

text \<open>The position in the \<^verbatim>\<open>enum\<close>, which is how \<^verbatim>\<open>procdump\<close> indexes its table of names.\<close>

fun state_no :: "procstate \<Rightarrow> nat" where
  "state_no UNUSED = 0" | "state_no EMBRYO = 1" | "state_no SLEEPING = 2" | "state_no RUNNABLE = 3" | "state_no RUNNING = 4" | "state_no ZOMBIE = 5"

lemma state_no_inj: "state_no x = state_no y \<longleftrightarrow> x = y"
  by (cases x; cases y) simp_all

instantiation procstate :: linorder
begin

definition less_eq_procstate :: "procstate \<Rightarrow> procstate \<Rightarrow> bool" where
  "less_eq_procstate x y \<longleftrightarrow> state_no x \<le> state_no y"

definition less_procstate :: "procstate \<Rightarrow> procstate \<Rightarrow> bool" where
  "less_procstate x y \<longleftrightarrow> state_no x < state_no y"

instance
  by standard (auto simp: less_eq_procstate_def less_procstate_def state_no_inj)

end

text \<open>Sleep channels are addresses that are only compared: of a process, of the two counters of a pipe, of \<^verbatim>\<open>ticks\<close>, or of
  anything else.\<close>

datatype chan = ChProc nat | ChNread u32 | ChNwrite u32 | ChTicks | ChInput | ChOther u32

record kcontext =
  c_edi :: u32
  c_esi :: u32
  c_ebx :: u32
  c_ebp :: u32
  c_eip :: u32

record trapframe =
  tf_edi :: u32
  tf_esi :: u32
  tf_ebp :: u32
  tf_oesp :: u32
  tf_ebx :: u32
  tf_edx :: u32
  tf_ecx :: u32
  tf_eax :: u32
  tf_gs :: u16
  tf_fs :: u16
  tf_es :: u16
  tf_ds :: u16
  tf_trapno :: u32
  tf_err :: u32
  tf_eip :: u32
  tf_cs :: u16
  tf_eflags :: u32
  tf_esp :: u32
  tf_ss :: u16

record proc =
  psz :: u32
  ppgdir :: u32
  pkstack :: u32
  pstate :: procstate
  ppid :: int
  pparent :: "nat option"
  ptf :: trapframe
  pctx :: kcontext
  pret :: u32
  pchan :: "chan option"
  pkilled :: bool
  ofile :: "nat \<Rightarrow> nat option"
  pcwd :: "nat option"
  pname :: "u8 list"

text \<open>\<open>cur\<close> is \<^verbatim>\<open>mycpu()->proc\<close>; \<open>at_forkret\<close> and \<open>at_trapret\<close> are the addresses of those routines.\<close>

record pst = vst +
  ptable :: "nat \<Rightarrow> proc"
  nextpid :: int
  initproc :: "nat option"
  cur :: "nat option"
  at_forkret :: u32
  at_trapret :: u32
  ticks :: u32

definition upd_proc :: "nat \<Rightarrow> (proc \<Rightarrow> proc) \<Rightarrow> 'a pst_scheme \<Rightarrow> 'a pst_scheme" where
  "upd_proc i f s = s\<lparr>ptable := (ptable s)(i := f (ptable s i))\<rparr>"

section \<open>Operations (proc.c)\<close>

definition context0 :: kcontext where
  "context0 = \<lparr>c_edi = 0, c_esi = 0, c_ebx = 0, c_ebp = 0, c_eip = 0\<rparr>"

text \<open>\<^verbatim>\<open>nextpid++\<close> on the largest \<^verbatim>\<open>int\<close> is undefined.\<close>

definition allocproc :: "'a pst_scheme \<Rightarrow> (nat option \<times> 'a pst_scheme) res" where
  "allocproc s =
     (case find (\<lambda>i. pstate (ptable s i) = UNUSED) [0..<NPROC] of
        None \<Rightarrow> Ok (None, s)
      | Some i \<Rightarrow>
        if nextpid s = 2 ^ 31 - 1 then Err Wild
        else let s = (upd_proc i (\<lambda>p. p\<lparr>pstate := EMBRYO, ppid := nextpid s\<rparr>) s)\<lparr>nextpid := nextpid s + 1\<rparr> in
          case kalloc s of (k, s) \<Rightarrow>
            let s = upd_proc i (\<lambda>p. p\<lparr>pkstack := k\<rparr>) s in
            if k = 0 then Ok (None, upd_proc i (\<lambda>p. p\<lparr>pstate := UNUSED\<rparr>) s)
            else Ok (Some i, upd_proc i (\<lambda>p. p\<lparr>pret := at_trapret s, pctx := context0\<lparr>c_eip := at_forkret s\<rparr>\<rparr>) s))"

definition growproc :: "int \<Rightarrow> 'a pst_scheme \<Rightarrow> (int \<times> 'a pst_scheme) res" where
  "growproc n s =
     (case cur s of None \<Rightarrow> Err Wild
      | Some me \<Rightarrow>
        let p = ptable s me; sz = psz p;
            commit = (\<lambda>sz s. bind_res (switchuvm (Some (pkstack p, ppgdir p)) (upd_proc me (\<lambda>p. p\<lparr>psz := sz\<rparr>) s)) (\<lambda>s. Ok (0, s)))
        in if 0 < n then bind_res (allocuvm (ppgdir p) sz (sz + of_int n) s) (\<lambda>(sz, s). if sz = 0 then Ok (- 1, s) else commit sz s)
           else if n < 0 then bind_res (deallocuvm (ppgdir p) sz (sz + of_int n) s) (\<lambda>(sz, s). if sz = 0 then Ok (- 1, s) else commit sz s)
           else commit sz s)"

definition wakeup1 :: "chan option \<Rightarrow> 'a pst_scheme \<Rightarrow> 'a pst_scheme" where
  "wakeup1 ch s = s\<lparr>ptable := (\<lambda>i. if i < NPROC \<and> pstate (ptable s i) = SLEEPING \<and> pchan (ptable s i) = ch
                                   then (ptable s i)\<lparr>pstate := RUNNABLE\<rparr> else ptable s i)\<rparr>"

definition wakeup :: "chan \<Rightarrow> 'a pst_scheme \<Rightarrow> 'a pst_scheme" where
  "wakeup ch s = wakeup1 (Some ch) s"

text \<open>\<^verbatim>\<open>exit\<close> from where it takes \<^verbatim>\<open>ptable.lock\<close>.\<close>

fun exit_reparent :: "nat \<Rightarrow> nat list \<Rightarrow> 'a pst_scheme \<Rightarrow> 'a pst_scheme" where
  "exit_reparent me [] s = s"
| "exit_reparent me (i # is) s =
     (if pparent (ptable s i) = Some me
      then let s = upd_proc i (\<lambda>p. p\<lparr>pparent := initproc s\<rparr>) s in
           exit_reparent me is (if pstate (ptable s i) = ZOMBIE then wakeup1 (map_option ChProc (initproc s)) s else s)
      else exit_reparent me is s)"

definition exit_ptable :: "nat \<Rightarrow> 'a pst_scheme \<Rightarrow> 'a pst_scheme" where
  "exit_ptable me s =
     (let s = wakeup1 (map_option ChProc (pparent (ptable s me))) s;
          s = exit_reparent me [0..<NPROC] s
      in upd_proc me (\<lambda>p. p\<lparr>pstate := ZOMBIE\<rparr>) s)"

text \<open>\<^verbatim>\<open>sleep\<close> up to \<^verbatim>\<open>sched()\<close>, and after it. \<open>lk\<close> says whether the lock argument is a lock.\<close>

definition sleep :: "chan \<Rightarrow> bool \<Rightarrow> 'a pst_scheme \<Rightarrow> 'a pst_scheme res" where
  "sleep ch lk s =
     (case cur s of None \<Rightarrow> panic ''sleep''
      | Some me \<Rightarrow> if \<not> lk then panic ''sleep without lk''
                   else Ok (upd_proc me (\<lambda>p. p\<lparr>pchan := Some ch, pstate := SLEEPING\<rparr>) s))"

definition sleep_return :: "nat \<Rightarrow> 'a pst_scheme \<Rightarrow> 'a pst_scheme" where
  "sleep_return me s = upd_proc me (\<lambda>p. p\<lparr>pchan := None\<rparr>) s"

text \<open>One pass of the loop of \<^verbatim>\<open>wait\<close>: a child was reaped, there is no point in waiting, or the caller went to sleep and will
  make another pass.\<close>

datatype wait_result = Reaped int | NoChild | WaitSleeps

definition wait_pass :: "'a pst_scheme \<Rightarrow> (wait_result \<times> 'a pst_scheme) res" where
  "wait_pass s =
     (case cur s of None \<Rightarrow> Err Wild
      | Some me \<Rightarrow>
        let kids = filter (\<lambda>i. pparent (ptable s i) = Some me) [0..<NPROC] in
        case find (\<lambda>i. pstate (ptable s i) = ZOMBIE) kids of
          Some i \<Rightarrow>
            bind_res (kfree (pkstack (ptable s i)) s) (\<lambda>s'. let s' = upd_proc i (\<lambda>p. p\<lparr>pkstack := 0\<rparr>) s' in
            bind_res (freevm (ppgdir (ptable s' i)) s') (\<lambda>s'.
              Ok (Reaped (ppid (ptable s i)),
                  upd_proc i (\<lambda>p. p\<lparr>ppid := 0, pparent := None, pname := (pname p)[0 := 0], pkilled := False, pstate := UNUSED\<rparr>) s')))
        | None \<Rightarrow>
            if kids = [] \<or> pkilled (ptable s me) then Ok (NoChild, s)
            else bind_res (sleep (ChProc me) True s) (\<lambda>s. Ok (WaitSleeps, s)))"

text \<open>The choice of the scheduler, from position \<open>k\<close> of the table on, and the two halves around \<^verbatim>\<open>swtch\<close>.\<close>

definition scheduler_pick :: "nat \<Rightarrow> 'a pst_scheme \<Rightarrow> nat option" where
  "scheduler_pick k s = find (\<lambda>i. pstate (ptable s i) = RUNNABLE) [k..<NPROC]"

definition scheduler_in :: "nat \<Rightarrow> 'a pst_scheme \<Rightarrow> 'a pst_scheme res" where
  "scheduler_in i s =
     (let p = ptable s i; s = s\<lparr>cur := Some i\<rparr> in
      bind_res (switchuvm (Some (pkstack p, ppgdir p)) s) (\<lambda>s.
        Ok ((upd_proc i (\<lambda>p. p\<lparr>pstate := RUNNING\<rparr>) s)
              \<lparr>curpid := ppid p, cwd := (case pcwd p of Some ip \<Rightarrow> ip | None \<Rightarrow> cwd s)\<rparr>)))"

definition scheduler_back :: "'a pst_scheme \<Rightarrow> 'a pst_scheme" where
  "scheduler_back s = (switchkvm s)\<lparr>cur := None\<rparr>"

text \<open>The checks of \<^verbatim>\<open>sched\<close>; the value is the \<^verbatim>\<open>intena\<close> it restores when it comes back.\<close>

definition sched :: "bool \<Rightarrow> cpu \<Rightarrow> procstate \<Rightarrow> bool res" where
  "sched held c st =
     (if \<not> held then panic ''sched ptable.lock''
      else if ncli c \<noteq> 1 then panic ''sched locks''
      else if st = RUNNING then panic ''sched running''
      else if iflag c then panic ''sched interruptible''
      else Ok (intena c))"

definition yield :: "'a pst_scheme \<Rightarrow> 'a pst_scheme res" where
  "yield s = (case cur s of None \<Rightarrow> Err Wild | Some me \<Rightarrow> Ok (upd_proc me (\<lambda>p. p\<lparr>pstate := RUNNABLE\<rparr>) s))"

definition kill :: "int \<Rightarrow> 'a pst_scheme \<Rightarrow> int \<times> 'a pst_scheme" where
  "kill pid s =
     (case find (\<lambda>i. ppid (ptable s i) = pid) [0..<NPROC] of
        None \<Rightarrow> (- 1, s)
      | Some i \<Rightarrow> (0, upd_proc i (\<lambda>p. p\<lparr>pkilled := True, pstate := (if pstate p = SLEEPING then RUNNABLE else pstate p)\<rparr>) s))"

text \<open>The lines \<^verbatim>\<open>procdump\<close> prints: pid, name of the state, name of the process, and the call stack of a sleeper.\<close>

definition state_names :: "string list" where
  "state_names = [''unused'', ''embryo'', ''sleep '', ''runble'', ''run   '', ''zombie'']"

definition procdump :: "'a pst_scheme \<Rightarrow> (int \<times> string \<times> u8 list \<times> u32 list) list" where
  "procdump s =
     map (\<lambda>i. let p = ptable s i in
            (ppid p, state_names ! state_no (pstate p), pname p,
             if pstate p = SLEEPING then takeWhile (\<lambda>pc. pc \<noteq> 0) (getcallerpcs (c_ebp (pctx p) + 8) (mem s)) else []))
       (filter (\<lambda>i. pstate (ptable s i) \<noteq> UNUSED) [0..<NPROC])"

section \<open>Waiting and exiting\<close>

text \<open>The steps of processes as far as the table is concerned. A process runs \<^verbatim>\<open>fork\<close>, \<^verbatim>\<open>exit\<close>, \<^verbatim>\<open>wait\<close>, \<^verbatim>\<open>kill\<close>,
  \<^verbatim>\<open>sleep\<close>, \<^verbatim>\<open>wakeup\<close>, \<^verbatim>\<open>yield\<close>; the scheduler switches; anything else leaves the table as it is. Only \<^verbatim>\<open>wait\<close>
  sleeps on a process.\<close>

inductive wstep :: "'a pst_scheme \<Rightarrow> 'a pst_scheme \<Rightarrow> bool" where
  w_fork: "cur s = Some me \<Longrightarrow> pstate (ptable s me) = RUNNING \<Longrightarrow> allocproc s = Ok (Some i, s1) \<Longrightarrow>
    pparent (f (ptable s1 i)) = Some me \<Longrightarrow> pstate (f (ptable s1 i)) = RUNNABLE \<Longrightarrow>
    ppid (f (ptable s1 i)) = ppid (ptable s1 i) \<Longrightarrow> wstep s (upd_proc i f s1)"
| w_nofork: "allocproc s = Ok (None, s') \<Longrightarrow> wstep s s'"
| w_exit: "cur s = Some me \<Longrightarrow> me < NPROC \<Longrightarrow> pstate (ptable s me) = RUNNING \<Longrightarrow> initproc s \<noteq> Some me \<Longrightarrow> wstep s (exit_ptable me s)"
| w_wait: "cur s = Some me \<Longrightarrow> me < NPROC \<Longrightarrow> pstate (ptable s me) = RUNNING \<Longrightarrow> wait_pass s = Ok (r, s') \<Longrightarrow> wstep s s'"
| w_kill: "wstep s (snd (kill pid s))"
| w_wakeup: "wstep s (wakeup ch s)"
| w_sleep: "(\<And>q. ch \<noteq> ChProc q) \<Longrightarrow> pstate (ptable s me) = RUNNING \<Longrightarrow> cur s = Some me \<Longrightarrow> sleep ch True s = Ok s' \<Longrightarrow> wstep s s'"
| w_woken: "pstate (ptable s me) = RUNNING \<Longrightarrow> wstep s (sleep_return me s)"
| w_yield: "cur s = Some me \<Longrightarrow> pstate (ptable s me) = RUNNING \<Longrightarrow> yield s = Ok s' \<Longrightarrow> wstep s s'"
| w_in: "scheduler_pick k s = Some i \<Longrightarrow> scheduler_in i s = Ok s' \<Longrightarrow> wstep s s'"
| w_back: "wstep s (scheduler_back s)"
| w_other: "ptable s' = ptable s \<Longrightarrow> initproc s' = initproc s \<Longrightarrow> nextpid s' = nextpid s \<Longrightarrow> wstep s s'"

definition waits :: "'a pst_scheme \<Rightarrow> nat \<Rightarrow> bool" where
  "waits s p \<longleftrightarrow> p < NPROC \<and> pstate (ptable s p) = SLEEPING \<and> pchan (ptable s p) = Some (ChProc p)"

text \<open>A waiting process has no zombie child; nobody else sleeps on a process; the first process is there and has no parent;
  no process is its own parent.\<close>

definition exit_inv :: "'a pst_scheme \<Rightarrow> bool" where
  "exit_inv s \<longleftrightarrow>
     (\<forall>p c. waits s p \<and> c < NPROC \<and> pparent (ptable s c) = Some p \<longrightarrow> pstate (ptable s c) \<noteq> ZOMBIE) \<and>
     (\<forall>p q. p < NPROC \<and> pstate (ptable s p) = SLEEPING \<and> pchan (ptable s p) = Some (ChProc q) \<longrightarrow> q = p) \<and>
     (\<forall>k. initproc s = Some k \<longrightarrow> k < NPROC \<and> pparent (ptable s k) = None \<and> pstate (ptable s k) \<noteq> UNUSED) \<and>
     (\<forall>p. pparent (ptable s p) \<noteq> Some p)"

lemma exit_invD:
  assumes "exit_inv s"
  shows "waits s p \<Longrightarrow> c < NPROC \<Longrightarrow> pparent (ptable s c) = Some p \<Longrightarrow> pstate (ptable s c) \<noteq> ZOMBIE"
    "p < NPROC \<Longrightarrow> pstate (ptable s p) = SLEEPING \<Longrightarrow> pchan (ptable s p) = Some (ChProc q) \<Longrightarrow> q = p"
    "initproc s = Some k \<Longrightarrow> k < NPROC \<and> pparent (ptable s k) = None \<and> pstate (ptable s k) \<noteq> UNUSED"
    "pparent (ptable s p) \<noteq> Some p"
  using assms unfolding exit_inv_def by blast+

lemma upd_proc_simps [simp]:
  "ptable (upd_proc i f s) = (ptable s)(i := f (ptable s i))" "initproc (upd_proc i f s) = initproc s" "cur (upd_proc i f s) = cur s"
  "nextpid (upd_proc i f s) = nextpid s" "at_trapret (upd_proc i f s) = at_trapret s" "at_forkret (upd_proc i f s) = at_forkret s"
  by (simp_all add: upd_proc_def)

text \<open>The general step: processes may wake up, change parent or become a zombie only where no waiting parent misses it.\<close>

lemma exit_inv_mono:
  assumes i: "exit_inv s" and ini: "initproc s' = initproc s"
    and sl: "\<And>p. p < NPROC \<Longrightarrow> pstate (ptable s' p) = SLEEPING \<Longrightarrow> pstate (ptable s p) = SLEEPING \<and> pchan (ptable s' p) = pchan (ptable s p)"
    and ch: "\<And>p c. waits s' p \<Longrightarrow> c < NPROC \<Longrightarrow> pparent (ptable s' c) = Some p \<Longrightarrow> pstate (ptable s' c) = ZOMBIE \<Longrightarrow>
        pparent (ptable s c) = Some p \<and> pstate (ptable s c) = ZOMBIE"
    and k: "\<And>k. initproc s = Some k \<Longrightarrow> pparent (ptable s' k) = None \<and> pstate (ptable s' k) \<noteq> UNUSED"
    and np: "\<And>p. pparent (ptable s' p) \<noteq> Some p"
  shows "exit_inv s'"
proof -
  have w: "waits s p" if "waits s' p" for p using that sl [of p] by (simp add: waits_def)
  show ?thesis
    unfolding exit_inv_def
  proof (intro conjI allI impI)
    fix p c assume a: "waits s' p \<and> c < NPROC \<and> pparent (ptable s' c) = Some p"
    show "pstate (ptable s' c) \<noteq> ZOMBIE"
    proof
      assume z: "pstate (ptable s' c) = ZOMBIE"
      then have "pparent (ptable s c) = Some p \<and> pstate (ptable s c) = ZOMBIE" using ch a by blast
      then show False using exit_invD(1) [OF i w, of p c] a by blast
    qed
  next
    fix p q assume "p < NPROC \<and> pstate (ptable s' p) = SLEEPING \<and> pchan (ptable s' p) = Some (ChProc q)"
    then show "q = p" using sl [of p] exit_invD(2) [OF i, of p q] by auto
  next
    fix j assume "initproc s' = Some j"
    then show "j < NPROC" "pparent (ptable s' j) = None" "pstate (ptable s' j) \<noteq> UNUSED"
      using k [of j] exit_invD(3) [OF i, of j] ini by auto
  qed (rule np)
qed

lemma wakeup1_simps [simp]:
  "initproc (wakeup1 ch s) = initproc s" "pparent (ptable (wakeup1 ch s) p) = pparent (ptable s p)" "pchan (ptable (wakeup1 ch s) p) = pchan (ptable s p)"
  "pstate (ptable (wakeup1 ch s) p) = (if p < NPROC \<and> pstate (ptable s p) = SLEEPING \<and> pchan (ptable s p) = ch then RUNNABLE else pstate (ptable s p))"
  by (simp_all add: wakeup1_def)

lemma exit_inv_wakeup1:
  assumes "exit_inv s"
  shows "exit_inv (wakeup1 ch s)"
  by (rule exit_inv_mono [OF assms]) (use exit_invD(3,4) [OF assms] in \<open>auto split: if_splits\<close>)

lemma exit_inv_cong:
  assumes "exit_inv s" "ptable s' = ptable s" "initproc s' = initproc s"
  shows "exit_inv s'"
  using assms(1) unfolding exit_inv_def waits_def assms(2,3) .

text \<open>A change of one process.\<close>

lemma exit_inv_upd:
  assumes i: "exit_inv s" and p: "pparent (f (ptable s j)) = pparent (ptable s j)"
    and st: "pstate (f (ptable s j)) = SLEEPING \<Longrightarrow> pstate (ptable s j) = SLEEPING \<and> pchan (f (ptable s j)) = pchan (ptable s j)"
    and z: "pstate (f (ptable s j)) = ZOMBIE \<Longrightarrow> pstate (ptable s j) = ZOMBIE"
    and un: "pstate (f (ptable s j)) = UNUSED \<Longrightarrow> pstate (ptable s j) = UNUSED"
  shows "exit_inv (upd_proc j f s)"
proof (rule exit_inv_mono [OF i])
  fix k assume "initproc s = Some k"
  then show "pparent (ptable (upd_proc j f s) k) = None \<and> pstate (ptable (upd_proc j f s) k) \<noteq> UNUSED"
    using exit_invD(3) [OF i, of k] p un by auto
qed (use st z p exit_invD(4) [OF i] in \<open>auto split: if_splits\<close>)

lemma exit_reparent_step:
  assumes i: "exit_inv s" and c: "pparent (ptable s j) = Some me" and me: "pstate (ptable s me) = RUNNING"
  defines "s1 \<equiv> upd_proc j (\<lambda>p. p\<lparr>pparent := initproc s\<rparr>) s"
  defines "s2 \<equiv> (if pstate (ptable s1 j) = ZOMBIE then wakeup1 (map_option ChProc (initproc s1)) s1 else s1)"
  shows "exit_inv s2" "\<And>p. pstate (ptable s2 p) = SLEEPING \<Longrightarrow> pstate (ptable s p) = SLEEPING \<and> pchan (ptable s2 p) = pchan (ptable s p)"
    "pparent (ptable s2 me) = pparent (ptable s me)" "pstate (ptable s2 me) = RUNNING" "initproc s2 = initproc s"
proof -
  have jn: "initproc s \<noteq> Some j" using exit_invD(3) [OF i, of j] c by auto
  have jm: "j \<noteq> me" using exit_invD(4) [OF i, of j] c by auto
  have par: "pparent (ptable s2 p) = (if p = j then initproc s else pparent (ptable s p))" for p by (simp add: s2_def s1_def)
  have st: "pstate (ptable s2 p) = (if pstate (ptable s j) = ZOMBIE \<and> p < NPROC \<and> pstate (ptable s p) = SLEEPING \<and>
      pchan (ptable s p) = map_option ChProc (initproc s) then RUNNABLE else pstate (ptable s p))" for p
    by (simp add: s2_def s1_def)
  have cn: "pchan (ptable s2 p) = pchan (ptable s p)" for p by (simp add: s2_def s1_def)
  show sl: "pstate (ptable s p) = SLEEPING \<and> pchan (ptable s2 p) = pchan (ptable s p)" if "pstate (ptable s2 p) = SLEEPING" for p
    using that by (simp add: st cn split: if_splits)
  show ini: "initproc s2 = initproc s" by (simp add: s2_def s1_def)
  show "pparent (ptable s2 me) = pparent (ptable s me)" "pstate (ptable s2 me) = RUNNING" using jm me by (simp_all add: par st)
  show "exit_inv s2"
  proof (rule exit_inv_mono [OF i ini])
    fix p c
    assume a: "waits s2 p" "c < NPROC" "pparent (ptable s2 c) = Some p" "pstate (ptable s2 c) = ZOMBIE"
    have z: "pstate (ptable s c) = ZOMBIE" using a(4) by (simp add: st split: if_splits)
    show "pparent (ptable s c) = Some p \<and> pstate (ptable s c) = ZOMBIE"
    proof (cases "c = j")
      case True
      then have "initproc s = Some p" using a(3) by (simp add: par)
      then have "\<not> waits s2 p" using z True by (auto simp: waits_def st cn)
      then show ?thesis using a(1) by simp
    qed (use a(3) z in \<open>simp add: par\<close>)
  next
    fix k assume k: "initproc s = Some k"
    then have "k \<noteq> j" using jn by auto
    then show "pparent (ptable s2 k) = None \<and> pstate (ptable s2 k) \<noteq> UNUSED" using exit_invD(3) [OF i k] by (simp add: par st)
  next
    fix p show "pparent (ptable s2 p) \<noteq> Some p" using jn exit_invD(4) [OF i, of p] by (simp add: par)
  qed (use sl in blast)
qed

lemma exit_reparent_inv:
  assumes "exit_inv s" "pstate (ptable s me) = RUNNING"
  shows "exit_inv (exit_reparent me js s) \<and> pparent (ptable (exit_reparent me js s) me) = pparent (ptable s me) \<and>
    pstate (ptable (exit_reparent me js s) me) = RUNNING \<and> initproc (exit_reparent me js s) = initproc s \<and>
    (\<forall>p. pstate (ptable (exit_reparent me js s) p) = SLEEPING \<longrightarrow>
       pstate (ptable s p) = SLEEPING \<and> pchan (ptable (exit_reparent me js s) p) = pchan (ptable s p))"
  using assms
proof (induction js arbitrary: s)
  case (Cons j js)
  show ?case
  proof (cases "pparent (ptable s j) = Some me")
    case True
    define s1 where "s1 = upd_proc j (\<lambda>p. p\<lparr>pparent := initproc s\<rparr>) s"
    define s2 where "s2 = (if pstate (ptable s1 j) = ZOMBIE then wakeup1 (map_option ChProc (initproc s1)) s1 else s1)"
    note E = exit_reparent_step [OF Cons.prems(1) True Cons.prems(2), folded s1_def, folded s2_def]
    have st: "exit_reparent me (j # js) s = exit_reparent me js s2" using True by (simp add: s2_def s1_def Let_def)
    from Cons.IH [OF E(1,4)] E(2,3,5) show ?thesis unfolding st by metis
  next
    case False
    then have st: "exit_reparent me (j # js) s = exit_reparent me js s" by simp
    show ?thesis unfolding st by (rule Cons.IH [OF Cons.prems])
  qed
qed simp

lemma exit_inv_exit:
  assumes i: "exit_inv s" and me: "pstate (ptable s me) = RUNNING" "initproc s \<noteq> Some me"
  shows "exit_inv (exit_ptable me s)"
proof -
  define pp where "pp = pparent (ptable s me)"
  define s1 where "s1 = wakeup1 (map_option ChProc pp) s"
  define s2 where "s2 = exit_reparent me [0..<NPROC] s1"
  have i1: "exit_inv s1" unfolding s1_def by (rule exit_inv_wakeup1 [OF i])
  have me1: "pstate (ptable s1 me) = RUNNING" "pparent (ptable s1 me) = pp" using me by (simp_all add: s1_def pp_def)
  note R = exit_reparent_inv [OF i1 me1(1), of "[0..<NPROC]", folded s2_def]
  have i2: "exit_inv s2" and par: "pparent (ptable s2 me) = pp" and ini: "initproc s2 = initproc s"
    and sl: "\<And>p. pstate (ptable s2 p) = SLEEPING \<Longrightarrow> pstate (ptable s1 p) = SLEEPING \<and> pchan (ptable s2 p) = pchan (ptable s1 p)"
    using R me1(2) by (auto simp: s1_def)
  have ex: "exit_ptable me s = upd_proc me (\<lambda>p. p\<lparr>pstate := ZOMBIE\<rparr>) s2" by (simp add: exit_ptable_def s2_def s1_def pp_def Let_def)
  have nw: "\<not> waits s2 p" if "pp = Some p" for p
    using sl [of p] that by (auto simp: waits_def s1_def split: if_splits)
  show ?thesis
    unfolding ex
  proof (rule exit_inv_mono [OF i2])
    fix p c
    assume a: "waits (upd_proc me (\<lambda>p. p\<lparr>pstate := ZOMBIE\<rparr>) s2) p" "c < NPROC"
      "pparent (ptable (upd_proc me (\<lambda>p. p\<lparr>pstate := ZOMBIE\<rparr>) s2) c) = Some p" "pstate (ptable (upd_proc me (\<lambda>p. p\<lparr>pstate := ZOMBIE\<rparr>) s2) c) = ZOMBIE"
    have w: "waits s2 p" using a(1) by (auto simp: waits_def split: if_splits)
    show "pparent (ptable s2 c) = Some p \<and> pstate (ptable s2 c) = ZOMBIE"
    proof (cases "c = me")
      case True
      then have "pp = Some p" using a(3) par by simp
      then show ?thesis using nw w by blast
    qed (use a in simp)
  next
    fix k assume "initproc s2 = Some k"
    then show "pparent (ptable (upd_proc me (\<lambda>p. p\<lparr>pstate := ZOMBIE\<rparr>) s2) k) = None \<and> pstate (ptable (upd_proc me (\<lambda>p. p\<lparr>pstate := ZOMBIE\<rparr>) s2) k) \<noteq> UNUSED"
      using exit_invD(3) [OF i2, of k] by auto
  qed (use exit_invD(4) [OF i2] in \<open>auto split: if_splits\<close>)
qed

lemma allocproc_cases:
  assumes "allocproc s = Ok (r, s')"
  obtains "ptable s' = ptable s" "initproc s' = initproc s" "r = None"
  | i where "i < NPROC" "pstate (ptable s i) = UNUSED" "initproc s' = initproc s" "nextpid s' = nextpid s + 1" "nextpid s \<noteq> 2 ^ 31 - 1"
      "ptable s' = (ptable s)(i := (ptable s i)\<lparr>ppid := nextpid s, pkstack := 0, pstate := UNUSED\<rparr>)" "r = None"
  | i k where "i < NPROC" "pstate (ptable s i) = UNUSED" "initproc s' = initproc s" "nextpid s' = nextpid s + 1" "nextpid s \<noteq> 2 ^ 31 - 1"
      "ptable s' = (ptable s)(i := (ptable s i)\<lparr>pstate := EMBRYO, ppid := nextpid s, pkstack := k, pret := at_trapret s,
           pctx := context0\<lparr>c_eip := at_forkret s\<rparr>\<rparr>)" "r = Some i"
proof (cases "find (\<lambda>i. pstate (ptable s i) = UNUSED) [0..<NPROC]")
  case None
  then show thesis using assms that(1) by (simp add: allocproc_def)
next
  case (Some i)
  then have i: "i < NPROC" "pstate (ptable s i) = UNUSED" by (auto simp: find_Some_iff)
  define s1 where "s1 = (upd_proc i (\<lambda>p. p\<lparr>pstate := EMBRYO, ppid := nextpid s\<rparr>) s)\<lparr>nextpid := nextpid s + 1\<rparr>"
  obtain k s2 where k: "kalloc s1 = (k, s2)" by (cases "kalloc s1")
  then have s2: "ptable s2 = ptable s1" "initproc s2 = initproc s1" "nextpid s2 = nextpid s1" "at_trapret s2 = at_trapret s1" "at_forkret s2 = at_forkret s1"
    by (auto simp: kalloc_def Let_def split: if_splits)
  have n: "nextpid s \<noteq> 2 ^ 31 - 1" using assms Some by (auto simp: allocproc_def)
  have t: "ptable s1 = (ptable s)(i := (ptable s i)\<lparr>pstate := EMBRYO, ppid := nextpid s\<rparr>)" "initproc s1 = initproc s" "nextpid s1 = nextpid s + 1"
    "at_trapret s1 = at_trapret s" "at_forkret s1 = at_forkret s"
    by (simp_all add: s1_def upd_proc_def)
  show thesis
  proof (cases "k = 0")
    case True
    then have "r = None" "s' = upd_proc i (\<lambda>p. p\<lparr>pstate := UNUSED\<rparr>) (upd_proc i (\<lambda>p. p\<lparr>pkstack := k\<rparr>) s2)"
      using assms Some n k by (simp_all add: allocproc_def Let_def s1_def [symmetric])
    then show thesis using that(2) [OF i] n True by (simp add: s2 t)
  next
    case False
    then have "r = Some i" "s' = upd_proc i (\<lambda>p. p\<lparr>pret := at_trapret s, pctx := context0\<lparr>c_eip := at_forkret s\<rparr>\<rparr>) (upd_proc i (\<lambda>p. p\<lparr>pkstack := k\<rparr>) s2)"
      using assms Some n k t s2 by (simp_all add: allocproc_def Let_def s1_def [symmetric])
    then show thesis using that(3) [OF i] n by (simp add: s2 t)
  qed
qed

text \<open>Page table code does not touch the process table.\<close>

lemma mem_only_table:
  assumes "mem_only s s'"
  shows "ptable s' = ptable s" "initproc s' = initproc s" "cur s' = cur s" "nextpid s' = nextpid s"
  using arg_cong [OF assms [unfolded mem_only_def], of ptable] arg_cong [OF assms [unfolded mem_only_def], of initproc]
    arg_cong [OF assms [unfolded mem_only_def], of cur] arg_cong [OF assms [unfolded mem_only_def], of nextpid]
  by simp_all

lemma kids_iff: "i \<in> set (filter (\<lambda>i. pparent (ptable s i) = Some me) [0..<NPROC]) \<longleftrightarrow> i < NPROC \<and> pparent (ptable s i) = Some me"
  by auto

lemma wait_pass_cases:
  assumes w: "wait_pass s = Ok (r, s')" and me: "cur s = Some me"
  obtains (Reap) i where "i < NPROC" "pparent (ptable s i) = Some me" "pstate (ptable s i) = ZOMBIE" "r = Reaped (ppid (ptable s i))" "initproc s' = initproc s"
      "ptable s' = (ptable s)(i := (ptable s i)\<lparr>pkstack := 0, ppid := 0, pparent := None, pname := (pname (ptable s i))[0 := 0],
         pkilled := False, pstate := UNUSED\<rparr>)" "nextpid s' = nextpid s"
  | (None) "r = NoChild" "s' = s" "\<And>i. i < NPROC \<Longrightarrow> pparent (ptable s i) = Some me \<Longrightarrow> pstate (ptable s i) \<noteq> ZOMBIE"
      "pkilled (ptable s me) \<or> (\<forall>i<NPROC. pparent (ptable s i) \<noteq> Some me)"
  | (Wait) "r = WaitSleeps" "s' = upd_proc me (\<lambda>p. p\<lparr>pchan := Some (ChProc me), pstate := SLEEPING\<rparr>) s"
      "\<And>i. i < NPROC \<Longrightarrow> pparent (ptable s i) = Some me \<Longrightarrow> pstate (ptable s i) \<noteq> ZOMBIE"
      "\<not> pkilled (ptable s me)" "\<exists>i<NPROC. pparent (ptable s i) = Some me"
proof -
  define kids where "kids = filter (\<lambda>i. pparent (ptable s i) = Some me) [0..<NPROC]"
  note K = kids_iff [of _ s me, folded kids_def]
  show thesis
  proof (cases "find (\<lambda>i. pstate (ptable s i) = ZOMBIE) kids")
    case (Some i)
    then have i: "pstate (ptable s i) = ZOMBIE" "i \<in> set kids" by (auto simp: find_Some_iff)
    from w me Some obtain s1 s3 where
      s1: "kfree (pkstack (ptable s i)) s = Ok s1" and
      s3: "freevm (ppgdir (ptable (upd_proc i (\<lambda>p. p\<lparr>pkstack := 0\<rparr>) s1) i)) (upd_proc i (\<lambda>p. p\<lparr>pkstack := 0\<rparr>) s1) = Ok s3" and
      r: "r = Reaped (ppid (ptable s i))"
      "s' = upd_proc i (\<lambda>p. p\<lparr>ppid := 0, pparent := None, pname := (pname p)[0 := 0], pkilled := False, pstate := UNUSED\<rparr>) s3"
      by (auto simp: wait_pass_def kids_def [symmetric] Let_def bind_res_eq_Ok)
    note t1 = mem_only_table [OF kfree_mem_only [OF s1]] and t3 = mem_only_table [OF freevm_mem_only [OF s3]]
    show thesis
      by (rule Reap [of i]) (use K [of i] i r t1 t3 in simp_all)
  next
    case none: None
    then have nz: "\<And>i. i \<in> set kids \<Longrightarrow> pstate (ptable s i) \<noteq> ZOMBIE" by (auto simp: find_None_iff)
    show thesis
    proof (cases "kids = [] \<or> pkilled (ptable s me)")
      case True
      then have "r = NoChild" "s' = s" using w me none by (simp_all add: wait_pass_def kids_def [symmetric] Let_def)
      moreover have "pkilled (ptable s me) \<or> (\<forall>i<NPROC. pparent (ptable s i) \<noteq> Some me)"
        using True K by (metis empty_iff empty_set)
      ultimately show thesis using None nz K by blast
    next
      case False
      then have "r = WaitSleeps" "s' = upd_proc me (\<lambda>p. p\<lparr>pchan := Some (ChProc me), pstate := SLEEPING\<rparr>) s"
        using w me none by (simp_all add: wait_pass_def kids_def [symmetric] Let_def sleep_def)
      moreover have "\<exists>i<NPROC. pparent (ptable s i) = Some me" using False K by (metis last_in_set)
      ultimately show thesis using Wait nz K False by blast
    qed
  qed
qed

lemma exit_inv_waitpass:
  assumes i: "exit_inv s" and me: "cur s = Some me" "pstate (ptable s me) = RUNNING" and w: "wait_pass s = Ok (r, s')"
  shows "exit_inv s'"
  using w me(1)
proof (cases rule: wait_pass_cases)
  case (Reap j)
  have jn: "initproc s \<noteq> Some j" using exit_invD(3) [OF i, of j] Reap(2) by auto
  show ?thesis
  proof (rule exit_inv_mono [OF i Reap(5)])
    fix k assume "initproc s = Some k"
    then show "pparent (ptable s' k) = None \<and> pstate (ptable s' k) \<noteq> UNUSED"
      using exit_invD(3) [OF i, of k] jn unfolding Reap(6) by auto
  qed (use exit_invD(4) [OF i] in \<open>auto simp: Reap(6) split: if_splits\<close>)
next
  case None
  then show ?thesis using i by simp
next
  case Wait
  have pt: "ptable s' p = (if p = me then (ptable s me)\<lparr>pchan := Some (ChProc me), pstate := SLEEPING\<rparr> else ptable s p)" for p
    unfolding Wait(2) by simp
  have w: "waits s' p \<Longrightarrow> waits s p \<or> p = me" for p by (simp add: waits_def pt split: if_splits)
  show ?thesis
    unfolding exit_inv_def
  proof (intro conjI allI impI)
    fix p c assume a: "waits s' p \<and> c < NPROC \<and> pparent (ptable s' c) = Some p"
    have c: "pparent (ptable s c) = Some p" using a by (simp add: pt split: if_splits)
    show "pstate (ptable s' c) \<noteq> ZOMBIE"
    proof (cases "c = me")
      case False
      have "waits s p \<or> p = me" using w a by blast
      then have "pstate (ptable s c) \<noteq> ZOMBIE" using exit_invD(1) [OF i, of p c] Wait(3) [of c] a c by blast
      then show ?thesis using False by (simp add: pt)
    qed (simp add: pt)
  next
    fix p q assume "p < NPROC \<and> pstate (ptable s' p) = SLEEPING \<and> pchan (ptable s' p) = Some (ChProc q)"
    then show "q = p" using exit_invD(2) [OF i, of p q] by (auto simp: pt split: if_splits)
  next
    fix k assume "initproc s' = Some k"
    then have "initproc s = Some k" unfolding Wait(2) by simp
    from exit_invD(3) [OF i this] show "k < NPROC" "pparent (ptable s' k) = None" "pstate (ptable s' k) \<noteq> UNUSED" by (auto simp: pt)
  next
    fix p show "pparent (ptable s' p) \<noteq> Some p" using exit_invD(4) [OF i, of p] by (auto simp: pt)
  qed
qed

lemma find_upt: "find P [a..<b] = Some i \<Longrightarrow> P i \<and> i < b"
  by (auto simp: find_Some_iff)

lemma switchuvm_table:
  assumes "switchuvm p s = Ok s'"
  shows "ptable s' = ptable s" "initproc s' = initproc s" "nextpid s' = nextpid s"
  using assms by (auto simp: switchuvm_def split: option.splits if_splits)

lemma scheduler_in_table:
  assumes "scheduler_in i s = Ok s'"
  shows "ptable s' = (ptable s)(i := (ptable s i)\<lparr>pstate := RUNNING\<rparr>)" "initproc s' = initproc s" "nextpid s' = nextpid s"
proof -
  from assms obtain s1 where s1: "switchuvm (Some (pkstack (ptable s i), ppgdir (ptable s i))) (s\<lparr>cur := Some i\<rparr>) = Ok s1"
    and s': "s' = (upd_proc i (\<lambda>p. p\<lparr>pstate := RUNNING\<rparr>) s1)\<lparr>curpid := ppid (ptable s i), cwd := (case pcwd (ptable s i) of Some ip \<Rightarrow> ip | None \<Rightarrow> cwd s1)\<rparr>"
    by (auto simp: scheduler_in_def Let_def bind_res_eq_Ok)
  show "ptable s' = (ptable s)(i := (ptable s i)\<lparr>pstate := RUNNING\<rparr>)" "initproc s' = initproc s" "nextpid s' = nextpid s"
    using switchuvm_table [OF s1] by (simp_all add: s')
qed

lemma scheduler_back_table:
  "ptable (scheduler_back s) = ptable s" "initproc (scheduler_back s) = initproc s" "nextpid (scheduler_back s) = nextpid s"
  by (simp_all add: scheduler_back_def switchkvm_def)

lemma exit_inv_slot:
  assumes i: "exit_inv s" and j: "pstate (ptable s j) = UNUSED" and t: "ptable s' = (ptable s)(j := q)" "initproc s' = initproc s"
    and q: "pstate q \<noteq> SLEEPING" "pstate q \<noteq> ZOMBIE" "pparent q \<noteq> Some j"
  shows "exit_inv s'"
proof (rule exit_inv_mono [OF i t(2)])
  fix k assume "initproc s = Some k"
  then show "pparent (ptable s' k) = None \<and> pstate (ptable s' k) \<noteq> UNUSED"
    using exit_invD(3) [OF i, of k] j by (auto simp: t)
qed (use q exit_invD(4) [OF i] in \<open>auto simp: t split: if_splits\<close>)

lemma exit_inv_allocproc:
  assumes i: "exit_inv s" and a: "allocproc s = Ok (r, s')"
  shows "exit_inv s'"
  using a
proof (cases rule: allocproc_cases)
  case 1
  then show ?thesis using exit_inv_cong [OF i] by blast
next
  case (2 j)
  show ?thesis by (rule exit_inv_slot [OF i 2(2,6,3)]) (use exit_invD(4) [OF i, of j] in simp_all)
next
  case (3 j k)
  show ?thesis by (rule exit_inv_slot [OF i 3(2,6,3)]) (use exit_invD(4) [OF i, of j] in simp_all)
qed

lemma exit_inv_fork:
  assumes i: "exit_inv s" and me: "pstate (ptable s me) = RUNNING" and a: "allocproc s = Ok (Some j, s1)"
    and f: "pparent (f (ptable s1 j)) = Some me" "pstate (f (ptable s1 j)) = RUNNABLE"
  shows "exit_inv (upd_proc j f s1)"
  using a
proof (cases rule: allocproc_cases)
  case (3 i' k)
  have j: "pstate (ptable s j) = UNUSED" "j \<noteq> me" using 3 me by auto
  have "ptable (upd_proc j f s1) = (ptable s)(j := f (ptable s1 j))" using 3 by (simp add: fun_eq_iff)
  from exit_inv_slot [OF i j(1) this] f j(2) 3(3) show ?thesis by simp
qed simp_all

lemma exit_inv_step:
  assumes "wstep s s'" "exit_inv s"
  shows "exit_inv s'"
  using assms
proof (induction rule: wstep.induct)
  case (w_fork s me i s1 f)
  then show ?case by (metis exit_inv_fork)
next
  case (w_nofork s s')
  then show ?case by (metis exit_inv_allocproc)
next
  case (w_exit s me)
  then show ?case by (metis exit_inv_exit)
next
  case (w_wait s me r s')
  then show ?case by (metis exit_inv_waitpass)
next
  case (w_kill s pid)
  then show ?case
    by (cases "find (\<lambda>i. ppid (ptable s i) = pid) [0..<NPROC]") (auto simp: kill_def intro!: exit_inv_upd split: if_splits)
next
  case (w_wakeup s ch)
  then show ?case unfolding wakeup_def by (metis exit_inv_wakeup1)
next
  case (w_sleep ch s me s')
  then have s': "s' = upd_proc me (\<lambda>p. p\<lparr>pchan := Some ch, pstate := SLEEPING\<rparr>) s" by (simp add: sleep_def)
  note i = w_sleep.prems
  show ?case
    unfolding exit_inv_def
  proof (intro conjI allI impI)
    fix p c assume a: "waits s' p \<and> c < NPROC \<and> pparent (ptable s' c) = Some p"
    then have "waits s p" using w_sleep.hyps(1) by (auto simp: waits_def s' split: if_splits)
    then show "pstate (ptable s' c) \<noteq> ZOMBIE" using exit_invD(1) [OF i, of p c] a by (auto simp: s' split: if_splits)
  next
    fix p q assume "p < NPROC \<and> pstate (ptable s' p) = SLEEPING \<and> pchan (ptable s' p) = Some (ChProc q)"
    then show "q = p" using w_sleep.hyps(1) exit_invD(2) [OF i, of p q] by (auto simp: s' split: if_splits)
  next
    fix k assume "initproc s' = Some k"
    then show "k < NPROC" "pparent (ptable s' k) = None" "pstate (ptable s' k) \<noteq> UNUSED" using exit_invD(3) [OF i, of k] by (auto simp: s')
  next
    fix p show "pparent (ptable s' p) \<noteq> Some p" using exit_invD(4) [OF i, of p] by (auto simp: s')
  qed
next
  case (w_woken s me)
  then show ?case unfolding sleep_return_def by (auto intro!: exit_inv_upd)
next
  case (w_yield s me s')
  then show ?case by (auto simp: yield_def intro!: exit_inv_upd)
next
  case (w_in k s i s')
  have "exit_inv (upd_proc i (\<lambda>p. p\<lparr>pstate := RUNNING\<rparr>) s)" by (rule exit_inv_upd [OF w_in.prems]) simp_all
  then show ?case by (rule exit_inv_cong) (simp_all add: scheduler_in_table [OF w_in.hyps(2)])
next
  case (w_back s)
  then show ?case by (rule exit_inv_cong) (simp_all add: scheduler_back_table)
next
  case (w_other s' s)
  then show ?case by (metis exit_inv_cong)
qed

section \<open>Process identifiers\<close>

definition pid_inv :: "'a pst_scheme \<Rightarrow> bool" where
  "pid_inv s \<longleftrightarrow>
     (\<forall>i<NPROC. pstate (ptable s i) \<noteq> UNUSED \<longrightarrow> 0 < ppid (ptable s i) \<and> ppid (ptable s i) < nextpid s) \<and>
     (\<forall>i<NPROC. \<forall>j<NPROC. pstate (ptable s i) \<noteq> UNUSED \<and> pstate (ptable s j) \<noteq> UNUSED \<and> ppid (ptable s i) = ppid (ptable s j) \<longrightarrow> i = j) \<and>
     0 < nextpid s"

text \<open>Steps that put no process into a free slot.\<close>

lemma pid_inv_mono:
  assumes "pid_inv s" "nextpid s \<le> nextpid s'"
    and "\<And>i. i < NPROC \<Longrightarrow> pstate (ptable s' i) \<noteq> UNUSED \<Longrightarrow> pstate (ptable s i) \<noteq> UNUSED \<and> ppid (ptable s' i) = ppid (ptable s i)"
  shows "pid_inv s'"
  unfolding pid_inv_def
proof (intro conjI allI impI)
  show "0 < nextpid s'" using assms by (simp add: pid_inv_def)
  show "0 < ppid (ptable s' i)" "ppid (ptable s' i) < nextpid s'" if "i < NPROC" "pstate (ptable s' i) \<noteq> UNUSED" for i
    using assms(1,2) assms(3) [OF that] that(1) by (auto simp: pid_inv_def)
  show "i = j" if "i < NPROC" "j < NPROC"
    "pstate (ptable s' i) \<noteq> UNUSED \<and> pstate (ptable s' j) \<noteq> UNUSED \<and> ppid (ptable s' i) = ppid (ptable s' j)" for i j
    using assms(1) assms(3) [OF that(1)] assms(3) [OF that(2)] that by (auto simp: pid_inv_def)
qed

lemma pid_inv_new:
  assumes "pid_inv s" "ptable s' = (ptable s)(j := q)" "ppid q = nextpid s" "nextpid s' = nextpid s + 1"
  shows "pid_inv s'"
  using assms(1) unfolding pid_inv_def assms(2,4) by (auto simp: assms(3))

lemma pid_inv_upd:
  assumes "pid_inv s" "ppid (f (ptable s j)) = ppid (ptable s j)" "pstate (ptable s j) \<noteq> UNUSED \<or> pstate (f (ptable s j)) = UNUSED"
  shows "pid_inv (upd_proc j f s)"
  by (rule pid_inv_mono [OF assms(1)]) (use assms(2,3) in \<open>auto split: if_splits\<close>)

lemma wakeup1_pid [simp]: "nextpid (wakeup1 ch s) = nextpid s" "ppid (ptable (wakeup1 ch s) i) = ppid (ptable s i)"
  by (simp_all add: wakeup1_def)

lemma exit_reparent_pid:
  "nextpid (exit_reparent me js s) = nextpid s \<and> ppid (ptable (exit_reparent me js s) i) = ppid (ptable s i) \<and>
   (pstate (ptable (exit_reparent me js s) i) = UNUSED) = (pstate (ptable s i) = UNUSED)"
  by (induction js arbitrary: s) (auto simp: Let_def)

lemma pid_inv_allocproc:
  assumes i: "pid_inv s" and a: "allocproc s = Ok (r, s')"
  shows "pid_inv s'"
proof (cases "\<exists>j. pstate (ptable s j) = UNUSED \<and> j < NPROC")
  case True
  from a show ?thesis
  proof (cases rule: allocproc_cases)
    case 1
    have "nextpid s' = nextpid s \<or> nextpid s' = nextpid s + 1"
      using a by (auto simp: allocproc_def Let_def kalloc_def upd_proc_def split: option.splits if_splits)
    then show ?thesis using 1 by (auto intro: pid_inv_mono [OF i])
  next
    case (2 j)
    show ?thesis by (rule pid_inv_new [OF i 2(6) _ 2(4)]) simp
  next
    case (3 j k)
    show ?thesis by (rule pid_inv_new [OF i 3(6) _ 3(4)]) simp
  qed
next
  case False
  then have "find (\<lambda>i. pstate (ptable s i) = UNUSED) [0..<NPROC] = None" by (auto simp: find_None_iff)
  then show ?thesis using a i by (simp add: allocproc_def)
qed

lemma pid_inv_fork:
  assumes i: "pid_inv s" and a: "allocproc s = Ok (Some j, s1)" and f: "ppid (f (ptable s1 j)) = ppid (ptable s1 j)"
  shows "pid_inv (upd_proc j f s1)"
proof -
  have "pid_inv s1" by (rule pid_inv_allocproc [OF i a])
  moreover have "pstate (ptable s1 j) \<noteq> UNUSED" using a by (cases rule: allocproc_cases) auto
  ultimately show ?thesis using f by (auto intro: pid_inv_upd)
qed

lemma pid_inv_waitpass:
  assumes i: "pid_inv s" and me: "cur s = Some me" "pstate (ptable s me) = RUNNING" and w: "wait_pass s = Ok (r, s')"
  shows "pid_inv s'"
  using w me(1)
proof (cases rule: wait_pass_cases)
  case (Reap j)
  show ?thesis by (rule pid_inv_mono [OF i]) (auto simp: Reap split: if_splits)
next
  case None
  then show ?thesis using i by simp
next
  case Wait
  show ?thesis unfolding Wait(2) by (rule pid_inv_upd [OF i]) (simp_all add: me(2))
qed

lemma pid_inv_step:
  assumes "wstep s s'" "pid_inv s"
  shows "pid_inv s'"
  using assms
proof (induction rule: wstep.induct)
  case (w_fork s me i s1 f)
  then show ?case by (metis pid_inv_fork)
next
  case (w_nofork s s')
  then show ?case by (metis pid_inv_allocproc)
next
  case (w_exit s me)
  have "nextpid (exit_ptable me s) = nextpid s" by (simp add: exit_ptable_def Let_def exit_reparent_pid)
  moreover have "ppid (ptable (exit_ptable me s) i) = ppid (ptable s i)" for i by (simp add: exit_ptable_def Let_def exit_reparent_pid)
  moreover have "pstate (ptable s i) \<noteq> UNUSED" if "pstate (ptable (exit_ptable me s) i) \<noteq> UNUSED" for i
    using that w_exit.hyps(3) exit_reparent_pid [of me "[0..<NPROC]" "wakeup1 (map_option ChProc (pparent (ptable s me))) s" i]
    by (auto simp: exit_ptable_def Let_def split: if_splits)
  ultimately show ?case by (intro pid_inv_mono [OF w_exit.prems]) auto
next
  case (w_wait s me r s')
  then show ?case by (metis pid_inv_waitpass)
next
  case (w_kill s pid)
  then show ?case
    by (cases "find (\<lambda>i. ppid (ptable s i) = pid) [0..<NPROC]") (auto simp: kill_def intro!: pid_inv_upd split: if_splits)
next
  case (w_wakeup s ch)
  show ?case unfolding wakeup_def by (rule pid_inv_mono [OF w_wakeup.prems]) (auto split: if_splits)
next
  case (w_sleep ch s me s')
  then show ?case by (auto simp: sleep_def intro!: pid_inv_upd)
next
  case (w_woken s me)
  then show ?case unfolding sleep_return_def by (auto intro!: pid_inv_upd)
next
  case (w_yield s me s')
  then show ?case by (auto simp: yield_def intro!: pid_inv_upd)
next
  case (w_in k s i s')
  have "pstate (ptable s i) = RUNNABLE" using w_in.hyps(1) by (auto simp: scheduler_pick_def dest: find_upt)
  then show ?case by (intro pid_inv_mono [OF w_in.prems]) (auto simp: scheduler_in_table [OF w_in.hyps(2)] split: if_splits)
next
  case (w_back s)
  show ?case by (rule pid_inv_mono [OF w_back.prems]) (auto simp: scheduler_back_table)
next
  case (w_other s' s)
  show ?case by (rule pid_inv_mono [OF w_other.prems]) (auto simp: w_other.hyps)
qed

section \<open>What the table guarantees\<close>

text \<open>The table after \<^verbatim>\<open>userinit\<close>: the first process, and free slots as the loader cleared them.\<close>

definition boot_table :: "'a pst_scheme \<Rightarrow> bool" where
  "boot_table s \<longleftrightarrow> initproc s = Some 0 \<and> nextpid s = 2 \<and> pstate (ptable s 0) = RUNNABLE \<and> ppid (ptable s 0) = 1 \<and>
     (\<forall>i. pparent (ptable s i) = None) \<and> (\<forall>i\<noteq>0. pstate (ptable s i) = UNUSED)"

lemma boot_table_inv: "boot_table s \<Longrightarrow> exit_inv s \<and> pid_inv s"
proof (intro conjI)
  assume b: "boot_table s"
  have st: "pstate (ptable s i) = (if i = 0 then RUNNABLE else UNUSED)" for i using b by (simp add: boot_table_def)
  show "exit_inv s" using b by (simp add: exit_inv_def st boot_table_def NPROC_def)
  show "pid_inv s" using b by (simp add: pid_inv_def st boot_table_def)
qed

lemma reachable_inv:
  assumes "wstep\<^sup>*\<^sup>* s s'" "exit_inv s \<and> pid_inv s"
  shows "exit_inv s' \<and> pid_inv s'"
  using assms by (induction rule: rtranclp_induct) (auto intro: exit_inv_step pid_inv_step)

text \<open>C19: from the table the first process starts with, however forks, exits, waits, kills, sleeps, wakeups, yields and the
  scheduler interleave, no process that sleeps in \<^verbatim>\<open>wait\<close> has a child that has exited: no exit is missed, also when the
  child was handed to the first process because its parent exited.\<close>

theorem no_lost_exit:
  assumes "boot_table s0" "wstep\<^sup>*\<^sup>* s0 s" "waits s p" "c < NPROC" "pparent (ptable s c) = Some p"
  shows "pstate (ptable s c) \<noteq> ZOMBIE"
  using reachable_inv [OF assms(2) boot_table_inv [OF assms(1)]] exit_invD(1) assms(3-5) by blast

text \<open>C20: along the same runs two slots in use never have the same process identifier.\<close>

theorem pids_unique:
  assumes "boot_table s0" "wstep\<^sup>*\<^sup>* s0 s" "i < NPROC" "j < NPROC" "pstate (ptable s i) \<noteq> UNUSED" "pstate (ptable s j) \<noteq> UNUSED"
    "ppid (ptable s i) = ppid (ptable s j)"
  shows "i = j"
proof -
  have "pid_inv s" using reachable_inv [OF assms(2) boot_table_inv [OF assms(1)]] by blast
  then show ?thesis using assms(3-7) unfolding pid_inv_def by blast
qed

text \<open>C21: \<^verbatim>\<open>kill\<close> also finds free slots. Killing identifier 0 succeeds where a free slot carries it, and the process that is
  created in that slot next is marked as killed from its first instruction on.\<close>

theorem kill_free_slot:
  assumes free: "find (\<lambda>i. pstate (ptable s i) = UNUSED) [0..<NPROC] = Some i" and z: "find (\<lambda>i. ppid (ptable s i) = 0) [0..<NPROC] = Some i"
    and n: "nextpid s < 2 ^ 31 - 1" and k: "freelist s \<noteq> 0"
  shows "fst (kill 0 s) = 0 \<and> (\<exists>s'. allocproc (snd (kill 0 s)) = Ok (Some i, s') \<and> pkilled (ptable s' i) \<and> ppid (ptable s' i) = nextpid s)"
proof -
  define s1 where "s1 = upd_proc i (\<lambda>p. p\<lparr>pkilled := True\<rparr>) s"
  have i: "pstate (ptable s i) = UNUSED" using free find_upt by blast
  then have "upd_proc i (\<lambda>p. p\<lparr>pkilled := True, pstate := (if pstate p = SLEEPING then RUNNABLE else pstate p)\<rparr>) s = s1"
    by (cases "ptable s i") (simp add: s1_def upd_proc_def)
  then have kl: "kill 0 s = (0, s1)" using z by (simp add: kill_def)
  have "(\<lambda>i. pstate (ptable s1 i) = UNUSED) = (\<lambda>i. pstate (ptable s i) = UNUSED)" by (auto simp: s1_def fun_eq_iff)
  then have f: "find (\<lambda>i. pstate (ptable s1 i) = UNUSED) [0..<NPROC] = Some i" using free by simp
  show ?thesis
    unfolding kl using f n k by (simp add: allocproc_def kalloc_def Let_def s1_def upd_proc_def)
qed

text \<open>A concrete machine: one process that may run, and one free page.\<close>

definition demo_tf :: trapframe where
  "demo_tf = \<lparr>tf_edi = 0, tf_esi = 0, tf_ebp = 0, tf_oesp = 0, tf_ebx = 0, tf_edx = 0, tf_ecx = 0, tf_eax = 0, tf_gs = 0, tf_fs = 0, tf_es = 0,
     tf_ds = 0, tf_trapno = 0, tf_err = 0, tf_eip = 0, tf_cs = 0, tf_eflags = 0, tf_esp = 0, tf_ss = 0\<rparr>"

definition demo_free :: proc where
  "demo_free = \<lparr>psz = 0, ppgdir = 0, pkstack = 0, pstate = UNUSED, ppid = 0, pparent = None, ptf = demo_tf, pctx = context0, pret = 0,
     pchan = None, pkilled = False, ofile = (\<lambda>_. None), pcwd = None, pname = replicate 16 0\<rparr>"

definition demo_init :: proc where
  "demo_init = demo_free\<lparr>ppgdir := 0x80301000, pkstack := 0x80302000, pstate := RUNNABLE, ppid := 1, pcwd := Some 0\<rparr>"

definition demo_ts :: taskstate where
  "demo_ts = \<lparr>ts_link = 0, ts_esp0 = 0, ts_ss0 = 0, ts_esp1 = 0, ts_ss1 = 0, ts_esp2 = 0, ts_ss2 = 0, ts_cr3 = 0, ts_eip = 0,
     ts_eflags = 0, ts_eax = 0, ts_ecx = 0, ts_edx = 0, ts_ebx = 0, ts_esp = 0, ts_ebp = 0, ts_esi = 0, ts_edi = 0,
     ts_es = 0, ts_cs = 0, ts_ss = 0, ts_ds = 0, ts_fs = 0, ts_gs = 0, ts_ldt = 0, ts_t = 0, ts_iomb = 0\<rparr>"

definition demo_ps :: pst where
  "demo_ps = vst.extend
     (ist.extend (demo_ist0\<lparr>freelist := 0x80303000\<rparr>)
        (vst.fields 0 0 0 (\<lambda>_. SEG 0 0 0 0) demo_ts 0 0))
     (pst.fields (\<lambda>i. if i = 0 then demo_init else demo_free) 2 (Some 0) None 0 0 0)"

lemma demo_ps_simps [simp]:
  "ptable demo_ps i = (if i = 0 then demo_init else demo_free)" "nextpid demo_ps = 2" "initproc demo_ps = Some 0" "cur demo_ps = None"
  "freelist demo_ps = 0x80303000"
  by (simp_all add: demo_ps_def pst.defs vst.defs ist.defs)

lemma demo_boot: "boot_table demo_ps"
  by (simp add: boot_table_def demo_init_def demo_free_def)

text \<open>The first process runs, forks, and waits.\<close>

definition demo_child :: "proc \<Rightarrow> proc" where "demo_child p = p\<lparr>pparent := Some 0, pstate := RUNNABLE\<rparr>"

definition demo_ps1 :: pst where "demo_ps1 = (case scheduler_in 0 demo_ps of Ok s \<Rightarrow> s | Err _ \<Rightarrow> demo_ps)"
definition demo_ps2 :: pst where "demo_ps2 = (case allocproc demo_ps1 of Ok (_, s) \<Rightarrow> upd_proc 1 demo_child s | Err _ \<Rightarrow> demo_ps1)"
definition demo_ps3 :: pst where "demo_ps3 = (case wait_pass demo_ps2 of Ok (_, s) \<Rightarrow> s | Err _ \<Rightarrow> demo_ps2)"

lemma demo_run1: "wstep demo_ps demo_ps1" "cur demo_ps1 = Some 0" "ptable demo_ps1 i = (if i = 0 then demo_init\<lparr>pstate := RUNNING\<rparr> else demo_free)"
  "nextpid demo_ps1 = 2" "freelist demo_ps1 = 0x80303000"
proof -
  obtain s' where s': "scheduler_in 0 demo_ps = Ok s'"
    by (simp add: scheduler_in_def Let_def switchuvm_def demo_init_def)
  then have d: "demo_ps1 = s'" by (simp add: demo_ps1_def)
  have "scheduler_pick 0 demo_ps = Some 0"
    by (simp add: scheduler_pick_def upt_conv_Cons NPROC_def demo_init_def)
  then show "wstep demo_ps demo_ps1" unfolding d by (rule w_in) (rule s')
  show "ptable demo_ps1 i = (if i = 0 then demo_init\<lparr>pstate := RUNNING\<rparr> else demo_free)" "nextpid demo_ps1 = 2"
    unfolding d by (simp_all add: scheduler_in_table [OF s'])
  show "cur demo_ps1 = Some 0" "freelist demo_ps1 = 0x80303000"
    using s' unfolding d by (auto simp: scheduler_in_def Let_def switchuvm_def demo_init_def upd_proc_def)
qed

lemma find_second: "\<not> P 0 \<Longrightarrow> P 1 \<Longrightarrow> find P [0..<NPROC] = Some 1"
  by (simp add: NPROC_def upt_conv_Cons)

lemma demo_run2: "wstep demo_ps1 demo_ps2" "cur demo_ps2 = Some 0" "pstate (ptable demo_ps2 0) = RUNNING" "pkilled (ptable demo_ps2 0) = False"
  "pparent (ptable demo_ps2 i) = (if i = 1 then Some 0 else None)" "pstate (ptable demo_ps2 1) = RUNNABLE" "ppid (ptable demo_ps2 0) = 1"
  "ppid (ptable demo_ps2 1) = 2"
proof -
  have "find (\<lambda>i. pstate (ptable demo_ps1 i) = UNUSED) [0..<NPROC] = Some 1"
    by (rule find_second) (simp_all add: demo_run1 demo_free_def)
  then obtain s' where s': "allocproc demo_ps1 = Ok (Some 1, s')" "cur s' = Some 0"
    by (simp add: allocproc_def Let_def kalloc_def demo_run1 upd_proc_def)
  then have d: "demo_ps2 = upd_proc 1 demo_child s'" by (simp add: demo_ps2_def)
  from s'(1) obtain k where t: "ptable s' = (ptable demo_ps1)(1 := (ptable demo_ps1 1)\<lparr>pstate := EMBRYO, ppid := nextpid demo_ps1, pkstack := k,
      pret := at_trapret demo_ps1, pctx := context0\<lparr>c_eip := at_forkret demo_ps1\<rparr>\<rparr>)"
    by (cases rule: allocproc_cases) auto
  show "wstep demo_ps1 demo_ps2"
    unfolding d by (rule w_fork [OF _ _ s'(1), of 0]) (simp_all add: demo_run1 demo_child_def t)
  show "cur demo_ps2 = Some 0" "pstate (ptable demo_ps2 0) = RUNNING" "pkilled (ptable demo_ps2 0) = False"
    "pparent (ptable demo_ps2 i) = (if i = 1 then Some 0 else None)" "pstate (ptable demo_ps2 1) = RUNNABLE" "ppid (ptable demo_ps2 0) = 1"
    "ppid (ptable demo_ps2 1) = 2"
    by (simp_all add: d s'(2) t demo_run1 demo_child_def demo_init_def demo_free_def)
qed

lemma demo_kids: "filter (\<lambda>i. pparent (ptable demo_ps2 i) = Some 0) [0..<NPROC] = [1]"
  by (simp add: demo_run2 NPROC_def upt_conv_Cons)

lemma demo_run3: "wstep demo_ps2 demo_ps3" "waits demo_ps3 0" "pparent (ptable demo_ps3 1) = Some 0" "pstate (ptable demo_ps3 1) = RUNNABLE"
proof -
  have w: "wait_pass demo_ps2 = Ok (WaitSleeps, upd_proc 0 (\<lambda>p. p\<lparr>pchan := Some (ChProc 0), pstate := SLEEPING\<rparr>) demo_ps2)"
    using demo_run2(6) unfolding wait_pass_def demo_run2(2) option.case demo_kids by (simp add: demo_run2(2,4) sleep_def Let_def)
  then have d: "demo_ps3 = upd_proc 0 (\<lambda>p. p\<lparr>pchan := Some (ChProc 0), pstate := SLEEPING\<rparr>) demo_ps2" by (simp add: demo_ps3_def)
  show "wstep demo_ps2 demo_ps3" unfolding d by (rule w_wait [OF _ _ _ w, of 0]) (simp_all add: demo_run2 NPROC_def)
  show "waits demo_ps3 0" "pparent (ptable demo_ps3 1) = Some 0" "pstate (ptable demo_ps3 1) = RUNNABLE"
    using demo_run2(5) [of 1] demo_run2(6) by (simp_all add: d waits_def NPROC_def)
qed

lemma demo_reach: "wstep\<^sup>*\<^sup>* demo_ps demo_ps2" "wstep\<^sup>*\<^sup>* demo_ps demo_ps3"
  using demo_run1(1) demo_run2(1) demo_run3(1) by (metis rtranclp.simps)+

theorem no_lost_exit_witness:
  "boot_table demo_ps \<and> wstep\<^sup>*\<^sup>* demo_ps demo_ps3 \<and> waits demo_ps3 0 \<and> pparent (ptable demo_ps3 1) = Some 0 \<and> pstate (ptable demo_ps3 1) \<noteq> ZOMBIE"
proof -
  have "(1::nat) < NPROC" by (simp add: NPROC_def)
  from no_lost_exit [OF demo_boot demo_reach(2) demo_run3(2) this demo_run3(3)]
  show ?thesis using demo_boot demo_reach(2) demo_run3(2,3) by blast
qed

theorem pids_unique_witness:
  "boot_table demo_ps \<and> wstep\<^sup>*\<^sup>* demo_ps demo_ps2 \<and> ppid (ptable demo_ps2 0) \<noteq> ppid (ptable demo_ps2 1)"
  using pids_unique [OF demo_boot demo_reach(1), of 0 1] demo_boot demo_reach(1) demo_run2
  by (simp add: NPROC_def)

theorem kill_free_slot_witness:
  "fst (kill 0 demo_ps) = 0 \<and> (\<exists>s'. allocproc (snd (kill 0 demo_ps)) = Ok (Some 1, s') \<and> pkilled (ptable s' 1) \<and> ppid (ptable s' 1) = 2)"
proof -
  have "find (\<lambda>i. pstate (ptable demo_ps i) = UNUSED) [0..<NPROC] = Some 1" "find (\<lambda>i. ppid (ptable demo_ps i) = 0) [0..<NPROC] = Some 1"
    by (rule find_second; simp add: demo_init_def demo_free_def)+
  from kill_free_slot [OF this] show ?thesis by simp
qed

end
