(* ===== verification/File.thy ===== *)
theory File
  imports Pipe Sched
begin

text \<open>
  Open files (\<^verbatim>\<open>file.c\<close>, \<^verbatim>\<open>file.h\<close>, and \<^verbatim>\<open>pipealloc\<close> of \<^verbatim>\<open>pipe.c\<close>): the table of open files with
  reference counts, and reading and writing through it. A file is named by its index in \<^verbatim>\<open>ftable.file\<close>. Pipes live in the
  field \<open>pipes\<close>, indexed by the address of their page. A call that sleeps on a pipe ends with \<open>SleepOn\<close>, the calling
  process marked as sleeping; it is resumed by calling it again (for a write, with the index it had reached).
  Buffers are user addresses: loads and stores go through the page directory in \<^verbatim>\<open>%cr3\<close>, and one that faults in the kernel
  ends in the panic of \<^verbatim>\<open>trap\<close>.
\<close>

section \<open>State (file.h)\<close>

definition NFILE :: nat where "NFILE = 100"

datatype filetype = FD_NONE | FD_PIPE | FD_INODE

record kfile =
  ftype :: filetype
  fref :: int
  freadable :: bool
  fwritable :: bool
  fpipe :: u32
  fip :: nat
  foff :: u32

record kst = pst +
  ftable :: "nat \<Rightarrow> kfile"
  pipes :: "u32 \<Rightarrow> pipe"

definition upd_file :: "nat \<Rightarrow> (kfile \<Rightarrow> kfile) \<Rightarrow> 'a kst_scheme \<Rightarrow> 'a kst_scheme" where
  "upd_file f g s = s\<lparr>ftable := (ftable s)(f := g (ftable s f))\<rparr>"

section \<open>User memory\<close>

text \<open>The two-level walk of the processor in supervisor mode; \<open>w\<close> is a write, which also needs \<^verbatim>\<open>PTE_W\<close>.\<close>

definition uaddr :: "bool \<Rightarrow> u32 \<Rightarrow> 'a vst_scheme \<Rightarrow> u32 res" where
  "uaddr w va s =
     (let d = P2V (cr3 s); e = load32 (mem s) (d + 4 * PDX va) in
      if e AND PTE_P = 0 then panic ''trap''
      else let t = load32 (mem s) (P2V (PTE_ADDR e) + 4 * PTX va) in
        if t AND PTE_P = 0 \<or> w \<and> (t AND PTE_W = 0 \<or> e AND PTE_W = 0) then panic ''trap''
        else Ok (P2V (PTE_ADDR t) + (va AND 0xFFF)))"

fun ustore :: "u32 \<Rightarrow> u8 list \<Rightarrow> 'a vst_scheme \<Rightarrow> 'a vst_scheme res" where
  "ustore va [] s = Ok s"
| "ustore va (b # bs) s = bind_res (uaddr True va s) (\<lambda>a. ustore (va + 1) bs (s\<lparr>mem := (mem s)(a := b)\<rparr>))"

fun uload :: "u32 \<Rightarrow> nat \<Rightarrow> 'a vst_scheme \<Rightarrow> u8 list res" where
  "uload va 0 s = Ok []"
| "uload va (Suc n) s = bind_res (uaddr False va s) (\<lambda>a. bind_res (uload (va + 1) n s) (\<lambda>bs. Ok (mem s a # bs)))"

section \<open>Operations (file.c)\<close>

definition filealloc :: "'a kst_scheme \<Rightarrow> nat option \<times> 'a kst_scheme" where
  "filealloc s =
     (case find (\<lambda>f. fref (ftable s f) = 0) [0..<NFILE] of
        Some f \<Rightarrow> (Some f, upd_file f (\<lambda>f. f\<lparr>fref := 1\<rparr>) s)
      | None \<Rightarrow> (None, s))"

definition filedup :: "nat \<Rightarrow> 'a kst_scheme \<Rightarrow> 'a kst_scheme res" where
  "filedup f s =
     (if fref (ftable s f) < 1 then panic ''filedup''
      else Ok (upd_file f (\<lambda>f. f\<lparr>fref := fref f + 1\<rparr>) s))"

text \<open>The channels of the pipe at address \<open>p\<close>, and the wakeups a segment of pipe code makes.\<close>

definition pipe_chan :: "u32 \<Rightarrow> pchan \<Rightarrow> chan" where
  "pipe_chan p c = (case c of NREAD \<Rightarrow> ChNread p | NWRITE \<Rightarrow> ChNwrite p)"

definition pipe_wakeups :: "u32 \<Rightarrow> pchan list \<Rightarrow> 'a pst_scheme \<Rightarrow> 'a pst_scheme" where
  "pipe_wakeups p cs s = fold (\<lambda>c. wakeup (pipe_chan p c)) cs s"

definition close_pipe :: "u32 \<Rightarrow> bool \<Rightarrow> 'a kst_scheme \<Rightarrow> 'a kst_scheme res" where
  "close_pipe p writable s =
     (case pipeclose writable (pipes s p) of (p', ws, dead) \<Rightarrow>
        let s = pipe_wakeups p ws (s\<lparr>pipes := (pipes s)(p := p')\<rparr>) in
        if dead then kfree p s else Ok s)"

definition fileclose :: "nat \<Rightarrow> 'a kst_scheme \<Rightarrow> 'a kst_scheme res" where
  "fileclose f s =
     (if fref (ftable s f) < 1 then panic ''fileclose''
      else if fref (ftable s f) - 1 > 0 then Ok (upd_file f (\<lambda>f. f\<lparr>fref := fref f - 1\<rparr>) s)
      else let ff = ftable s f; s = upd_file f (\<lambda>f. f\<lparr>fref := 0, ftype := FD_NONE\<rparr>) s in
        case ftype ff of
          FD_PIPE \<Rightarrow> close_pipe (fpipe ff) (fwritable ff) s
        | FD_INODE \<Rightarrow> bind_res (begin_op s) (\<lambda>s. bind_res (iput (fip ff) s) end_op)
        | FD_NONE \<Rightarrow> Ok s)"

text \<open>\<^verbatim>\<open>stati\<close> stores the fields at their offsets in \<^verbatim>\<open>struct stat\<close>.\<close>

definition store_stat :: "u32 \<Rightarrow> stat \<Rightarrow> 'a vst_scheme \<Rightarrow> 'a vst_scheme res" where
  "store_stat a st s =
     bind_res (ustore (a + 4) (le32 (st_dev st)) s) (\<lambda>s.
     bind_res (ustore (a + 8) (le32 (st_ino st)) s) (\<lambda>s.
     bind_res (ustore a (le16 (st_type st)) s) (\<lambda>s.
     bind_res (ustore (a + 12) (le16 (st_nlink st)) s) (\<lambda>s.
     ustore (a + 16) (le32 (st_size st)) s))))"

definition filestat :: "nat \<Rightarrow> u32 \<Rightarrow> 'a kst_scheme \<Rightarrow> (int \<times> 'a kst_scheme) res" where
  "filestat f a s =
     (if ftype (ftable s f) = FD_INODE
      then let ip = fip (ftable s f) in
           bind_res (ilock ip s) (\<lambda>s.
           bind_res (store_stat a (stati ip s) s) (\<lambda>s.
           bind_res (iunlock ip s) (\<lambda>s. Ok (0, s))))
      else Ok (- 1, s))"

text \<open>How a call on a pipe goes on after its segment.\<close>

definition pipe_end :: "u32 \<Rightarrow> int segment \<Rightarrow> 'a kst_scheme \<Rightarrow> (int segment \<times> 'a kst_scheme) res" where
  "pipe_end p r s =
     (case r of Return v \<Rightarrow> Ok (Return v, s)
      | SleepOn c \<Rightarrow> bind_res (sleep (pipe_chan p c) True s) (\<lambda>s. Ok (SleepOn c, s)))"

definition my_killed :: "'a pst_scheme \<Rightarrow> bool" where
  "my_killed s = (case cur s of Some me \<Rightarrow> pkilled (ptable s me) | None \<Rightarrow> False)"

definition fileread :: "'a kst_scheme devsw \<Rightarrow> nat \<Rightarrow> u32 \<Rightarrow> int \<Rightarrow> 'a kst_scheme \<Rightarrow> (int segment \<times> 'a kst_scheme) res" where
  "fileread dsw f addr n s =
     (let ff = ftable s f in
      if \<not> freadable ff then Ok (Return (- 1), s)
      else case ftype ff of
        FD_PIPE \<Rightarrow>
          (case piperead (my_killed s) n (pipes s (fpipe ff)) of (p, bs, ws, r) \<Rightarrow>
             bind_res (ustore addr bs (s\<lparr>pipes := (pipes s)(fpipe ff := p)\<rparr>)) (\<lambda>s.
               pipe_end (fpipe ff) r (pipe_wakeups (fpipe ff) ws s)))
      | FD_INODE \<Rightarrow>
          bind_res (ilock (fip ff) s) (\<lambda>s.
          bind_res (readi dsw (fip ff) (foff (ftable s f)) (of_int n) s) (\<lambda>(d, s).
            case d of
              None \<Rightarrow> bind_res (iunlock (fip ff) s) (\<lambda>s. Ok (Return (- 1), s))
            | Some bs \<Rightarrow>
                bind_res (ustore addr bs s) (\<lambda>s.
                bind_res (iunlock (fip ff) (upd_file f (\<lambda>x. x\<lparr>foff := foff x + of_nat (length bs)\<rparr>) s)) (\<lambda>s.
                  Ok (Return (int (length bs)), s)))))
      | FD_NONE \<Rightarrow> panic ''fileread'')"

text \<open>At most \<^verbatim>\<open>((MAXOPBLOCKS-1-1-2) / 2) * 512\<close> bytes go into one transaction. The loop is at byte \<open>i\<close> of \<open>n\<close>; the boolean
  is false when a write failed.\<close>

definition FILEMAX :: nat where "FILEMAX = (nat MAXOPBLOCKS - 1 - 1 - 2) div 2 * 512"

lemma FILEMAX_pos: "0 < FILEMAX"
  by (simp add: FILEMAX_def MAXOPBLOCKS_def)

definition filewrite_chunk :: "'a kst_scheme devsw \<Rightarrow> nat \<Rightarrow> u32 \<Rightarrow> nat \<Rightarrow> 'a kst_scheme \<Rightarrow> (int \<times> 'a kst_scheme) res" where
  "filewrite_chunk dsw f addr n1 s =
     (let ip = fip (ftable s f) in
      bind_res (begin_op s) (\<lambda>s.
      bind_res (ilock ip s) (\<lambda>s.
      bind_res (uload addr n1 s) (\<lambda>bs.
      bind_res (writei dsw ip bs (foff (ftable s f)) s) (\<lambda>(r, s).
      bind_res (iunlock ip (if 0 < r then upd_file f (\<lambda>x. x\<lparr>foff := foff x + of_int r\<rparr>) s else s)) (\<lambda>s.
      bind_res (end_op s) (\<lambda>s. Ok (r, s))))))))"

function filewrite_loop :: "'a kst_scheme devsw \<Rightarrow> nat \<Rightarrow> u32 \<Rightarrow> nat \<Rightarrow> nat \<Rightarrow> 'a kst_scheme \<Rightarrow> (bool \<times> 'a kst_scheme) res" where
  "filewrite_loop dsw f addr n i s =
     (if i < n
      then let n1 = min (n - i) FILEMAX in
        bind_res (filewrite_chunk dsw f (addr + of_nat i) n1 s) (\<lambda>(r, s).
          if r < 0 then Ok (False, s)
          else if r \<noteq> int n1 then panic ''short filewrite''
          else filewrite_loop dsw f addr n (i + n1) s)
      else Ok (True, s))"
  by pat_completeness auto
termination filewrite_loop
  by (relation "measure (\<lambda>(dsw, f, addr, n, i, s). n - i)") (use FILEMAX_pos in \<open>auto simp: min_def\<close>)

declare filewrite_loop.simps [simp del]

definition filewrite :: "'a kst_scheme devsw \<Rightarrow> nat \<Rightarrow> u32 \<Rightarrow> int \<Rightarrow> nat \<Rightarrow> 'a kst_scheme \<Rightarrow> (nat \<times> int segment \<times> 'a kst_scheme) res" where
  "filewrite dsw f addr n i s =
     (let ff = ftable s f in
      if \<not> fwritable ff then Ok (0, Return (- 1), s)
      else case ftype ff of
        FD_PIPE \<Rightarrow>
          bind_res (uload addr (nat n) s) (\<lambda>bs.
          case pipewrite (my_killed s) (\<lambda>i. bs ! i) n i (pipes s (fpipe ff)) of (p, j, ws, r) \<Rightarrow>
            bind_res (pipe_end (fpipe ff) r (pipe_wakeups (fpipe ff) ws (s\<lparr>pipes := (pipes s)(fpipe ff := p)\<rparr>))) (\<lambda>(r, s). Ok (j, r, s)))
      | FD_INODE \<Rightarrow>
          if n \<le> 0 then Ok (0, Return (if n = 0 then 0 else - 1), s)
          else bind_res (filewrite_loop dsw f addr (nat n) 0 s) (\<lambda>(ok, s). Ok (0, Return (if ok then n else - 1), s))
      | FD_NONE \<Rightarrow> panic ''filewrite'')"

section \<open>Making a pipe (pipe.c)\<close>

text \<open>The data bytes of a new pipe are what the page holds behind the lock, 52 bytes into it.\<close>

definition pipealloc_bad :: "nat option \<Rightarrow> nat option \<Rightarrow> 'a kst_scheme \<Rightarrow> 'a kst_scheme res" where
  "pipealloc_bad f0 f1 s =
     bind_res (case f0 of Some f \<Rightarrow> fileclose f s | None \<Rightarrow> Ok s) (\<lambda>s.
       case f1 of Some f \<Rightarrow> fileclose f s | None \<Rightarrow> Ok s)"

definition pipealloc :: "'a kst_scheme \<Rightarrow> ((nat \<times> nat) option \<times> 'a kst_scheme) res" where
  "pipealloc s =
     (case filealloc s of
        (None, s) \<Rightarrow> bind_res (pipealloc_bad None None s) (\<lambda>s. Ok (None, s))
      | (Some f0, s) \<Rightarrow>
        (case filealloc s of
           (None, s) \<Rightarrow> bind_res (pipealloc_bad (Some f0) None s) (\<lambda>s. Ok (None, s))
         | (Some f1, s) \<Rightarrow>
           (case kalloc s of (p, s) \<Rightarrow>
              if p = 0 then bind_res (pipealloc_bad (Some f0) (Some f1) s) (\<lambda>s. Ok (None, s))
              else let s = s\<lparr>pipes := (pipes s)(p := pipe_init (map (\<lambda>i. mem s (p + 52 + of_nat i)) [0..<PIPESIZE]))\<rparr>;
                       s = upd_file f0 (\<lambda>f. f\<lparr>ftype := FD_PIPE, freadable := True, fwritable := False, fpipe := p\<rparr>) s;
                       s = upd_file f1 (\<lambda>f. f\<lparr>ftype := FD_PIPE, freadable := False, fwritable := True, fpipe := p\<rparr>) s
                   in Ok (Some (f0, f1), s))))"

end
