(* ===== verification/Proc.thy ===== *)
theory Proc
  imports File
begin

text \<open>
  Creation and end of processes (\<^verbatim>\<open>fork\<close>, \<^verbatim>\<open>exit\<close>, \<^verbatim>\<open>userinit\<close>, \<^verbatim>\<open>forkret\<close> of \<^verbatim>\<open>proc.c\<close>): the parts
  that also deal with memory, open files and directories. The table itself is in the theory \<open>Sched\<close>.
\<close>

definition FL_IF :: u32 where "FL_IF = 0x200"

text \<open>\<^verbatim>\<open>safestrcpy(d, t, n + 1)\<close> on byte lists; \<open>d\<close> is what the destination held.\<close>

fun safestrcpy_list :: "nat \<Rightarrow> u8 list \<Rightarrow> u8 list \<Rightarrow> u8 list" where
  "safestrcpy_list 0 d t = 0 # tl d"
| "safestrcpy_list (Suc n) d t = (let c = char0 t in c # (if c \<noteq> 0 then safestrcpy_list n (tl d) (tl t) else 0 # tl (tl d)))"

definition set_name :: "u8 list \<Rightarrow> proc \<Rightarrow> proc" where
  "set_name t p = p\<lparr>pname := safestrcpy_list 15 (pname p) t\<rparr>"

section \<open>fork\<close>

text \<open>The loop over the descriptors of \<open>me\<close>.\<close>

fun fork_files :: "nat \<Rightarrow> nat \<Rightarrow> nat list \<Rightarrow> 'a kst_scheme \<Rightarrow> 'a kst_scheme res" where
  "fork_files me np [] s = Ok s"
| "fork_files me np (i # is) s =
     (case ofile (ptable s me) i of
        None \<Rightarrow> fork_files me np is s
      | Some f \<Rightarrow> bind_res (filedup f s) (\<lambda>s. fork_files me np is (upd_proc np (\<lambda>p. p\<lparr>ofile := (ofile p)(i := Some f)\<rparr>) s)))"

definition fork :: "'a kst_scheme \<Rightarrow> (int \<times> 'a kst_scheme) res" where
  "fork s =
     (case cur s of None \<Rightarrow> Err Wild
      | Some me \<Rightarrow>
        bind_res (allocproc s) (\<lambda>(r, s). case r of
          None \<Rightarrow> Ok (- 1, s)
        | Some np \<Rightarrow>
            bind_res (copyuvm (ppgdir (ptable s me)) (psz (ptable s me)) s) (\<lambda>(d, s).
              let s = upd_proc np (\<lambda>p. p\<lparr>ppgdir := d\<rparr>) s in
              if d = 0
              then bind_res (kfree (pkstack (ptable s np)) s) (\<lambda>s.
                     Ok (- 1, upd_proc np (\<lambda>p. p\<lparr>pkstack := 0, pstate := UNUSED\<rparr>) s))
              else let s = upd_proc np (\<lambda>p. p\<lparr>psz := psz (ptable s me), pparent := Some me, ptf := (ptf (ptable s me))\<lparr>tf_eax := 0\<rparr>\<rparr>) s in
                bind_res (fork_files me np [0..<NOFILE] s) (\<lambda>s.
                  case pcwd (ptable s me) of
                    None \<Rightarrow> Err Wild
                  | Some d \<Rightarrow>
                      let s = upd_proc np (\<lambda>p. set_name (pname (ptable s me)) (p\<lparr>pcwd := Some d\<rparr>)) (idup d s) in
                      Ok (ppid (ptable s np), upd_proc np (\<lambda>p. p\<lparr>pstate := RUNNABLE\<rparr>) s)))))"

section \<open>exit\<close>

fun exit_files :: "nat \<Rightarrow> nat list \<Rightarrow> 'a kst_scheme \<Rightarrow> 'a kst_scheme res" where
  "exit_files me [] s = Ok s"
| "exit_files me (fd # fds) s =
     (case ofile (ptable s me) fd of
        None \<Rightarrow> exit_files me fds s
      | Some f \<Rightarrow> bind_res (fileclose f s) (\<lambda>s. exit_files me fds (upd_proc me (\<lambda>p. p\<lparr>ofile := (ofile p)(fd := None)\<rparr>) s)))"

definition exit :: "'a kst_scheme \<Rightarrow> 'a kst_scheme res" where
  "exit s =
     (case cur s of None \<Rightarrow> Err Wild
      | Some me \<Rightarrow>
        if initproc s = Some me then panic ''init exiting''
        else bind_res (exit_files me [0..<NOFILE] s) (\<lambda>s.
             bind_res (begin_op s) (\<lambda>s.
             case pcwd (ptable s me) of
               None \<Rightarrow> Err Wild
             | Some d \<Rightarrow>
                 bind_res (iput d s) (\<lambda>s.
                 bind_res (end_op s) (\<lambda>s.
                   Ok (exit_ptable me (upd_proc me (\<lambda>p. p\<lparr>pcwd := None\<rparr>) s)))))))"

section \<open>The first process\<close>

text \<open>\<open>init\<close> and \<open>isz\<close> are the address and the size of the program \<^verbatim>\<open>initcode\<close> that the linker puts into the kernel.\<close>

definition tf0 :: trapframe where
  "tf0 = \<lparr>tf_edi = 0, tf_esi = 0, tf_ebp = 0, tf_oesp = 0, tf_ebx = 0, tf_edx = 0, tf_ecx = 0, tf_eax = 0, tf_gs = 0, tf_fs = 0, tf_es = 0,
     tf_ds = 0, tf_trapno = 0, tf_err = 0, tf_eip = 0, tf_cs = 0, tf_eflags = 0, tf_esp = 0, tf_ss = 0\<rparr>"

definition user_tf :: trapframe where
  "user_tf = (let d = of_nat SEG_UDATA * 8 OR ucast DPL_USER in
     tf0\<lparr>tf_cs := of_nat SEG_UCODE * 8 OR ucast DPL_USER, tf_ds := d, tf_es := d, tf_ss := d,
         tf_eflags := FL_IF, tf_esp := PGSIZE, tf_eip := 0\<rparr>)"

definition initcode_name :: "u8 list" where
  "initcode_name = [0x69, 0x6e, 0x69, 0x74, 0x63, 0x6f, 0x64, 0x65]"

definition userinit :: "'a kst_scheme devsw \<Rightarrow> u32 \<Rightarrow> u32 \<Rightarrow> 'a kst_scheme \<Rightarrow> 'a kst_scheme res" where
  "userinit dsw init isz s =
     bind_res (allocproc s) (\<lambda>(r, s). case r of
       None \<Rightarrow> Err Wild
     | Some p \<Rightarrow>
         bind_res (setupkvm (s\<lparr>initproc := Some p\<rparr>)) (\<lambda>(d, s).
           let s = upd_proc p (\<lambda>x. x\<lparr>ppgdir := d\<rparr>) s in
           if d = 0 then panic ''userinit: out of memory?''
           else bind_res (inituvm d init isz s) (\<lambda>s.
             let s = upd_proc p (\<lambda>x. set_name initcode_name (x\<lparr>psz := PGSIZE, ptf := user_tf\<rparr>)) s in
             bind_res (namei dsw [slash] s) (\<lambda>(cwd, s).
               Ok (upd_proc p (\<lambda>x. x\<lparr>pcwd := cwd, pstate := RUNNABLE\<rparr>) s)))))"

text \<open>A process that is scheduled for the first time starts here; \<open>first\<close> is the static flag.\<close>

definition forkret :: "bool \<Rightarrow> 'a kst_scheme \<Rightarrow> (bool \<times> 'a kst_scheme) res" where
  "forkret first s =
     (if first then bind_res (iinit ROOTDEV s) (\<lambda>s. bind_res (initlog ROOTDEV s) (\<lambda>s. Ok (False, s)))
      else Ok (first, s))"

end
