(* ===== verification/Frame.thy ===== *)
theory Frame
  imports Vm
begin

text \<open>
  What the file system and the memory code leave alone. A projection that ignores the fields they own (memory, disk, buffers, log,
  superblock, inodes) keeps its value across every one of their operations. The locale \<open>fs_frame\<close> states this once for any
  such projection; the theories above use it for the process table, the open files and the console.
\<close>

section \<open>Results that keep a projection\<close>

definition keeps :: "('s \<Rightarrow> 'p) \<Rightarrow> 'p \<Rightarrow> 's res \<Rightarrow> bool" where
  "keeps pr v m \<longleftrightarrow> (\<forall>s. m = Ok s \<longrightarrow> pr s = v)"

definition keepr :: "('s \<Rightarrow> 'p) \<Rightarrow> 'p \<Rightarrow> ('r \<times> 's) res \<Rightarrow> bool" where
  "keepr pr v m \<longleftrightarrow> (\<forall>r s. m = Ok (r, s) \<longrightarrow> pr s = v)"

named_theorems keep

lemma keeps_Ok [keep]: "pr s = v \<Longrightarrow> keeps pr v (Ok s)"
  and keepr_Ok [keep]: "pr s = v \<Longrightarrow> keepr pr v (Ok (r, s))"
  by (simp_all add: keeps_def keepr_def)

lemma keep_Err [simp]: "keeps pr v (Err e)" "keepr pr v (Err e)" "keeps pr v (panic msg)" "keepr pr v (panic msg)"
  by (simp_all add: keeps_def keepr_def)

lemma keeps_bind_s [keep]: "keeps pr v m \<Longrightarrow> (\<And>s. pr s = v \<Longrightarrow> keeps pr v (k s)) \<Longrightarrow> keeps pr v (bind_res m k)"
  and keeps_bind_r [keep]: "keepr pr v n \<Longrightarrow> (\<And>r s. pr s = v \<Longrightarrow> keeps pr v (l (r, s))) \<Longrightarrow> keeps pr v (bind_res n l)"
  and keepr_bind_s [keep]: "keeps pr v m \<Longrightarrow> (\<And>s. pr s = v \<Longrightarrow> keepr pr v (k' s)) \<Longrightarrow> keepr pr v (bind_res m k')"
  and keepr_bind_r [keep]: "keepr pr v n \<Longrightarrow> (\<And>r s. pr s = v \<Longrightarrow> keepr pr v (l' (r, s))) \<Longrightarrow> keepr pr v (bind_res n l')"
  by (auto simp: keeps_def keepr_def bind_res_eq_Ok)

text \<open>Binding a result that carries no state.\<close>

lemma keeps_bind_pure: "(\<And>x. keeps pr v (k x)) \<Longrightarrow> keeps pr v (bind_res m k)"
  and keepr_bind_pure: "(\<And>x. keepr pr v (k' x)) \<Longrightarrow> keepr pr v (bind_res m k')"
  by (auto simp: keeps_def keepr_def bind_res_eq_Ok)

lemma keepsD: "keeps pr v m \<Longrightarrow> m = Ok s \<Longrightarrow> pr s = v"
  and keeprD: "keepr pr v n \<Longrightarrow> n = Ok (r, s') \<Longrightarrow> pr s' = v"
  by (auto simp: keeps_def keepr_def)

section \<open>The file system and memory\<close>

locale fs_frame =
  fixes pr :: "'a ist_scheme \<Rightarrow> 'p"
  assumes ignores_mem [simp]: "pr (s\<lparr>mem := m\<rparr>) = pr s" "pr (s\<lparr>freelist := f\<rparr>) = pr s"
    and ignores_bufs [simp]: "pr (s\<lparr>bufs := b\<rparr>) = pr s" "pr (s\<lparr>disk := d\<rparr>) = pr s" "pr (s\<lparr>dwrites := w\<rparr>) = pr s"
    and ignores_log [simp]: "pr (s\<lparr>outstanding := i\<rparr>) = pr s" "pr (s\<lparr>committing := c\<rparr>) = pr s" "pr (s\<lparr>lhn := i\<rparr>) = pr s"
      "pr (s\<lparr>lhblock := bl\<rparr>) = pr s"
    and ignores_inodes [simp]: "pr (s\<lparr>inodes := ins\<rparr>) = pr s"
begin

lemma iderw_keeps [keep]: "pr s = v \<Longrightarrow> keeps pr v (iderw i s)"
  by (auto simp: iderw_def Let_def intro!: keep)

lemma lock_buf_keeps [keep]: "pr s = v \<Longrightarrow> keepr pr v (lock_buf i s)"
  unfolding lock_buf_def by (rule keepr_bind_pure) (auto intro!: keep)

lemma bget_keeps [keep]: "pr s = v \<Longrightarrow> keepr pr v (bget dev b s)"
  by (auto simp: bget_def intro!: keep split: option.splits)

lemma bread_keeps [keep]: "pr s = v \<Longrightarrow> keepr pr v (bread dev b s)"
  by (auto simp: bread_def intro!: keep)

lemma bwrite_keeps [keep]: "pr s = v \<Longrightarrow> keeps pr v (bwrite i s)"
  by (auto simp: bwrite_def intro!: keep)

lemma brelse_keeps [keep]: "pr s = v \<Longrightarrow> keeps pr v (brelse i s)"
  by (auto simp: brelse_def Let_def intro!: keep)

lemma set_data_pr [simp]: "pr (set_data i d s) = pr s" "pr (mark_dirty i s) = pr s"
  by (simp_all add: set_data_def mark_dirty_def)

lemma log_write_keeps [keep]: "pr s = v \<Longrightarrow> keeps pr v (log_write b s)"
  by (auto simp: log_write_def Let_def intro!: keep)

lemma begin_op_keeps [keep]: "pr s = v \<Longrightarrow> keeps pr v (begin_op s)"
  by (auto simp: begin_op_def intro!: keep)

lemma install_loop_keeps [keep]: "pr s = v \<Longrightarrow> keeps pr v (install_loop ks s)"
proof (induction ks arbitrary: s v)
  case (Cons k ks)
  show ?case by (auto intro!: keep keeps_bind_pure [where m = "lh_block _ _"] Cons.IH Cons.prems)
qed (simp add: keep)

lemma write_log_loop_keeps [keep]: "pr s = v \<Longrightarrow> keeps pr v (write_log_loop ks s)"
proof (induction ks arbitrary: s v)
  case (Cons k ks)
  show ?case by (auto intro!: keep keeps_bind_pure [where m = "lh_block _ _"] Cons.IH Cons.prems)
qed (simp add: keep)

lemma write_head_keeps [keep]: "pr s = v \<Longrightarrow> keeps pr v (write_head s)"
  by (auto simp: write_head_def Let_def intro!: keep)

lemma commit_keeps [keep]: "pr s = v \<Longrightarrow> keeps pr v (commit s)"
  by (auto simp: commit_def write_log_def install_trans_def intro!: keep)

lemma end_op_keeps [keep]: "pr s = v \<Longrightarrow> keeps pr v (end_op s)"
  by (auto simp: end_op_def Let_def intro!: keep)

lemma bzero_keeps [keep]: "pr s = v \<Longrightarrow> keeps pr v (bzero dev b s)"
  by (auto simp: bzero_def intro!: keep)

lemma balloc_loop_keeps [keep]: "pr s = v \<Longrightarrow> keepr pr v (balloc_loop dev bs s)"
  by (induction bs arbitrary: s) (auto intro!: keep split: option.splits)

lemma balloc_keeps [keep]: "pr s = v \<Longrightarrow> keepr pr v (balloc dev s)"
  by (simp add: balloc_def balloc_loop_keeps)

lemma bfree_keeps [keep]: "pr s = v \<Longrightarrow> keeps pr v (bfree dev b s)"
  by (auto simp: bfree_def Let_def intro!: keep)

lemma upd_inode_pr [simp]: "pr (upd_inode ip f s) = pr s"
  by (simp add: upd_inode_def)

lemma idup_pr [simp]: "pr (idup ip s) = pr s"
  by (simp add: idup_def)

lemma iget_keeps [keep]: "pr s = v \<Longrightarrow> keepr pr v (iget dev i s)"
  by (auto simp: iget_def intro!: keep split: prod.splits option.splits)

lemma ialloc_loop_keeps: "pr s = v \<Longrightarrow> keepr pr v (ialloc_loop dev ty is s)"
  by (induction "is" arbitrary: s) (auto simp: Let_def intro!: keep)

lemma ialloc_keeps [keep]: "pr s = v \<Longrightarrow> keepr pr v (ialloc dev ty s)"
  by (simp add: ialloc_def ialloc_loop_keeps)

lemma iupdate_keeps [keep]: "pr s = v \<Longrightarrow> keeps pr v (iupdate ip s)"
  by (auto simp: iupdate_def Let_def intro!: keep)

lemma ilock_keeps [keep]: "pr s = v \<Longrightarrow> keeps pr v (ilock ip s)"
  by (auto simp: ilock_def Let_def intro!: keeps_bind_pure [where m = "acquiresleep _ _"] keep)

lemma iunlock_keeps [keep]: "pr s = v \<Longrightarrow> keeps pr v (iunlock ip s)"
  by (auto simp: iunlock_def intro!: keep)

lemma bmap_keeps [keep]: "pr s = v \<Longrightarrow> keepr pr v (bmap ip bn s)"
  by (auto simp: bmap_def Let_def intro!: keep)

lemma itrunc_direct_keeps [keep]: "pr s = v \<Longrightarrow> keeps pr v (itrunc_direct ip is s)"
  by (induction "is" arbitrary: s) (auto simp: Let_def intro!: keep)

lemma itrunc_indirect_keeps [keep]: "pr s = v \<Longrightarrow> keeps pr v (itrunc_indirect ip bp js s)"
  by (induction js arbitrary: s) (auto simp: Let_def intro!: keep)

lemma itrunc_keeps [keep]: "pr s = v \<Longrightarrow> keeps pr v (itrunc ip s)"
  by (auto simp: itrunc_def Let_def intro!: keep)

lemma iput_keeps [keep]: "pr s = v \<Longrightarrow> keeps pr v (iput ip s)"
  by (auto simp: iput_def Let_def intro!: keeps_bind_pure [where m = "acquiresleep _ _"] keep)

lemma iunlockput_keeps [keep]: "pr s = v \<Longrightarrow> keeps pr v (iunlockput ip s)"
  by (auto simp: iunlockput_def intro!: keep)

lemma readi_loop_keeps [keep]: "pr s = v \<Longrightarrow> keepr pr v (readi_loop ip off rem acc s)"
proof (induction rem arbitrary: off acc s v rule: less_induct)
  case (less rem)
  have "rem - chunk off rem < rem" if "0 < rem" using that chunk_pos [of rem off] by simp
  then show ?case by (subst readi_loop.simps) (auto simp: Let_def intro!: keep less.IH less.prems)
qed

lemma writei_loop_keeps [keep]: "pr s = v \<Longrightarrow> keepr pr v (writei_loop ip off src s)"
proof (induction "length src" arbitrary: src off s v rule: less_induct)
  case less
  have "length (drop (chunk off (length src)) src) < length src" if "src \<noteq> []" using that chunk_pos [of "length src" off] by simp
  then show ?case by (subst writei_loop.simps) (auto simp: Let_def intro!: keep less.hyps less.prems)
qed

lemma kalloc_pr [simp]: "pr (snd (kalloc s)) = pr s"
  by (simp add: kalloc_def Let_def)

lemma kfree_keeps [keep]: "pr s = v \<Longrightarrow> keeps pr v (kfree p s)"
  by (auto simp: kfree_def Let_def intro!: keep)

lemma mem_only_pr: "mem_only s s' \<Longrightarrow> pr s' = pr s"
  unfolding mem_only_def by (metis ignores_mem)

lemma freevm_keeps [keep]: "pr s = v \<Longrightarrow> keeps pr v (freevm d s)"
  using mem_only_pr freevm_mem_only by (fastforce simp: keeps_def)

lemma deallocuvm_keeps [keep]: "pr s = v \<Longrightarrow> keepr pr v (deallocuvm d a b s)"
  using mem_only_pr deallocuvm_mem_only by (fastforce simp: keepr_def)

lemma walkpgdir_pr [simp]: "pr (snd (walkpgdir d va al s)) = pr s"
  by (auto simp: walkpgdir_def Let_def kalloc_def split: prod.splits)

lemma kalloc_pair: "kalloc s = (p, s') \<Longrightarrow> pr s' = pr s"
  using kalloc_pr [of s] by simp

lemma walk_pair: "walkpgdir d va al s = (p, s') \<Longrightarrow> pr s' = pr s"
  using walkpgdir_pr [of d va al s] by simp

lemma mappages_loop_keeps [keep]: "pr s = v \<Longrightarrow> keepr pr v (mappages_loop d as pa perm s)"
proof (induction "as" arbitrary: s pa v)
  case (Cons a as)
  obtain p s1 where w: "walkpgdir d a True s = (p, s1)" by (cases "walkpgdir d a True s")
  have "pr s1 = v" using walk_pair [OF w] Cons.prems by simp
  then show ?case by (auto simp: w intro!: keep Cons.IH)
qed (simp add: keep)

lemma mappages_keeps [keep]: "pr s = v \<Longrightarrow> keepr pr v (mappages d va sz pa perm s)"
  by (simp add: mappages_def mappages_loop_keeps)

lemma allocuvm_loop_keeps [keep]: "pr s = v \<Longrightarrow> keepr pr v (allocuvm_loop d old new as s)"
proof (induction "as" arbitrary: s v)
  case (Cons a as)
  obtain p s1 where k: "kalloc s = (p, s1)" by (cases "kalloc s")
  have "pr s1 = v" using kalloc_pair [OF k] Cons.prems by simp
  then show ?case by (auto simp: k intro!: keep Cons.IH)
qed (simp add: keep)

lemma allocuvm_keeps [keep]: "pr s = v \<Longrightarrow> keepr pr v (allocuvm d old new s)"
  by (auto simp: allocuvm_def intro!: keep)

lemma clearpteu_keeps [keep]: "pr s = v \<Longrightarrow> keeps pr v (clearpteu d va s)"
  by (auto simp: clearpteu_def Let_def intro!: keep)

lemma copyout_keeps [keep]: "pr s = v \<Longrightarrow> keepr pr v (copyout d va bs s)"
proof (induction d va bs s rule: copyout.induct)
  case (1 d va bs s)
  show ?case
  proof (cases "bs = []")
    case True
    then show ?thesis using "1.prems" by (subst copyout.simps) (simp add: keep)
  next
    case False
    have "keepr pr v (if pa0 = 0 then Ok (- 1, s)
       else let n = min (4096 - unat (va - PGROUNDDOWN va)) (length bs) in
         copyout d (PGROUNDDOWN va + PGSIZE) (drop n bs) (s\<lparr>mem := store_bytes (pa0 + (va - PGROUNDDOWN va)) (take n bs) (mem s)\<rparr>))"
      if "uva2ka d (PGROUNDDOWN va) s = Ok pa0" for pa0
    proof (cases "pa0 = 0")
      case True
      then show ?thesis using "1.prems" by (simp add: keep)
    next
      case nz: False
      show ?thesis unfolding Let_def using nz "1.prems" by (simp add: "1.IH" [OF False refl that nz refl])
    qed
    then show ?thesis using False by (subst copyout.simps) (auto simp: keepr_def bind_res_eq_Ok Let_def)
  qed
qed

end

text \<open>Devices that keep the projection too.\<close>

locale dev_frame = fs_frame pr for pr :: "'a ist_scheme \<Rightarrow> 'p" +
  fixes dsw :: "'a ist_scheme devsw"
  assumes dev_read: "dv_read (dsw m) = Some rd \<Longrightarrow> pr s = v \<Longrightarrow> keepr pr v (rd ip n s)"
    and dev_write: "dv_write (dsw m) = Some wr \<Longrightarrow> pr s = v \<Longrightarrow> keepr pr v (wr ip bs s)"
begin

lemma readi_keeps [keep]: "pr s = v \<Longrightarrow> keepr pr v (readi dsw ip off n s)"
  by (cases "dv_read (dsw (unat (imajor (inodes s ip))))") (auto simp: readi_def Let_def dev_read intro!: keep)

lemma writei_keeps [keep]: "pr s = v \<Longrightarrow> keepr pr v (writei dsw ip src off s)"
  by (cases "dv_write (dsw (unat (imajor (inodes s ip))))") (auto simp: writei_def Let_def dev_write intro!: keep)

lemma dirlookup_loop_keeps [keep]: "pr s = v \<Longrightarrow> keepr pr v (dirlookup_loop dsw dp name offs s)"
  by (induction offs arbitrary: s) (auto simp: Let_def intro!: keep split: option.splits)

lemma dirlookup_keeps [keep]: "pr s = v \<Longrightarrow> keepr pr v (dirlookup dsw dp name s)"
  by (auto simp: dirlookup_def intro!: keep)

lemma dirlink_find_keeps [keep]: "pr s = v \<Longrightarrow> keepr pr v (dirlink_find dsw dp e offs s)"
  by (induction offs arbitrary: s) (auto intro!: keep split: option.splits)

lemma dirlink_keeps [keep]: "pr s = v \<Longrightarrow> keepr pr v (dirlink dsw dp name i s)"
  by (auto simp: dirlink_def Let_def intro!: keep split: option.splits)

lemma namex_loop_keeps [keep]: "pr s = v \<Longrightarrow> keepr pr v (namex_loop dsw par ip path s)"
proof (induction "length path" arbitrary: path par ip s v rule: less_induct)
  case less
  show ?case
    by (subst namex_loop.simps) (auto intro!: keep less.prems less.hyps [OF skipelem_shorter] split: option.splits)
qed

lemma namex_keeps [keep]: "pr s = v \<Longrightarrow> keepr pr v (namex dsw path par s)"
  by (auto simp: namex_def intro!: keep)

lemma namei_keeps [keep]: "pr s = v \<Longrightarrow> keepr pr v (namei dsw path s)"
  by (auto simp: namei_def intro!: keep)

lemma nameiparent_keeps [keep]: "pr s = v \<Longrightarrow> keepr pr v (nameiparent dsw path s)"
  by (auto simp: nameiparent_def intro!: keep)

lemma loaduvm_loop_keeps [keep]: "pr s = v \<Longrightarrow> keepr pr v (loaduvm_loop dsw d a ip off sz is s)"
  by (induction "is" arbitrary: s) (auto simp: Let_def intro!: keep split: option.splits)

lemma loaduvm_keeps [keep]: "pr s = v \<Longrightarrow> keepr pr v (loaduvm dsw d a ip off sz s)"
  by (auto simp: loaduvm_def intro!: keep)

end

end
