(* ===== verification/Exec.thy ===== *)
theory Exec
  imports Proc Frame
begin

text \<open>
  System call arguments (\<^verbatim>\<open>fetchint\<close> to \<^verbatim>\<open>argstr\<close> of \<^verbatim>\<open>syscall.c\<close>) and the loading of programs (\<^verbatim>\<open>exec.c\<close>,
  \<^verbatim>\<open>elf.h\<close>). Fetching an argument yields \<open>None\<close> where the code returns \<open>-1\<close>. A string argument is the list of its bytes
  without the terminating NUL. Messages printed on failure are not part of the state.
\<close>

section \<open>Arguments of system calls (syscall.c)\<close>

definition fetchint :: "u32 \<Rightarrow> 'a pst_scheme \<Rightarrow> u32 option res" where
  "fetchint addr s =
     (case cur s of None \<Rightarrow> Err Wild
      | Some me \<Rightarrow>
        let sz = psz (ptable s me) in
        if sz \<le> addr \<or> sz < addr + 4 then Ok None
        else bind_res (uload addr 4 s) (\<lambda>bs. Ok (Some (of_le32 bs))))"

text \<open>The scan of \<^verbatim>\<open>fetchstr\<close> with \<open>n\<close> bytes left below the end of the process.\<close>

fun fetchstr_loop :: "nat \<Rightarrow> u32 \<Rightarrow> 'a vst_scheme \<Rightarrow> u8 list option res" where
  "fetchstr_loop 0 a s = Ok None"
| "fetchstr_loop (Suc n) a s =
     bind_res (uaddr False a s) (\<lambda>k.
       if mem s k = 0 then Ok (Some [])
       else bind_res (fetchstr_loop n (a + 1) s) (\<lambda>r. Ok (map_option (\<lambda>cs. mem s k # cs) r)))"

definition fetchstr :: "u32 \<Rightarrow> 'a pst_scheme \<Rightarrow> u8 list option res" where
  "fetchstr addr s =
     (case cur s of None \<Rightarrow> Err Wild
      | Some me \<Rightarrow>
        let sz = psz (ptable s me) in
        if sz \<le> addr then Ok None else fetchstr_loop (unat sz - unat addr) addr s)"

definition argint :: "nat \<Rightarrow> 'a pst_scheme \<Rightarrow> u32 option res" where
  "argint n s =
     (case cur s of None \<Rightarrow> Err Wild
      | Some me \<Rightarrow> fetchint (tf_esp (ptf (ptable s me)) + 4 + 4 * of_nat n) s)"

definition argptr :: "nat \<Rightarrow> int \<Rightarrow> 'a pst_scheme \<Rightarrow> u32 option res" where
  "argptr n len s =
     (case cur s of None \<Rightarrow> Err Wild
      | Some me \<Rightarrow>
        bind_res (argint n s) (\<lambda>r. case r of
          None \<Rightarrow> Ok None
        | Some i \<Rightarrow>
            let sz = psz (ptable s me) in
            if len < 0 \<or> sz \<le> i \<or> sz < i + of_int len then Ok None else Ok (Some i)))"

definition argstr :: "nat \<Rightarrow> 'a pst_scheme \<Rightarrow> u8 list option res" where
  "argstr n s = bind_res (argint n s) (\<lambda>r. case r of None \<Rightarrow> Ok None | Some addr \<Rightarrow> fetchstr addr s)"

section \<open>Executable files (elf.h)\<close>

definition ELF_MAGIC :: u32 where "ELF_MAGIC = 0x464C457F"
definition ELF_PROG_LOAD :: u32 where "ELF_PROG_LOAD = 1"
definition MAXARG :: nat where "MAXARG = 32"

record elfhdr =
  e_magic :: u32
  e_elf :: "u8 list"
  e_type :: u16
  e_machine :: u16
  e_version :: u32
  e_entry :: u32
  e_phoff :: u32
  e_shoff :: u32
  e_flags :: u32
  e_ehsize :: u16
  e_phentsize :: u16
  e_phnum :: u16
  e_shentsize :: u16
  e_shnum :: u16
  e_shstrndx :: u16

record proghdr =
  ph_type :: u32
  ph_off :: u32
  ph_vaddr :: u32
  ph_paddr :: u32
  ph_filesz :: u32
  ph_memsz :: u32
  ph_flags :: u32
  ph_align :: u32

definition sizeof_elfhdr :: nat where "sizeof_elfhdr = 52"
definition sizeof_proghdr :: nat where "sizeof_proghdr = 32"

definition u32_at :: "nat \<Rightarrow> u8 list \<Rightarrow> u32" where "u32_at k bs = of_le32 (take 4 (drop k bs))"
definition u16_at :: "nat \<Rightarrow> u8 list \<Rightarrow> u16" where "u16_at k bs = of_le16 (take 2 (drop k bs))"

definition elfhdr_of :: "u8 list \<Rightarrow> elfhdr" where
  "elfhdr_of b = \<lparr>e_magic = u32_at 0 b, e_elf = take 12 (drop 4 b), e_type = u16_at 16 b, e_machine = u16_at 18 b, e_version = u32_at 20 b,
     e_entry = u32_at 24 b, e_phoff = u32_at 28 b, e_shoff = u32_at 32 b, e_flags = u32_at 36 b, e_ehsize = u16_at 40 b,
     e_phentsize = u16_at 42 b, e_phnum = u16_at 44 b, e_shentsize = u16_at 46 b, e_shnum = u16_at 48 b, e_shstrndx = u16_at 50 b\<rparr>"

definition proghdr_of :: "u8 list \<Rightarrow> proghdr" where
  "proghdr_of b = \<lparr>ph_type = u32_at 0 b, ph_off = u32_at 4 b, ph_vaddr = u32_at 8 b, ph_paddr = u32_at 12 b, ph_filesz = u32_at 16 b,
     ph_memsz = u32_at 20 b, ph_flags = u32_at 24 b, ph_align = u32_at 28 b\<rparr>"

section \<open>exec (exec.c)\<close>

text \<open>The loop over the program headers, \<open>k\<close> of them left; \<open>None\<close> is the jump to \<^verbatim>\<open>bad\<close>.\<close>

fun exec_load :: "'a ist_scheme devsw \<Rightarrow> nat \<Rightarrow> u32 \<Rightarrow> nat \<Rightarrow> u32 \<Rightarrow> u32 \<Rightarrow> 'a ist_scheme \<Rightarrow> (u32 option \<times> 'a ist_scheme) res" where
  "exec_load dsw ip pgdir 0 off sz s = Ok (Some sz, s)"
| "exec_load dsw ip pgdir (Suc k) off sz s =
     bind_res (readi dsw ip off (of_nat sizeof_proghdr) s) (\<lambda>(r, s). case r of
       None \<Rightarrow> Ok (None, s)
     | Some bs \<Rightarrow>
         if length bs \<noteq> sizeof_proghdr then Ok (None, s)
         else let ph = proghdr_of bs; off' = off + of_nat sizeof_proghdr in
           if ph_type ph \<noteq> ELF_PROG_LOAD then exec_load dsw ip pgdir k off' sz s
           else if ph_memsz ph < ph_filesz ph then Ok (None, s)
           else if ph_vaddr ph + ph_memsz ph < ph_vaddr ph then Ok (None, s)
           else bind_res (allocuvm pgdir sz (ph_vaddr ph + ph_memsz ph) s) (\<lambda>(sz, s).
             if sz = 0 then Ok (None, s)
             else if ph_vaddr ph mod PGSIZE \<noteq> 0 then Ok (None, s)
             else bind_res (loaduvm dsw pgdir (ph_vaddr ph) ip (ph_off ph) (ph_filesz ph) s) (\<lambda>(r, s).
               if r < 0 then Ok (None, s) else exec_load dsw ip pgdir k off' sz s)))"

text \<open>Pushing the argument strings; the result is the stack pointer and the addresses of the strings.\<close>

fun exec_args :: "u32 \<Rightarrow> u8 list list \<Rightarrow> u32 \<Rightarrow> u32 list \<Rightarrow> 'a mst_scheme \<Rightarrow> ((u32 \<times> u32 list) option \<times> 'a mst_scheme) res" where
  "exec_args pgdir [] sp us s = Ok (Some (sp, us), s)"
| "exec_args pgdir (a # as) sp us s =
     (if MAXARG \<le> length us then Ok (None, s)
      else let sp = (sp - of_nat (length a + 1)) AND NOT 3 in
        bind_res (copyout pgdir sp (a @ [0]) s) (\<lambda>(r, s).
          if r < 0 then Ok (None, s) else exec_args pgdir as sp (us @ [sp]) s))"

text \<open>The part after the file is closed: user stack, arguments and the words below them. The result is the new size and the stack
  pointer.\<close>

definition exec_stack :: "u32 \<Rightarrow> u8 list list \<Rightarrow> u32 \<Rightarrow> 'a mst_scheme \<Rightarrow> ((u32 \<times> u32) option \<times> 'a mst_scheme) res" where
  "exec_stack pgdir argv sz s =
     (let sz = PGROUNDUP sz in
      bind_res (allocuvm pgdir sz (sz + 2 * PGSIZE) s) (\<lambda>(sz, s).
        if sz = 0 then Ok (None, s)
        else bind_res (clearpteu pgdir (sz - 2 * PGSIZE) s) (\<lambda>s.
             bind_res (exec_args pgdir argv sz [] s) (\<lambda>(r, s). case r of
               None \<Rightarrow> Ok (None, s)
             | Some (sp, us) \<Rightarrow>
                 let argc = of_nat (length us);
                     ustack = [0xffffffff, argc, sp - (argc + 1) * 4] @ us @ [0];
                     sp = sp - (3 + argc + 1) * 4 in
                 bind_res (copyout pgdir sp (concat (map le32 ustack)) s) (\<lambda>(r, s).
                   if r < 0 then Ok (None, s) else Ok (Some (sz, sp), s))))))"

definition last_elem :: "u8 list \<Rightarrow> u8 list" where
  "last_elem path = rev (takeWhile (\<lambda>c. c \<noteq> slash) (rev path))"

text \<open>The code at \<^verbatim>\<open>bad\<close>; null pointers are \<open>0\<close> and \<open>None\<close>.\<close>

definition exec_bad :: "u32 \<Rightarrow> nat option \<Rightarrow> 'a pst_scheme \<Rightarrow> (int \<times> 'a pst_scheme) res" where
  "exec_bad pgdir ip s =
     bind_res (if pgdir \<noteq> 0 then freevm pgdir s else Ok s) (\<lambda>s.
     bind_res (case ip of Some ip \<Rightarrow> bind_res (iunlockput ip s) end_op | None \<Rightarrow> Ok s) (\<lambda>s. Ok (- 1, s)))"

definition exec_commit :: "nat \<Rightarrow> u8 list \<Rightarrow> u32 \<Rightarrow> u32 \<Rightarrow> u32 \<Rightarrow> u32 \<Rightarrow> 'a pst_scheme \<Rightarrow> (int \<times> 'a pst_scheme) res" where
  "exec_commit me path pgdir sz sp entry s =
     (let old = ppgdir (ptable s me);
          s = upd_proc me (\<lambda>p. (set_name (last_elem path) p)\<lparr>ppgdir := pgdir, psz := sz, ptf := (ptf p)\<lparr>tf_eip := entry, tf_esp := sp\<rparr>\<rparr>) s in
      bind_res (switchuvm (Some (pkstack (ptable s me), pgdir)) s) (\<lambda>s.
      bind_res (freevm old s) (\<lambda>s. Ok (0, s))))"

definition exec :: "'a pst_scheme devsw \<Rightarrow> u8 list \<Rightarrow> u8 list list \<Rightarrow> 'a pst_scheme \<Rightarrow> (int \<times> 'a pst_scheme) res" where
  "exec dsw path argv s =
     (case cur s of None \<Rightarrow> Err Wild
      | Some me \<Rightarrow>
        bind_res (begin_op s) (\<lambda>s.
        bind_res (namei dsw path s) (\<lambda>(r, s). case r of
          None \<Rightarrow> bind_res (end_op s) (\<lambda>s. Ok (- 1, s))
        | Some ip \<Rightarrow>
            bind_res (ilock ip s) (\<lambda>s.
            bind_res (readi dsw ip 0 (of_nat sizeof_elfhdr) s) (\<lambda>(r, s).
              if map_option length r \<noteq> Some sizeof_elfhdr then exec_bad 0 (Some ip) s
              else let elf = elfhdr_of (the r) in
                if e_magic elf \<noteq> ELF_MAGIC then exec_bad 0 (Some ip) s
                else bind_res (setupkvm s) (\<lambda>(pgdir, s).
                  if pgdir = 0 then exec_bad 0 (Some ip) s
                  else bind_res (exec_load dsw ip pgdir (unat (e_phnum elf)) (e_phoff elf) 0 s) (\<lambda>(r, s). case r of
                    None \<Rightarrow> exec_bad pgdir (Some ip) s
                  | Some sz \<Rightarrow>
                      bind_res (iunlockput ip s) (\<lambda>s.
                      bind_res (end_op s) (\<lambda>s.
                      bind_res (exec_stack pgdir argv sz s) (\<lambda>(r, s). case r of
                        None \<Rightarrow> exec_bad pgdir None s
                      | Some (sz, sp) \<Rightarrow> exec_commit me path pgdir sz sp (e_entry elf) s))))))))))"

section \<open>What the argument checks guarantee\<close>

lemma unat_of_int_small: "0 \<le> i \<Longrightarrow> i < 2 ^ 32 \<Longrightarrow> unat (of_int i :: u32) = nat i"
  by (simp add: unat_eq_nat_uint uint_word_of_int take_bit_eq_mod)

text \<open>C25: a pointer that \<^verbatim>\<open>argptr\<close> accepts points to as many bytes as were asked for, all below the size of the process: the
  additions in the check do not wrap for a process that ends below the kernel.\<close>

theorem argptr_bounds:
  assumes a: "argptr n len s = Ok (Some p)" and me: "cur s = Some me" and sz: "psz (ptable s me) \<le> KERNBASE" and l: "len < 2 ^ 31"
  shows "0 \<le> len \<and> unat p + nat len \<le> unat (psz (ptable s me))"
proof -
  have c: "0 \<le> len" "p < psz (ptable s me)" "p + of_int len \<le> psz (ptable s me)"
    using a me by (auto simp: argptr_def bind_res_eq_Ok Let_def not_le not_less split: option.splits if_splits)
  have k: "unat (psz (ptable s me)) \<le> 0x80000000" using sz by (simp add: KERNBASE_def word_le_nat_alt)
  have lu: "unat (of_int len :: u32) = nat len" by (rule unat_of_int_small) (use c(1) l in simp_all)
  have "unat p < 0x80000000" using c(2) k by (simp add: word_less_nat_alt)
  then have "unat p + unat (of_int len :: u32) < 2 ^ 32" unfolding lu using l c(1) by simp
  then have "unat (p + of_int len) = unat p + nat len" by (simp add: unat_add_no_wrap lu)
  then show ?thesis using c(1,3) by (simp add: word_le_nat_alt)
qed

lemma fetchstr_loop_spec:
  "fetchstr_loop n a s = Ok (Some cs) \<Longrightarrow>
     length cs < n \<and> (\<forall>i\<le>length cs. \<exists>k. uaddr False (a + of_nat i) s = Ok k \<and> mem s k = (cs @ [0]) ! i) \<and> 0 \<notin> set cs"
proof (induction n arbitrary: a cs)
  case (Suc n)
  from Suc.prems obtain k where k: "uaddr False a s = Ok k" by (auto simp: bind_res_eq_Ok)
  show ?case
  proof (cases "mem s k = 0")
    case True
    then have "cs = []" using Suc.prems k by simp
    then show ?thesis using True k by simp
  next
    case False
    then obtain ds where d: "fetchstr_loop n (a + 1) s = Ok (Some ds)" and cs: "cs = mem s k # ds"
      using Suc.prems k by (auto simp: bind_res_eq_Ok)
    note I = Suc.IH [OF d]
    have "\<exists>k. uaddr False (a + of_nat i) s = Ok k \<and> mem s k = (cs @ [0]) ! i" if "i \<le> length cs" for i
    proof (cases i)
      case 0
      then show ?thesis using k by (simp add: cs)
    next
      case (Suc j)
      then have "\<exists>k. uaddr False (a + 1 + of_nat j) s = Ok k \<and> mem s k = (ds @ [0]) ! j" using I that cs by simp
      then show ?thesis using Suc by (simp add: cs algebra_simps)
    qed
    then show ?thesis using I False by (simp add: cs)
  qed
qed simp

text \<open>A string that \<^verbatim>\<open>fetchstr\<close> accepts is in the memory of the process with its terminating NUL, which is below the
  size of the process, and is the bytes up to the first NUL.\<close>

theorem fetchstr_correct:
  assumes "fetchstr addr s = Ok (Some cs)" "cur s = Some me"
  shows "unat addr + length cs < unat (psz (ptable s me)) \<and> 0 \<notin> set cs \<and>
    (\<forall>i\<le>length cs. \<exists>k. uaddr False (addr + of_nat i) s = Ok k \<and> mem s k = (cs @ [0]) ! i)"
proof -
  have "addr < psz (ptable s me)" and f: "fetchstr_loop (unat (psz (ptable s me)) - unat addr) addr s = Ok (Some cs)"
    using assms by (auto simp: fetchstr_def Let_def not_le split: if_splits)
  then show ?thesis using fetchstr_loop_spec [OF f] by (auto simp: word_less_nat_alt)
qed

section \<open>A process with one page\<close>

text \<open>Page directory, page table and page at \<open>0x300000\<close>, \<open>0x301000\<close> and \<open>0x302000\<close>; the page begins with the string \<^verbatim>\<open>hi\<close>,
  and the words on the stack are zero.\<close>

definition demo_umem :: memory where
  "demo_umem = (\<lambda>_. 0)(0x80300000 := 7, 0x80300001 := 0x10, 0x80300002 := 0x30, 0x80301000 := 7, 0x80301001 := 0x20, 0x80301002 := 0x30,
     0x80302000 := 0x68, 0x80302001 := 0x69)"

definition demo_us :: pst where
  "demo_us = demo_ps\<lparr>mem := demo_umem, cr3 := 0x300000, cur := Some 0,
     ptable := (\<lambda>i. demo_init\<lparr>psz := 0x1000, ptf := demo_tf\<lparr>tf_esp := 0x10\<rparr>\<rparr>)\<rparr>"

lemma demo_us_simps [simp]:
  "mem demo_us = demo_umem" "cr3 demo_us = 0x300000" "cur demo_us = Some 0" "psz (ptable demo_us i) = 0x1000" "tf_esp (ptf (ptable demo_us i)) = 0x10"
  by (simp_all add: demo_us_def)

lemma demo_tables: "load32 demo_umem 0x80300000 = 0x301007" "load32 demo_umem 0x80301000 = 0x302007"
  by (simp_all add: load32_def of_le32_def demo_umem_def)

lemma uaddr_first_page:
  assumes t: "load32 (mem s) 0x80300000 = 0x301007" "load32 (mem s) 0x80301000 = 0x302007" "cr3 s = 0x300000" and va: "PDX va = 0" "PTX va = 0"
  shows "uaddr w va s = Ok (0x80302000 + (va AND 0xFFF))"
proof -
  have e: "(0x301007 :: u32) AND PTE_P \<noteq> 0" "(0x302007 :: u32) AND PTE_P \<noteq> 0" "(0x301007 :: u32) AND PTE_W \<noteq> 0" "(0x302007 :: u32) AND PTE_W \<noteq> 0"
    "PTE_ADDR 0x301007 = 0x301000" "PTE_ADDR 0x302007 = 0x302000"
    by (simp_all add: PTE_P_def PTE_W_def PTE_ADDR_def)
  show ?thesis using e t by (simp add: uaddr_def Let_def va P2V_def KERNBASE_def)
qed

lemmas demo_uaddr = uaddr_first_page [of demo_us, simplified, OF demo_tables]

lemma demo_va: "PDX 0 = 0" "PTX 0 = 0" "PDX 1 = 0" "PTX 1 = 0" "PDX 2 = 0" "PTX 2 = 0" "PDX 0x14 = 0" "PTX 0x14 = 0" "PDX 0x15 = 0" "PTX 0x15 = 0"
  "PDX 0x16 = 0" "PTX 0x16 = 0" "PDX 0x17 = 0" "PTX 0x17 = 0"
  by (simp_all add: PDX_def PTX_def)

lemma demo_argint: "argint 0 demo_us = Ok (Some 0)"
proof -
  have "uload 0x14 4 demo_us = Ok [0, 0, 0, 0]"
    by (simp add: eval_nat_numeral demo_uaddr demo_va) (simp add: demo_umem_def)
  then show ?thesis by (simp add: argint_def fetchint_def of_le32_def)
qed

theorem argptr_bounds_witness: "argptr 0 8 demo_us = Ok (Some 0) \<and> unat (0 :: u32) + nat 8 \<le> unat (psz (ptable demo_us 0))"
proof -
  have a: "argptr 0 8 demo_us = Ok (Some 0)" by (simp add: argptr_def demo_argint)
  from argptr_bounds [OF this, of 0] a show ?thesis by (simp add: KERNBASE_def)
qed

theorem fetchstr_correct_witness: "fetchstr 0 demo_us = Ok (Some [0x68, 0x69]) \<and> 0 \<notin> set [0x68, 0x69 :: u8]"
proof -
  have "fetchstr_loop (Suc (Suc (Suc n))) 0 demo_us = Ok (Some [0x68, 0x69])" for n
    by (simp add: demo_uaddr demo_va) (simp add: demo_umem_def)
  from this [of 4093] have f: "fetchstr 0 demo_us = Ok (Some [0x68, 0x69])" by (simp add: fetchstr_def)
  from fetchstr_correct [OF this, of 0] f show ?thesis by simp
qed

end
