(* ===== verification/Sysfile.thy ===== *)
theory Sysfile
  imports Exec Fcntl
begin

text \<open>
  The system calls on files (\<^verbatim>\<open>sysfile.c\<close>). Each yields the return value and the new state; \<^verbatim>\<open>sys_read\<close> and
  \<^verbatim>\<open>sys_write\<close> may instead end asleep on a pipe. The device table \<open>dsw\<close> is a parameter of the routines that read or
  write inodes.
\<close>

section \<open>Descriptors\<close>

text \<open>Continue with an argument, or return \<open>-1\<close>.\<close>

definition or_fail :: "'b option res \<Rightarrow> 's \<Rightarrow> ('b \<Rightarrow> (int \<times> 's) res) \<Rightarrow> (int \<times> 's) res" where
  "or_fail r s k = bind_res r (\<lambda>x. case x of None \<Rightarrow> Ok (- 1, s) | Some y \<Rightarrow> k y)"

definition argfd :: "nat \<Rightarrow> 'a kst_scheme \<Rightarrow> (nat \<times> nat) option res" where
  "argfd n s =
     (case cur s of None \<Rightarrow> Err Wild
      | Some me \<Rightarrow>
        bind_res (argint n s) (\<lambda>r. case r of
          None \<Rightarrow> Ok None
        | Some v \<Rightarrow>
            if sint v < 0 \<or> int NOFILE \<le> sint v then Ok None
            else Ok (map_option (\<lambda>f. (unat v, f)) (ofile (ptable s me) (unat v)))))"

definition fdalloc :: "nat \<Rightarrow> 'a pst_scheme \<Rightarrow> (nat option \<times> 'a pst_scheme) res" where
  "fdalloc f s =
     (case cur s of None \<Rightarrow> Err Wild
      | Some me \<Rightarrow>
        (case find (\<lambda>fd. ofile (ptable s me) fd = None) [0..<NOFILE] of
           None \<Rightarrow> Ok (None, s)
         | Some fd \<Rightarrow> Ok (Some fd, upd_proc me (\<lambda>p. p\<lparr>ofile := (ofile p)(fd := Some f)\<rparr>) s)))"

definition clear_fd :: "nat \<Rightarrow> 'a pst_scheme \<Rightarrow> 'a pst_scheme res" where
  "clear_fd fd s =
     (case cur s of None \<Rightarrow> Err Wild
      | Some me \<Rightarrow> Ok (upd_proc me (\<lambda>p. p\<lparr>ofile := (ofile p)(fd := None)\<rparr>) s))"

definition sys_dup :: "'a kst_scheme \<Rightarrow> (int \<times> 'a kst_scheme) res" where
  "sys_dup s =
     or_fail (argfd 0 s) s (\<lambda>(_, f).
       bind_res (fdalloc f s) (\<lambda>(r, s). case r of
         None \<Rightarrow> Ok (- 1, s)
       | Some fd \<Rightarrow> bind_res (filedup f s) (\<lambda>s. Ok (int fd, s))))"

definition sys_close :: "'a kst_scheme \<Rightarrow> (int \<times> 'a kst_scheme) res" where
  "sys_close s =
     or_fail (argfd 0 s) s (\<lambda>(fd, f).
       bind_res (clear_fd fd s) (\<lambda>s. bind_res (fileclose f s) (\<lambda>s. Ok (0, s))))"

definition sys_fstat :: "'a kst_scheme \<Rightarrow> (int \<times> 'a kst_scheme) res" where
  "sys_fstat s = or_fail (argfd 0 s) s (\<lambda>(_, f). or_fail (argptr 1 20 s) s (\<lambda>st. filestat f st s))"

definition sys_read :: "'a kst_scheme devsw \<Rightarrow> 'a kst_scheme \<Rightarrow> (int segment \<times> 'a kst_scheme) res" where
  "sys_read dsw s =
     bind_res (argfd 0 s) (\<lambda>r. case r of None \<Rightarrow> Ok (Return (- 1), s) | Some (_, f) \<Rightarrow>
     bind_res (argint 2 s) (\<lambda>r. case r of None \<Rightarrow> Ok (Return (- 1), s) | Some n \<Rightarrow>
     bind_res (argptr 1 (sint n) s) (\<lambda>r. case r of None \<Rightarrow> Ok (Return (- 1), s) | Some p \<Rightarrow> fileread dsw f p (sint n) s)))"

text \<open>\<open>i\<close> is the number of bytes already written to a pipe when the call was put to sleep.\<close>

definition sys_write :: "'a kst_scheme devsw \<Rightarrow> nat \<Rightarrow> 'a kst_scheme \<Rightarrow> (nat \<times> int segment \<times> 'a kst_scheme) res" where
  "sys_write dsw i s =
     bind_res (argfd 0 s) (\<lambda>r. case r of None \<Rightarrow> Ok (0, Return (- 1), s) | Some (_, f) \<Rightarrow>
     bind_res (argint 2 s) (\<lambda>r. case r of None \<Rightarrow> Ok (0, Return (- 1), s) | Some n \<Rightarrow>
     bind_res (argptr 1 (sint n) s) (\<lambda>r. case r of None \<Rightarrow> Ok (0, Return (- 1), s) | Some p \<Rightarrow> filewrite dsw f p (sint n) i s)))"

section \<open>Links\<close>

definition fail_op :: "'a lst_scheme \<Rightarrow> (int \<times> 'a lst_scheme) res" where
  "fail_op s = bind_res (end_op s) (\<lambda>s. Ok (- 1, s))"

text \<open>The code at the label \<^verbatim>\<open>bad\<close> of \<^verbatim>\<open>sys_link\<close>.\<close>

definition link_bad :: "nat \<Rightarrow> 'a ist_scheme \<Rightarrow> (int \<times> 'a ist_scheme) res" where
  "link_bad ip s =
     bind_res (ilock ip s) (\<lambda>s.
     bind_res (iupdate ip (upd_inode ip (\<lambda>n. n\<lparr>inlink := inlink n - 1\<rparr>) s)) (\<lambda>s.
     bind_res (iunlockput ip s) fail_op))"

definition link_paths :: "'a ist_scheme devsw \<Rightarrow> u8 list \<Rightarrow> u8 list \<Rightarrow> 'a ist_scheme \<Rightarrow> (int \<times> 'a ist_scheme) res" where
  "link_paths dsw old new s =
     bind_res (begin_op s) (\<lambda>s.
     bind_res (namei dsw old s) (\<lambda>(r, s). case r of None \<Rightarrow> fail_op s | Some ip \<Rightarrow>
       bind_res (ilock ip s) (\<lambda>s.
         if itype (inodes s ip) = T_DIR then bind_res (iunlockput ip s) fail_op
         else bind_res (iupdate ip (upd_inode ip (\<lambda>n. n\<lparr>inlink := inlink n + 1\<rparr>) s)) (\<lambda>s.
           bind_res (iunlock ip s) (\<lambda>s.
           bind_res (nameiparent dsw new s) (\<lambda>(r, s). case r of None \<Rightarrow> link_bad ip s | Some (dp, name) \<Rightarrow>
             bind_res (ilock dp s) (\<lambda>s.
               if idev (inodes s dp) \<noteq> idev (inodes s ip) then bind_res (iunlockput dp s) (link_bad ip)
               else bind_res (dirlink dsw dp name (inum (inodes s ip)) s) (\<lambda>(r, s).
                 if r < 0 then bind_res (iunlockput dp s) (link_bad ip)
                 else bind_res (iunlockput dp s) (\<lambda>s.
                      bind_res (iput ip s) (\<lambda>s.
                      bind_res (end_op s) (\<lambda>s. Ok (0, s))))))))))))"

definition sys_link :: "'a kst_scheme devsw \<Rightarrow> 'a kst_scheme \<Rightarrow> (int \<times> 'a kst_scheme) res" where
  "sys_link dsw s = or_fail (argstr 0 s) s (\<lambda>old. or_fail (argstr 1 s) s (\<lambda>new. link_paths dsw old new s))"

text \<open>The entries behind \<^verbatim>\<open>.\<close> and \<^verbatim>\<open>..\<close>.\<close>

fun isdirempty_loop :: "'a ist_scheme devsw \<Rightarrow> nat \<Rightarrow> nat list \<Rightarrow> 'a ist_scheme \<Rightarrow> (bool \<times> 'a ist_scheme) res" where
  "isdirempty_loop dsw dp [] s = Ok (True, s)"
| "isdirempty_loop dsw dp (off # offs) s =
     bind_res (readi dsw dp (of_nat off) (of_nat sizeof_dirent) s) (\<lambda>(r, s). case r of
       None \<Rightarrow> panic ''isdirempty: readi''
     | Some bs \<Rightarrow>
         if length bs \<noteq> sizeof_dirent then panic ''isdirempty: readi''
         else if de_inum (dirent_of bs) \<noteq> 0 then Ok (False, s) else isdirempty_loop dsw dp offs s)"

definition isdirempty :: "'a ist_scheme devsw \<Rightarrow> nat \<Rightarrow> 'a ist_scheme \<Rightarrow> (bool \<times> 'a ist_scheme) res" where
  "isdirempty dsw dp s = isdirempty_loop dsw dp (drop 2 (dir_offs (isize (inodes s dp)))) s"

definition dot :: "u8 list" where "dot = [0x2e]"
definition dotdot :: "u8 list" where "dotdot = [0x2e, 0x2e]"

definition unlink_bad :: "nat \<Rightarrow> 'a ist_scheme \<Rightarrow> (int \<times> 'a ist_scheme) res" where
  "unlink_bad dp s = bind_res (iunlockput dp s) fail_op"

text \<open>Erasing the entry at \<open>off\<close> of \<open>dp\<close> and dropping the link to \<open>ip\<close>.\<close>

definition unlink_entry :: "'a ist_scheme devsw \<Rightarrow> nat \<Rightarrow> nat \<Rightarrow> u32 \<Rightarrow> 'a ist_scheme \<Rightarrow> (int \<times> 'a ist_scheme) res" where
  "unlink_entry dsw dp ip off s =
     bind_res (writei dsw dp (replicate sizeof_dirent 0) off s) (\<lambda>(r, s).
       if r \<noteq> int sizeof_dirent then panic ''unlink: writei''
       else bind_res (if itype (inodes s ip) = T_DIR then iupdate dp (upd_inode dp (\<lambda>n. n\<lparr>inlink := inlink n - 1\<rparr>) s) else Ok s) (\<lambda>s.
         bind_res (iunlockput dp s) (\<lambda>s.
         bind_res (iupdate ip (upd_inode ip (\<lambda>n. n\<lparr>inlink := inlink n - 1\<rparr>) s)) (\<lambda>s.
         bind_res (iunlockput ip s) (\<lambda>s.
         bind_res (end_op s) (\<lambda>s. Ok (0, s)))))))"

definition unlink_path :: "'a ist_scheme devsw \<Rightarrow> u8 list \<Rightarrow> 'a ist_scheme \<Rightarrow> (int \<times> 'a ist_scheme) res" where
  "unlink_path dsw path s =
     bind_res (begin_op s) (\<lambda>s.
     bind_res (nameiparent dsw path s) (\<lambda>(r, s). case r of None \<Rightarrow> fail_op s | Some (dp, name) \<Rightarrow>
       bind_res (ilock dp s) (\<lambda>s.
         if namecmp name dot = 0 \<or> namecmp name dotdot = 0 then unlink_bad dp s
         else bind_res (dirlookup dsw dp name s) (\<lambda>(r, s). case r of None \<Rightarrow> unlink_bad dp s | Some (ip, off) \<Rightarrow>
           bind_res (ilock ip s) (\<lambda>s.
             if sint (inlink (inodes s ip)) < 1 then panic ''unlink: nlink < 1''
             else bind_res (if itype (inodes s ip) = T_DIR then isdirempty dsw ip s else Ok (True, s)) (\<lambda>(e, s).
               if \<not> e then bind_res (iunlockput ip s) (unlink_bad dp) else unlink_entry dsw dp ip off s))))))"

definition sys_unlink :: "'a kst_scheme devsw \<Rightarrow> 'a kst_scheme \<Rightarrow> (int \<times> 'a kst_scheme) res" where
  "sys_unlink dsw s = or_fail (argstr 0 s) s (\<lambda>path. unlink_path dsw path s)"

section \<open>Creating and opening\<close>

definition create_new :: "'a ist_scheme devsw \<Rightarrow> nat \<Rightarrow> u8 list \<Rightarrow> u16 \<Rightarrow> u16 \<Rightarrow> u16 \<Rightarrow> 'a ist_scheme \<Rightarrow> (nat option \<times> 'a ist_scheme) res" where
  "create_new dsw dp name ty major minor s =
     bind_res (ialloc (idev (inodes s dp)) ty s) (\<lambda>(ip, s).
     bind_res (ilock ip s) (\<lambda>s.
     bind_res (iupdate ip (upd_inode ip (\<lambda>n. n\<lparr>imajor := major, iminor := minor, inlink := 1\<rparr>) s)) (\<lambda>s.
     bind_res
       (if ty = T_DIR
        then bind_res (iupdate dp (upd_inode dp (\<lambda>n. n\<lparr>inlink := inlink n + 1\<rparr>) s)) (\<lambda>s.
             bind_res (dirlink dsw ip dot (inum (inodes s ip)) s) (\<lambda>(r, s).
               if r < 0 then panic ''create dots''
               else bind_res (dirlink dsw ip dotdot (inum (inodes s dp)) s) (\<lambda>(r, s).
                 if r < 0 then panic ''create dots'' else Ok s)))
        else Ok s) (\<lambda>s.
     bind_res (dirlink dsw dp name (inum (inodes s ip)) s) (\<lambda>(r, s).
       if r < 0 then panic ''create: dirlink''
       else bind_res (iunlockput dp s) (\<lambda>s. Ok (Some ip, s)))))))"

definition create :: "'a ist_scheme devsw \<Rightarrow> u8 list \<Rightarrow> u16 \<Rightarrow> u16 \<Rightarrow> u16 \<Rightarrow> 'a ist_scheme \<Rightarrow> (nat option \<times> 'a ist_scheme) res" where
  "create dsw path ty major minor s =
     bind_res (nameiparent dsw path s) (\<lambda>(r, s). case r of None \<Rightarrow> Ok (None, s) | Some (dp, name) \<Rightarrow>
       bind_res (ilock dp s) (\<lambda>s.
       bind_res (dirlookup dsw dp name s) (\<lambda>(r, s). case r of
         Some (ip, _) \<Rightarrow>
           bind_res (iunlockput dp s) (\<lambda>s.
           bind_res (ilock ip s) (\<lambda>s.
             if ty = T_FILE \<and> itype (inodes s ip) = T_FILE then Ok (Some ip, s)
             else bind_res (iunlockput ip s) (\<lambda>s. Ok (None, s))))
       | None \<Rightarrow> create_new dsw dp name ty major minor s)))"


text \<open>The locked inode to open.\<close>

definition open_inode :: "'a ist_scheme devsw \<Rightarrow> u8 list \<Rightarrow> u32 \<Rightarrow> 'a ist_scheme \<Rightarrow> (nat option \<times> 'a ist_scheme) res" where
  "open_inode dsw path omode s =
     (if omode AND O_CREATE \<noteq> 0 then create dsw path T_FILE 0 0 s
      else bind_res (namei dsw path s) (\<lambda>(r, s). case r of None \<Rightarrow> Ok (None, s) | Some ip \<Rightarrow>
        bind_res (ilock ip s) (\<lambda>s.
          if itype (inodes s ip) = T_DIR \<and> omode \<noteq> O_RDONLY then bind_res (iunlockput ip s) (\<lambda>s. Ok (None, s))
          else Ok (Some ip, s))))"

definition open_path :: "'a kst_scheme devsw \<Rightarrow> u8 list \<Rightarrow> u32 \<Rightarrow> 'a kst_scheme \<Rightarrow> (int \<times> 'a kst_scheme) res" where
  "open_path dsw path omode s =
     bind_res (begin_op s) (\<lambda>s.
     bind_res (open_inode dsw path omode s) (\<lambda>(r, s). case r of None \<Rightarrow> fail_op s | Some ip \<Rightarrow>
       (case filealloc s of
          (None, s) \<Rightarrow> bind_res (iunlockput ip s) fail_op
        | (Some f, s) \<Rightarrow>
            bind_res (fdalloc f s) (\<lambda>(r, s). case r of
              None \<Rightarrow> bind_res (fileclose f s) (\<lambda>s. bind_res (iunlockput ip s) fail_op)
            | Some fd \<Rightarrow>
                bind_res (iunlock ip s) (\<lambda>s.
                bind_res (end_op s) (\<lambda>s.
                  Ok (int fd, upd_file f (\<lambda>x. x\<lparr>ftype := FD_INODE, fip := ip, foff := 0, freadable := (omode AND O_WRONLY = 0),
                    fwritable := (omode AND O_WRONLY \<noteq> 0 \<or> omode AND O_RDWR \<noteq> 0)\<rparr>) s)))))))"

definition sys_open :: "'a kst_scheme devsw \<Rightarrow> 'a kst_scheme \<Rightarrow> (int \<times> 'a kst_scheme) res" where
  "sys_open dsw s = or_fail (argstr 0 s) s (\<lambda>path. or_fail (argint 1 s) s (\<lambda>omode. open_path dsw path omode s))"

text \<open>\<^verbatim>\<open>sys_mkdir\<close>, \<^verbatim>\<open>sys_mknod\<close> and \<^verbatim>\<open>sys_chdir\<close> fetch their arguments inside the transaction.\<close>

definition or_fail_op :: "'b option res \<Rightarrow> 'a lst_scheme \<Rightarrow> ('b \<Rightarrow> (int \<times> 'a lst_scheme) res) \<Rightarrow> (int \<times> 'a lst_scheme) res" where
  "or_fail_op r s k = bind_res r (\<lambda>x. case x of None \<Rightarrow> fail_op s | Some y \<Rightarrow> k y)"

definition make_node :: "'a ist_scheme devsw \<Rightarrow> u8 list \<Rightarrow> u16 \<Rightarrow> u16 \<Rightarrow> u16 \<Rightarrow> 'a ist_scheme \<Rightarrow> (int \<times> 'a ist_scheme) res" where
  "make_node dsw path ty major minor s =
     bind_res (create dsw path ty major minor s) (\<lambda>(r, s). case r of
       None \<Rightarrow> fail_op s
     | Some ip \<Rightarrow> bind_res (iunlockput ip s) (\<lambda>s. bind_res (end_op s) (\<lambda>s. Ok (0, s))))"

definition sys_mkdir :: "'a kst_scheme devsw \<Rightarrow> 'a kst_scheme \<Rightarrow> (int \<times> 'a kst_scheme) res" where
  "sys_mkdir dsw s =
     bind_res (begin_op s) (\<lambda>s. or_fail_op (argstr 0 s) s (\<lambda>path. make_node dsw path T_DIR 0 0 s))"

definition sys_mknod :: "'a kst_scheme devsw \<Rightarrow> 'a kst_scheme \<Rightarrow> (int \<times> 'a kst_scheme) res" where
  "sys_mknod dsw s =
     bind_res (begin_op s) (\<lambda>s.
       or_fail_op (argstr 0 s) s (\<lambda>path. or_fail_op (argint 1 s) s (\<lambda>major. or_fail_op (argint 2 s) s (\<lambda>minor.
         make_node dsw path T_DEV (ucast major) (ucast minor) s))))"

definition sys_chdir :: "'a kst_scheme devsw \<Rightarrow> 'a kst_scheme \<Rightarrow> (int \<times> 'a kst_scheme) res" where
  "sys_chdir dsw s =
     (case cur s of None \<Rightarrow> Err Wild
      | Some me \<Rightarrow>
        bind_res (begin_op s) (\<lambda>s.
        or_fail_op (argstr 0 s) s (\<lambda>path.
        bind_res (namei dsw path s) (\<lambda>(r, s). case r of None \<Rightarrow> fail_op s | Some ip \<Rightarrow>
          bind_res (ilock ip s) (\<lambda>s.
            if itype (inodes s ip) \<noteq> T_DIR then bind_res (iunlockput ip s) fail_op
            else bind_res (iunlock ip s) (\<lambda>s.
              case pcwd (ptable s me) of
                None \<Rightarrow> Err Wild
              | Some old \<Rightarrow>
                  bind_res (iput old s) (\<lambda>s.
                  bind_res (end_op s) (\<lambda>s. Ok (0, (upd_proc me (\<lambda>p. p\<lparr>pcwd := Some ip\<rparr>) s)\<lparr>cwd := ip\<rparr>)))))))))"

section \<open>exec and pipe\<close>

text \<open>The loop that collects the arguments; \<open>is\<close> are the indices left in \<^verbatim>\<open>argv\<close>.\<close>

fun exec_argv :: "u32 \<Rightarrow> nat list \<Rightarrow> 'a pst_scheme \<Rightarrow> u8 list list option res" where
  "exec_argv uargv [] s = Ok None"
| "exec_argv uargv (i # is) s =
     bind_res (fetchint (uargv + 4 * of_nat i) s) (\<lambda>r. case r of
       None \<Rightarrow> Ok None
     | Some uarg \<Rightarrow>
         if uarg = 0 then Ok (Some [])
         else bind_res (fetchstr uarg s) (\<lambda>r. case r of
           None \<Rightarrow> Ok None
         | Some a \<Rightarrow> bind_res (exec_argv uargv is s) (\<lambda>r. Ok (map_option (\<lambda>as. a # as) r))))"

definition sys_exec :: "'a kst_scheme devsw \<Rightarrow> 'a kst_scheme \<Rightarrow> (int \<times> 'a kst_scheme) res" where
  "sys_exec dsw s =
     or_fail (argstr 0 s) s (\<lambda>path.
     or_fail (argint 1 s) s (\<lambda>uargv.
     or_fail (exec_argv uargv [0..<MAXARG] s) s (\<lambda>argv. exec dsw path argv s)))"

definition sys_pipe :: "'a kst_scheme \<Rightarrow> (int \<times> 'a kst_scheme) res" where
  "sys_pipe s =
     or_fail (argptr 0 8 s) s (\<lambda>fd.
     bind_res (pipealloc s) (\<lambda>(r, s). case r of
       None \<Rightarrow> Ok (- 1, s)
     | Some (rf, wrf) \<Rightarrow>
         bind_res (fdalloc rf s) (\<lambda>(r, s). case r of
           None \<Rightarrow> bind_res (fileclose rf s) (\<lambda>s. bind_res (fileclose wrf s) (\<lambda>s. Ok (- 1, s)))
         | Some fd0 \<Rightarrow>
             bind_res (fdalloc wrf s) (\<lambda>(r, s). case r of
               None \<Rightarrow> bind_res (clear_fd fd0 s) (\<lambda>s. bind_res (fileclose rf s) (\<lambda>s. bind_res (fileclose wrf s) (\<lambda>s. Ok (- 1, s))))
             | Some fd1 \<Rightarrow>
                 bind_res (ustore fd (le32 (of_nat fd0)) s) (\<lambda>s.
                 bind_res (ustore (fd + 4) (le32 (of_nat fd1)) s) (\<lambda>s. Ok (0, s)))))))"

end
