(* ===== verification/Printf.thy ===== *)
theory Printf
  imports Cstring
begin

text \<open>
  Formatted output: \<^verbatim>\<open>printint\<close> and \<^verbatim>\<open>cprintf\<close> of the kernel (\<^verbatim>\<open>console.c\<close>), \<^verbatim>\<open>printint\<close> and \<^verbatim>\<open>printf\<close>
  of user programs (\<^verbatim>\<open>printf.c\<close>). A call yields the list of characters it puts. The format is the list of its bytes without the
  NUL; the variable arguments are a list of words, and reading past it is undefined. A string argument is an address in
  memory; a string without end is a call that does not return. Negating the smallest integer is taken to wrap, as the processor
  does.
\<close>

definition chars :: "string \<Rightarrow> u8 list" where
  "chars s = map of_char s"

section \<open>Integers\<close>

definition digits_lower :: "u8 list" where "digits_lower = chars ''0123456789abcdef''"
definition digits_upper :: "u8 list" where "digits_upper = chars ''0123456789ABCDEF''"

text \<open>The loop that fills \<^verbatim>\<open>buf\<close> with the digits, the last one first.\<close>

function printint_loop :: "u8 list \<Rightarrow> u32 \<Rightarrow> u32 \<Rightarrow> u8 list" where
  "printint_loop digits base x =
     (if base < 2 then []
      else digits ! unat (x mod base) # (if x div base \<noteq> 0 then printint_loop digits base (x div base) else []))"
  by pat_completeness auto
termination printint_loop
proof (relation "measure (\<lambda>(digits, base, x). unat x)")
  fix digits :: "u8 list" and base x :: u32
  assume b: "\<not> base < 2" and nz: "x div base \<noteq> 0"
  have "2 \<le> unat base" using b by (simp add: word_less_nat_alt)
  moreover have "0 < unat x" using nz by (cases "x = 0") (auto simp: unat_gt_0)
  ultimately have "unat x div unat base < unat x" by simp
  then show "((digits, base, x div base), digits, base, x) \<in> measure (\<lambda>(digits, base, x). unat x)"
    by (simp add: unat_div)
qed simp

declare printint_loop.simps [simp del]

text \<open>What is printed: the buffer from its end. The bases in use are 10 and 16.\<close>

definition printint_buf :: "u8 list \<Rightarrow> u32 \<Rightarrow> u32 \<Rightarrow> bool \<Rightarrow> u8 list" where
  "printint_buf digits xx base sign =
     (let neg = (sign \<and> sint xx < 0); x = (if neg then - xx else xx);
          buf = printint_loop digits base x
      in if neg then buf @ chars ''-'' else buf)"

definition printint :: "u8 list \<Rightarrow> u32 \<Rightarrow> u32 \<Rightarrow> bool \<Rightarrow> u8 list" where
  "printint digits xx base sign = rev (printint_buf digits xx base sign)"

section \<open>Format strings\<close>

text \<open>The characters of the string at \<open>p\<close>.\<close>

definition put_string :: "memory \<Rightarrow> u32 \<Rightarrow> u8 list res" where
  "put_string m p =
     (if p = 0 then Ok (chars ''(null)'')
      else case strlen m p of None \<Rightarrow> Err Hang | Some n \<Rightarrow> Ok (map (\<lambda>i. m (p + of_nat i)) [0..<n]))"

definition with_arg :: "u32 list \<Rightarrow> (u32 \<Rightarrow> u32 list \<Rightarrow> u8 list res) \<Rightarrow> u8 list res" where
  "with_arg ap k = (case ap of [] \<Rightarrow> Err Wild | a # ap \<Rightarrow> k a ap)"

definition then_put :: "u8 list \<Rightarrow> u8 list res \<Rightarrow> u8 list res" where
  "then_put cs r = bind_res r (\<lambda>ds. Ok (cs @ ds))"

text \<open>The kernel's \<^verbatim>\<open>cprintf\<close>. A \<^verbatim>\<open>%\<close> at the end of the format prints nothing.\<close>

fun cprintf :: "memory \<Rightarrow> u8 list \<Rightarrow> u32 list \<Rightarrow> u8 list res" where
  "cprintf m [] ap = Ok []"
| "cprintf m [c] ap = (if c \<noteq> of_char CHR ''%'' then Ok [c] else Ok [])"
| "cprintf m (c # d # fmt) ap =
     (if c \<noteq> of_char CHR ''%'' then then_put [c] (cprintf m (d # fmt) ap)
      else if d = of_char CHR ''d'' then with_arg ap (\<lambda>a ap. then_put (printint digits_lower a 10 True) (cprintf m fmt ap))
      else if d = of_char CHR ''x'' \<or> d = of_char CHR ''p'' then with_arg ap (\<lambda>a ap. then_put (printint digits_lower a 16 False) (cprintf m fmt ap))
      else if d = of_char CHR ''s'' then with_arg ap (\<lambda>a ap. bind_res (put_string m a) (\<lambda>s. then_put s (cprintf m fmt ap)))
      else if d = of_char CHR ''%'' then then_put [of_char CHR ''%''] (cprintf m fmt ap)
      else then_put [of_char CHR ''%'', d] (cprintf m fmt ap))"

text \<open>The user's \<^verbatim>\<open>printf\<close>, a machine with two states: \<open>pct\<close> says that the last character was a \<^verbatim>\<open>%\<close>.\<close>

fun printf_loop :: "memory \<Rightarrow> bool \<Rightarrow> u8 list \<Rightarrow> u32 list \<Rightarrow> u8 list res" where
  "printf_loop m pct [] ap = Ok []"
| "printf_loop m pct (c # fmt) ap =
     (if \<not> pct then
        if c = of_char CHR ''%'' then printf_loop m True fmt ap else then_put [c] (printf_loop m False fmt ap)
      else if c = of_char CHR ''d'' then with_arg ap (\<lambda>a ap. then_put (printint digits_upper a 10 True) (printf_loop m False fmt ap))
      else if c = of_char CHR ''x'' \<or> c = of_char CHR ''p'' then with_arg ap (\<lambda>a ap. then_put (printint digits_upper a 16 False) (printf_loop m False fmt ap))
      else if c = of_char CHR ''s'' then with_arg ap (\<lambda>a ap. bind_res (put_string m a) (\<lambda>s. then_put s (printf_loop m False fmt ap)))
      else if c = of_char CHR ''c'' then with_arg ap (\<lambda>a ap. then_put [ucast a] (printf_loop m False fmt ap))
      else if c = of_char CHR ''%'' then then_put [c] (printf_loop m False fmt ap)
      else then_put [of_char CHR ''%'', c] (printf_loop m False fmt ap))"

definition printf :: "memory \<Rightarrow> u8 list \<Rightarrow> u32 list \<Rightarrow> u8 list res" where
  "printf m fmt ap = printf_loop m False fmt ap"

section \<open>Reading a printed number back\<close>

definition add_digit :: "u32 \<Rightarrow> u8 \<Rightarrow> u32" where "add_digit n c = n * 10 + ucast c - 0x30"

definition is_digit :: "u8 \<Rightarrow> bool" where "is_digit c \<longleftrightarrow> 0x30 \<le> c \<and> c \<le> 0x39"

lemma atoi_loop_digits:
  "cstr_at m p cs \<Longrightarrow> list_all is_digit cs \<Longrightarrow> atoi_loop m p n = Some (foldl add_digit n cs)"
proof (induction cs arbitrary: p n)
  case Nil
  then show ?case by (subst atoi_loop.simps) (simp add: is_digit_def)
next
  case (Cons c cs)
  then have "atoi_loop m (p + 1) (add_digit n c) = Some (foldl add_digit (add_digit n c) cs)" by simp
  then show ?case using Cons.prems by (subst atoi_loop.simps) (simp add: is_digit_def add_digit_def)
qed

lemma digit_char:
  assumes "x < 10" "digits = digits_lower \<or> digits = digits_upper"
  shows "digits ! unat (x :: u32) = 0x30 + ucast x"
proof -
  have "unat x < 10" using assms(1) by (simp add: word_less_nat_alt)
  then have "unat x = 0 \<or> unat x = 1 \<or> unat x = 2 \<or> unat x = 3 \<or> unat x = 4 \<or> unat x = 5 \<or> unat x = 6 \<or> unat x = 7 \<or>
      unat x = 8 \<or> unat x = 9" by arith
  then have "x = 0 \<or> x = 1 \<or> x = 2 \<or> x = 3 \<or> x = 4 \<or> x = 5 \<or> x = 6 \<or> x = 7 \<or> x = 8 \<or> x = 9" by (simp add: word_unat_eq_iff)
  then show ?thesis using assms(2) by (elim disjE) (simp_all add: digits_lower_def digits_upper_def chars_def of_char_def)
qed

lemma digit_add:
  assumes "(x :: u32) < 10"
  shows "add_digit n (0x30 + ucast x) = n * 10 + x" "is_digit (0x30 + ucast x)"
proof -
  have u: "unat x < 10" using assms by (simp add: word_less_nat_alt)
  have "unat (0x30 + ucast x :: u8) = 0x30 + unat x" using u by (simp add: unat_word_ariths unsigned_ucast_eq take_bit_eq_mod)
  then have v: "unat (ucast (0x30 + ucast x :: u8) :: u32) = 0x30 + unat x" using u by (simp add: unsigned_ucast_eq take_bit_eq_mod)
  then have "(ucast (0x30 + ucast x :: u8) :: u32) = 0x30 + x"
    using u by (simp add: word_unat_eq_iff unat_word_ariths)
  then show "add_digit n (0x30 + ucast x) = n * 10 + x" by (simp add: add_digit_def)
  show "is_digit (0x30 + ucast x)" using u by (simp add: is_digit_def word_le_nat_alt unat_word_ariths unsigned_ucast_eq take_bit_eq_mod)
qed

lemma mod_ten: "(x :: u32) mod 10 < 10"
  by (simp add: word_less_nat_alt unat_mod)

lemma printint_loop_value:
  assumes "digits = digits_lower \<or> digits = digits_upper"
  shows "foldl add_digit 0 (rev (printint_loop digits 10 x)) = x \<and> list_all is_digit (rev (printint_loop digits 10 x))"
  using assms
proof (induction digits "10 :: u32" x rule: printint_loop.induct)
  case (1 digits x)
  have d: "digits ! unat (x mod 10) = 0x30 + ucast (x mod 10)" by (rule digit_char [OF mod_ten "1.prems"])
  note a = digit_add [OF mod_ten [of x]]
  show ?case
  proof (cases "x div 10 = 0")
    case True
    then have "x mod 10 = x" using div_mult_mod_eq [of x 10] by simp
    then show ?thesis using True a d by (subst (1 2) printint_loop.simps) simp
  next
    case False
    have "printint_loop digits 10 x = (0x30 + ucast (x mod 10)) # printint_loop digits 10 (x div 10)"
      using False d by (subst printint_loop.simps) simp
    then show ?thesis using "1.hyps" [OF _ False "1.prems"] a div_mult_mod_eq [of x 10] by simp
  qed
qed

lemma printint_loop_length:
  assumes "2 \<le> base" "unat x < unat base ^ n" "0 < n"
  shows "length (printint_loop digits base x) \<le> n"
  using assms(2,3)
proof (induction n arbitrary: x)
  case (Suc n)
  have b: "\<not> base < 2" using assms(1) by simp
  show ?case
  proof (cases "x div base = 0")
    case True
    then show ?thesis using b by (subst printint_loop.simps) simp
  next
    case False
    have "0 < unat base" using assms(1) by (simp add: word_le_nat_alt)
    then have "unat (x div base) < unat base ^ n" using Suc.prems(1) by (simp add: unat_div less_mult_imp_div_less mult.commute)
    moreover have "0 < n"
    proof (rule ccontr)
      assume "\<not> 0 < n"
      then have "unat x < unat base" using Suc.prems(1) by simp
      then have "x div base = 0" by (simp add: word_unat_eq_iff unat_div)
      then show False using False by simp
    qed
    ultimately have "length (printint_loop digits base (x div base)) \<le> n" by (rule Suc.IH)
    then show ?thesis using b by (subst printint_loop.simps) simp
  qed
qed simp


text \<open>In the two bases in use, the digits and the sign fit into the 16 characters of \<^verbatim>\<open>buf\<close>.\<close>

theorem printint_fits:
  assumes "base = 10 \<or> base = 16"
  shows "length (printint_buf digits xx base sign) \<le> (if base = 10 then 11 else 9) \<and> length (printint_buf digits xx base sign) \<le> 16"
proof -
  have u: "unat x < 4294967296" for x :: u32 using unsigned_less [of x] by simp
  have "length (printint_loop digits 10 x) \<le> 10" for x
    by (rule printint_loop_length) (use u [of x] in simp_all)
  moreover have "length (printint_loop digits 16 x) \<le> 8" for x
    by (rule printint_loop_length) (use u [of x] in simp_all)
  ultimately have "length (printint_loop digits base x) \<le> (if base = 10 then 10 else 8)" for x using assms by auto
  from this [of xx] this [of "- xx"] show ?thesis by (auto simp: printint_buf_def Let_def chars_def split: if_splits)
qed

text \<open>Concrete numbers: \<open>-42\<close>, and the smallest integer.\<close>

definition demo_text :: memory where "demo_text a = (if a = 100 then 0x2d else if a = 101 then 0x34 else if a = 102 then 0x32 else 0)"

lemma printint_42: "printint digits_lower (- 42) 10 True = [0x2d, 0x34, 0x32]"
  by code_simp


theorem printint_fits_witness: "length (printint_buf digits_lower 0x80000000 10 True) \<le> 11"
  using printint_fits [of 10 digits_lower "0x80000000" True] by simp

end
