(* ===== verification/Console.thy ===== *)
theory Console
  imports Printf Proc Frame
begin

text \<open>
  The console (\<^verbatim>\<open>console.c\<close>), the keyboard (\<^verbatim>\<open>kbd.c\<close>, \<^verbatim>\<open>kbd.h\<close>) and the serial port as the console uses it: the input
  line with its editing keys, reading and writing through the device table, and the text screen. Characters come from the
  hardware as lists: the scan codes or bytes that are waiting when an interrupt arrives. The serial line is the list of bytes
  sent. A reader that has to wait ends its segment with \<open>ConSleep\<close>; in a file read this is the result \<open>Sleep\<close>.
\<close>

section \<open>Keyboard (kbd.c, kbd.h)\<close>

definition SHIFT :: u32 where "SHIFT = 1"
definition CTL :: u32 where "CTL = 2"
definition ALT :: u32 where "ALT = 4"
definition CAPSLOCK :: u32 where "CAPSLOCK = 8"
definition NUMLOCK :: u32 where "NUMLOCK = 16"
definition SCROLLLOCK :: u32 where "SCROLLLOCK = 32"
definition E0ESC :: u32 where "E0ESC = 64"

text \<open>A table with the given first entries, then zeros, then single entries.\<close>

definition key_table :: "u8 list \<Rightarrow> (nat \<times> u8) list \<Rightarrow> u8 list" where
  "key_table first rest = fold (\<lambda>(i, c) t. t[i := c]) rest (take 256 (first @ replicate 256 0))"

definition shiftcode :: "u8 list" where
  "shiftcode = key_table [] [(0x1D, ucast CTL), (0x2A, ucast SHIFT), (0x36, ucast SHIFT), (0x38, ucast ALT), (0x9D, ucast CTL), (0xB8, ucast ALT)]"

definition togglecode :: "u8 list" where
  "togglecode = key_table [] [(0x3A, ucast CAPSLOCK), (0x45, ucast NUMLOCK), (0x46, ucast SCROLLLOCK)]"

definition special_keys :: "(nat \<times> u8) list" where
  "special_keys = [(0xC8, 0xE2), (0xD0, 0xE3), (0xC9, 0xE6), (0xD1, 0xE7), (0xCB, 0xE4), (0xCD, 0xE5), (0x97, 0xE0), (0xCF, 0xE1), (0xD2, 0xE8), (0xD3, 0xE9)]"

definition normalmap :: "u8 list" where
  "normalmap = key_table
     ([0, 0x1B] @ chars ''1234567890-='' @ [8, 9] @
      chars ''qwertyuiop[]'' @ [10, 0] @ chars ''asdfghjkl;'' @ [0x27, 0x60, 0, 0x5C] @
      chars ''zxcvbnm,./'' @ [0, 0x2A, 0, 0x20] @ replicate 6 0 @ replicate 7 0 @ chars ''789-456+1230.'')
     ([(0x9C, 10), (0xB5, 0x2F)] @ special_keys)"

definition shiftmap :: "u8 list" where
  "shiftmap = key_table
     ([0, 0x1B] @ chars ''!@#$%^&*()_+'' @ [8, 9] @
      chars ''QWERTYUIOP{}'' @ [10, 0] @ chars ''ASDFGHJKL:'' @ [0x22, 0x7E, 0, 0x7C] @
      chars ''ZXCVBNM<>?'' @ [0, 0x2A, 0, 0x20] @ replicate 6 0 @ replicate 7 0 @ chars ''789-456+1230.'')
     ([(0x9C, 10), (0xB5, 0x2F)] @ special_keys)"

text \<open>\<^verbatim>\<open>C(x)\<close>: the control character of a key.\<close>

definition ctl :: "string \<Rightarrow> u8 list" where "ctl s = map (\<lambda>c. of_char c - 0x40) s"

definition ctlmap :: "u8 list" where
  "ctlmap = key_table
     (replicate 16 0 @ ctl ''QWERTYUIOP'' @ [0, 0, 0x0D, 0] @ ctl ''ASDFGHJKL'' @ [0, 0, 0, 0, 0x1C] @
      ctl ''ZXCVBNM'' @ [0, 0] @ ctl ''/'' @ [0, 0])
     ([(0x9C, 0x0D), (0xB5, 0x2F - 0x40)] @ special_keys)"

definition charcode :: "u8 list list" where "charcode = [normalmap, shiftmap, ctlmap, ctlmap]"

text \<open>\<open>kbdgetc shift code\<close>: the character for a scan code, and the new modifier state.\<close>

definition kbdgetc :: "u32 \<Rightarrow> u8 \<Rightarrow> u8 \<times> u32" where
  "kbdgetc shift code =
     (if code = 0xE0 then (0, shift OR E0ESC)
      else if code AND 0x80 \<noteq> 0
      then let d = (if shift AND E0ESC \<noteq> 0 then code else code AND 0x7F)
           in (0, shift AND NOT (ucast (shiftcode ! unat d) OR E0ESC))
      else let (d, shift) = (if shift AND E0ESC \<noteq> 0 then (code OR 0x80, shift AND NOT E0ESC) else (code, shift));
               shift = (shift OR ucast (shiftcode ! unat d)) XOR ucast (togglecode ! unat d);
               c = charcode ! unat (shift AND (CTL OR SHIFT)) ! unat d;
               c = (if shift AND CAPSLOCK \<noteq> 0
                    then if 0x61 \<le> c \<and> c \<le> 0x7A then c - 0x20 else if 0x41 \<le> c \<and> c \<le> 0x5A then c + 0x20 else c
                    else c)
           in (c, shift))"

fun kbd_chars :: "u32 \<Rightarrow> u8 list \<Rightarrow> u8 list \<times> u32" where
  "kbd_chars shift [] = ([], shift)"
| "kbd_chars shift (d # ds) = (case kbdgetc shift d of (c, shift) \<Rightarrow> case kbd_chars shift ds of (cs, shift) \<Rightarrow> (c # cs, shift))"

section \<open>The screen and the serial line\<close>

definition BACKSPACE :: int where "BACKSPACE = 0x100"

record screen =
  crt :: "nat \<Rightarrow> u16"
  cpos :: nat

text \<open>\<^verbatim>\<open>crt[pos++] = (c&0xff) | 0x0700\<close>, newline and backspace; then the check, scrolling, and the cell under the cursor.\<close>

definition cga_move :: "int \<Rightarrow> screen \<Rightarrow> screen" where
  "cga_move c t =
     (if c = 10 then t\<lparr>cpos := cpos t + (80 - cpos t mod 80)\<rparr>
      else if c = BACKSPACE then t\<lparr>cpos := cpos t - 1\<rparr>
      else t\<lparr>crt := (crt t)(cpos t := (of_int c AND 0xff) OR 0x0700), cpos := cpos t + 1\<rparr>)"

definition cga_scroll :: "screen \<Rightarrow> screen" where
  "cga_scroll t =
     (let m = (\<lambda>i. if i < 23 * 80 then crt t (i + 80) else crt t i); p = cpos t - 80
      in \<lparr>crt = (\<lambda>i. if p \<le> i \<and> i < 24 * 80 then 0 else m i), cpos = p\<rparr>)"

definition cgaputc :: "int \<Rightarrow> screen \<Rightarrow> screen res" where
  "cgaputc c t =
     (let t = cga_move c t in
      if 25 * 80 < cpos t then panic ''pos under/overflow''
      else let t = (if 24 \<le> cpos t div 80 then cga_scroll t else t)
           in Ok (t\<lparr>crt := (crt t)(cpos t := 0x0720)\<rparr>))"

section \<open>The input line (struct input)\<close>

definition INPUT_BUF :: nat where "INPUT_BUF = 128"

record conin =
  ibuf :: "u8 list"
  ir :: u32
  iw :: u32
  ie :: u32

definition islot :: "u32 \<Rightarrow> nat" where "islot k = unat (k mod of_nat INPUT_BUF)"

definition conin_put :: "u8 \<Rightarrow> conin \<Rightarrow> conin" where
  "conin_put c q = q\<lparr>ibuf := (ibuf q)[islot (ie q) := c], ie := ie q + 1\<rparr>"

definition conin_get :: "conin \<Rightarrow> u8 \<times> conin" where
  "conin_get q = (ibuf q ! islot (ir q), q\<lparr>ir := ir q + 1\<rparr>)"

definition conin_full :: "conin \<Rightarrow> bool" where "conin_full q \<longleftrightarrow> \<not> ie q - ir q < of_nat INPUT_BUF"

text \<open>\<^verbatim>\<open>C('U')\<close>: the number of characters that are taken back.\<close>

function kill_line :: "conin \<Rightarrow> nat \<times> conin" where
  "kill_line q =
     (if ie q \<noteq> iw q \<and> ibuf q ! islot (ie q - 1) \<noteq> 10
      then (case kill_line (q\<lparr>ie := ie q - 1\<rparr>) of (n, q) \<Rightarrow> (Suc n, q))
      else (0, q))"
  by pat_completeness auto
termination kill_line
proof (relation "measure (\<lambda>q. unat (ie q - iw q))")
  fix q :: conin
  assume "ie q \<noteq> iw q \<and> ibuf q ! islot (ie q - 1) \<noteq> 10"
  then have "ie q - iw q \<noteq> 0" by simp
  then have "unat (ie q - iw q - 1) < unat (ie q - iw q)" by (simp add: unat_minus_one unat_gt_0)
  then show "(q\<lparr>ie := ie q - 1\<rparr>, q) \<in> measure (\<lambda>q. unat (ie q - iw q))" by (simp add: algebra_simps)
qed simp

declare kill_line.simps [simp del]

text \<open>One character of \<^verbatim>\<open>consoleintr\<close>: the line, what is echoed, whether readers are woken.\<close>

definition console_char :: "u8 \<Rightarrow> conin \<Rightarrow> conin \<times> int list \<times> bool" where
  "console_char c q =
     (if c = 0x10 then (q, [], False)
      else if c = 0x15 then (case kill_line q of (n, q) \<Rightarrow> (q, replicate n BACKSPACE, False))
      else if c = 0x08 \<or> c = 0x7f then (if ie q \<noteq> iw q then (q\<lparr>ie := ie q - 1\<rparr>, [BACKSPACE], False) else (q, [], False))
      else if c \<noteq> 0 \<and> \<not> conin_full q
      then let c = (if c = 0x0D then 10 else c); q = conin_put c q
           in if c = 10 \<or> c = 4 \<or> ie q = ir q + of_nat INPUT_BUF then (q\<lparr>iw := ie q\<rparr>, [uint c], True) else (q, [uint c], False)
      else (q, [], False))"

datatype con_result = ConDone | ConKilled | ConSleep

text \<open>The loop of \<^verbatim>\<open>consoleread\<close>: \<open>n\<close> characters of \<open>target\<close> still wanted; the characters read.\<close>

fun consoleread_loop :: "bool \<Rightarrow> nat \<Rightarrow> nat \<Rightarrow> conin \<Rightarrow> con_result \<times> u8 list \<times> conin" where
  "consoleread_loop killed target 0 q = (ConDone, [], q)"
| "consoleread_loop killed target (Suc n) q =
     (if ir q = iw q then (if killed then ConKilled else ConSleep, [], q)
      else let (c, q') = conin_get q in
        if c = 4 then (ConDone, [], if Suc n < target then q else q')
        else if c = 10 then (ConDone, [c], q')
        else case consoleread_loop killed target n q' of (r, cs, q) \<Rightarrow> (r, c # cs, q))"

section \<open>The console as a device\<close>

text \<open>\<open>uart\<close>: is there a serial port; \<open>kshift\<close>: the static modifier state of \<^verbatim>\<open>kbdgetc\<close>.\<close>

record cst = kst +
  input :: conin
  screen :: screen
  uart :: bool
  serial :: "u8 list"
  kshift :: u32

definition CONSOLE :: nat where "CONSOLE = 1"

definition uartputc :: "int \<Rightarrow> 'a cst_scheme \<Rightarrow> 'a cst_scheme" where
  "uartputc c s = (if uart s then s\<lparr>serial := serial s @ [of_int c]\<rparr> else s)"

definition consputc :: "int \<Rightarrow> 'a cst_scheme \<Rightarrow> 'a cst_scheme res" where
  "consputc c s =
     (let s = (if c = BACKSPACE then uartputc 8 (uartputc 0x20 (uartputc 8 s)) else uartputc c s) in
      bind_res (cgaputc c (screen s)) (\<lambda>t. Ok (s\<lparr>screen := t\<rparr>)))"

fun consputs :: "int list \<Rightarrow> 'a cst_scheme \<Rightarrow> 'a cst_scheme res" where
  "consputs [] s = Ok s"
| "consputs (c # cs) s = bind_res (consputc c s) (consputs cs)"

text \<open>The text of \<^verbatim>\<open>procdump\<close>.\<close>

definition procdump_text :: "'a pst_scheme \<Rightarrow> u8 list" where
  "procdump_text s =
     concat (map (\<lambda>(pid, st, name, pcs).
       printint digits_lower (of_int pid) 10 True @ [0x20] @ chars st @ [0x20] @ takeWhile (\<lambda>c. c \<noteq> 0) name @
       concat (map (\<lambda>pc. 0x20 # printint digits_lower pc 16 False) pcs) @ [10]) (procdump s))"

fun consoleintr_loop :: "u8 list \<Rightarrow> 'a cst_scheme \<Rightarrow> 'a cst_scheme res" where
  "consoleintr_loop [] s = Ok s"
| "consoleintr_loop (c # cs) s =
     (case console_char c (input s) of (q, echo, wake) \<Rightarrow>
        bind_res (consputs echo (s\<lparr>input := q\<rparr>)) (\<lambda>s.
          consoleintr_loop cs (if wake then wakeup ChInput s else s)))"

definition consoleintr :: "u8 list \<Rightarrow> 'a cst_scheme \<Rightarrow> 'a cst_scheme res" where
  "consoleintr cs s =
     bind_res (consoleintr_loop cs s) (\<lambda>s.
       if 0x10 \<in> set cs then consputs (map uint (procdump_text s)) s else Ok s)"

definition kbdintr :: "u8 list \<Rightarrow> 'a cst_scheme \<Rightarrow> 'a cst_scheme res" where
  "kbdintr codes s = (case kbd_chars (kshift s) codes of (cs, shift) \<Rightarrow> consoleintr cs (s\<lparr>kshift := shift\<rparr>))"

definition uartintr :: "u8 list \<Rightarrow> 'a cst_scheme \<Rightarrow> 'a cst_scheme res" where
  "uartintr bytes s = (if uart s then consoleintr bytes s else consoleintr [] s)"

definition consoleread :: "nat \<Rightarrow> u32 \<Rightarrow> 'a cst_scheme \<Rightarrow> (u8 list option \<times> 'a cst_scheme) res" where
  "consoleread ip n s =
     bind_res (iunlock ip s) (\<lambda>s.
       let k = nat (sint n) in
       case consoleread_loop (my_killed s) k k (input s) of (r, cs, q) \<Rightarrow>
         (case r of
            ConSleep \<Rightarrow> Err Sleep
          | ConKilled \<Rightarrow> bind_res (ilock ip (s\<lparr>input := q\<rparr>)) (\<lambda>s. Ok (None, s))
          | ConDone \<Rightarrow> bind_res (ilock ip (s\<lparr>input := q\<rparr>)) (\<lambda>s. Ok (Some cs, s))))"

definition consolewrite :: "nat \<Rightarrow> u8 list \<Rightarrow> 'a cst_scheme \<Rightarrow> (int \<times> 'a cst_scheme) res" where
  "consolewrite ip bs s =
     bind_res (iunlock ip s) (\<lambda>s.
     bind_res (consputs (map uint bs) s) (\<lambda>s.
     bind_res (ilock ip s) (\<lambda>s. Ok (int (length bs), s))))"

text \<open>The device table after \<^verbatim>\<open>consoleinit\<close>.\<close>

definition console_devsw :: "'a cst_scheme devsw" where
  "console_devsw = (\<lambda>_. \<lparr>dv_read = None, dv_write = None\<rparr>)(CONSOLE := \<lparr>dv_read = Some consoleread, dv_write = Some consolewrite\<rparr>)"

section \<open>The line discipline on lists\<close>

definition conin_empty :: "conin \<Rightarrow> bool" where "conin_empty q \<longleftrightarrow> ir q = ie q"

definition conin_all :: "conin \<Rightarrow> u8 list" where "conin_all q = ring_cells INPUT_BUF (ibuf q) (ir q) (unat (ie q - ir q))"

definition ring_ok :: "conin \<Rightarrow> bool" where "ring_ok q \<longleftrightarrow> length (ibuf q) = INPUT_BUF \<and> unat (ie q - ir q) \<le> INPUT_BUF"

lemma islot_unat: "islot k = unat k mod INPUT_BUF"
  unfolding islot_def by (rule unat_mod_counter) (simp add: INPUT_BUF_def)

lemma ring_128: "INPUT_BUF dvd 2 ^ 32" "INPUT_BUF < 2 ^ 32"
  by (simp_all add: INPUT_BUF_def)

lemma conin_full_iff: "conin_full q \<longleftrightarrow> INPUT_BUF \<le> unat (ie q - ir q)"
  by (auto simp: conin_full_def word_less_nat_alt INPUT_BUF_def)

lemma word_dist_Suc: "unat (a - b) < n \<Longrightarrow> n \<le> 128 \<Longrightarrow> unat (a + 1 - b) = Suc (unat (a - b))" for a b :: u32
proof -
  assume a: "unat (a - b) < n" "n \<le> 128"
  have "unat (a - b + 1) = unat (a - b) + unat (1 :: u32)" by (rule unat_add_no_wrap) (use a in simp)
  then show ?thesis by (simp add: algebra_simps)
qed

lemma word_dist_pred: "a \<noteq> b \<Longrightarrow> unat (a - b) = Suc (unat (a - (b + 1)))" "a \<noteq> b \<Longrightarrow> unat (a - b) = Suc (unat (a - 1 - b))" for a b :: u32
proof -
  assume "a \<noteq> b"
  then have "a - b \<noteq> 0" by simp
  then have "unat (a - b - 1) = unat (a - b) - 1" "unat (a - b) \<noteq> 0" by (simp_all add: unat_minus_one unat_eq_0)
  then show "unat (a - b) = Suc (unat (a - (b + 1)))" "unat (a - b) = Suc (unat (a - 1 - b))" by (simp_all add: algebra_simps)
qed

lemma conin_put_all:
  assumes "ring_ok q" "\<not> conin_full q"
  shows "conin_all (conin_put c q) = conin_all q @ [c]" "ring_ok (conin_put c q)"
proof -
  let ?k = "unat (ie q - ir q)"
  have k: "?k < INPUT_BUF" using assms(2) by (simp add: conin_full_iff)
  have e: "unat (ie q + 1 - ir q) = Suc ?k" by (rule word_dist_Suc [OF k]) (simp add: INPUT_BUF_def)
  have s: "islot (ie q) = unat (ir q + of_nat ?k) mod INPUT_BUF" by (simp add: islot_unat)
  show "conin_all (conin_put c q) = conin_all q @ [c]"
    using ring_cells_put [OF ring_128 k, of "ibuf q" "ir q" c] assms(1)
    by (simp add: conin_all_def conin_put_def e s ring_ok_def)
  show "ring_ok (conin_put c q)" using assms(1) k by (simp add: ring_ok_def conin_put_def e)
qed

lemma conin_get_all:
  assumes "\<not> conin_empty q"
  shows "conin_all q = fst (conin_get q) # conin_all (snd (conin_get q))"
proof -
  have "ie q \<noteq> ir q" using assms by (simp add: conin_empty_def)
  from word_dist_pred(1) [OF this] show ?thesis by (simp add: conin_all_def conin_get_def ring_cells_get islot_unat)
qed

interpretation con: bounded_fifo conin_put conin_get conin_full conin_empty conin_all ring_ok INPUT_BUF
proof unfold_locales
  fix q assume q: "ring_ok q" "\<not> conin_empty q"
  then have "ie q \<noteq> ir q" by (simp add: conin_empty_def)
  from word_dist_pred(1) [OF this] show "ring_ok (snd (conin_get q))" using q by (simp add: ring_ok_def conin_get_def)
  show "fst (conin_get q) = hd (conin_all q)" "conin_all (snd (conin_get q)) = tl (conin_all q)" using conin_get_all [OF q(2)] by simp_all
next
  fix q assume q: "ring_ok q"
  then show "conin_full q \<longleftrightarrow> length (conin_all q) = INPUT_BUF" "length (conin_all q) \<le> INPUT_BUF"
    by (auto simp: ring_ok_def conin_full_iff conin_all_def)
  show "conin_empty q \<longleftrightarrow> conin_all q = []"
    by (auto simp: conin_all_def conin_empty_def unat_eq_0 simp flip: length_0_conv)
qed (simp_all add: conin_put_all)

text \<open>What readers can get, and the line being edited; the line being edited has no newline.\<close>

definition con_lines :: "conin \<Rightarrow> u8 list \<times> u8 list" where
  "con_lines q = (let k = unat (iw q - ir q) in (take k (conin_all q), drop k (conin_all q)))"

definition conin_inv :: "conin \<Rightarrow> bool" where
  "conin_inv q \<longleftrightarrow> ring_ok q \<and> unat (iw q - ir q) \<le> unat (ie q - ir q) \<and> 10 \<notin> set (snd (con_lines q))"

text \<open>The discipline as a function on the two lists.\<close>

definition line_char :: "u8 \<Rightarrow> u8 list \<times> u8 list \<Rightarrow> u8 list \<times> u8 list" where
  "line_char c l = (case l of (done, edit) \<Rightarrow>
     if c = 0 \<or> c = 0x10 then (done, edit)
     else if c = 0x15 then (done, [])
     else if c = 0x08 \<or> c = 0x7f then (done, butlast edit)
     else if length (done @ edit) < INPUT_BUF
     then let c = (if c = 0x0D then 10 else c); edit = edit @ [c] in
          if c = 10 \<or> c = 4 \<or> length (done @ edit) = INPUT_BUF then (done @ edit, []) else (done, edit)
     else (done, edit))"

fun line_read :: "bool \<Rightarrow> nat \<Rightarrow> nat \<Rightarrow> u8 list \<Rightarrow> con_result \<times> u8 list \<times> u8 list" where
  "line_read killed target 0 ready = (ConDone, [], ready)"
| "line_read killed target (Suc n) [] = (if killed then ConKilled else ConSleep, [], [])"
| "line_read killed target (Suc n) (c # cs) =
     (if c = 4 then (ConDone, [], if Suc n < target then c # cs else cs)
      else if c = 10 then (ConDone, [c], cs)
      else case line_read killed target n cs of (r, ds, ready) \<Rightarrow> (r, c # ds, ready))"

lemma length_conin_all [simp]: "length (conin_all q) = unat (ie q - ir q)"
  by (simp add: conin_all_def)

lemma word_dist_inj: "unat (a - c) = unat (b - c) \<Longrightarrow> a = b" for a b c :: u32
  by (simp add: word_unat_eq_iff [symmetric])

lemma con_lines_append: "conin_inv q \<Longrightarrow> conin_all q = fst (con_lines q) @ snd (con_lines q)"
  by (simp add: con_lines_def Let_def)

lemma edit_empty:
  assumes "conin_inv q"
  shows "snd (con_lines q) = [] \<longleftrightarrow> ie q = iw q"
  using assms word_dist_inj [of "ie q" "ir q" "iw q"] by (auto simp: con_lines_def Let_def conin_inv_def)

lemma conin_back:
  assumes inv: "conin_inv q" and ne: "ie q \<noteq> iw q"
  defines "q' \<equiv> q\<lparr>ie := ie q - 1\<rparr>"
  shows "con_lines q' = (fst (con_lines q), butlast (snd (con_lines q)))" "conin_inv q'" "last (snd (con_lines q)) = ibuf q ! islot (ie q - 1)"
    "length (snd (con_lines q)) = Suc (length (snd (con_lines q')))"
proof -
  let ?k = "unat (iw q - ir q)"
  have kl: "?k \<le> unat (ie q - ir q)" using inv by (simp add: conin_inv_def)
  moreover have "?k \<noteq> unat (ie q - ir q)" using word_dist_inj [of "iw q" "ir q" "ie q"] ne by auto
  ultimately have lt: "?k < unat (ie q - ir q)" by simp
  then have "ie q \<noteq> ir q" by auto
  from word_dist_pred(2) [OF this] have d: "unat (ie q - ir q) = Suc (unat (ie q - 1 - ir q))" .
  let ?m = "unat (ie q - 1 - ir q)"
  have k: "?k \<le> ?m" using lt d by simp
  have all: "conin_all q' = butlast (conin_all q)"
    by (simp add: conin_all_def q'_def d butlast_conv_take take_ring_cells)
  have ed: "snd (con_lines q) \<noteq> []" using edit_empty [OF inv] ne by simp
  show l: "con_lines q' = (fst (con_lines q), butlast (snd (con_lines q)))"
    using k d all by (simp add: con_lines_def Let_def q'_def butlast_conv_take take_drop)
  have "set (butlast (snd (con_lines q))) \<subseteq> set (snd (con_lines q))" by (auto dest: in_set_butlastD)
  then show "conin_inv q'" using inv k d unfolding conin_inv_def l by (auto simp: ring_ok_def q'_def)
  have "last (snd (con_lines q)) = last (conin_all q)" using ed by (simp add: con_lines_def Let_def last_drop)
  also have "\<dots> = conin_all q ! ?m" by (subst last_conv_nth) (simp_all add: d flip: length_0_conv)
  also have "\<dots> = ibuf q ! islot (ie q - 1)" by (simp add: conin_all_def ring_cells_nth d islot_unat)
  finally show "last (snd (con_lines q)) = ibuf q ! islot (ie q - 1)" .
  show "length (snd (con_lines q)) = Suc (length (snd (con_lines q')))" using ed by (simp add: l)
qed

lemma kill_line_lines:
  assumes "conin_inv q"
  shows "\<exists>q'. kill_line q = (length (snd (con_lines q)), q') \<and> conin_inv q' \<and> con_lines q' = (fst (con_lines q), [])"
  using assms
proof (induction "length (snd (con_lines q))" arbitrary: q)
  case 0
  then have "ie q = iw q" using edit_empty by auto
  then show ?case using 0 by (subst kill_line.simps) (auto simp: prod_eq_iff)
next
  case (Suc n)
  have ed: "snd (con_lines q) \<noteq> []" using Suc.hyps(2) by auto
  then have ne: "ie q \<noteq> iw q" using edit_empty [OF Suc.prems] by simp
  note b = conin_back [OF Suc.prems ne]
  have nl: "ibuf q ! islot (ie q - 1) \<noteq> 10"
    unfolding b(3) [symmetric] using last_in_set [OF ed] Suc.prems by (auto simp: conin_inv_def)
  define q1 where "q1 = q\<lparr>ie := ie q - 1\<rparr>"
  note b = b [folded q1_def]
  obtain q' where q': "kill_line q1 = (length (snd (con_lines q1)), q')" "conin_inv q'" "con_lines q' = (fst (con_lines q1), [])"
    using Suc.hyps(1) [OF _ b(2)] Suc.hyps(2) b(4) by auto
  have "kill_line q = (Suc (length (snd (con_lines q1))), q')"
    using ne nl q'(1) by (subst kill_line.simps) (simp add: q1_def)
  then show ?case using q'(2,3) b(1) unfolding b(4) by simp
qed

lemma conin_put_lines:
  assumes inv: "conin_inv q" and nf: "\<not> conin_full q"
  shows "con_lines (conin_put c q) = (fst (con_lines q), snd (con_lines q) @ [c])"
    "c \<noteq> 10 \<Longrightarrow> conin_inv (conin_put c q)"
    "conin_inv ((conin_put c q)\<lparr>iw := ie (conin_put c q)\<rparr>)"
    "con_lines ((conin_put c q)\<lparr>iw := ie (conin_put c q)\<rparr>) = (fst (con_lines q) @ snd (con_lines q) @ [c], [])"
proof -
  let ?k = "unat (iw q - ir q)" and ?p = "conin_put c q"
  have r: "ring_ok q" and k: "?k \<le> unat (ie q - ir q)" using inv by (simp_all add: conin_inv_def)
  note P = conin_put_all [OF r nf, of c]
  have f: "iw ?p = iw q" "ir ?p = ir q" by (simp_all add: conin_put_def)
  show l: "con_lines ?p = (fst (con_lines q), snd (con_lines q) @ [c])"
    using k by (simp add: con_lines_def Let_def P(1) f)
  have len: "unat (ie ?p - ir ?p) = Suc (unat (ie q - ir q))" using arg_cong [OF P(1), of length] by simp
  then show "c \<noteq> 10 \<Longrightarrow> conin_inv ?p" using inv P(2) k unfolding conin_inv_def l by (simp add: f)
  define p2 where "p2 = ?p\<lparr>iw := ie ?p\<rparr>"
  have a: "conin_all p2 = fst (con_lines q) @ snd (con_lines q) @ [c]" "ring_ok p2" "unat (iw p2 - ir p2) = length (conin_all p2)"
    subgoal using P(1) con_lines_append [OF inv] by (simp add: p2_def conin_all_def)
    subgoal using P(2) by (simp add: p2_def ring_ok_def)
    subgoal by (simp add: p2_def)
    done
  have l2: "con_lines p2 = (fst (con_lines q) @ snd (con_lines q) @ [c], [])"
    unfolding con_lines_def [of p2] a(3) Let_def using a(1) by simp
  then show "con_lines (?p\<lparr>iw := ie ?p\<rparr>) = (fst (con_lines q) @ snd (con_lines q) @ [c], [])" by (simp only: p2_def)
  have "unat (iw p2 - ir p2) \<le> unat (ie p2 - ir p2)" by (simp add: a(3))
  then have "conin_inv p2" unfolding conin_inv_def l2 using a(2) by simp
  then show "conin_inv (?p\<lparr>iw := ie ?p\<rparr>)" by (simp only: p2_def)
qed

lemma conin_full_lines: "conin_inv q \<Longrightarrow> conin_full q \<longleftrightarrow> \<not> length (fst (con_lines q) @ snd (con_lines q)) < INPUT_BUF"
  unfolding con_lines_append [symmetric] by (simp add: conin_full_iff not_less)

lemma word_dist_128: "a = b + 128 \<longleftrightarrow> unat (a - b) = 128" for a b :: u32
proof -
  have "a = b + 128 \<longleftrightarrow> a - b = 128" by (auto simp: algebra_simps)
  then show ?thesis by (simp add: word_unat_eq_iff)
qed

lemma console_char_insert:
  assumes inv: "conin_inv q" and c: "c \<noteq> 0" "c \<noteq> 0x10" "c \<noteq> 0x15" "c \<noteq> 0x08" "c \<noteq> 0x7f"
  shows "conin_inv (fst (console_char c q)) \<and> con_lines (fst (console_char c q)) = line_char c (con_lines q) \<and>
    (snd (snd (console_char c q)) \<longleftrightarrow> fst (line_char c (con_lines q)) \<noteq> fst (con_lines q))"
proof (cases "conin_full q")
  case True
  then show ?thesis using inv c conin_full_lines [OF inv] by (cases "con_lines q") (simp add: console_char_def line_char_def)
next
  case False
  define d where "d = (if c = 0x0D then 10 else c)"
  note P = conin_put_lines [OF inv False, of d]
  obtain ready edit where l: "con_lines q = (ready, edit)" by (cases "con_lines q")
  have len: "length (ready @ edit) < INPUT_BUF" using False conin_full_lines [OF inv] l by simp
  have all: "length (conin_all (conin_put d q)) = Suc (length (ready @ edit))"
    using conin_put_all(1) [of q d] inv False con_lines_append [OF inv] l by (simp add: conin_inv_def)
  have f: "ie (conin_put d q) = ir (conin_put d q) + of_nat INPUT_BUF \<longleftrightarrow> length (ready @ edit @ [d]) = INPUT_BUF"
  proof -
    have "unat (ie (conin_put d q) - ir (conin_put d q)) = length (ready @ edit @ [d])" using all by simp
    then show ?thesis using word_dist_128 [of "ie (conin_put d q)" "ir (conin_put d q)"] by (simp add: INPUT_BUF_def)
  qed
  define stop where "stop \<longleftrightarrow> d = 10 \<or> d = 4 \<or> length (ready @ edit @ [d]) = INPUT_BUF"
  have cc: "console_char c q = (if stop then ((conin_put d q)\<lparr>iw := ie (conin_put d q)\<rparr>, [uint d], True) else (conin_put d q, [uint d], False))"
    using c False f by (simp add: console_char_def Let_def d_def [symmetric] stop_def)
  have lc: "line_char c (con_lines q) = (if stop then (ready @ edit @ [d], []) else (ready, edit @ [d]))"
    using c len by (simp add: l line_char_def Let_def d_def [symmetric] stop_def)
  show ?thesis
  proof (cases stop)
    case True
    then show ?thesis using P(3,4) unfolding cc lc by (simp add: l)
  next
    case nstop: False
    then have "d \<noteq> 10" by (simp add: stop_def)
    then show ?thesis using nstop P(1,2) unfolding cc lc by (simp add: l)
  qed
qed

text \<open>The console input buffer, a ring with read, write and edit counters that wrap, behaves as two lists of characters, the
  finished lines and the line being edited: every key does what the line discipline says, no character is lost or overwritten, and
  sleeping readers are woken exactly when there is more to read.\<close>

theorem console_char_refines:
  assumes "conin_inv q"
  shows "conin_inv (fst (console_char c q)) \<and> con_lines (fst (console_char c q)) = line_char c (con_lines q) \<and>
    (snd (snd (console_char c q)) \<longleftrightarrow> fst (line_char c (con_lines q)) \<noteq> fst (con_lines q))"
proof -
  obtain ready edit where l: "con_lines q = (ready, edit)" by (cases "con_lines q")
  consider (Ign) "c = 0 \<or> c = 0x10" | (Kill) "c = 0x15" | (Back) "c = 0x08 \<or> c = 0x7f"
    | (Ins) "c \<noteq> 0" "c \<noteq> 0x10" "c \<noteq> 0x15" "c \<noteq> 0x08" "c \<noteq> 0x7f" by blast
  then show ?thesis
  proof cases
    case Ign
    then show ?thesis using assms by (auto simp: console_char_def line_char_def l)
  next
    case Kill
    obtain q' where "kill_line q = (length (snd (con_lines q)), q')" "conin_inv q'" "con_lines q' = (fst (con_lines q), [])"
      using kill_line_lines [OF assms] by blast
    then show ?thesis using Kill by (simp add: console_char_def line_char_def l)
  next
    case Back
    show ?thesis
    proof (cases "ie q = iw q")
      case True
      then have "edit = []" using edit_empty [OF assms] l by simp
      with Back show ?thesis by (elim disjE) (simp_all add: True assms console_char_def line_char_def l)
    next
      case False
      from Back show ?thesis by (elim disjE) (simp_all add: False conin_back(1,2) [OF assms False] console_char_def line_char_def l)
    qed
  next
    case Ins
    then show ?thesis by (rule console_char_insert [OF assms])
  qed
qed

lemma conin_get_lines:
  assumes inv: "conin_inv q" and ne: "ir q \<noteq> iw q"
  shows "conin_inv (snd (conin_get q))" "con_lines q = (fst (conin_get q) # fst (con_lines (snd (conin_get q))), snd (con_lines (snd (conin_get q))))"
proof -
  let ?g = "snd (conin_get q)"
  from ne have k: "unat (iw q - ir q) = Suc (unat (iw q - (ir q + 1)))" by (simp add: word_dist_pred(1))
  have "ie q \<noteq> ir q" using inv k by (auto simp: conin_inv_def)
  then have e: "\<not> conin_empty q" "unat (ie q - ir q) = Suc (unat (ie q - (ir q + 1)))" by (simp_all add: conin_empty_def word_dist_pred(1))
  have a: "conin_all q = fst (conin_get q) # conin_all ?g" by (rule conin_get_all [OF e(1)])
  have g: "iw ?g = iw q" "ir ?g = ir q + 1" "ie ?g = ie q" by (simp_all add: conin_get_def)
  show l: "con_lines q = (fst (conin_get q) # fst (con_lines ?g), snd (con_lines ?g))"
    unfolding con_lines_def Let_def a k g by simp
  have "ring_ok ?g" using inv e con.inv_get by (simp add: conin_inv_def)
  then show "conin_inv ?g" using inv k e(2) unfolding conin_inv_def l g by simp
qed

lemma con_lines_ready: "conin_inv q \<Longrightarrow> fst (con_lines q) = [] \<longleftrightarrow> ir q = iw q"
proof
  assume i: "conin_inv q" and e: "fst (con_lines q) = []"
  show "ir q = iw q"
  proof (rule ccontr)
    assume "ir q \<noteq> iw q"
    from conin_get_lines(2) [OF i this] e show False by simp
  qed
next
  assume "ir q = iw q"
  then show "fst (con_lines q) = []" by (simp add: con_lines_def)
qed

text \<open>C23: \<^verbatim>\<open>consoleread\<close> takes characters from the finished lines only, in order, up to a newline or the number asked for; an
  end-of-file character is kept for the next call unless it comes first; and the line being edited is not touched.\<close>

theorem consoleread_refines:
  assumes "conin_inv q" "consoleread_loop killed target n q = (r, cs, q')"
  shows "conin_inv q' \<and> snd (con_lines q') = snd (con_lines q) \<and> line_read killed target n (fst (con_lines q)) = (r, cs, fst (con_lines q'))"
  using assms
proof (induction n arbitrary: q r cs q')
  case (Suc n)
  show ?case
  proof (cases "ir q = iw q")
    case True
    then have "fst (con_lines q) = []" using con_lines_ready [OF Suc.prems(1)] by simp
    then show ?thesis using True Suc.prems by auto
  next
    case False
    obtain c g where g: "conin_get q = (c, g)" by (cases "conin_get q")
    note G = conin_get_lines [OF Suc.prems(1) False, unfolded g fst_conv snd_conv]
    obtain r1 cs1 q1 where R: "consoleread_loop killed target n g = (r1, cs1, q1)" by (cases "consoleread_loop killed target n g")
    from Suc.IH [OF G(1) R] Suc.prems G R show ?thesis by (auto simp: False g split: if_splits)
  qed
qed simp

text \<open>As long as the cursor is on the first 24 lines, printing any character does not panic, keeps it there, and writes no cell
  of the screen memory beyond those lines.\<close>

theorem cgaputc_bounds:
  assumes "cpos t < 24 * 80"
  shows "\<exists>t'. cgaputc c t = Ok t' \<and> cpos t' < 24 * 80 \<and> (\<forall>i. 24 * 80 \<le> i \<longrightarrow> crt t' i = crt t i)"
proof -
  define t1 where "t1 = cga_move c t"
  define k r where "k = cpos t div 80" and "r = cpos t mod 80"
  have c: "cpos t = 80 * k + r" "r < 80" "k < 24" using assms by (simp_all add: k_def r_def less_mult_imp_div_less)
  have p: "cpos t1 \<le> 24 * 80" unfolding t1_def cga_move_def r_def [symmetric] using c assms by (simp; linarith)
  have m: "crt t1 i = crt t i" if "24 * 80 \<le> i" for i using that assms by (simp add: t1_def cga_move_def)
  define t2 where "t2 = (if 24 \<le> cpos t1 div 80 then cga_scroll t1 else t1)"
  have p2: "cpos t2 < 24 * 80" using p by (auto simp: t2_def cga_scroll_def Let_def)
  have m2: "crt t2 i = crt t i" if "24 * 80 \<le> i" for i using that m by (simp add: t2_def cga_scroll_def Let_def)
  have "cgaputc c t = Ok (t2\<lparr>crt := (crt t2)(cpos t2 := 0x0720)\<rparr>)" using p by (simp add: cgaputc_def Let_def t1_def [symmetric] t2_def)
  then show ?thesis using p2 m2 by simp
qed

section \<open>A session\<close>

text \<open>An empty buffer whose counters are about to wrap, and a buffer that holds one line.\<close>

definition demo_in :: conin where "demo_in = \<lparr>ibuf = replicate 128 0, ir = - 2, iw = - 2, ie = - 2\<rparr>"

lemma demo_in_inv: "conin_inv demo_in" "con_lines demo_in = ([], [])"
  by (simp_all add: conin_inv_def con_lines_def Let_def demo_in_def ring_ok_def conin_all_def INPUT_BUF_def ring_cells_def)

theorem console_char_refines_witness:
  "conin_inv demo_in \<and> con_lines (fst (console_char 0x0D (fst (console_char 0x61 demo_in)))) = ([0x61, 10], [])"
proof -
  note 1 = console_char_refines [OF demo_in_inv(1), of "0x61"]
  note 2 = console_char_refines [OF conjunct1 [OF 1], of "0x0D"]
  show ?thesis using 1 2 demo_in_inv by (simp add: line_char_def INPUT_BUF_def)
qed

definition demo_line :: conin where
  "demo_line = \<lparr>ibuf = (replicate 128 0)[0 := 0x61, 1 := 10], ir = 0, iw = 2, ie = 2\<rparr>"

theorem consoleread_refines_witness:
  "conin_inv demo_line \<and> (\<exists>q'. consoleread_loop False 5 5 demo_line = (ConDone, [0x61, 10], q') \<and> fst (con_lines q') = [])"
proof -
  have l: "con_lines demo_line = ([0x61, 10], [])" and i: "conin_inv demo_line"
    by code_simp+
  obtain r cs q' where R: "consoleread_loop False 5 5 demo_line = (r, cs, q')" by (cases "consoleread_loop False 5 5 demo_line")
  have "line_read False 5 5 [0x61, 10] = (ConDone, [0x61, 10], [])" by code_simp
  with consoleread_refines [OF i R] R l i show ?thesis by simp
qed

theorem cgaputc_bounds_witness:
  "\<exists>t'. cgaputc 10 \<lparr>crt = (\<lambda>_. 0), cpos = 1900\<rparr> = Ok t' \<and> cpos t' < 24 * 80"
  using cgaputc_bounds [of "\<lparr>crt = (\<lambda>_. 0), cpos = 1900\<rparr>" 10] by auto

end
