(* ===== verification/Trap.thy ===== *)
theory Trap
  imports Sysfile Console
begin

text \<open>
  Entry into the kernel: the remaining system calls (\<^verbatim>\<open>sysproc.c\<close>), the system call table (\<^verbatim>\<open>syscall\<close> of
  \<^verbatim>\<open>syscall.c\<close>, \<^verbatim>\<open>syscall.h\<close>), and the trap handler with the interrupt descriptor table (\<^verbatim>\<open>trap.c\<close>, \<^verbatim>\<open>traps.h\<close>,
  gates of \<^verbatim>\<open>mmu.h\<close>). A system call that sleeps ends with \<open>Blocked\<close> and what it needs to go on; it is continued by running
  it again with that argument when the process has been woken. What the keyboard and the serial port have ready, and the number of
  the processor, are arguments of \<^verbatim>\<open>trap\<close>.
\<close>

section \<open>System calls on processes (sysproc.c)\<close>

text \<open>Where a blocked call goes on: at the top of its loop, a write at a byte, a sleep with the time it began.\<close>

datatype resume = Fresh | Again | AtByte nat | Since u32

datatype sysout = Returns int | Blocked resume | Exited

definition sys_fork :: "'a kst_scheme \<Rightarrow> (int \<times> 'a kst_scheme) res" where "sys_fork s = fork s"

definition sys_exit :: "'a kst_scheme \<Rightarrow> 'a kst_scheme res" where "sys_exit s = exit s"

definition sys_wait :: "'a kst_scheme \<Rightarrow> (sysout \<times> 'a kst_scheme) res" where
  "sys_wait s =
     bind_res (wait_pass s) (\<lambda>(r, s).
       Ok (case r of Reaped pid \<Rightarrow> Returns pid | NoChild \<Rightarrow> Returns (- 1) | WaitSleeps \<Rightarrow> Blocked Again, s))"

definition sys_kill :: "'a kst_scheme \<Rightarrow> (int \<times> 'a kst_scheme) res" where
  "sys_kill s = or_fail (argint 0 s) s (\<lambda>pid. Ok (kill (sint pid) s))"

definition sys_getpid :: "'a kst_scheme \<Rightarrow> (int \<times> 'a kst_scheme) res" where
  "sys_getpid s = (case cur s of None \<Rightarrow> Err Wild | Some me \<Rightarrow> Ok (ppid (ptable s me), s))"

definition sys_sbrk :: "'a kst_scheme \<Rightarrow> (int \<times> 'a kst_scheme) res" where
  "sys_sbrk s =
     (case cur s of None \<Rightarrow> Err Wild
      | Some me \<Rightarrow>
        or_fail (argint 0 s) s (\<lambda>n.
          let addr = psz (ptable s me) in
          bind_res (growproc (sint n) s) (\<lambda>(r, s). Ok (if r < 0 then - 1 else sint addr, s))))"

text \<open>One pass of the loop; the comparison is unsigned.\<close>

definition sys_sleep :: "resume \<Rightarrow> 'a kst_scheme \<Rightarrow> (sysout \<times> 'a kst_scheme) res" where
  "sys_sleep k s =
     bind_res (argint 0 s) (\<lambda>r. case r of
       None \<Rightarrow> Ok (Returns (- 1), s)
     | Some n \<Rightarrow>
         let ticks0 = (case k of Since t \<Rightarrow> t | _ \<Rightarrow> ticks s) in
         if ticks s - ticks0 < n
         then if my_killed s then Ok (Returns (- 1), s)
              else bind_res (sleep ChTicks True s) (\<lambda>s. Ok (Blocked (Since ticks0), s))
         else Ok (Returns 0, s))"

definition sys_uptime :: "'a kst_scheme \<Rightarrow> (int \<times> 'a kst_scheme) res" where
  "sys_uptime s = Ok (sint (ticks s), s)"

section \<open>The system call table (syscall.c, syscall.h)\<close>

datatype sysno = SYS_fork | SYS_exit | SYS_wait | SYS_pipe | SYS_read | SYS_kill | SYS_exec | SYS_fstat | SYS_chdir | SYS_dup | SYS_getpid
  | SYS_sbrk | SYS_sleep | SYS_uptime | SYS_open | SYS_write | SYS_mknod | SYS_unlink | SYS_link | SYS_mkdir | SYS_close

definition sys_numbers :: "sysno list" where
  "sys_numbers = [SYS_fork, SYS_exit, SYS_wait, SYS_pipe, SYS_read, SYS_kill, SYS_exec, SYS_fstat, SYS_chdir, SYS_dup, SYS_getpid,
     SYS_sbrk, SYS_sleep, SYS_uptime, SYS_open, SYS_write, SYS_mknod, SYS_unlink, SYS_link, SYS_mkdir, SYS_close]"

definition plain :: "(int \<times> 's) res \<Rightarrow> (sysout \<times> 's) res" where
  "plain r = bind_res r (\<lambda>(v, s). Ok (Returns v, s))"

definition syscalls :: "sysno \<Rightarrow> resume \<Rightarrow> 'a cst_scheme \<Rightarrow> (sysout \<times> 'a cst_scheme) res" where
  "syscalls num k s =
     (case num of
        SYS_fork \<Rightarrow> plain (sys_fork s)
      | SYS_exit \<Rightarrow> bind_res (sys_exit s) (\<lambda>s. Ok (Exited, s))
      | SYS_wait \<Rightarrow> sys_wait s
      | SYS_pipe \<Rightarrow> plain (sys_pipe s)
      | SYS_read \<Rightarrow> bind_res (sys_read console_devsw s) (\<lambda>(r, s).
          Ok (case r of Return v \<Rightarrow> Returns v | SleepOn _ \<Rightarrow> Blocked Again, s))
      | SYS_kill \<Rightarrow> plain (sys_kill s)
      | SYS_exec \<Rightarrow> plain (sys_exec console_devsw s)
      | SYS_fstat \<Rightarrow> plain (sys_fstat s)
      | SYS_chdir \<Rightarrow> plain (sys_chdir console_devsw s)
      | SYS_dup \<Rightarrow> plain (sys_dup s)
      | SYS_getpid \<Rightarrow> plain (sys_getpid s)
      | SYS_sbrk \<Rightarrow> plain (sys_sbrk s)
      | SYS_sleep \<Rightarrow> sys_sleep k s
      | SYS_uptime \<Rightarrow> plain (sys_uptime s)
      | SYS_open \<Rightarrow> plain (sys_open console_devsw s)
      | SYS_write \<Rightarrow> bind_res (sys_write console_devsw (case k of AtByte i \<Rightarrow> i | _ \<Rightarrow> 0) s) (\<lambda>(i, r, s).
          Ok (case r of Return v \<Rightarrow> Returns v | SleepOn _ \<Rightarrow> Blocked (AtByte i), s))
      | SYS_mknod \<Rightarrow> plain (sys_mknod console_devsw s)
      | SYS_unlink \<Rightarrow> plain (sys_unlink console_devsw s)
      | SYS_link \<Rightarrow> plain (sys_link console_devsw s)
      | SYS_mkdir \<Rightarrow> plain (sys_mkdir console_devsw s)
      | SYS_close \<Rightarrow> plain (sys_close s))"

definition set_eax :: "int \<Rightarrow> nat \<Rightarrow> 'a pst_scheme \<Rightarrow> 'a pst_scheme" where
  "set_eax v me s = upd_proc me (\<lambda>p. p\<lparr>ptf := (ptf p)\<lparr>tf_eax := of_int v\<rparr>\<rparr>) s"

text \<open>An unknown number is reported on the console.\<close>

definition unknown_text :: "nat \<Rightarrow> int \<Rightarrow> 'a pst_scheme \<Rightarrow> u8 list" where
  "unknown_text me num s =
     printint digits_lower (of_int (ppid (ptable s me))) 10 True @ [0x20] @ takeWhile (\<lambda>c. c \<noteq> 0) (pname (ptable s me)) @
     chars '': unknown sys call '' @ printint digits_lower (of_int num) 10 True @ [10]"

definition syscall :: "resume \<Rightarrow> 'a cst_scheme \<Rightarrow> (sysout \<times> 'a cst_scheme) res" where
  "syscall k s =
     (case cur s of None \<Rightarrow> Err Wild
      | Some me \<Rightarrow>
        let num = sint (tf_eax (ptf (ptable s me))) in
        if 0 < num \<and> num < 22
        then bind_res (syscalls (sys_numbers ! nat (num - 1)) k s) (\<lambda>(r, s).
               Ok (r, case r of Returns v \<Rightarrow> set_eax v me s | _ \<Rightarrow> s))
        else bind_res (consputs (map uint (unknown_text me num s)) s) (\<lambda>s. Ok (Returns (- 1), set_eax (- 1) me s)))"

section \<open>Gates (mmu.h) and the descriptor table (trap.c)\<close>

definition STS_IG32 :: u32 where "STS_IG32 = 0xE"
definition STS_TG32 :: u32 where "STS_TG32 = 0xF"

record gatedesc =
  off_15_0 :: u32
  gate_cs :: u32
  gate_args :: u32
  gate_rsv1 :: u32
  gate_type :: u32
  gate_s :: u32
  gate_dpl :: u32
  gate_p :: u32
  off_31_16 :: u32

definition SETGATE :: "bool \<Rightarrow> u32 \<Rightarrow> u32 \<Rightarrow> u32 \<Rightarrow> gatedesc" where
  "SETGATE istrap sel off d =
     \<lparr>off_15_0 = off AND 0xffff, gate_cs = sel, gate_args = 0, gate_rsv1 = 0, gate_type = (if istrap then STS_TG32 else STS_IG32),
      gate_s = 0, gate_dpl = d, gate_p = 1, off_31_16 = drop_bit 16 off\<rparr>"

definition T_SYSCALL :: nat where "T_SYSCALL = 64"
definition T_IRQ0 :: nat where "T_IRQ0 = 32"
definition IRQ_TIMER :: nat where "IRQ_TIMER = 0"
definition IRQ_KBD :: nat where "IRQ_KBD = 1"
definition IRQ_COM1 :: nat where "IRQ_COM1 = 4"
definition IRQ_IDE :: nat where "IRQ_IDE = 14"
definition IRQ_SPURIOUS :: nat where "IRQ_SPURIOUS = 31"

lemmas trap_nos = T_SYSCALL_def T_IRQ0_def IRQ_TIMER_def IRQ_KBD_def IRQ_COM1_def IRQ_IDE_def IRQ_SPURIOUS_def

text \<open>\<open>vectors\<close> are the entry points in \<^verbatim>\<open>vectors.S\<close>.\<close>

definition tvinit :: "(nat \<Rightarrow> u32) \<Rightarrow> nat \<Rightarrow> gatedesc" where
  "tvinit vectors =
     (\<lambda>i. SETGATE False (of_nat SEG_KCODE * 8) (vectors i) 0)
       (T_SYSCALL := SETGATE True (of_nat SEG_KCODE * 8) (vectors T_SYSCALL) DPL_USER)"

section \<open>The trap handler (trap.c)\<close>

definition exit_if_killed :: "bool \<Rightarrow> 'a kst_scheme \<Rightarrow> (bool \<times> 'a kst_scheme) res" where
  "exit_if_killed user s =
     (if cur s \<noteq> None \<and> my_killed s \<and> user then bind_res (exit s) (\<lambda>s. Ok (True, s)) else Ok (False, s))"

text \<open>What a processor does after a trap: it returns to what it was doing, or the process sleeps, has yielded or is gone.\<close>

datatype trapout = TReturns | TBlocked resume | TYields | TExits

text \<open>The switch on the number of an interrupt; \<open>None\<close> is a fault of the process.\<close>

definition trap_irq :: "nat \<Rightarrow> u8 list \<Rightarrow> u8 list \<Rightarrow> nat \<Rightarrow> 'a cst_scheme \<Rightarrow> 'a cst_scheme res option" where
  "trap_irq cpuid codes bytes no s =
     (if no = T_IRQ0 + IRQ_TIMER then Some (Ok (if cpuid = 0 then wakeup ChTicks (s\<lparr>ticks := ticks s + 1\<rparr>) else s))
      else if no = T_IRQ0 + IRQ_IDE \<or> no = T_IRQ0 + IRQ_IDE + 1 then Some (Ok s)
      else if no = T_IRQ0 + IRQ_KBD then Some (kbdintr codes s)
      else if no = T_IRQ0 + IRQ_COM1 then Some (uartintr bytes s)
      else if no = T_IRQ0 + 7 \<or> no = T_IRQ0 + IRQ_SPURIOUS then Some (Ok s)
      else None)"

text \<open>After the switch. \<^verbatim>\<open>yield\<close> comes back when the process is scheduled again, which is where \<open>after_yield\<close> goes on.\<close>

definition trap_end :: "bool \<Rightarrow> nat \<Rightarrow> 'a cst_scheme \<Rightarrow> (trapout \<times> 'a cst_scheme) res" where
  "trap_end user no s =
     bind_res (exit_if_killed user s) (\<lambda>(gone, s).
       if gone then Ok (TExits, s)
       else case cur s of
         Some me \<Rightarrow>
           if pstate (ptable s me) = RUNNING \<and> no = T_IRQ0 + IRQ_TIMER
           then bind_res (yield s) (\<lambda>s. Ok (TYields, s))
           else bind_res (exit_if_killed user s) (\<lambda>(gone, s). Ok (if gone then TExits else TReturns, s))
       | None \<Rightarrow> Ok (TReturns, s))"

definition after_yield :: "bool \<Rightarrow> 'a cst_scheme \<Rightarrow> (trapout \<times> 'a cst_scheme) res" where
  "after_yield user s = bind_res (exit_if_killed user s) (\<lambda>(gone, s). Ok (if gone then TExits else TReturns, s))"

definition trap_syscall :: "resume \<Rightarrow> trapframe \<Rightarrow> 'a cst_scheme \<Rightarrow> (trapout \<times> 'a cst_scheme) res" where
  "trap_syscall k tf s =
     (case cur s of None \<Rightarrow> Err Wild
      | Some me \<Rightarrow>
        bind_res (if k = Fresh then exit_if_killed True s else Ok (False, s)) (\<lambda>(gone, s).
          if gone then Ok (TExits, s)
          else bind_res (syscall k (if k = Fresh then upd_proc me (\<lambda>p. p\<lparr>ptf := tf\<rparr>) s else s)) (\<lambda>(r, s). case r of
            Blocked k \<Rightarrow> Ok (TBlocked k, s)
          | Exited \<Rightarrow> Ok (TExits, s)
          | Returns _ \<Rightarrow> bind_res (exit_if_killed True s) (\<lambda>(gone, s). Ok (if gone then TExits else TReturns, s)))))"

definition user_mode :: "trapframe \<Rightarrow> bool" where "user_mode tf \<longleftrightarrow> tf_cs tf AND 3 = ucast DPL_USER"

definition trap :: "nat \<Rightarrow> u8 list \<Rightarrow> u8 list \<Rightarrow> resume \<Rightarrow> trapframe \<Rightarrow> 'a cst_scheme \<Rightarrow> (trapout \<times> 'a cst_scheme) res" where
  "trap cpuid codes bytes k tf s =
     (let no = unat (tf_trapno tf); user = user_mode tf in
      if no = T_SYSCALL then trap_syscall k tf s
      else case trap_irq cpuid codes bytes no s of
        Some r \<Rightarrow> bind_res r (trap_end user no)
      | None \<Rightarrow>
          (case cur s of
             None \<Rightarrow> panic ''trap''
           | Some me \<Rightarrow> if tf_cs tf AND 3 = 0 then panic ''trap''
                        else trap_end user no (upd_proc me (\<lambda>p. p\<lparr>pkilled := True\<rparr>) s)))"

section \<open>Properties\<close>

lemma low_half: "(w :: u32) AND 0xffff = take_bit 16 w"
  by (simp add: take_bit_eq_mask mask_eq_exp_minus_1)

text \<open>User code can enter the kernel by an \<^verbatim>\<open>int\<close> instruction through one gate only, that of system calls, which is also the
  only one that leaves interrupts on; every gate leads to its vector in the kernel's code segment.\<close>

theorem syscall_gate:
  "(gate_dpl (tvinit vectors i) = DPL_USER \<longleftrightarrow> i = T_SYSCALL) \<and> (gate_type (tvinit vectors i) = STS_TG32 \<longleftrightarrow> i = T_SYSCALL) \<and>
   gate_cs (tvinit vectors i) = of_nat SEG_KCODE * 8 \<and> gate_p (tvinit vectors i) = 1 \<and>
   push_bit 16 (off_31_16 (tvinit vectors i)) + off_15_0 (tvinit vectors i) = vectors i"
  by (simp add: tvinit_def SETGATE_def DPL_USER_def STS_TG32_def STS_IG32_def low_half bits_ident)

lemma exit_if_killed_stays:
  assumes "exit_if_killed True s = Ok (False, s')"
  shows "s' = s" "\<not> my_killed s'"
proof -
  have c: "\<not> (cur s \<noteq> None \<and> my_killed s)" using assms by (auto simp: exit_if_killed_def bind_res_eq_Ok split: if_splits)
  then show "s' = s" using assms by (auto simp: exit_if_killed_def split: if_splits)
  then show "\<not> my_killed s'" using c by (auto simp: my_killed_def)
qed

lemma trap_end_returns:
  assumes "trap_end True no s = Ok (TReturns, s')"
  shows "\<not> my_killed s'"
proof -
  from assms obtain s1 where e: "exit_if_killed True s = Ok (False, s1)" and r:
    "(case cur s1 of
         Some me \<Rightarrow>
           if pstate (ptable s1 me) = RUNNING \<and> no = T_IRQ0 + IRQ_TIMER
           then bind_res (yield s1) (\<lambda>s. Ok (TYields, s))
           else bind_res (exit_if_killed True s1) (\<lambda>(gone, s). Ok (if gone then TExits else TReturns, s))
       | None \<Rightarrow> Ok (TReturns, s1)) = Ok (TReturns, s')"
    by (auto simp: trap_end_def bind_res_eq_Ok split: if_splits)
  show ?thesis
  proof (cases "cur s1")
    case None
    then show ?thesis using r by (simp add: my_killed_def)
  next
    case (Some me)
    then have "exit_if_killed True s1 = Ok (False, s')" using r by (auto simp: bind_res_eq_Ok split: if_splits)
    then show ?thesis by (rule exit_if_killed_stays(2))
  qed
qed


text \<open>A processor exception in user mode ends the process, as \<^verbatim>\<open>exit\<close> does, and does not stop the kernel; the same exception
  in the kernel is a panic.\<close>

theorem fault_ends_process:
  assumes no: "unat (tf_trapno tf) \<noteq> T_SYSCALL" and irq: "trap_irq cpuid codes bytes (unat (tf_trapno tf)) s = None" and me: "cur s = Some me"
  shows "(user_mode tf \<longrightarrow> trap cpuid codes bytes k tf s = bind_res (exit (upd_proc me (\<lambda>p. p\<lparr>pkilled := True\<rparr>) s)) (\<lambda>s. Ok (TExits, s))) \<and>
    (tf_cs tf AND 3 = 0 \<longrightarrow> trap cpuid codes bytes k tf s = panic ''trap'')"
proof (intro conjI impI)
  assume u: "user_mode tf"
  then have "tf_cs tf AND 3 \<noteq> 0" by (simp add: user_mode_def DPL_USER_def)
  then have "trap cpuid codes bytes k tf s = trap_end True (unat (tf_trapno tf)) (upd_proc me (\<lambda>p. p\<lparr>pkilled := True\<rparr>) s)"
    using no irq me u by (simp add: trap_def Let_def)
  also have "\<dots> = bind_res (exit (upd_proc me (\<lambda>p. p\<lparr>pkilled := True\<rparr>) s)) (\<lambda>s. Ok (TExits, s))"
    using me by (simp add: trap_end_def exit_if_killed_def my_killed_def bind_res_assoc)
  finally show "trap cpuid codes bytes k tf s = bind_res (exit (upd_proc me (\<lambda>p. p\<lparr>pkilled := True\<rparr>) s)) (\<lambda>s. Ok (TExits, s))" .
qed (use no irq me in \<open>simp add: trap_def Let_def\<close>)

text \<open>\<^verbatim>\<open>sleep\<close> with a negative number of ticks does not return at once: the number is compared as unsigned, so the process
  is still asleep after any number of ticks below \<open>2 ^ 31\<close>.\<close>

theorem sleep_negative:
  assumes "argint 0 s = Ok (Some n)" "sint n < 0" "ticks s - t < 2 ^ 31" "\<not> my_killed s" "cur s = Some me"
  shows "sys_sleep (Since t) s = Ok (Blocked (Since t), upd_proc me (\<lambda>p. p\<lparr>pchan := Some ChTicks, pstate := SLEEPING\<rparr>) s)"
proof -
  have "2 ^ 31 \<le> n"
  proof (rule ccontr)
    assume "\<not> 2 ^ 31 \<le> n"
    then have "uint n < 2 ^ 31" by (simp add: word_le_def not_le)
    then have "0 \<le> sint n" by (simp add: sint_uint signed_take_bit_eq_take_bit_shift take_bit_eq_mod)
    then show False using assms(2) by simp
  qed
  then have "ticks s - t < n" using assms(3) by (rule order.strict_trans2 [rotated])
  then show ?thesis using assms by (simp add: sys_sleep_def sleep_def)
qed

section \<open>A machine in user mode\<close>

definition demo_ks :: kst where
  "demo_ks = pst.extend demo_us
     (kst.fields (\<lambda>_. \<lparr>ftype = FD_NONE, fref = 0, freadable = False, fwritable = False, fpipe = 0, fip = 0, foff = 0\<rparr>) (\<lambda>_. pipe_init (replicate 512 0)))"

definition demo_cs :: cst where
  "demo_cs = kst.extend demo_ks (cst.fields demo_in \<lparr>crt = (\<lambda>_. 0), cpos = 0\<rparr> True [] 0)"

definition demo_utf :: trapframe where "demo_utf = user_tf\<lparr>tf_trapno := 39\<rparr>"

lemma demo_cs_simps [simp]: "cur demo_cs = Some 0" "ptable demo_cs = ptable demo_us" "ticks demo_cs = 0" "initproc demo_cs = Some 0"
  by (simp_all add: demo_cs_def demo_ks_def pst.defs kst.defs cst.defs) (simp_all add: demo_us_def demo_ps_def vst.defs ist.defs pst.defs)

lemma demo_cs_alive: "\<not> my_killed demo_cs" "pstate (ptable demo_us 0) = RUNNABLE"
  by (simp_all add: my_killed_def demo_us_def demo_init_def demo_free_def)

lemma demo_utf_user: "user_mode demo_utf" "unat (tf_trapno demo_utf) = 39"
  by (simp_all add: demo_utf_def user_mode_def user_tf_def Let_def SEG_UCODE_def DPL_USER_def)


theorem fault_ends_process_witness:
  "trap 0 [] [] Fresh (tf0\<lparr>tf_trapno := 14\<rparr>) demo_cs = panic ''trap''"
proof -
  have "unat (tf_trapno (tf0\<lparr>tf_trapno := 14\<rparr>)) = 14" "tf_cs (tf0\<lparr>tf_trapno := 14\<rparr>) = 0" by (simp_all add: tf0_def)
  moreover have "trap_irq 0 [] [] 14 demo_cs = None" by (simp add: trap_irq_def trap_nos)
  ultimately show ?thesis using fault_ends_process [of "tf0\<lparr>tf_trapno := 14\<rparr>" 0 "[]" "[]" demo_cs 0 Fresh] by (simp add: trap_nos)
qed

text \<open>The argument on the stack is \<open>-1\<close>.\<close>

definition demo_neg :: cst where
  "demo_neg = demo_cs\<lparr>mem := demo_umem(0x80302014 := 0xff, 0x80302015 := 0xff, 0x80302016 := 0xff, 0x80302017 := 0xff)\<rparr>"

lemma demo_neg_simps [simp]: "cur demo_neg = Some 0" "ptable demo_neg = ptable demo_us" "ticks demo_neg = 0"
  by (simp_all add: demo_neg_def)

lemma demo_neg_uaddr: "PDX va = 0 \<Longrightarrow> PTX va = 0 \<Longrightarrow> uaddr w va demo_neg = Ok (0x80302000 + (va AND 0xFFF))"
proof (rule uaddr_first_page)
  show "load32 (mem demo_neg) 0x80300000 = 0x301007" "load32 (mem demo_neg) 0x80301000 = 0x302007"
    by (simp_all add: load32_def of_le32_def demo_umem_def demo_neg_def)
  show "cr3 demo_neg = 0x300000"
    by (simp add: demo_neg_def demo_cs_def demo_ks_def pst.defs kst.defs cst.defs demo_us_def)
qed

lemma demo_neg_arg: "argint 0 demo_neg = Ok (Some (- 1))"
proof -
  have "uload 0x14 4 demo_neg = Ok [0xff, 0xff, 0xff, 0xff]"
    by (simp add: eval_nat_numeral demo_neg_uaddr demo_va) (simp add: demo_neg_def)
  then show ?thesis by (simp add: argint_def fetchint_def of_le32_def)
qed

theorem sleep_negative_witness:
  "argint 0 demo_neg = Ok (Some (- 1)) \<and> (\<exists>s'. sys_sleep (Since 0) demo_neg = Ok (Blocked (Since 0), s'))"
proof -
  have "\<not> my_killed demo_neg" using demo_cs_alive by (simp add: my_killed_def)
  then show ?thesis using sleep_negative [OF demo_neg_arg, of 0 0] demo_neg_arg by simp
qed

end
