(* ===== verification/Kernel.thy ===== *)
theory Kernel
  imports Trap
begin

text \<open>
  Properties of the system calls as a whole. The frame locale is interpreted twice on the machine state, with the console as the
  only device: for the process table and the file table as they are, and for what the reference counts of open files depend on. The
  first gives that a failed \<^verbatim>\<open>exec\<close> leaves the process as it was; the second that every system call keeps the
  reference counts exact.
\<close>

section \<open>Projections\<close>

definition table_view :: "'a cst_scheme \<Rightarrow> (nat \<Rightarrow> proc) \<times> (nat \<Rightarrow> kfile) \<times> nat option \<times> nat option \<times> int" where
  "table_view s = (ptable s, ftable s, cur s, initproc s, nextpid s)"

text \<open>A slot that belongs to no living process.\<close>

definition dead :: "proc \<Rightarrow> bool" where "dead p \<longleftrightarrow> pstate p = UNUSED \<or> pstate p = ZOMBIE"

definition file_view :: "'a cst_scheme \<Rightarrow> (nat \<Rightarrow> nat \<Rightarrow> nat option) \<times> (nat \<Rightarrow> int) \<times> (nat \<Rightarrow> bool) \<times> nat option" where
  "file_view s = ((\<lambda>p. ofile (ptable s p)), (\<lambda>f. fref (ftable s f)), (\<lambda>p. dead (ptable s p)), cur s)"

interpretation tv0: fs_frame "table_view :: 'a cst_scheme \<Rightarrow> _"
  by unfold_locales (simp_all add: table_view_def)

interpretation fv0: fs_frame "file_view :: 'a cst_scheme \<Rightarrow> _"
  by unfold_locales (simp_all add: file_view_def)

text \<open>The console keeps both.\<close>

lemma table_view_console [simp]: "table_view (s\<lparr>input := q\<rparr>) = table_view s" "table_view (s\<lparr>screen := t\<rparr>) = table_view s" "table_view (s\<lparr>serial := l\<rparr>) = table_view s"
  by (simp_all add: table_view_def)

lemma file_view_console [simp]: "file_view (s\<lparr>input := q\<rparr>) = file_view s" "file_view (s\<lparr>screen := t\<rparr>) = file_view s" "file_view (s\<lparr>serial := l\<rparr>) = file_view s"
  by (simp_all add: file_view_def)

locale console_frame = fs_frame pr for pr :: "'a cst_scheme \<Rightarrow> 'p" +
  assumes ignores_console [simp]: "pr (s\<lparr>input := q\<rparr>) = pr s" "pr (s\<lparr>screen := t\<rparr>) = pr s" "pr (s\<lparr>serial := l\<rparr>) = pr s"
begin

lemma uartputc_pr [simp]: "pr (uartputc c s) = pr s"
  by (simp add: uartputc_def)

lemma consputc_keeps [keep]: "pr s = v \<Longrightarrow> keeps pr v (consputc c s)"
  unfolding consputc_def Let_def by (rule keeps_bind_pure) (auto intro!: keep)

lemma consputs_keeps [keep]: "pr s = v \<Longrightarrow> keeps pr v (consputs cs s)"
  by (induction cs arbitrary: s) (auto intro!: keep)

lemma consoleread_keeps: "pr s = v \<Longrightarrow> keepr pr v (consoleread ip n s)"
  by (auto simp: consoleread_def Let_def intro!: keep split: prod.splits con_result.splits)

lemma consolewrite_keeps: "pr s = v \<Longrightarrow> keepr pr v (consolewrite ip bs s)"
  by (auto simp: consolewrite_def intro!: keep)

lemma console_devsw_keeps:
  "dv_read (console_devsw m) = Some rd \<Longrightarrow> pr s = v \<Longrightarrow> keepr pr v (rd ip n s)"
  "dv_write (console_devsw m) = Some wr \<Longrightarrow> pr s = v \<Longrightarrow> keepr pr v (wr ip bs s)"
  by (auto simp: console_devsw_def consoleread_keeps consolewrite_keeps split: if_splits)

end

sublocale console_frame \<subseteq> dev_frame pr console_devsw
  by unfold_locales (auto intro: console_devsw_keeps)

interpretation tv: console_frame "table_view :: 'a cst_scheme \<Rightarrow> _"
  by unfold_locales simp_all

interpretation fv: console_frame "file_view :: 'a cst_scheme \<Rightarrow> _"
  by unfold_locales simp_all

section \<open>Calls that only touch the file system and memory\<close>

context console_frame begin

lemma ustore_keeps [keep]: "pr s = v \<Longrightarrow> keeps pr v (ustore va bs s)"
proof (induction bs arbitrary: va s v)
  case (Cons b bs)
  show ?case by (auto intro!: keeps_bind_pure Cons.IH Cons.prems)
qed (simp add: keep)

lemma store_stat_keeps [keep]: "pr s = v \<Longrightarrow> keeps pr v (store_stat a st s)"
  by (auto simp: store_stat_def intro!: keep)

lemma setupkvm_loop_keeps [keep]: "pr s = v \<Longrightarrow> keepr pr v (setupkvm_loop d ks s)"
proof (induction ks arbitrary: s v)
  case (Cons k ks)
  show ?case by (cases k) (auto intro!: keep Cons.IH Cons.prems)
qed (simp add: keep)

lemma setupkvm_keeps [keep]: "pr s = v \<Longrightarrow> keepr pr v (setupkvm s)"
proof -
  assume p: "pr s = v"
  obtain d s1 where k: "kalloc s = (d, s1)" by (cases "kalloc s")
  have "pr s1 = v" using kalloc_pair [OF k] p by simp
  then show ?thesis by (auto simp: setupkvm_def k Let_def intro!: keep)
qed

lemma copyuvm_loop_keeps [keep]: "pr s = v \<Longrightarrow> keepr pr v (copyuvm_loop pg d is s)"
proof (induction "is" arbitrary: s v)
  case (Cons i js)
  obtain m s1 where k: "kalloc s = (m, s1)" by (cases "kalloc s")
  have "pr s1 = v" using kalloc_pair [OF k] Cons.prems by simp
  then show ?case using Cons.prems by (auto simp: k Let_def intro!: keep Cons.IH)
qed (simp add: keep)

lemma copyuvm_keeps [keep]: "pr s = v \<Longrightarrow> keepr pr v (copyuvm pg sz s)"
  by (auto simp: copyuvm_def intro!: keep)

lemma fail_op_keeps [keep]: "pr s = v \<Longrightarrow> keepr pr v (fail_op s)"
  by (auto simp: fail_op_def intro!: keep)

lemma link_bad_keeps [keep]: "pr s = v \<Longrightarrow> keepr pr v (link_bad ip s)"
  by (auto simp: link_bad_def intro!: keep)

lemma link_paths_keeps [keep]: "pr s = v \<Longrightarrow> keepr pr v (link_paths console_devsw old new s)"
  by (auto simp: link_paths_def intro!: keep split: option.splits)

lemma isdirempty_loop_keeps [keep]: "pr s = v \<Longrightarrow> keepr pr v (isdirempty_loop console_devsw dp offs s)"
  by (induction offs arbitrary: s) (auto intro!: keep split: option.splits)

lemma isdirempty_keeps [keep]: "pr s = v \<Longrightarrow> keepr pr v (isdirempty console_devsw dp s)"
  by (simp add: isdirempty_def keep)

lemma unlink_bad_keeps [keep]: "pr s = v \<Longrightarrow> keepr pr v (unlink_bad dp s)"
  by (auto simp: unlink_bad_def intro!: keep)

lemma unlink_entry_keeps [keep]: "pr s = v \<Longrightarrow> keepr pr v (unlink_entry console_devsw dp ip off s)"
  by (auto simp: unlink_entry_def intro!: keep)

lemma unlink_path_keeps [keep]: "pr s = v \<Longrightarrow> keepr pr v (unlink_path console_devsw path s)"
  by (auto simp: unlink_path_def intro!: keep split: option.splits)

lemma create_new_keeps [keep]: "pr s = v \<Longrightarrow> keepr pr v (create_new console_devsw dp name ty major minor s)"
  by (auto simp: create_new_def intro!: keep)

lemma create_keeps [keep]: "pr s = v \<Longrightarrow> keepr pr v (create console_devsw path ty major minor s)"
  by (auto simp: create_def intro!: keep split: option.splits)

lemma open_inode_keeps [keep]: "pr s = v \<Longrightarrow> keepr pr v (open_inode console_devsw path omode s)"
  by (auto simp: open_inode_def intro!: keep split: option.splits)

lemma make_node_keeps [keep]: "pr s = v \<Longrightarrow> keepr pr v (make_node console_devsw path ty major minor s)"
  by (auto simp: make_node_def intro!: keep split: option.splits)

lemma exec_load_keeps [keep]: "pr s = v \<Longrightarrow> keepr pr v (exec_load console_devsw ip d k off sz s)"
proof (induction k arbitrary: off sz s v)
  case (Suc k)
  show ?case by (auto simp: Let_def intro!: keep Suc.IH Suc.prems split: option.splits)
qed (simp add: keep)

lemma exec_args_keeps [keep]: "pr s = v \<Longrightarrow> keepr pr v (exec_args d argv sp us s)"
proof (induction argv arbitrary: sp us s v)
  case (Cons a as)
  show ?case by (auto simp: Let_def intro!: keep Cons.IH Cons.prems)
qed (simp add: keep)

lemma exec_stack_keeps [keep]: "pr s = v \<Longrightarrow> keepr pr v (exec_stack d argv sz s)"
  by (auto simp: exec_stack_def Let_def intro!: keep split: option.splits)

lemma exec_bad_keeps [keep]: "pr s = v \<Longrightarrow> keepr pr v (exec_bad d ip s)"
  by (auto simp: exec_bad_def intro!: keep split: option.splits)

end

section \<open>A failed exec\<close>

text \<open>The same for results other than zero only.\<close>

definition keepf :: "('s \<Rightarrow> 'p) \<Rightarrow> 'p \<Rightarrow> (int \<times> 's) res \<Rightarrow> bool" where
  "keepf pr v m \<longleftrightarrow> (\<forall>r s. m = Ok (r, s) \<longrightarrow> r \<noteq> 0 \<longrightarrow> pr s = v)"

lemma keepf_keepr: "keepr pr v m \<Longrightarrow> keepf pr v m"
  by (simp add: keepf_def keepr_def)

lemma keepf_bind_s: "keeps pr v m \<Longrightarrow> (\<And>s. pr s = v \<Longrightarrow> keepf pr v (k s)) \<Longrightarrow> keepf pr v (bind_res m k)"
  and keepf_bind_r: "keepr pr v n \<Longrightarrow> (\<And>r s. pr s = v \<Longrightarrow> keepf pr v (l (r, s))) \<Longrightarrow> keepf pr v (bind_res n l)"
  by (auto simp: keepf_def keeps_def keepr_def bind_res_eq_Ok)

lemma keepf_Ok: "pr s = v \<Longrightarrow> keepf pr v (Ok (r, s))"
  by (simp add: keepf_def)

lemma keepf_commit: "keepf pr v (exec_commit me path d sz sp entry s)"
  by (auto simp: keepf_def exec_commit_def Let_def bind_res_eq_Ok)

lemma keepf_Err [simp]: "keepf pr v (Err e)" "keepf pr v (panic msg)"
  by (simp_all add: keepf_def)

lemma exec_keepf: "table_view s = v \<Longrightarrow> keepf table_view v (exec console_devsw path argv s)"
  unfolding exec_def Let_def
  by (auto intro!: keepf_bind_s keepf_bind_r keepf_commit keepf_Ok keep keepf_keepr [OF tv.exec_bad_keeps]
      split: option.splits)

text \<open>C24: an \<^verbatim>\<open>exec\<close> that fails, at whatever point, leaves the process table and the file table as they were: the process still has
  its page directory and size, its registers, its name and its open files.\<close>

theorem exec_failure_keeps_process:
  assumes "exec console_devsw path argv s = Ok (r, s')" "r \<noteq> 0"
  shows "ptable s' = ptable s \<and> ftable s' = ftable s \<and> cur s' = cur s"
  using exec_keepf [of s "table_view s" path argv] assms by (simp add: keepf_def table_view_def)

section \<open>Reference counts of open files\<close>

text \<open>How many descriptors refer to file \<open>f\<close>.\<close>

definition refs :: "(nat \<Rightarrow> nat \<Rightarrow> nat option) \<Rightarrow> nat \<Rightarrow> int" where
  "refs D f = (\<Sum>p<NPROC. \<Sum>fd<NOFILE. if D p fd = Some f then 1 else 0)"

text \<open>The descriptors refer to files of the table, slots without a living process have none, and every count is the number of
  descriptors plus the references \<open>ex\<close> that code in progress holds.\<close>

definition balanced :: "(nat \<Rightarrow> int) \<Rightarrow> (nat \<Rightarrow> nat \<Rightarrow> nat option) \<times> (nat \<Rightarrow> int) \<times> (nat \<Rightarrow> bool) \<times> nat option \<Rightarrow> bool" where
  "balanced ex v \<longleftrightarrow> (case v of (D, n, dd, me) \<Rightarrow>
     (\<forall>f<NFILE. n f = refs D f + ex f) \<and> (\<forall>p<NPROC. \<forall>fd<NOFILE. \<forall>f. D p fd = Some f \<longrightarrow> f < NFILE) \<and>
     (\<forall>p<NPROC. dd p \<longrightarrow> (\<forall>fd<NOFILE. D p fd = None)))"

definition files_ok :: "'a cst_scheme \<Rightarrow> bool" where
  "files_ok s \<longleftrightarrow> balanced (\<lambda>_. 0) (file_view s)"

lemma sum_upd_nat:
  "i < (n :: nat) \<Longrightarrow> (\<Sum>k<n. g ((h(i := x)) k)) = (\<Sum>k<n. g (h k)) - g (h i) + (g x :: int)"
proof -
  assume i: "i < n"
  have a: "(\<Sum>k<n. g ((h(i := x)) k)) = g x + (\<Sum>k\<in>{..<n} - {i}. g ((h(i := x)) k))"
    using i by (subst sum.remove [of _ i]) auto
  have b: "(\<Sum>k<n. g (h k)) = g (h i) + (\<Sum>k\<in>{..<n} - {i}. g (h k))"
    using i by (subst sum.remove [of _ i]) auto
  have "(\<Sum>k\<in>{..<n} - {i}. g ((h(i := x)) k)) = (\<Sum>k\<in>{..<n} - {i}. g (h k))" by (rule sum.cong) auto
  then show ?thesis using a b by simp
qed

lemma refs_upd:
  assumes "p < NPROC" "fd < NOFILE"
  shows "refs (D(p := (D p)(fd := x))) f = refs D f - (if D p fd = Some f then 1 else 0) + (if x = Some f then 1 else 0)"
proof -
  have "(\<Sum>k<NOFILE. if ((D p)(fd := x)) k = Some f then 1 else 0) =
    (\<Sum>k<NOFILE. if D p k = Some f then 1 else 0) - (if D p fd = Some f then 1 else 0) + (if x = Some f then (1 :: int) else 0)"
    by (rule sum_upd_nat [OF assms(2), where g = "\<lambda>y. if y = Some f then 1 else 0"])
  moreover have "refs (D(p := (D p)(fd := x))) f =
    refs D f - (\<Sum>k<NOFILE. if D p k = Some f then 1 else 0) + (\<Sum>k<NOFILE. if ((D p)(fd := x)) k = Some f then 1 else 0)"
    unfolding refs_def by (rule sum_upd_nat [OF assms(1), where g = "\<lambda>r. \<Sum>k<NOFILE. if r k = Some f then 1 else 0"])
  ultimately show ?thesis by simp
qed

text \<open>Setting a descriptor of a living process.\<close>

lemma balanced_set:
  assumes b: "balanced ex (D, n, dd, me)" and p: "p < NPROC" "fd < NOFILE" "\<not> dd p \<or> x = None" and x: "\<And>f. x = Some f \<Longrightarrow> f < NFILE"
  shows "balanced (\<lambda>f. ex f + (if D p fd = Some f then 1 else 0) - (if x = Some f then 1 else 0)) (D(p := (D p)(fd := x)), n, dd, me)"
  using b p x unfolding balanced_def prod.case by (auto simp: refs_upd)

text \<open>A change of one count.\<close>

lemma balanced_count:
  assumes "balanced ex (D, n, dd, me)"
  shows "balanced (\<lambda>g. ex g + (if f = g then d else 0)) (D, n(f := n f + d), dd, me)"
  using assms unfolding balanced_def prod.case by auto

lemma file_view_upd_file:
  "fref (g (ftable s f)) = fref (ftable s f) \<Longrightarrow> file_view (upd_file f g s) = file_view s"
  by (auto simp: file_view_def upd_file_def fun_eq_iff)

lemma file_view_upd_proc:
  "ofile (g (ptable s p)) = ofile (ptable s p) \<Longrightarrow> dead (g (ptable s p)) = dead (ptable s p) \<Longrightarrow> file_view (upd_proc p g s) = file_view s"
  by (auto simp: file_view_def upd_proc_def fun_eq_iff)

lemma file_view_wakeup [simp]: "file_view (wakeup ch s) = file_view s"
  by (auto simp: file_view_def wakeup_def wakeup1_def dead_def fun_eq_iff)

lemma file_view_pipe_wakeups [simp]: "file_view (pipe_wakeups p cs s) = file_view s"
  unfolding pipe_wakeups_def by (induction cs arbitrary: s) simp_all

lemma file_view_pipes [simp]: "file_view (s\<lparr>pipes := q\<rparr>) = file_view s"
  by (simp add: file_view_def)

lemma close_pipe_keeps [keep]: "file_view s = v \<Longrightarrow> keeps file_view v (close_pipe p w s)"
  by (auto simp: close_pipe_def Let_def intro!: keep split: prod.splits)

definition bal :: "(nat \<Rightarrow> int) \<Rightarrow> 'a cst_scheme \<Rightarrow> bool" where "bal ex s \<longleftrightarrow> balanced ex (file_view s)"

lemma bal_view: "bal ex s \<Longrightarrow> file_view s' = file_view s \<Longrightarrow> bal ex s'"
  by (simp add: bal_def)

text \<open>The steps that move references.\<close>

lemma bal_count:
  assumes "bal ex s" "fref (g (ftable s f)) = fref (ftable s f) + d"
  shows "bal (\<lambda>h. ex h + (if f = h then d else 0)) (upd_file f g s)"
proof -
  have "file_view (upd_file f g s) = ((\<lambda>p. ofile (ptable s p)), (\<lambda>f. fref (ftable s f))(f := fref (ftable s f) + d), (\<lambda>p. dead (ptable s p)), cur s)"
    using assms(2) by (auto simp: file_view_def upd_file_def fun_eq_iff)
  then show ?thesis using balanced_count [of ex "\<lambda>p. ofile (ptable s p)" "\<lambda>f. fref (ftable s f)" "\<lambda>p. dead (ptable s p)" "cur s" f d] assms(1)
    by (simp add: bal_def file_view_def)
qed

lemma bal_set:
  assumes "bal ex s" "p < NPROC" "fd < NOFILE" "\<not> dead (ptable s p) \<or> x = None" "\<And>f. x = Some f \<Longrightarrow> f < NFILE"
  shows "bal (\<lambda>f. ex f + (if ofile (ptable s p) fd = Some f then 1 else 0) - (if x = Some f then 1 else 0))
    (upd_proc p (\<lambda>q. q\<lparr>ofile := (ofile q)(fd := x)\<rparr>) s)"
proof -
  have "file_view (upd_proc p (\<lambda>q. q\<lparr>ofile := (ofile q)(fd := x)\<rparr>) s) =
    ((\<lambda>p. ofile (ptable s p))(p := (ofile (ptable s p))(fd := x)), (\<lambda>f. fref (ftable s f)), (\<lambda>p. dead (ptable s p)), cur s)"
    by (auto simp: file_view_def upd_proc_def dead_def fun_eq_iff)
  then show ?thesis
    using balanced_set [of ex "\<lambda>p. ofile (ptable s p)" "\<lambda>f. fref (ftable s f)" "\<lambda>p. dead (ptable s p)" "cur s" p fd x] assms
    by (simp add: bal_def file_view_def)
qed

lemma bal_file: "bal ex s \<Longrightarrow> p < NPROC \<Longrightarrow> fd < NOFILE \<Longrightarrow> ofile (ptable s p) fd = Some f \<Longrightarrow> f < NFILE"
  by (auto simp: bal_def balanced_def file_view_def)

lemma bal_dead: "bal ex s \<Longrightarrow> p < NPROC \<Longrightarrow> fd < NOFILE \<Longrightarrow> dead (ptable s p) \<Longrightarrow> ofile (ptable s p) fd = None"
  by (auto simp: bal_def balanced_def file_view_def)

lemma filealloc_bal:
  assumes "filealloc s = (Some f, s')" "bal ex s"
  shows "bal (\<lambda>h. ex h + (if f = h then 1 else 0)) s'" "f < NFILE" "ptable s' = ptable s" "cur s' = cur s"
proof -
  have f: "f < NFILE" "fref (ftable s f) = 0" "s' = upd_file f (\<lambda>f. f\<lparr>fref := 1\<rparr>) s"
    using assms(1) by (auto simp: filealloc_def split: option.splits dest: find_upt)
  show "bal (\<lambda>h. ex h + (if f = h then 1 else 0)) s'" unfolding f(3) by (rule bal_count [OF assms(2)]) (simp add: f(2))
  show "f < NFILE" "ptable s' = ptable s" "cur s' = cur s" using f by (simp_all add: upd_file_def)
qed

lemma filealloc_none: "filealloc s = (None, s') \<Longrightarrow> s' = s"
  by (auto simp: filealloc_def split: option.splits)

lemma filedup_bal:
  assumes "filedup f s = Ok s'" "bal ex s"
  shows "bal (\<lambda>h. ex h + (if f = h then 1 else 0)) s'" "ptable s' = ptable s" "cur s' = cur s"
proof -
  have s': "s' = upd_file f (\<lambda>f. f\<lparr>fref := fref f + 1\<rparr>) s" using assms(1) by (auto simp: filedup_def split: if_splits)
  show "bal (\<lambda>h. ex h + (if f = h then 1 else 0)) s'" unfolding s' by (rule bal_count [OF assms(2)]) simp
  show "ptable s' = ptable s" "cur s' = cur s" by (simp_all add: s' upd_file_def)
qed

lemma fileclose_bal:
  assumes c: "fileclose f s = Ok s'" and b: "bal ex s"
  shows "bal (\<lambda>h. ex h + (if f = h then - 1 else 0)) s'" "(\<lambda>p. ofile (ptable s' p)) = (\<lambda>p. ofile (ptable s p))"
    "(\<lambda>p. dead (ptable s' p)) = (\<lambda>p. dead (ptable s p))" "cur s' = cur s"
proof -
  define s1 where "s1 = (if fref (ftable s f) - 1 > 0 then upd_file f (\<lambda>f. f\<lparr>fref := fref f - 1\<rparr>) s else upd_file f (\<lambda>f. f\<lparr>fref := 0, ftype := FD_NONE\<rparr>) s)"
  have pos: "1 \<le> fref (ftable s f)" using c by (auto simp: fileclose_def split: if_splits)
  have b1: "bal (\<lambda>h. ex h + (if f = h then - 1 else 0)) s1"
    unfolding s1_def using bal_count [OF b, of "\<lambda>f. f\<lparr>fref := fref f - 1\<rparr>" f "- 1"] bal_count [OF b, of "\<lambda>f. f\<lparr>fref := 0, ftype := FD_NONE\<rparr>" f "- 1"] pos
    by simp
  have "keeps file_view (file_view s1) (fileclose f s)"
    unfolding fileclose_def s1_def Let_def by (auto intro!: keep split: filetype.splits)
  then have v: "file_view s' = file_view s1" using c by (simp add: keeps_def)
  show "bal (\<lambda>h. ex h + (if f = h then - 1 else 0)) s'" by (rule bal_view [OF b1 v])
  have "ptable s1 = ptable s" "cur s1 = cur s" by (simp_all add: s1_def upd_file_def)
  then show "(\<lambda>p. ofile (ptable s' p)) = (\<lambda>p. ofile (ptable s p))" "(\<lambda>p. dead (ptable s' p)) = (\<lambda>p. dead (ptable s p))" "cur s' = cur s"
    using v by (simp_all add: file_view_def)
qed

lemma fdalloc_bal:
  assumes "fdalloc f s = Ok (r, s')" "bal ex s" "cur s = Some me" "me < NPROC" "\<not> dead (ptable s me)" "f < NFILE"
  shows "r = None \<Longrightarrow> s' = s" "r = Some fd \<Longrightarrow> bal (\<lambda>h. ex h - (if f = h then 1 else 0)) s' \<and> cur s' = cur s \<and> ftable s' = ftable s \<and> fd < NOFILE \<and>
    s' = upd_proc me (\<lambda>p. p\<lparr>ofile := (ofile p)(fd := Some f)\<rparr>) s \<and> ofile (ptable s me) fd = None"
proof -
  show "r = None \<Longrightarrow> s' = s" using assms(1,3) by (auto simp: fdalloc_def split: option.splits)
  assume r: "r = Some fd"
  have fd: "fd < NOFILE" "ofile (ptable s me) fd = None" and s': "s' = upd_proc me (\<lambda>p. p\<lparr>ofile := (ofile p)(fd := Some f)\<rparr>) s"
    using assms(1,3) r by (auto simp: fdalloc_def split: option.splits dest: find_upt)
  have "bal (\<lambda>h. ex h + (if ofile (ptable s me) fd = Some h then 1 else 0) - (if Some f = Some h then 1 else 0)) s'"
    unfolding s' by (rule bal_set [OF assms(2,4) fd(1)]) (use assms(5,6) in simp_all)
  then show "bal (\<lambda>h. ex h - (if f = h then 1 else 0)) s' \<and> cur s' = cur s \<and> ftable s' = ftable s \<and> fd < NOFILE \<and>
    s' = upd_proc me (\<lambda>p. p\<lparr>ofile := (ofile p)(fd := Some f)\<rparr>) s \<and> ofile (ptable s me) fd = None"
    using fd by (simp add: s' upd_proc_def)
qed

text \<open>The running process.\<close>

definition running :: "nat \<Rightarrow> 'a cst_scheme \<Rightarrow> bool" where
  "running me s \<longleftrightarrow> cur s = Some me \<and> me < NPROC \<and> \<not> dead (ptable s me)"

lemma bal_cong: "bal ex s \<Longrightarrow> (\<And>h. ex' h = ex h) \<Longrightarrow> bal ex' s"
  by (metis ext)

lemma running_view: "running me s \<Longrightarrow> file_view s' = file_view s \<Longrightarrow> running me s'"
  by (auto simp: running_def file_view_def fun_eq_iff)

lemma files_ok_bal: "files_ok s \<longleftrightarrow> bal (\<lambda>_. 0) s"
  by (simp add: files_ok_def bal_def)

lemma files_ok_keepr: "keepr file_view (file_view s) m \<Longrightarrow> files_ok s \<Longrightarrow> m = Ok (r, s') \<Longrightarrow> files_ok s'"
  by (simp add: files_ok_def keepr_def)

lemma argfd_file:
  assumes "argfd n s = Ok (Some (fd, f))" "running me s" "bal ex s"
  shows "ofile (ptable s me) fd = Some f" "fd < NOFILE" "f < NFILE"
proof -
  from assms(1,2) obtain a :: "u32 option" where "(case a of None \<Rightarrow> Ok None | Some v \<Rightarrow>
      if sint v < 0 \<or> int NOFILE \<le> sint v then Ok None else Ok (map_option (\<lambda>f. (unat v, f)) (ofile (ptable s me) (unat v)))) = Ok (Some (fd, f))"
    by (auto simp: argfd_def running_def bind_res_eq_Ok)
  then obtain v :: u32 where v: "\<not> sint v < 0" "\<not> int NOFILE \<le> sint v" "ofile (ptable s me) (unat v) = Some f" "fd = unat v"
    by (cases a) (auto split: if_splits)
  have "uint v = sint v" using v(1,2) by (simp add: uint_sint take_bit_int_eq_self NOFILE_def)
  then have "unat v < NOFILE" using v(1,2) by (simp add: unat_eq_nat_uint nat_less_iff)
  then show "ofile (ptable s me) fd = Some f" "fd < NOFILE" using v(3,4) by simp_all
  then show "f < NFILE" using bal_file assms(2,3) by (auto simp: running_def)
qed

section \<open>Calls that move no reference\<close>

text \<open>A living process that falls asleep lives on.\<close>

definition alive :: "(nat \<Rightarrow> nat \<Rightarrow> nat option) \<times> (nat \<Rightarrow> int) \<times> (nat \<Rightarrow> bool) \<times> nat option \<Rightarrow> bool" where
  "alive v \<longleftrightarrow> (case v of (D, n, dd, me) \<Rightarrow> (case me of Some p \<Rightarrow> \<not> dd p | None \<Rightarrow> True))"

lemma running_alive: "running me s \<Longrightarrow> alive (file_view s)"
  by (simp add: running_def alive_def file_view_def)

lemma sleep_keeps [keep]: "file_view s = v \<Longrightarrow> alive v \<Longrightarrow> keeps file_view v (sleep ch lk s)"
  by (auto simp: sleep_def keeps_def alive_def dead_def file_view_def upd_proc_def fun_eq_iff split: option.splits)

lemma pipe_end_keeps [keep]: "file_view s = v \<Longrightarrow> alive v \<Longrightarrow> keepr file_view v (pipe_end p r s)"
  by (auto simp: pipe_end_def intro!: keep split: segment.splits)

lemma fileread_keeps [keep]: "file_view s = v \<Longrightarrow> alive v \<Longrightarrow> keepr file_view v (fileread console_devsw f a n s)"
  by (auto simp: fileread_def Let_def file_view_upd_file intro!: keep split: filetype.splits prod.splits option.splits)

lemma filestat_keeps [keep]: "file_view s = v \<Longrightarrow> keepr file_view v (filestat f a s)"
  by (auto simp: filestat_def Let_def intro!: keep)

lemma uload_bind [keep]: "(\<And>bs. keepr pr v (k bs)) \<Longrightarrow> keepr pr v (bind_res (uload a n s) k)"
  by (rule keepr_bind_pure)

lemma filewrite_chunk_keeps [keep]: "file_view s = v \<Longrightarrow> keepr file_view v (filewrite_chunk console_devsw f a n s)"
  by (auto simp: filewrite_chunk_def Let_def file_view_upd_file intro!: keep)

lemma filewrite_loop_keeps [keep]: "file_view s = v \<Longrightarrow> keepr file_view v (filewrite_loop console_devsw f a n i s)"
proof (induction "n - i" arbitrary: i s v rule: less_induct)
  case less
  have "i < n \<Longrightarrow> n - (i + min (n - i) FILEMAX) < n - i" using FILEMAX_pos by simp
  note IH = less.hyps [OF this]
  show ?case by (subst filewrite_loop.simps) (auto simp: Let_def less.prems intro!: keep IH)
qed

lemma filewrite_keeps:
  assumes v: "alive (file_view s)" and w: "filewrite console_devsw f a n i s = Ok (j, r, s')"
  shows "file_view s' = file_view s"
proof -
  from w consider "s' = s" | p r0 ws q where "pipe_end p r0 (pipe_wakeups p ws (s\<lparr>pipes := q\<rparr>)) = Ok (r, s')"
    | ok where "filewrite_loop console_devsw f a (nat n) 0 s = Ok (ok, s')"
  proof (cases "ftype (ftable s f)")
    case FD_PIPE
    show ?thesis
    proof (cases "fwritable (ftable s f)")
      case True
      with w FD_PIPE obtain bs where bs: "(case pipewrite (my_killed s) (\<lambda>i. bs ! i) n i (pipes s (fpipe (ftable s f))) of (p, j, ws, r) \<Rightarrow>
          bind_res (pipe_end (fpipe (ftable s f)) r (pipe_wakeups (fpipe (ftable s f)) ws (s\<lparr>pipes := (pipes s)(fpipe (ftable s f) := p)\<rparr>))) (\<lambda>(r, s). Ok (j, r, s))) = Ok (j, r, s')"
        by (auto simp: filewrite_def Let_def bind_res_eq_Ok)
      obtain q k ws r0 where "pipewrite (my_killed s) (\<lambda>i. bs ! i) n i (pipes s (fpipe (ftable s f))) = (q, k, ws, r0)" by (metis prod_cases4)
      then show ?thesis using bs that(2) by (auto simp: bind_res_eq_Ok)
    qed (use w that(1) in \<open>simp add: filewrite_def\<close>)
  qed (use w that in \<open>auto simp: filewrite_def Let_def bind_res_eq_Ok split: if_splits\<close>)
  then show ?thesis
  proof cases
    case 2
    have "keepr file_view (file_view s) (pipe_end p r0 (pipe_wakeups p ws (s\<lparr>pipes := q\<rparr>)))" by (rule pipe_end_keeps) (simp_all add: v)
    from keeprD [OF this 2] show ?thesis .
  next
    case 3
    show ?thesis by (rule keeprD [OF filewrite_loop_keeps [OF refl] 3])
  qed simp
qed

lemma or_fail_keeps [keep]: "pr s = v \<Longrightarrow> (\<And>y. keepr pr v (k y)) \<Longrightarrow> keepr pr v (or_fail r s k)"
  unfolding or_fail_def by (rule keepr_bind_pure) (auto intro!: keep split: option.splits)

lemma or_fail_op_keeps [keep]: "file_view s = v \<Longrightarrow> (\<And>y. keepr file_view v (k y)) \<Longrightarrow> keepr file_view v (or_fail_op r s k)"
  unfolding or_fail_op_def by (rule keepr_bind_pure) (auto intro!: keep split: option.splits)

lemma sys_read_keeps:
  assumes v: "alive (file_view s)" and w: "sys_read console_devsw s = Ok (r, s')"
  shows "file_view s' = file_view s"
proof -
  from w consider "s' = s" | f a n where "fileread console_devsw f a n s = Ok (r, s')"
    by (auto simp: sys_read_def bind_res_eq_Ok split: option.splits)
  then show ?thesis
  proof cases
    case 2
    show ?thesis by (rule keeprD [OF fileread_keeps [OF refl v] 2])
  qed simp
qed

lemma sys_write_keeps:
  assumes v: "alive (file_view s)" and w: "sys_write console_devsw i s = Ok (j, r, s')"
  shows "file_view s' = file_view s"
proof -
  from w consider "s' = s" | f a n where "filewrite console_devsw f a n i s = Ok (j, r, s')"
    by (auto simp: sys_write_def bind_res_eq_Ok split: option.splits)
  then show ?thesis
  proof cases
    case 2
    show ?thesis by (rule filewrite_keeps [OF v 2])
  qed simp
qed

lemma file_view_cwd [simp]: "file_view (s\<lparr>cwd := c\<rparr>) = file_view s"
  by (simp add: file_view_def)

lemma file_view_seg [simp]: "file_view (s\<lparr>gdt := a\<rparr>) = file_view s" "file_view (s\<lparr>ts := b\<rparr>) = file_view s"
  "file_view (s\<lparr>tr := c\<rparr>) = file_view s" "file_view (s\<lparr>cr3 := d\<rparr>) = file_view s"
  by (simp_all add: file_view_def)

lemma switchuvm_keeps [keep]: "file_view s = v \<Longrightarrow> keeps file_view v (switchuvm p s)"
  by (cases p) (simp_all add: switchuvm_def keep split: prod.split)

lemma growproc_keeps [keep]: "file_view s = v \<Longrightarrow> keepr file_view v (growproc n s)"
  by (auto simp: growproc_def Let_def file_view_upd_proc dead_def intro!: keep split: option.splits)

lemma exec_commit_keeps [keep]: "file_view s = v \<Longrightarrow> keepr file_view v (exec_commit me path d sz sp entry s)"
  by (auto simp: exec_commit_def Let_def file_view_upd_proc dead_def set_name_def intro!: keep)

lemma exec_keeps [keep]: "file_view s = v \<Longrightarrow> keepr file_view v (exec console_devsw path argv s)"
  unfolding exec_def Let_def by (auto intro!: keep split: option.splits)

lemma kill_view: "file_view (snd (kill pid s)) = file_view s"
  by (auto simp: kill_def file_view_upd_proc dead_def split: option.splits)

lemma sys_keeps:
  assumes "file_view s = v"
  shows "keepr file_view v (sys_fstat s)" "keepr file_view v (sys_link console_devsw s)" "keepr file_view v (sys_unlink console_devsw s)"
    "keepr file_view v (sys_mkdir console_devsw s)" "keepr file_view v (sys_mknod console_devsw s)" "keepr file_view v (sys_chdir console_devsw s)"
    "keepr file_view v (sys_exec console_devsw s)" "keepr file_view v (sys_sbrk s)" "keepr file_view v (sys_getpid s)" "keepr file_view v (sys_uptime s)"
    "keepr file_view v (sys_kill s)"
proof -
  show "keepr file_view v (sys_fstat s)" using assms unfolding sys_fstat_def by (auto intro!: keep)
  show "keepr file_view v (sys_link console_devsw s)" using assms unfolding sys_link_def by (auto intro!: keep)
  show "keepr file_view v (sys_unlink console_devsw s)" using assms unfolding sys_unlink_def by (auto intro!: keep)
  show "keepr file_view v (sys_mkdir console_devsw s)" using assms unfolding sys_mkdir_def by (auto intro!: keep)
  show "keepr file_view v (sys_mknod console_devsw s)" using assms unfolding sys_mknod_def by (auto intro!: keep)
  show "keepr file_view v (sys_chdir console_devsw s)" using assms unfolding sys_chdir_def
    by (auto simp: file_view_upd_proc dead_def intro!: keep split: option.splits)
  show "keepr file_view v (sys_exec console_devsw s)" using assms unfolding sys_exec_def by (auto intro!: keep)
  show "keepr file_view v (sys_sbrk s)" using assms unfolding sys_sbrk_def Let_def by (auto intro!: keep split: option.splits)
  show "keepr file_view v (sys_getpid s)" "keepr file_view v (sys_uptime s)" using assms by (auto simp: sys_getpid_def sys_uptime_def intro!: keep split: option.splits)
  have "keepr file_view v (Ok (kill p s))" for p using kill_view [of p s] assms by (cases "kill p s") (auto simp: keepr_def)
  then show "keepr file_view v (sys_kill s)" using assms unfolding sys_kill_def by (auto intro!: keep)
qed

section \<open>Calls that move references\<close>

text \<open>Every result of \<open>m\<close> satisfies \<open>Q\<close>.\<close>

definition sat :: "('r \<Rightarrow> bool) \<Rightarrow> 'r res \<Rightarrow> bool" where "sat Q m \<longleftrightarrow> (\<forall>x. m = Ok x \<longrightarrow> Q x)"

lemma sat_simps [simp]: "sat Q (Ok x) = Q x" "sat Q (Err e)" "sat Q (panic msg)"
  by (simp_all add: sat_def)

lemma sat_bind: "sat R m \<Longrightarrow> (\<And>x. R x \<Longrightarrow> sat Q (k x)) \<Longrightarrow> sat Q (bind_res m k)"
  by (auto simp: sat_def bind_res_eq_Ok)

lemma sat_bind_pure: "(\<And>x. sat Q (k x)) \<Longrightarrow> sat Q (bind_res m k)"
  by (auto simp: sat_def bind_res_eq_Ok)

text \<open>The process \<open>me\<close> runs, and code in progress holds the references \<open>ex\<close>.\<close>

definition holds :: "nat \<Rightarrow> (nat \<Rightarrow> int) \<Rightarrow> 'a cst_scheme \<Rightarrow> bool" where
  "holds me ex s \<longleftrightarrow> running me s \<and> bal ex s"

definition one :: "nat \<Rightarrow> nat \<Rightarrow> int" where "one f h = (if f = h then 1 else 0)"

lemma holds_view: "holds me ex s \<Longrightarrow> file_view s' = file_view s \<Longrightarrow> holds me ex s'"
  by (auto simp: holds_def intro: running_view bal_view)

lemma holds_cong: "holds me ex s \<Longrightarrow> (\<And>h. ex' h = ex h) \<Longrightarrow> holds me ex' s"
  by (auto simp: holds_def intro: bal_cong)

lemma holds_ok: "holds me ex s \<Longrightarrow> (\<And>h. ex h = 0) \<Longrightarrow> files_ok s"
  by (auto simp: holds_def files_ok_bal intro: bal_cong)

lemma sat_keeps: "holds me ex s \<Longrightarrow> (\<And>v. file_view s = v \<Longrightarrow> keeps file_view v m) \<Longrightarrow> sat (holds me ex) m"
  by (auto simp: sat_def keeps_def intro: holds_view)

lemma sat_keepr: "holds me ex s \<Longrightarrow> (\<And>v. file_view s = v \<Longrightarrow> keepr file_view v m) \<Longrightarrow> sat (\<lambda>(r, s). holds me ex s) m"
  by (auto simp: sat_def keepr_def intro: holds_view)

lemma sat_keepr_ok: "holds me (\<lambda>_. 0) s \<Longrightarrow> (\<And>v. file_view s = v \<Longrightarrow> keepr file_view v m) \<Longrightarrow> sat (\<lambda>(r, s). files_ok s) m"
  using sat_keepr [of me "\<lambda>_. 0" s m] by (auto simp: sat_def intro: holds_ok)

lemma filealloc_sat:
  assumes "holds me ex s" "filealloc s = (r, s')"
  shows "case r of None \<Rightarrow> s' = s | Some f \<Rightarrow> f < NFILE \<and> holds me (\<lambda>h. ex h + one f h) s'"
proof (cases r)
  case None
  then show ?thesis using filealloc_none assms(2) by simp
next
  case (Some f)
  have b: "bal ex s" "running me s" using assms(1) by (simp_all add: holds_def)
  show ?thesis using filealloc_bal [OF assms(2) [unfolded Some] b(1)] b(2) by (simp add: Some holds_def running_def one_def)
qed

lemma filedup_sat: "holds me ex s \<Longrightarrow> sat (holds me (\<lambda>h. ex h + one f h)) (filedup f s)"
  using filedup_bal [of f s _ ex] by (auto simp: sat_def holds_def running_def one_def)

lemma fileclose_sat: "holds me ex s \<Longrightarrow> sat (holds me (\<lambda>h. ex h - one f h)) (fileclose f s)"
  unfolding sat_def
proof (intro allI impI)
  fix s' assume h: "holds me ex s" and c: "fileclose f s = Ok s'"
  then have b: "bal ex s" "running me s" by (simp_all add: holds_def)
  have "bal (\<lambda>h. ex h - one f h) s'" by (rule bal_cong [OF fileclose_bal(1) [OF c b(1)]]) (simp add: one_def)
  then show "holds me (\<lambda>h. ex h - one f h) s'" using fileclose_bal(3,4) [OF c b(1)] b(2) by (auto simp: holds_def running_def fun_eq_iff)
qed

lemma fdalloc_sat:
  assumes "holds me ex s" "f < NFILE"
  shows "sat (\<lambda>(r, s'). case r of None \<Rightarrow> s' = s | Some fd \<Rightarrow> holds me (\<lambda>h. ex h - one f h) s' \<and> fd < NOFILE \<and> ofile (ptable s' me) fd = Some f)
    (fdalloc f s)"
  unfolding sat_def
proof (intro allI impI)
  fix x assume x: "fdalloc f s = Ok x"
  obtain r s' where rs: "x = (r, s')" by (cases x)
  have b: "bal ex s" "cur s = Some me" "me < NPROC" "\<not> dead (ptable s me)" using assms(1) by (simp_all add: holds_def running_def)
  note F = fdalloc_bal [OF x [unfolded rs] b assms(2)]
  have "holds me (\<lambda>h. ex h - one f h) s' \<and> fd < NOFILE \<and> ofile (ptable s' me) fd = Some f" if "r = Some fd" for fd
    using F(2) [OF that] b by (auto simp: holds_def running_def one_def upd_proc_def dead_def)
  then show "case x of (r, s') \<Rightarrow> case r of None \<Rightarrow> s' = s | Some fd \<Rightarrow> holds me (\<lambda>h. ex h - one f h) s' \<and> fd < NOFILE \<and> ofile (ptable s' me) fd = Some f"
    using F(1) rs by (auto split: option.split)
qed

lemma clear_fd_sat:
  assumes "holds me ex s" "fd < NOFILE" "ofile (ptable s me) fd = Some f"
  shows "sat (holds me (\<lambda>h. ex h + one f h)) (clear_fd fd s)"
  unfolding sat_def
proof (intro allI impI)
  fix s' assume c: "clear_fd fd s = Ok s'"
  have b: "bal ex s" "running me s" using assms(1) by (simp_all add: holds_def)
  have s': "s' = upd_proc me (\<lambda>p. p\<lparr>ofile := (ofile p)(fd := None)\<rparr>) s" using c b(2) by (auto simp: clear_fd_def running_def)
  have "bal (\<lambda>h. ex h + one f h) s'" unfolding s' using bal_set [OF b(1), of me fd None] b(2) assms(2,3) by (simp add: running_def one_def)
  then show "holds me (\<lambda>h. ex h + one f h) s'" using b(2) by (simp add: holds_def s' running_def dead_def upd_proc_def)
qed

lemma sat_or_fail: "Q (- 1, s) \<Longrightarrow> (\<And>y. r = Ok (Some y) \<Longrightarrow> sat Q (k y)) \<Longrightarrow> sat Q (or_fail r s k)"
  by (auto simp: or_fail_def sat_def bind_res_eq_Ok split: option.splits)

lemma sys_dup_ok:
  assumes h: "holds me (\<lambda>_. 0) s"
  shows "sat (\<lambda>(r, s'). files_ok s') (sys_dup s)"
  unfolding sys_dup_def
proof (rule sat_or_fail, goal_cases)
  case (2 y)
  obtain fd f where y: "y = (fd, f)" by (cases y)
  have f: "f < NFILE" using argfd_file [OF 2 [unfolded y]] h by (auto simp: holds_def)
  show ?case unfolding y prod.case
  proof (rule sat_bind [OF fdalloc_sat [OF h f]], goal_cases)
    case (1 x)
    obtain r s1 where x: "x = (r, s1)" by (cases x)
    show ?case
    proof (cases r)
      case (Some fd)
      then have "holds me (\<lambda>h. 0 - one f h) s1" using 1 x by simp
      from filedup_sat [OF this] show ?thesis unfolding x Some prod.case option.case by (rule sat_bind) (auto intro: holds_ok)
    qed (use 1 x holds_ok [OF h] in simp)
  qed
qed (use holds_ok [OF h] in simp)

lemma sys_close_ok:
  assumes h: "holds me (\<lambda>_. 0) s"
  shows "sat (\<lambda>(r, s'). files_ok s') (sys_close s)"
  unfolding sys_close_def
proof (rule sat_or_fail, goal_cases)
  case (2 y)
  obtain fd f where y: "y = (fd, f)" by (cases y)
  have f: "fd < NOFILE" "ofile (ptable s me) fd = Some f" using argfd_file [OF 2 [unfolded y]] h by (auto simp: holds_def)
  show ?case unfolding y prod.case
  proof (rule sat_bind [OF clear_fd_sat [OF h f]], goal_cases)
    case (1 s1)
    from fileclose_sat [OF 1, of f] show ?case by (rule sat_bind) (auto intro: holds_ok)
  qed
qed (use holds_ok [OF h] in simp)

lemma open_path_ok:
  assumes h: "holds me (\<lambda>_. 0) s"
  shows "sat (\<lambda>(r, s'). files_ok s') (open_path console_devsw path omode s)"
  unfolding open_path_def
proof (rule sat_bind [OF sat_keeps [OF h fv0.begin_op_keeps]], assumption, goal_cases)
  case (1 s1)
  show ?case
  proof (rule sat_bind [OF sat_keepr [OF 1 fv.open_inode_keeps]], assumption, goal_cases)
    case (1 x)
    obtain ip s2 where x: "x = (ip, s2)" by (cases x)
    then have h2: "holds me (\<lambda>_. 0) s2" using 1 by simp
    obtain fo s3 where fa: "filealloc s2 = (fo, s3)" by (cases "filealloc s2")
    note A = filealloc_sat [OF h2 fa]
    show ?case
    proof (cases ip)
      case None
      then show ?thesis unfolding x by (auto intro!: sat_keepr_ok [OF h2] keep)
    next
      case ip: (Some i)
      show ?thesis
      proof (cases fo)
        case None
        then show ?thesis unfolding x ip using A fa by (auto intro!: sat_keepr_ok [OF h2] keep)
      next
        case (Some f)
        then have f: "f < NFILE" and h3: "holds me (\<lambda>h. 0 + one f h) s3" using A by simp_all
        show ?thesis unfolding x ip prod.case option.case fa Some
        proof (rule sat_bind [OF fdalloc_sat [OF h3 f]], goal_cases)
          case (1 y)
          obtain r s4 where y: "y = (r, s4)" by (cases y)
          show ?case
          proof (cases r)
            case None
            then have h4: "holds me (\<lambda>h. 0 + one f h) s4" using 1 y h3 by simp
            show ?thesis unfolding y None prod.case option.case
            proof (rule sat_bind [OF fileclose_sat [OF h4, of f]], goal_cases)
              case (1 s5)
              then have "holds me (\<lambda>_. 0) s5" by (rule holds_cong) simp
              then show ?case by (rule sat_keepr_ok) (auto intro!: keep)
            qed
          next
            case (Some fd)
            then have "holds me (\<lambda>_. 0) s4" using 1 y by (auto intro: holds_cong)
            then show ?thesis unfolding y Some prod.case option.case
              by (rule sat_keepr_ok) (auto simp: file_view_upd_file intro!: keep)
          qed
        qed
      qed
    qed
  qed
qed

lemma close_both:
  assumes h: "holds me (\<lambda>h. one f0 h + one f1 h) s"
  shows "sat (\<lambda>(r, s'). files_ok s') (bind_res (fileclose f0 s) (\<lambda>s. bind_res (fileclose f1 s) (\<lambda>s. Ok (- 1 :: int, s))))"
proof (rule sat_bind [OF fileclose_sat [OF h, of f0]], goal_cases)
  case (1 s1)
  from fileclose_sat [OF 1, of f1] show ?case by (rule sat_bind) (auto intro: holds_ok)
qed

text \<open>The result of \<^verbatim>\<open>pipealloc\<close>: two new files, or nothing.\<close>

definition two_files :: "nat \<Rightarrow> (nat \<times> nat) option \<times> 'a cst_scheme \<Rightarrow> bool" where
  "two_files me x \<longleftrightarrow> (case x of
     (None, s) \<Rightarrow> holds me (\<lambda>_. 0) s
   | (Some (f0, f1), s) \<Rightarrow> f0 < NFILE \<and> f1 < NFILE \<and> holds me (\<lambda>h. one f0 h + one f1 h) s)"

lemma pipealloc_ok:
  assumes h: "holds me (\<lambda>_. 0) s"
  shows "sat (two_files me) (pipealloc s)"
proof -
  obtain r0 s0 where f0: "filealloc s = (r0, s0)" by (cases "filealloc s")
  obtain r1 s1 where f1: "filealloc s0 = (r1, s1)" by (cases "filealloc s0")
  obtain p s2 where k: "kalloc s1 = (p, s2)" by (cases "kalloc s1")
  have v2: "file_view s2 = file_view s1" using fv0.kalloc_pair [OF k] by simp
  note A = filealloc_sat [OF h f0]
  show ?thesis
  proof (cases r0)
    case None
    then show ?thesis using A h f0 by (simp add: pipealloc_def pipealloc_bad_def two_files_def)
  next
    case r0: (Some g0)
    then have g0: "g0 < NFILE" and h0: "holds me (\<lambda>h. 0 + one g0 h) s0" using A by simp_all
    note B = filealloc_sat [OF h0 f1]
    show ?thesis
    proof (cases r1)
      case None
      then have "s1 = s0" using B by simp
      from sat_bind [OF fileclose_sat [OF h0, of g0], of "two_files me" "\<lambda>s. Ok (None, s)"] show ?thesis
        using None \<open>s1 = s0\<close> f0 f1 r0 by (auto simp: pipealloc_def pipealloc_bad_def two_files_def bind_res_assoc)
    next
      case r1: (Some g1)
      then have g1: "g1 < NFILE" and "holds me (\<lambda>h. 0 + one g0 h + one g1 h) s1" using B by simp_all
      then have h2: "holds me (\<lambda>h. one g0 h + one g1 h) s2" using holds_view [OF _ v2] by simp
      show ?thesis
      proof (cases "p = 0")
        case True
        have "sat (\<lambda>s. holds me (\<lambda>_. 0) s) (bind_res (fileclose g0 s2) (fileclose g1))"
        proof (rule sat_bind [OF fileclose_sat [OF h2, of g0]], goal_cases)
          case (1 s3)
          from fileclose_sat [OF 1, of g1] show ?case by simp
        qed
        from sat_bind [OF this, of "two_files me" "\<lambda>s. Ok (None, s)"] show ?thesis
          using True f0 f1 r0 r1 k by (simp add: pipealloc_def pipealloc_bad_def two_files_def)
      next
        case False
        have "file_view (upd_file g1 (\<lambda>f. f\<lparr>ftype := FD_PIPE, freadable := False, fwritable := True, fpipe := p\<rparr>)
          (upd_file g0 (\<lambda>f. f\<lparr>ftype := FD_PIPE, freadable := True, fwritable := False, fpipe := p\<rparr>) (s2\<lparr>pipes := q\<rparr>))) = file_view s2" for q
          by (simp add: file_view_upd_file)
        from holds_view [OF h2 this] False show ?thesis using f0 f1 r0 r1 k g0 g1
          by (simp add: pipealloc_def Let_def two_files_def)
      qed
    qed
  qed
qed

lemma sys_pipe_ok:
  assumes h: "holds me (\<lambda>_. 0) s"
  shows "sat (\<lambda>(r, s'). files_ok s') (sys_pipe s)"
  unfolding sys_pipe_def
proof (rule sat_or_fail, goal_cases)
  case (2 fd)
  show ?case
  proof (rule sat_bind [OF pipealloc_ok [OF h]], goal_cases)
    case (1 x)
    obtain q s1 where x: "x = (q, s1)" by (cases x)
    show ?case
    proof (cases q)
      case None
      then show ?thesis using 1 x by (simp add: two_files_def holds_ok)
    next
      case (Some ff)
      obtain f0 f1 where ff: "ff = (f0, f1)" by (cases ff)
      have f: "f0 < NFILE" "f1 < NFILE" and h1: "holds me (\<lambda>h. one f0 h + one f1 h) s1" using 1 x Some ff by (simp_all add: two_files_def)
      show ?thesis unfolding x Some ff prod.case option.case
      proof (rule sat_bind [OF fdalloc_sat [OF h1 f(1)]], goal_cases)
        case (1 y)
        obtain r2 s2 where y: "y = (r2, s2)" by (cases y)
        show ?case
        proof (cases r2)
          case None
          then show ?thesis using 1 y close_both [OF h1] by simp
        next
          case (Some fd0)
          then have h2: "holds me (\<lambda>h. one f0 h + one f1 h - one f0 h) s2" and fd0: "fd0 < NOFILE" "ofile (ptable s2 me) fd0 = Some f0"
            using 1 y by simp_all
          show ?thesis unfolding y Some prod.case option.case
          proof (rule sat_bind [OF fdalloc_sat [OF h2 f(2)]], goal_cases)
            case (1 z)
            obtain r3 s3 where z: "z = (r3, s3)" by (cases z)
            show ?case
            proof (cases r3)
              case None
              then have "s3 = s2" using 1 z by simp
              show ?thesis unfolding z None prod.case option.case \<open>s3 = s2\<close>
                by (rule sat_bind [OF clear_fd_sat [OF h2 fd0]]) (auto intro!: close_both intro: holds_cong)
            next
              case (Some fd1)
              then have "holds me (\<lambda>_. 0) s3" using 1 z by (auto intro: holds_cong)
              then show ?thesis unfolding z Some prod.case option.case by (rule sat_keepr_ok) (auto intro!: keep)
            qed
          qed
        qed
      qed
    qed
  qed
qed (use holds_ok [OF h] in simp)

section \<open>fork, exit and wait\<close>

lemma bal_upd_proc:
  assumes "bal ex s" "ofile (g (ptable s p)) = ofile (ptable s p)"
    "dead (g (ptable s p)) \<Longrightarrow> \<not> dead (ptable s p) \<Longrightarrow> \<forall>fd<NOFILE. ofile (ptable s p) fd = None"
  shows "bal ex (upd_proc p g s)"
proof -
  have "(\<lambda>q. ofile (ptable (upd_proc p g s) q)) = (\<lambda>q. ofile (ptable s q))" using assms(2) by (auto simp: upd_proc_def)
  moreover have "ftable (upd_proc p g s) = ftable s" by (simp add: upd_proc_def)
  moreover have "dead (ptable (upd_proc p g s) q) \<Longrightarrow> q < NPROC \<Longrightarrow> fd < NOFILE \<Longrightarrow> ofile (ptable s q) fd = None" for q fd
    using assms(1,3) bal_dead [OF assms(1), of q fd] by (cases "q = p"; cases "dead (ptable s p)") (auto simp: upd_proc_def)
  ultimately show ?thesis using assms(1) by (simp add: bal_def balanced_def file_view_def)
qed

text \<open>The slot of a new process: it lives and has no descriptor from \<open>i\<close> on.\<close>

definition newborn :: "nat \<Rightarrow> nat list \<Rightarrow> 'a cst_scheme \<Rightarrow> bool" where
  "newborn np js s \<longleftrightarrow> np < NPROC \<and> \<not> dead (ptable s np) \<and> (\<forall>i \<in> set js. ofile (ptable s np) i = None)"

lemma fork_files_ok:
  assumes "holds me ex s" "newborn np js s" "np \<noteq> me" "distinct js" "set js \<subseteq> {..<NOFILE}"
  shows "sat (\<lambda>s'. holds me ex s' \<and> newborn np [] s') (fork_files me np js s)"
  using assms
proof (induction js arbitrary: s)
  case Nil
  then show ?case by (simp add: newborn_def)
next
  case (Cons i js)
  show ?case
  proof (cases "ofile (ptable s me) i")
    case None
    then show ?thesis using Cons.IH [of s] Cons.prems by (simp add: newborn_def)
  next
    case (Some f)
    have b: "bal ex s" and f: "f < NFILE" and i: "i < NOFILE"
      using Cons.prems Some bal_file [of ex s me i f] by (auto simp: holds_def running_def)
    have "sat (\<lambda>s'. holds me (\<lambda>h. ex h + one f h) s' \<and> newborn np (i # js) s') (filedup f s)"
      using filedup_sat [OF Cons.prems(1), of f] filedup_bal(2) [OF _ b, of f] Cons.prems(2) by (auto simp: sat_def newborn_def)
    then show ?thesis unfolding fork_files.simps Some option.case
    proof (rule sat_bind, goal_cases)
      case (1 s1)
      let ?s2 = "upd_proc np (\<lambda>p. p\<lparr>ofile := (ofile p)(i := Some f)\<rparr>) s1"
      have n: "np < NPROC" "\<not> dead (ptable s1 np)" "ofile (ptable s1 np) i = None" using 1 by (auto simp: newborn_def)
      have "bal ex ?s2" using bal_cong [OF bal_set [of "\<lambda>h. ex h + one f h" s1 np i "Some f"], of ex] 1 n f i by (simp add: holds_def one_def)
      moreover have "running me ?s2" using 1 Cons.prems(3) by (simp add: holds_def running_def upd_proc_def)
      moreover have "newborn np js ?s2" using 1 Cons.prems(4) by (auto simp: newborn_def upd_proc_def dead_def)
      ultimately show ?case using Cons.IH [of ?s2] Cons.prems(3-5) by (simp add: holds_def)
    qed
  qed
qed

lemma exit_files_ok:
  assumes "holds me ex s" "set fds \<subseteq> {..<NOFILE}"
  shows "sat (\<lambda>s'. holds me ex s' \<and> (\<forall>fd. fd \<in> set fds \<or> ofile (ptable s me) fd = None \<longrightarrow> ofile (ptable s' me) fd = None)) (exit_files me fds s)"
  using assms
proof (induction fds arbitrary: s)
  case (Cons fd fds)
  show ?case
  proof (cases "ofile (ptable s me) fd")
    case None
    have "sat (\<lambda>s'. holds me ex s' \<and> (\<forall>fd. fd \<in> set fds \<or> ofile (ptable s me) fd = None \<longrightarrow> ofile (ptable s' me) fd = None)) (exit_files me fds s)"
      using Cons by simp
    then show ?thesis using None by (auto simp: sat_def)
  next
    case (Some f)
    have b: "bal ex s" using Cons.prems by (simp add: holds_def)
    have "sat (\<lambda>s'. holds me (\<lambda>h. ex h - one f h) s' \<and> ofile (ptable s' me) = ofile (ptable s me)) (fileclose f s)"
      using fileclose_sat [OF Cons.prems(1), of f] fileclose_bal(2) [OF _ b, of f] by (auto simp: sat_def fun_eq_iff)
    then show ?thesis unfolding exit_files.simps Some option.case
    proof (rule sat_bind, goal_cases)
      case (1 s1)
      let ?s2 = "upd_proc me (\<lambda>p. p\<lparr>ofile := (ofile p)(fd := None)\<rparr>) s1"
      have h1: "running me s1" "bal (\<lambda>h. ex h - one f h) s1" using 1 by (simp_all add: holds_def)
      have "bal ex ?s2" using bal_cong [OF bal_set [OF h1(2), of me fd None], of ex] h1(1) 1 Some Cons.prems(2) by (simp add: running_def one_def)
      moreover have "running me ?s2" using h1(1) by (simp add: running_def upd_proc_def dead_def)
      ultimately have "sat (\<lambda>s'. holds me ex s' \<and> (\<forall>fd. fd \<in> set fds \<or> ofile (ptable ?s2 me) fd = None \<longrightarrow> ofile (ptable s' me) fd = None)) (exit_files me fds ?s2)"
        using Cons.IH [of ?s2] Cons.prems(2) by (simp add: holds_def)
      then show ?case using 1 by (auto simp: sat_def upd_proc_def)
    qed
  qed
qed simp

lemma holds_upd_proc:
  assumes "holds me ex s" "p \<noteq> me" "ofile (g (ptable s p)) = ofile (ptable s p)"
    "dead (g (ptable s p)) \<Longrightarrow> \<not> dead (ptable s p) \<Longrightarrow> \<forall>fd<NOFILE. ofile (ptable s p) fd = None"
  shows "holds me ex (upd_proc p g s)"
proof -
  have "bal ex s" using assms(1) by (simp add: holds_def)
  from bal_upd_proc [of ex s g p, OF this assms(3,4)] show ?thesis using assms(1,2) by (simp add: holds_def running_def upd_proc_def)
qed

lemma newborn_upd_proc:
  "newborn np js s \<Longrightarrow> ofile (g (ptable s np)) = ofile (ptable s np) \<Longrightarrow> \<not> dead (g (ptable s np)) \<Longrightarrow> newborn np js (upd_proc np g s)"
  by (simp add: newborn_def upd_proc_def)

lemma newborn_view: "newborn np js s \<Longrightarrow> file_view s' = file_view s \<Longrightarrow> newborn np js s'"
  by (simp add: newborn_def file_view_def fun_eq_iff)

text \<open>A new process and the state it is in.\<close>

definition birth :: "nat \<Rightarrow> nat option \<times> 'a cst_scheme \<Rightarrow> bool" where
  "birth me x \<longleftrightarrow> (case x of (r, s) \<Rightarrow> holds me (\<lambda>_. 0) s \<and>
     (case r of None \<Rightarrow> True | Some np \<Rightarrow> np \<noteq> me \<and> newborn np [0..<NOFILE] s))"

lemma allocproc_ok:
  assumes h: "holds me (\<lambda>_. 0) s"
  shows "sat (birth me) (allocproc s)"
proof (cases "find (\<lambda>i. pstate (ptable s i) = UNUSED) [0..<NPROC]")
  case None
  then show ?thesis using h by (simp add: allocproc_def birth_def)
next
  case (Some i)
  have i: "i < NPROC" "pstate (ptable s i) = UNUSED" using find_upt [OF Some] by auto
  have im: "i \<noteq> me" using i(2) h by (auto simp: holds_def running_def dead_def)
  have b: "bal (\<lambda>_. 0) s" using h by (simp add: holds_def)
  have none: "\<forall>fd<NOFILE. ofile (ptable s i) fd = None" using bal_dead [OF b i(1)] i(2) by (simp add: dead_def)
  define s1 where "s1 = (upd_proc i (\<lambda>p. p\<lparr>pstate := EMBRYO, ppid := nextpid s\<rparr>) s)\<lparr>nextpid := nextpid s + 1\<rparr>"
  obtain k s2 where k: "kalloc s1 = (k, s2)" by (cases "kalloc s1")
  have "file_view s2 = file_view (upd_proc i (\<lambda>p. p\<lparr>pstate := EMBRYO, ppid := nextpid s\<rparr>) s)"
    using fv0.kalloc_pair [OF k] by (simp add: s1_def file_view_def)
  moreover have "holds me (\<lambda>_. 0) (upd_proc i (\<lambda>p. p\<lparr>pstate := EMBRYO, ppid := nextpid s\<rparr>) s)"
    by (rule holds_upd_proc [OF h im]) (simp_all add: dead_def)
  moreover have "newborn i [0..<NOFILE] (upd_proc i (\<lambda>p. p\<lparr>pstate := EMBRYO, ppid := nextpid s\<rparr>) s)"
    using i none by (simp add: newborn_def upd_proc_def dead_def)
  ultimately have s2: "holds me (\<lambda>_. 0) s2" "newborn i [0..<NOFILE] s2" using holds_view newborn_view by blast+
  have s3: "holds me (\<lambda>_. 0) (upd_proc i (\<lambda>p. p\<lparr>pkstack := k\<rparr>) s2)" "newborn i [0..<NOFILE] (upd_proc i (\<lambda>p. p\<lparr>pkstack := k\<rparr>) s2)"
    using s2(2) by (auto intro!: holds_upd_proc [OF s2(1) im] newborn_upd_proc [OF s2(2)] simp: dead_def newborn_def)
  have "holds me (\<lambda>_. 0) (upd_proc i (\<lambda>p. p\<lparr>pstate := UNUSED\<rparr>) (upd_proc i (\<lambda>p. p\<lparr>pkstack := k\<rparr>) s2))"
    using s3(2) by (auto intro!: holds_upd_proc [OF s3(1) im] simp: newborn_def)
  moreover have "holds me (\<lambda>_. 0) (upd_proc i (\<lambda>p. p\<lparr>pret := a, pctx := c\<rparr>) (upd_proc i (\<lambda>p. p\<lparr>pkstack := k\<rparr>) s2))" for a c
    by (rule holds_upd_proc [OF s3(1) im]) (simp_all add: dead_def)
  moreover have "newborn i [0..<NOFILE] (upd_proc i (\<lambda>p. p\<lparr>pret := a, pctx := c\<rparr>) (upd_proc i (\<lambda>p. p\<lparr>pkstack := k\<rparr>) s2))" for a c
    by (rule newborn_upd_proc [OF s3(2)]) (use s3(2) in \<open>simp_all add: newborn_def dead_def\<close>)
  ultimately show ?thesis using im by (cases "k = 0") (simp_all add: allocproc_def Some Let_def s1_def [symmetric] k birth_def)
qed

lemma fork_ok:
  assumes h: "holds me (\<lambda>_. 0) s"
  shows "sat (\<lambda>(r, s'). files_ok s') (fork s)"
proof -
  have cur: "cur s = Some me" using h by (simp add: holds_def running_def)
  show ?thesis unfolding fork_def cur option.case
  proof (rule sat_bind [OF allocproc_ok [OF h]], goal_cases)
    case (1 x)
    obtain r s1 where x: "x = (r, s1)" by (cases x)
    then have h1: "holds me (\<lambda>_. 0) s1" using 1 by (simp add: birth_def)
    show ?case
    proof (cases r)
      case None
      then show ?thesis using x holds_ok [OF h1] by simp
    next
      case (Some np)
      then have np: "np \<noteq> me" "newborn np [0..<NOFILE] s1" using 1 x by (simp_all add: birth_def)
      have "sat (\<lambda>(d, s). holds me (\<lambda>_. 0) s \<and> newborn np [0..<NOFILE] s) (copyuvm (ppgdir (ptable s1 me)) (psz (ptable s1 me)) s1)"
        using fv.copyuvm_keeps [of s1 "file_view s1"] holds_view [OF h1] newborn_view [OF np(2)] by (fastforce simp: sat_def keepr_def)
      then show ?thesis unfolding x Some prod.case option.case
      proof (rule sat_bind, goal_cases)
        case (1 y)
        obtain d s2 where y: "y = (d, s2)" by (cases y)
        let ?s3 = "upd_proc np (\<lambda>p. p\<lparr>ppgdir := d\<rparr>) s2"
        have h2: "holds me (\<lambda>_. 0) s2" and n2: "newborn np [0..<NOFILE] s2" using 1 y by simp_all
        have h3: "holds me (\<lambda>_. 0) ?s3" by (rule holds_upd_proc [OF h2 np(1)]) (simp_all add: dead_def)
        have n3: "newborn np [0..<NOFILE] ?s3" by (rule newborn_upd_proc [OF n2]) (use n2 in \<open>simp_all add: newborn_def dead_def\<close>)
        show ?case unfolding y prod.case Let_def
        proof (cases "d = 0", goal_cases)
          case 1
          have "sat (\<lambda>s. holds me (\<lambda>_. 0) s \<and> newborn np [0..<NOFILE] s) (kfree (pkstack (ptable ?s3 np)) ?s3)"
            using fv0.kfree_keeps [of ?s3 "file_view ?s3"] holds_view [OF h3] newborn_view [OF n3] by (fastforce simp: sat_def keeps_def)
          then show ?case unfolding if_P [OF 1]
          proof (rule sat_bind, goal_cases)
            case (1 s4)
            then have "holds me (\<lambda>_. 0) (upd_proc np (\<lambda>p. p\<lparr>pkstack := 0, pstate := UNUSED\<rparr>) s4)"
              using np(1) by (auto simp: newborn_def intro!: holds_upd_proc)
            then show ?case by (simp add: holds_ok)
          qed
        next
          case 2
          let ?s4 = "upd_proc np (\<lambda>p. p\<lparr>psz := psz (ptable ?s3 me), pparent := Some me, ptf := (ptf (ptable ?s3 me))\<lparr>tf_eax := 0\<rparr>\<rparr>) ?s3"
          have h4: "holds me (\<lambda>_. 0) ?s4" by (rule holds_upd_proc [OF h3 np(1)]) (simp_all add: dead_def)
          have n4: "newborn np [0..<NOFILE] ?s4" by (rule newborn_upd_proc [OF n3]) (use n3 in \<open>simp_all add: newborn_def dead_def\<close>)
          have "sat (\<lambda>s'. holds me (\<lambda>_. 0) s' \<and> newborn np [] s') (fork_files me np [0..<NOFILE] ?s4)"
            by (rule fork_files_ok [OF h4 n4 np(1)]) auto
          then show ?case unfolding if_not_P [OF 2]
          proof (rule sat_bind, goal_cases)
            case (1 s5)
            have "files_ok (upd_proc np (\<lambda>p. p\<lparr>pstate := RUNNABLE\<rparr>) (upd_proc np (\<lambda>p. set_name nm (p\<lparr>pcwd := Some c\<rparr>)) (idup c s5)))" for nm c
            proof -
              have h6: "holds me (\<lambda>_. 0) (idup c s5)" using 1 holds_view [of me _ s5 "idup c s5"] by simp
              have "holds me (\<lambda>_. 0) (upd_proc np (\<lambda>p. set_name nm (p\<lparr>pcwd := Some c\<rparr>)) (idup c s5))"
                by (rule holds_upd_proc [OF h6 np(1)]) (simp_all add: dead_def set_name_def)
              from holds_upd_proc [OF this np(1), of "\<lambda>p. p\<lparr>pstate := RUNNABLE\<rparr>"] show ?thesis by (simp add: dead_def holds_ok)
            qed
            then show ?case by (simp split: option.split)
          qed
        qed
      qed
    qed
  qed
qed

lemma file_view_wakeup1 [simp]: "file_view (wakeup1 ch s) = file_view s"
  by (auto simp: file_view_def wakeup1_def dead_def fun_eq_iff)

lemma file_view_exit_reparent [simp]: "file_view (exit_reparent me js s) = file_view s"
  by (induction js arbitrary: s) (simp_all add: Let_def file_view_upd_proc dead_def)

text \<open>All descriptors of the process are closed.\<close>

definition all_closed :: "nat \<Rightarrow> 'a cst_scheme \<Rightarrow> bool" where
  "all_closed me s \<longleftrightarrow> holds me (\<lambda>_. 0) s \<and> (\<forall>fd<NOFILE. ofile (ptable s me) fd = None)"

lemma all_closed_view: "all_closed me s \<Longrightarrow> file_view s' = file_view s \<Longrightarrow> all_closed me s'"
  using holds_view [of me "\<lambda>_. 0" s s'] by (auto simp: all_closed_def file_view_def fun_eq_iff)

lemma all_closed_keeps: "all_closed me s \<Longrightarrow> (\<And>v. file_view s = v \<Longrightarrow> keeps file_view v m) \<Longrightarrow> sat (all_closed me) m"
  by (auto simp: sat_def keeps_def intro: all_closed_view)

lemma exit_call_ok:
  assumes h: "holds me (\<lambda>_. 0) s"
  shows "sat files_ok (exit s)"
proof -
  have cur: "cur s = Some me" using h by (simp add: holds_def running_def)
  have last: "files_ok (exit_ptable me (upd_proc me (\<lambda>p. p\<lparr>pcwd := None\<rparr>) s))" if "all_closed me s" for s :: "'a cst_scheme"
  proof -
    let ?s = "exit_reparent me [0..<NPROC] (wakeup1 (map_option ChProc (pparent (ptable s me))) (upd_proc me (\<lambda>p. p\<lparr>pcwd := None\<rparr>) s))"
    have "file_view ?s = file_view s" by (simp add: file_view_upd_proc dead_def)
    from all_closed_view [OF that this] have n: "bal (\<lambda>_. 0) ?s" "\<forall>fd<NOFILE. ofile (ptable ?s me) fd = None" by (simp_all add: all_closed_def holds_def)
    from bal_upd_proc [OF n(1), of "\<lambda>p. p\<lparr>pstate := ZOMBIE\<rparr>" me] n(2) show ?thesis
      by (simp add: exit_ptable_def Let_def files_ok_bal upd_proc_def)
  qed
  have files: "sat (all_closed me) (exit_files me [0..<NOFILE] s)"
    using exit_files_ok [OF h, of "[0..<NOFILE]"] by (simp add: sat_def all_closed_def lessThan_atLeast0)
  have rest: "sat files_ok (bind_res (begin_op s) (\<lambda>s. case pcwd (ptable s me) of None \<Rightarrow> Err Wild
      | Some d \<Rightarrow> bind_res (iput d s) (\<lambda>s. bind_res (end_op s) (\<lambda>s. Ok (exit_ptable me (upd_proc me (\<lambda>p. p\<lparr>pcwd := None\<rparr>) s))))))"
    if n: "all_closed me s" for s :: "'a cst_scheme"
  proof (rule sat_bind [OF all_closed_keeps [OF n fv0.begin_op_keeps]], assumption, goal_cases)
    case (1 s1)
    have "sat (all_closed me) (bind_res (iput d s1) end_op)" for d
      by (rule all_closed_keeps [OF 1]) (auto intro!: keep)
    then have "sat files_ok (bind_res (bind_res (iput d s1) end_op) (\<lambda>s. Ok (exit_ptable me (upd_proc me (\<lambda>p. p\<lparr>pcwd := None\<rparr>) s))))" for d
      by (rule sat_bind) (use last in simp)
    then show ?case by (simp add: bind_res_assoc split: option.split)
  qed
  show ?thesis unfolding exit_def cur option.case using sat_bind [OF files rest] by simp
qed

lemma wait_pass_ok:
  assumes h: "holds me (\<lambda>_. 0) s"
  shows "sat (\<lambda>(r, s'). files_ok s') (wait_pass s)"
proof -
  have cur: "cur s = Some me" using h by (simp add: holds_def running_def)
  have a: "alive (file_view s)" using running_alive [of me s] h by (simp add: holds_def)
  have "keepr file_view v (wait_pass s)" if v: "file_view s = v" for v
  proof (cases "find (\<lambda>i. pstate (ptable s i) = ZOMBIE) (filter (\<lambda>i. pparent (ptable s i) = Some me) [0..<NPROC])")
    case None
    then show ?thesis using v a by (auto simp: wait_pass_def cur Let_def intro!: keep)
  next
    case (Some i)
    have "pstate (ptable s i) = ZOMBIE" using Some by (auto simp: find_Some_iff)
    then have d: "dead (ptable s i)" by (simp add: dead_def)
    have dead': "dead (ptable s' i)" if "file_view s' = file_view s" for s' :: "'a cst_scheme"
      using that d by (auto simp: file_view_def fun_eq_iff)
    show ?thesis using v dead' by (auto simp: wait_pass_def cur Let_def Some file_view_upd_proc dead_def intro!: keep)
  qed
  then show ?thesis by (rule sat_keepr_ok [OF h])
qed

lemma sys_sleep_keeps: "file_view s = v \<Longrightarrow> alive v \<Longrightarrow> keepr file_view v (sys_sleep k s)"
  unfolding sys_sleep_def Let_def by (rule keepr_bind_pure) (auto intro!: keep split: option.splits)

lemma plain_ok: "sat (\<lambda>(r, s). files_ok s) m \<Longrightarrow> sat (\<lambda>(r, s). files_ok s) (plain m)"
  by (auto simp: plain_def sat_def bind_res_eq_Ok)

lemma syscalls_ok:
  assumes h: "holds me (\<lambda>_. 0) s"
  shows "sat (\<lambda>(r, s'). files_ok s') (syscalls num k s)"
proof -
  have a: "alive (file_view s)" using running_alive [of me s] h by (simp add: holds_def)
  note K = sat_keepr_ok [OF h]
  note same = sys_keeps [THEN K]
  have ok: "files_ok s' \<longleftrightarrow> bal (\<lambda>_. 0) s'" for s' :: "'a cst_scheme" by (rule files_ok_bal)
  have b: "bal (\<lambda>_. 0) s" using h by (simp add: holds_def)
  have rd: "sat (\<lambda>(r, s'). files_ok s') (sys_read console_devsw s)"
    using sys_read_keeps [OF a] bal_view [OF b] by (auto simp: sat_def ok)
  have wr: "sat (\<lambda>(i, r, s'). files_ok s') (sys_write console_devsw i s)" for i
    by (auto simp: sat_def ok intro: bal_view [OF b sys_write_keeps [OF a]])
  have sl: "sat (\<lambda>(r, s'). files_ok s') (sys_sleep k s)"
    by (rule K) (erule subst, rule sys_sleep_keeps [OF refl a])
  have op: "sat (\<lambda>(r, s'). files_ok s') (sys_open console_devsw s)"
    unfolding sys_open_def by (intro sat_or_fail open_path_ok [OF h]) (simp_all add: holds_ok [OF h])
  show ?thesis
  proof (cases num)
    case SYS_exit
    then show ?thesis using sat_bind [OF exit_call_ok [OF h], of "\<lambda>(r, s). files_ok s" "\<lambda>s. Ok (Exited, s)"] by (simp add: syscalls_def sys_exit_def)
  next
    case SYS_wait
    then show ?thesis using wait_pass_ok [OF h] by (auto simp: syscalls_def sys_wait_def sat_def bind_res_eq_Ok)
  next
    case SYS_read
    then show ?thesis using rd by (auto simp: syscalls_def sat_def bind_res_eq_Ok)
  next
    case SYS_write
    then show ?thesis using wr by (auto simp: syscalls_def sat_def bind_res_eq_Ok)
  next
    case SYS_fork
    then show ?thesis using fork_ok [OF h] by (simp add: syscalls_def sys_fork_def plain_ok)
  qed (simp_all add: syscalls_def plain_ok same sl op sys_pipe_ok [OF h] sys_dup_ok [OF h] sys_close_ok [OF h])
qed

text \<open>C2: the reference counts of the file table are exact. When every count is the number of descriptors that refer to the file, the
  descriptors of all processes refer to files of the table and slots without a living process have no descriptors, then this still
  holds after any system call of a running process, on success and on every failure path: no system call leaks an open file or
  closes one that a descriptor still refers to.\<close>

theorem syscalls_keep_refs:
  assumes "files_ok s" "cur s = Some me" "me < NPROC" "pstate (ptable s me) = RUNNING" "syscalls num k s = Ok (r, s')"
  shows "files_ok s'"
  using syscalls_ok [of me s num k] assms by (simp add: sat_def holds_def running_def dead_def files_ok_bal)

section \<open>A process with an open file\<close>

text \<open>Descriptor 0 of the running process 0 refers to file 5; the working directory is not a directory.\<close>

definition demo_fs :: cst where
  "demo_fs = demo_cs\<lparr>ptable := (\<lambda>i. demo_free)(0 := (ptable demo_us 0)\<lparr>pstate := RUNNING, ofile := (\<lambda>_. None)(0 := Some 5)\<rparr>),
     ftable := (ftable demo_cs)(5 := (ftable demo_cs 5)\<lparr>fref := 1\<rparr>)\<rparr>"

lemma demo_fs_simps [simp]:
  "cur demo_fs = Some 0" "ptable demo_fs = (\<lambda>i. demo_free)(0 := (ptable demo_us 0)\<lparr>pstate := RUNNING, ofile := (\<lambda>_. None)(0 := Some 5)\<rparr>)"
  "fref (ftable demo_fs f) = (if f = 5 then 1 else 0)"
  by (simp_all add: demo_fs_def) (simp_all add: demo_cs_def demo_ks_def pst.defs kst.defs cst.defs)

lemma demo_fs_uaddr: "PDX va = 0 \<Longrightarrow> PTX va = 0 \<Longrightarrow> uaddr w va demo_fs = Ok (0x80302000 + (va AND 0xFFF))"
proof (rule uaddr_first_page)
  have m: "mem demo_fs = demo_umem" by (simp add: demo_fs_def demo_cs_def demo_ks_def pst.defs kst.defs cst.defs demo_us_def)
  show "load32 (mem demo_fs) 0x80300000 = 0x301007" "load32 (mem demo_fs) 0x80301000 = 0x302007" by (simp_all add: m demo_tables)
  show "cr3 demo_fs = 0x300000" by (simp add: demo_fs_def demo_cs_def demo_ks_def pst.defs kst.defs cst.defs demo_us_def)
qed

lemma demo_fs_ok: "files_ok demo_fs"
proof -
  have "refs (\<lambda>_ _. None) f = 0" for f by (simp add: refs_def)
  then have "refs ((\<lambda>_ _. None)(0 := (\<lambda>_. None)(0 := Some 5))) f = (if f = 5 then 1 else 0)" for f
    using refs_upd [of 0 0 "\<lambda>_ _. None" "Some 5" f] by (simp add: NPROC_def NOFILE_def)
  moreover have "(\<lambda>p. ofile (ptable demo_fs p)) = (\<lambda>_ _. None)(0 := (\<lambda>_. None)(0 := Some 5))" by (auto simp: demo_free_def)
  ultimately show ?thesis by (auto simp: files_ok_def balanced_def file_view_def dead_def NFILE_def)
qed

lemma demo_fs_arg: "argint 0 demo_fs = Ok (Some 0)"
proof -
  have "uload 0x14 4 demo_fs = Ok [0, 0, 0, 0]"
    by (simp add: eval_nat_numeral demo_fs_uaddr demo_va) (simp add: demo_fs_def demo_cs_def demo_ks_def pst.defs kst.defs cst.defs demo_us_def demo_umem_def)
  then show ?thesis by (simp add: argint_def fetchint_def of_le32_def)
qed

lemma demo_fs_dup: "\<exists>s'. syscalls SYS_dup Fresh demo_fs = Ok (Returns 1, s')"
proof -
  have "argfd 0 demo_fs = Ok (Some (0, 5))" by (simp add: argfd_def demo_fs_arg NOFILE_def)
  moreover have "find (\<lambda>fd. ofile (ptable demo_fs 0) fd = None) [0..<NOFILE] = Some 1" by (simp add: NOFILE_def upt_conv_Cons)
  ultimately show ?thesis by (simp add: syscalls_def plain_def sys_dup_def or_fail_def fdalloc_def filedup_def upd_proc_def del: demo_fs_simps(2))
qed

theorem syscalls_keep_refs_witness:
  "files_ok demo_fs \<and> (\<exists>s'. syscalls SYS_dup Fresh demo_fs = Ok (Returns 1, s') \<and> files_ok s')"
proof -
  obtain s' where s': "syscalls SYS_dup Fresh demo_fs = Ok (Returns 1, s')" using demo_fs_dup by blast
  have "pstate (ptable demo_fs 0) = RUNNING" "0 < NPROC" by (simp_all add: NPROC_def)
  from syscalls_keep_refs [OF demo_fs_ok demo_fs_simps(1) this(2,1) s'] s' demo_fs_ok show ?thesis by blast
qed

lemma demo_fs_disk:
  "outstanding demo_fs = 1" "\<not> committing demo_fs" "lhn demo_fs = 0" "curpid demo_fs = 1" "cwd demo_fs = 0"
  "inodes demo_fs = (\<lambda>i. demo_inode\<lparr>iref := (if i = 0 then 1 else 0)\<rparr>)"
  by (simp_all add: demo_fs_def demo_cs_def demo_ks_def pst.defs kst.defs cst.defs demo_us_def)
    (simp_all add: demo_ps_def pst.defs vst.defs ist.defs demo_ist0_def)

lemma demo_exec: "\<exists>s'. exec console_devsw [0x68, 0x69] [] demo_fs = Ok (- 1, s')"
proof -
  have k: "skipelem [0x68, 0x69] = Some ([0x68, 0x69], [])" by code_simp
  show ?thesis
    by (simp add: exec_def begin_op_def demo_fs_disk LOGSIZE_def MAXOPBLOCKS_def namei_def namex_def slash_def namex_loop.simps k
        ilock_def idup_def upd_inode_def demo_inode_def acquiresleep_def initsleeplock_def Let_def T_FILE_def T_DIR_def
        iunlockput_def iunlock_def holdingsleep_def iput_def releasesleep_def end_op_def)
qed

theorem exec_failure_keeps_process_witness:
  "\<exists>s'. exec console_devsw [0x68, 0x69] [] demo_fs = Ok (- 1, s') \<and> ptable s' = ptable demo_fs"
proof -
  obtain s' where s': "exec console_devsw [0x68, 0x69] [] demo_fs = Ok (- 1, s')" using demo_exec by blast
  from exec_failure_keeps_process [OF s'] s' show ?thesis by auto
qed

end
