(* ===== verification/Grep.thy ===== *)
theory Grep
  imports Printf
begin

text \<open>
  The user program \<^verbatim>\<open>grep\<close> (\<^verbatim>\<open>grep.c\<close>): the matcher for \<^verbatim>\<open>^ . * $\<close> patterns and the loop that cuts the input into lines.
  Strings are byte lists without the terminating NUL; \<open>char0\<close> reads the byte a pointer points at. The matcher is shown to decide the
  language of the pattern, and the loop to print the matching lines of a file.
\<close>

section \<open>The matcher\<close>

definition star :: u8 where "star = 0x2a"
definition dollar :: u8 where "dollar = 0x24"
definition period :: u8 where "period = 0x2e"
definition caret :: u8 where "caret = 0x5e"

lemma char0_Nil: "char0 s \<noteq> 0 \<Longrightarrow> s \<noteq> []"
  by auto

function matchhere :: "u8 list \<Rightarrow> u8 list \<Rightarrow> bool" and matchstar :: "u8 \<Rightarrow> u8 list \<Rightarrow> u8 list \<Rightarrow> bool" where
  "matchhere re text =
     (if char0 re = 0 then True
      else if char0 (tl re) = star then matchstar (char0 re) (tl (tl re)) text
      else if char0 re = dollar \<and> char0 (tl re) = 0 then char0 text = 0
      else if char0 text \<noteq> 0 \<and> (char0 re = period \<or> char0 re = char0 text) then matchhere (tl re) (tl text)
      else False)"
| "matchstar c re text =
     (if matchhere re text then True
      else if char0 text \<noteq> 0 \<and> (char0 text = c \<or> c = period) then matchstar c re (tl text)
      else False)"
  by pat_completeness auto
termination
proof (relation "inv_image (less_than <*lex*> less_than)
    (\<lambda>x. case x of Inl (re, t) \<Rightarrow> (2 * length re, length t) | Inr (c, re, t) \<Rightarrow> (2 * length re + 1, length t))", goal_cases)
  case (2 re t)
  then have "re \<noteq> []" "tl re \<noteq> []" by (auto simp: star_def)
  then show ?case by (cases re; cases "tl re") auto
next
  case (3 re t)
  then show ?case by (cases re) auto
next
  case (5 c re t)
  then show ?case by (cases t) auto
qed auto

declare matchhere.simps [simp del] matchstar.simps [simp del]

text \<open>The loop of \<^verbatim>\<open>match\<close> over the rest of the text.\<close>

fun match_loop :: "u8 list \<Rightarrow> u8 list \<Rightarrow> bool" where
  "match_loop re [] = matchhere re []"
| "match_loop re (x # t) = (if matchhere re (x # t) then True else if x \<noteq> 0 then match_loop re t else False)"

definition match :: "u8 list \<Rightarrow> u8 list \<Rightarrow> bool" where
  "match re text = (if char0 re = caret then matchhere (tl re) text else match_loop re text)"

section \<open>The language of a pattern\<close>

definition fits :: "u8 \<Rightarrow> u8 \<Rightarrow> bool" where "fits c x \<longleftrightarrow> c = period \<or> c = x"

text \<open>\<open>hit re t\<close>: the pattern describes a beginning of \<open>t\<close>. A starred character stands for any number of characters that fit.\<close>

inductive hit :: "u8 list \<Rightarrow> u8 list \<Rightarrow> bool" where
  hit_nil: "hit [] t"
| hit_star: "\<forall>x \<in> set u. fits c x \<Longrightarrow> hit re t \<Longrightarrow> hit (c # star # re) (u @ t)"
| hit_end: "hit [dollar] []"
| hit_char: "char0 re \<noteq> star \<Longrightarrow> \<not> (c = dollar \<and> re = []) \<Longrightarrow> fits c x \<Longrightarrow> hit re t \<Longrightarrow> hit (c # re) (x # t)"

inductive_cases hit_consE: "hit (c # re) t"

lemma hit_star_iff: "hit (c # star # re) t \<longleftrightarrow> (\<exists>u v. t = u @ v \<and> (\<forall>x \<in> set u. fits c x) \<and> hit re v)"
  by (auto elim!: hit_consE intro: hit_star)

lemma hit_star_step: "hit (c # star # re) t \<longleftrightarrow> hit re t \<or> (\<exists>x t'. t = x # t' \<and> fits c x \<and> hit (c # star # re) t')"
proof
  assume "hit (c # star # re) t"
  then obtain u v where u: "t = u @ v" "\<forall>x \<in> set u. fits c x" "hit re v" by (auto simp: hit_star_iff)
  then show "hit re t \<or> (\<exists>x t'. t = x # t' \<and> fits c x \<and> hit (c # star # re) t')"
    by (cases u) (auto simp: hit_star_iff)
next
  assume "hit re t \<or> (\<exists>x t'. t = x # t' \<and> fits c x \<and> hit (c # star # re) t')"
  then consider "hit re t" | x u v where "t = x # u @ v" "fits c x" "\<forall>x \<in> set u. fits c x" "hit re v" by (auto simp: hit_star_iff)
  then show "hit (c # star # re) t"
  proof cases
    case 1
    then show ?thesis using hit_star [of "[]" c re t] by simp
  next
    case 2
    then show ?thesis using hit_star [of "x # u" c re v] by simp
  qed
qed

lemma hit_char_iff:
  "char0 re \<noteq> star \<Longrightarrow> \<not> (c = dollar \<and> re = []) \<Longrightarrow> hit (c # re) t \<longleftrightarrow> (\<exists>x t'. t = x # t' \<and> fits c x \<and> hit re t')"
  by (auto elim!: hit_consE intro: hit_char)

lemma hit_dollar_iff: "hit [dollar] t \<longleftrightarrow> t = []"
  by (auto elim!: hit_consE intro: hit_end)

lemma char0_0: "0 \<notin> set s \<Longrightarrow> char0 s = 0 \<longleftrightarrow> s = []"
  by (cases s) auto

lemma tl_set: "0 \<notin> set s \<Longrightarrow> 0 \<notin> set (tl s)"
  by (cases s) auto

lemma matchhere_hit_both:
  "0 \<notin> set re \<Longrightarrow> 0 \<notin> set t \<Longrightarrow> matchhere re t \<longleftrightarrow> hit re t"
  "0 \<notin> set re' \<Longrightarrow> 0 \<notin> set t' \<Longrightarrow> matchstar c re' t' \<longleftrightarrow> hit (c # star # re') t'"
proof (induction re t and c re' t' rule: matchhere_matchstar.induct)
  case (1 re t)
  show ?case
  proof (cases re)
    case Nil
    then show ?thesis by (simp add: matchhere.simps hit_nil)
  next
    case (Cons c re')
    then have c: "c \<noteq> 0" "0 \<notin> set re'" using 1(3) by auto
    consider "char0 re' = star" | "char0 re' \<noteq> star" "c = dollar" "re' = []" | "char0 re' \<noteq> star" "\<not> (c = dollar \<and> re' = [])" by blast
    then show ?thesis
    proof cases
      case 1
      then obtain r where r: "re' = star # r" by (cases re') (auto simp: star_def)
      have "matchstar c r t = hit (c # star # r) t" using "1.IH"(1) 1 c Cons r "1.prems" by simp
      then show ?thesis unfolding Cons r using c by (subst matchhere.simps) simp
    next
      case 2
      then show ?thesis unfolding Cons using c char0_0 [OF "1.prems"(2)] by (subst matchhere.simps) (simp add: hit_dollar_iff star_def)
    next
      case 3
      have d: "\<not> (c = dollar \<and> char0 re' = 0)" using 3(2) char0_0 [OF c(2)] by simp
      show ?thesis
      proof (cases t)
        case Nil
        then show ?thesis using c Cons 3 d by (simp add: matchhere.simps [of "c # re'"] hit_char_iff)
      next
        case t: (Cons x t')
        then have "x \<noteq> 0" "0 \<notin> set t'" using "1.prems"(2) by auto
        then have "c = period \<or> c = x \<Longrightarrow> matchhere re' t' = hit re' t'" using "1.IH"(2) c Cons t 3 d "1.prems" by simp
        then show ?thesis unfolding Cons t hit_char_iff [OF 3] using c 3(1) d \<open>x \<noteq> 0\<close> by (subst matchhere.simps) (auto simp: fits_def)
      qed
    qed
  qed
next
  case (2 c re t)
  show ?case
  proof (cases t)
    case Nil
    then show ?thesis using 2 by (subst hit_star_step) (simp add: matchstar.simps [of c re])
  next
    case (Cons x t')
    then show ?thesis using 2 by (subst hit_star_step) (auto simp: matchstar.simps [of c re] fits_def)
  qed
qed

lemma match_loop_hit: "0 \<notin> set re \<Longrightarrow> 0 \<notin> set t \<Longrightarrow> match_loop re t \<longleftrightarrow> (\<exists>u v. t = u @ v \<and> hit re v)"
proof (induction t)
  case (Cons x t)
  have "(\<exists>u v. x # t = u @ v \<and> hit re v) \<longleftrightarrow> hit re (x # t) \<or> (\<exists>u v. t = u @ v \<and> hit re v)"
    by (auto simp: Cons_eq_append_conv)
  then show ?case using Cons by (simp add: matchhere_hit_both(1))
qed (simp add: matchhere_hit_both(1))

text \<open>C39: \<^verbatim>\<open>match\<close> decides the language of the pattern: with a leading caret it holds exactly when the rest of the pattern describes a
  beginning of the text, otherwise when the pattern describes a beginning of some suffix. Trying the repetitions of a starred
  character from the shortest on misses none.\<close>

theorem match_correct:
  assumes "0 \<notin> set re" "0 \<notin> set text"
  shows "match re text \<longleftrightarrow> (if char0 re = caret then hit (tl re) text else (\<exists>u v. text = u @ v \<and> hit re v))"
  using assms matchhere_hit_both(1) [of "tl re" "text"] match_loop_hit [of re "text"] tl_set [of re] by (simp add: match_def)

text \<open>\<^verbatim>\<open>^ab*$\<close> on a text; the matcher and the language agree.\<close>

theorem match_correct_witness:
  "match [caret, 0x61, 0x62, star, dollar] [0x61, 0x62, 0x62] \<and> hit [0x61, 0x62, star, dollar] [0x61, 0x62, 0x62]"
proof -
  have m: "match [caret, 0x61, 0x62, star, dollar] [0x61, 0x62, 0x62]" by code_simp
  have z: "0 \<notin> set [caret, 0x61, 0x62, star, dollar]" "0 \<notin> set [0x61, 0x62, 0x62 :: u8]" by (simp_all add: caret_def star_def dollar_def)
  from match_correct [OF z] m show ?thesis by simp
qed

section \<open>Lines\<close>

definition nl :: u8 where "nl = 10"

text \<open>\<^verbatim>\<open>strchr(p, c) - p\<close> on the bytes from \<open>p\<close> to the NUL behind them.\<close>

definition strchr_list :: "u8 list \<Rightarrow> u8 \<Rightarrow> nat option" where
  "strchr_list p c = (let i = length (takeWhile (\<lambda>x. x \<noteq> 0 \<and> x \<noteq> c) p) in if i < length p \<and> p ! i = c then Some i else None)"

lemma strchr_list_Some: "strchr_list p c = Some i \<Longrightarrow> i < length p \<and> p ! i = c \<and> c \<notin> set (take i p)"
proof -
  assume "strchr_list p c = Some i"
  then have i: "i = length (takeWhile (\<lambda>x. x \<noteq> 0 \<and> x \<noteq> c) p)" "i < length p" "p ! i = c"
    by (auto simp: strchr_list_def Let_def split: if_splits)
  have "take i p = takeWhile (\<lambda>x. x \<noteq> 0 \<and> x \<noteq> c) p" unfolding i(1) by (rule takeWhile_eq_take [symmetric])
  then show "i < length p \<and> p ! i = c \<and> c \<notin> set (take i p)" using i by (auto dest: set_takeWhileD)
qed

lemma takeWhile_shorter: "x \<in> set xs \<Longrightarrow> \<not> P x \<Longrightarrow> length (takeWhile P xs) < length xs"
  by (induction xs) auto

lemma strchr_list_None: "0 \<notin> set p \<Longrightarrow> strchr_list p c = None \<Longrightarrow> c \<notin> set p"
proof
  assume p: "0 \<notin> set p" "strchr_list p c = None" and c: "c \<in> set p"
  let ?i = "length (takeWhile (\<lambda>x. x \<noteq> 0 \<and> x \<noteq> c) p)"
  have i: "?i < length p" using takeWhile_shorter [OF c, of "\<lambda>x. x \<noteq> 0 \<and> x \<noteq> c"] by simp
  have "p ! ?i \<noteq> 0"
  proof
    assume "p ! ?i = 0"
    with nth_mem [OF i] p(1) show False by simp
  qed
  then have "p ! ?i = c" using nth_length_takeWhile [OF i] by simp
  then show False using p(2) i by (simp add: strchr_list_def Let_def)
qed

text \<open>The inner loop: the bytes given to \<^verbatim>\<open>write\<close>, and the bytes from the last \<^verbatim>\<open>p\<close> on.\<close>

function grep_lines :: "u8 list \<Rightarrow> u8 list \<Rightarrow> u8 list list \<times> u8 list" where
  "grep_lines pattern p =
     (case strchr_list p nl of
        None \<Rightarrow> ([], p)
      | Some i \<Rightarrow> (case grep_lines pattern (drop (Suc i) p) of (ws, r) \<Rightarrow>
          (if match pattern (take i p) then take (Suc i) p # ws else ws, r)))"
  by pat_completeness auto
termination
  by (relation "measure (\<lambda>(_, p). length p)") (auto dest: strchr_list_Some)

declare grep_lines.simps [simp del]

text \<open>\<open>rd n s\<close> is \<^verbatim>\<open>read\<close> of at most \<open>n\<close> bytes from a descriptor in state \<open>s\<close>; no bytes stand for the results zero and \<^verbatim>\<open>-1\<close>, which end
  the loop alike. \<open>b\<close> are the first \<^verbatim>\<open>m\<close> bytes of \<^verbatim>\<open>buf\<close>. The loop may not end, so it has fuel, one unit for each read.\<close>

definition sizeof_buf :: nat where "sizeof_buf = 1024"

fun grep_loop :: "nat \<Rightarrow> (nat \<Rightarrow> 's \<Rightarrow> u8 list \<times> 's) \<Rightarrow> u8 list \<Rightarrow> u8 list \<Rightarrow> 's \<Rightarrow> (u8 list list \<times> 's) res" where
  "grep_loop 0 rd pattern b s = Err Hang"
| "grep_loop (Suc k) rd pattern b s =
     (case rd (sizeof_buf - length b - 1) s of (c, s) \<Rightarrow>
        if c = [] then Ok ([], s)
        else case grep_lines pattern (b @ c) of (ws, p) \<Rightarrow>
          bind_res (grep_loop k rd pattern (if length p = length (b @ c) then [] else p) s) (\<lambda>(ws', s). Ok (ws @ ws', s)))"

definition grep :: "nat \<Rightarrow> (nat \<Rightarrow> 's \<Rightarrow> u8 list \<times> 's) \<Rightarrow> u8 list \<Rightarrow> 's \<Rightarrow> (u8 list list \<times> 's) res" where
  "grep k rd pattern s = grep_loop k rd pattern [] s"

text \<open>\<^verbatim>\<open>main\<close>: what is written on which descriptor. \<open>opn\<close> is \<^verbatim>\<open>open\<close> for reading, \<open>s0\<close> the standard input.\<close>

fun grep_files :: "nat \<Rightarrow> (nat \<Rightarrow> 's \<Rightarrow> u8 list \<times> 's) \<Rightarrow> (u8 list \<Rightarrow> 's option) \<Rightarrow> u8 list \<Rightarrow> u8 list list \<Rightarrow> (nat \<times> u8 list) list res" where
  "grep_files k rd opn pattern [] = Ok []"
| "grep_files k rd opn pattern (f # fs) =
     (case opn f of
        None \<Rightarrow> Ok [(1, chars ''grep: cannot open '' @ f @ [10])]
      | Some s \<Rightarrow> bind_res (grep k rd pattern s) (\<lambda>(ws, _).
          bind_res (grep_files k rd opn pattern fs) (\<lambda>r. Ok (map (\<lambda>w. (1, w)) ws @ r))))"

definition grep_main :: "nat \<Rightarrow> (nat \<Rightarrow> 's \<Rightarrow> u8 list \<times> 's) \<Rightarrow> (u8 list \<Rightarrow> 's option) \<Rightarrow> 's \<Rightarrow> u8 list list \<Rightarrow> (nat \<times> u8 list) list res" where
  "grep_main k rd opn s0 argv =
     (if length argv \<le> 1 then Ok [(2, chars ''usage: grep pattern [file ...]'' @ [10])]
      else if length argv \<le> 2 then bind_res (grep k rd (argv ! 1) s0) (\<lambda>(ws, _). Ok (map (\<lambda>w. (1, w)) ws))
      else grep_files k rd opn (argv ! 1) (drop 2 argv))"

section \<open>Which lines are printed\<close>

text \<open>The lines of a text, and what stands behind the last newline.\<close>

fun full_lines :: "u8 list \<Rightarrow> u8 list list" where
  "full_lines [] = []"
| "full_lines (c # t) = (if c = nl then [] # full_lines t else case full_lines t of [] \<Rightarrow> [] | l # ls \<Rightarrow> (c # l) # ls)"

definition last_part :: "u8 list \<Rightarrow> u8 list" where
  "last_part t = rev (takeWhile (\<lambda>c. c \<noteq> nl) (rev t))"

lemma full_lines_none: "nl \<notin> set t \<Longrightarrow> full_lines t = []"
  by (induction t) auto

lemma full_lines_some: "nl \<in> set t \<Longrightarrow> full_lines t \<noteq> []"
  by (induction t) (auto split: list.split)

lemma full_lines_line: "nl \<notin> set l \<Longrightarrow> full_lines (l @ nl # t) = l # full_lines t"
  by (induction l) auto

lemma last_part_none: "nl \<notin> set t \<Longrightarrow> last_part t = t"
proof -
  assume "nl \<notin> set t"
  then have "\<forall>x \<in> set (rev t). x \<noteq> nl" by auto
  then have "takeWhile (\<lambda>c. c \<noteq> nl) (rev t) = rev t" by (simp only: takeWhile_eq_all_conv)
  then show "last_part t = t" unfolding last_part_def by (simp only: rev_rev_ident)
qed

lemma last_part_line: "last_part (l @ nl # t) = last_part t"
  by (simp add: last_part_def takeWhile_tail)

lemma last_part_free: "nl \<notin> set (last_part t)"
  by (auto simp: last_part_def dest: set_takeWhileD)

lemma full_lines_append: "full_lines (p @ r) = full_lines p @ full_lines (last_part p @ r)"
proof (induction "length p" arbitrary: p rule: less_induct)
  case less
  show ?case
  proof (cases "nl \<in> set p")
    case True
    then obtain l t where p: "p = l @ nl # t" "nl \<notin> set l" by (meson split_list_first)
    then show ?thesis using less [of t] by (simp add: full_lines_line last_part_line)
  qed (simp add: full_lines_none last_part_none)
qed

lemma length_last_part: "nl \<in> set t \<Longrightarrow> length (last_part t) < length t"
  using takeWhile_shorter [of nl "rev t" "\<lambda>c. c \<noteq> nl"] by (simp add: last_part_def)

text \<open>What the inner loop does.\<close>

lemma grep_lines_full:
  "0 \<notin> set p \<Longrightarrow> grep_lines pattern p = (map (\<lambda>l. l @ [nl]) (filter (match pattern) (full_lines p)), last_part p)"
proof (induction pattern p rule: grep_lines.induct)
  case (1 pattern p)
  show ?case
  proof (cases "strchr_list p nl")
    case None
    then have "nl \<notin> set p" using strchr_list_None 1(2) by blast
    then show ?thesis using None by (simp add: grep_lines.simps [of pattern p] full_lines_none last_part_none)
  next
    case (Some i)
    note i = strchr_list_Some [OF Some]
    have p: "p = take i p @ nl # drop (Suc i) p" using i by (metis id_take_nth_drop)
    have f: "full_lines p = take i p # full_lines (drop (Suc i) p)" "last_part p = last_part (drop (Suc i) p)"
      using i full_lines_line [of "take i p" "drop (Suc i) p"] last_part_line [of "take i p" "drop (Suc i) p"] p by simp_all
    have "0 \<notin> set (drop (Suc i) p)" using 1(2) by (auto dest: in_set_dropD)
    note IH = 1(1) [OF Some this]
    have "take (Suc i) p = take i p @ [nl]" using i by (simp add: take_Suc_conv_app_nth)
    then show ?thesis by (simp add: grep_lines.simps [of pattern p] Some IH f)
  qed
qed

text \<open>No line is longer than 1022 bytes.\<close>

definition short :: "u8 list \<Rightarrow> bool" where
  "short t \<longleftrightarrow> (\<forall>i. i + (sizeof_buf - 1) \<le> length t \<longrightarrow> nl \<in> set (take (sizeof_buf - 1) (drop i t)))"

lemma short_drop: "short t \<Longrightarrow> short (drop n t)"
  unfolding short_def
proof (intro allI impI)
  fix i assume a: "\<forall>i. i + (sizeof_buf - 1) \<le> length t \<longrightarrow> nl \<in> set (take (sizeof_buf - 1) (drop i t))" "i + (sizeof_buf - 1) \<le> length (drop n t)"
  then have "(i + n) + (sizeof_buf - 1) \<le> length t" by (auto simp: sizeof_buf_def)
  from a(1) [rule_format, OF this] show "nl \<in> set (take (sizeof_buf - 1) (drop i (drop n t)))" by (simp add: add.commute)
qed

lemma last_part_suffix: "\<exists>n. last_part t = drop n t"
proof -
  have "last_part t = rev (take (length (takeWhile (\<lambda>c. c \<noteq> nl) (rev t))) (rev t))" by (simp add: last_part_def takeWhile_eq_take [symmetric])
  also have "\<dots> = drop (length t - length (takeWhile (\<lambda>c. c \<noteq> nl) (rev t))) t" by (simp add: rev_take)
  finally show ?thesis by blast
qed

lemma grep_loop_file:
  assumes rd: "\<And>n s. fst (rd n s) = take n (rest s)" "\<And>n s. rest (snd (rd n s)) = drop n (rest s)"
    and "0 \<notin> set (b @ rest s)" "short (b @ rest s)" "nl \<notin> set b" "length b < sizeof_buf - 1" "length (rest s) < k"
  shows "\<exists>s'. grep_loop k rd pattern b s = Ok (map (\<lambda>l. l @ [nl]) (filter (match pattern) (full_lines (b @ rest s))), s')"
  using assms(3-7)
proof (induction k arbitrary: b s)
  case (Suc k)
  define n where "n = sizeof_buf - length b - 1"
  have n: "0 < n" "length b + n = sizeof_buf - 1" using Suc.prems(4) by (simp_all add: n_def)
  obtain c s1 where c: "rd n s = (c, s1)" by (cases "rd n s")
  have cs: "c = take n (rest s)" "rest s1 = drop n (rest s)" using rd [of n s] c by auto
  have z: "0 \<notin> set (b @ c)" "0 \<notin> set (rest s1)" using Suc.prems(1) cs by (auto dest: in_set_takeD in_set_dropD)
  note L = grep_lines_full [OF z(1), of pattern]
  show ?case
  proof (cases "rest s = []")
    case True
    then show ?thesis using c cs Suc.prems(3) by (simp add: n_def full_lines_none)
  next
    case False
    then have c0: "c \<noteq> []" and len: "length (rest s1) < k" using cs n(1) Suc.prems(5) by (auto simp flip: length_greater_0_conv)
    define b' where "b' = (if length (last_part (b @ c)) = length (b @ c) then [] else last_part (b @ c))"
    have all: "b @ rest s = (b @ c) @ rest s1" using cs by simp
    have fl: "full_lines (b @ rest s) = full_lines (b @ c) @ full_lines (b' @ rest s1)" and sh: "short (b' @ rest s1)"
      and b': "0 \<notin> set b'" "nl \<notin> set b'" "length b' < sizeof_buf - 1"
    proof -
      obtain m where m: "last_part (b @ c) = drop m (b @ c)" using last_part_suffix by blast
      show z': "0 \<notin> set b'" using z(1) m by (auto simp: b'_def dest: in_set_dropD)
      show "nl \<notin> set b'" using last_part_free by (simp add: b'_def)
      have bc: "length (b @ c) \<le> sizeof_buf - 1" using cs n by simp
      show "length b' < sizeof_buf - 1"
      proof (cases "nl \<in> set (b @ c)")
        case True
        then show ?thesis using length_last_part [OF True] bc by (simp add: b'_def)
      qed (simp add: b'_def last_part_none sizeof_buf_def)
      have none: "rest s1 = []" if "nl \<notin> set (b @ c)"
      proof (rule ccontr)
        assume "rest s1 \<noteq> []"
        then have "length (b @ c) = sizeof_buf - 1" using cs n by simp
        then have "nl \<in> set (b @ c)" using Suc.prems(2) [unfolded short_def, rule_format, of 0] by (simp add: all)
        then show False using that by simp
      qed
      show "full_lines (b @ rest s) = full_lines (b @ c) @ full_lines (b' @ rest s1)"
      proof (cases "nl \<in> set (b @ c)")
        case True
        then have "b' = last_part (b @ c)" using length_last_part [OF True] by (simp add: b'_def)
        then show ?thesis unfolding all full_lines_append [of "b @ c"] by simp
      next
        case False
        then show ?thesis unfolding all using none [OF False] by (simp add: full_lines_none b'_def last_part_none)
      qed
      show "short (b' @ rest s1)"
      proof (cases "nl \<in> set (b @ c)")
        case True
        then have "b' = drop m (b @ c)" "m \<le> length (b @ c) \<or> drop m (b @ c) = []" using length_last_part [OF True] m by (auto simp: b'_def)
        then have "b' @ rest s1 = drop (min m (length (b @ c))) (b @ rest s)" unfolding all by (auto simp: min_def)
        then show ?thesis using short_drop [OF Suc.prems(2)] by simp
      next
        case False
        then show ?thesis using none [OF False] by (simp add: b'_def last_part_none short_def sizeof_buf_def)
      qed
    qed
    obtain s2 where "grep_loop k rd pattern b' s1 = Ok (map (\<lambda>l. l @ [nl]) (filter (match pattern) (full_lines (b' @ rest s1))), s2)"
      using Suc.IH [of b' s1] b' z(2) sh len by auto
    then show ?thesis using c c0 L fl by (simp add: n_def b'_def)
  qed
qed simp



text \<open>A piece of input without a newline that does not fill the buffer is thrown away: a line that arrives in two reads, as it may
  from a pipe, is matched without its beginning.\<close>

lemma grep_short_read:
  assumes "rd (sizeof_buf - length b - 1) s = (c, s1)" "c \<noteq> []" "nl \<notin> set (b @ c)"
  shows "grep_loop (Suc k) rd pattern b s = grep_loop k rd pattern [] s1"
proof -
  have "strchr_list (b @ c) nl = None" using strchr_list_Some [of "b @ c" nl] assms(3) by (metis nth_mem not_None_eq)
  then have "grep_lines pattern (b @ c) = ([], b @ c)" by (simp add: grep_lines.simps [of pattern "b @ c"])
  then show ?thesis using assms by (cases "grep_loop k rd pattern [] s1") auto
qed

end
