(* ===== verification/Sh.thy ===== *)
theory Sh
  imports Fcntl Printf "HOL-Library.Sublist"
begin

text \<open>
  The shell (\<^verbatim>\<open>sh.c\<close>). The first part is its recursive-descent parser. A pointer into the command line is represented by the bytes
  from there to the end of the line, so a counted string \<^verbatim>\<open>q, eq\<close> is a pair of such lists; the terminating NUL is not part of them.
  Calls of \<^verbatim>\<open>panic\<close>, which prints its argument and exits, are error results, and the memory the constructors allocate is taken to be there. What
  the shell does with the tree is in the theory \<open>Runcmd\<close>.
\<close>

section \<open>Parsed commands\<close>

text \<open>The constructors \<^verbatim>\<open>execcmd\<close>, \<^verbatim>\<open>redircmd\<close>, \<^verbatim>\<open>pipecmd\<close>, \<^verbatim>\<open>listcmd\<close> and \<^verbatim>\<open>backcmd\<close>; the type of a string in the tree is a parameter.\<close>

datatype 'w cmd =
    EXEC "'w list"
  | REDIR "'w cmd" 'w u32 nat
  | PIPE "'w cmd" "'w cmd"
  | LIST "'w cmd" "'w cmd"
  | BACK "'w cmd"

type_synonym tok = "u8 list \<times> u8 list"

definition MAXARGS :: nat where "MAXARGS = 10"

definition whitespace :: "u8 list" where "whitespace = [0x20, 0x09, 0x0d, 0x0a, 0x0b]"
definition symbols :: "u8 list" where "symbols = [0x3c, 0x7c, 0x3e, 0x26, 0x3b, 0x28, 0x29]"

definition white :: "u8 \<Rightarrow> bool" where "white c \<longleftrightarrow> c \<in> set whitespace"
definition symbol :: "u8 \<Rightarrow> bool" where "symbol c \<longleftrightarrow> c \<in> set symbols"

section \<open>Tokens\<close>

definition skip :: "u8 list \<Rightarrow> u8 list" where "skip s = dropWhile white s"

text \<open>The switch of \<^verbatim>\<open>gettoken\<close>: the value of \<^verbatim>\<open>ret\<close> and \<^verbatim>\<open>s\<close> after it.\<close>

definition scan :: "u8 list \<Rightarrow> u8 \<times> u8 list" where
  "scan s =
     (if char0 s = 0 then (0, s)
      else if char0 s \<in> {0x7c, 0x28, 0x29, 0x3b, 0x26, 0x3c} then (char0 s, tl s)
      else if char0 s = 0x3e then (if char0 (tl s) = 0x3e then (0x2b, tl (tl s)) else (0x3e, tl s))
      else (0x61, dropWhile (\<lambda>c. \<not> white c \<and> \<not> symbol c) s))"

definition gettoken :: "u8 list \<Rightarrow> u8 \<times> u8 list \<times> u8 list \<times> u8 list" where
  "gettoken s = (let q = skip s; (ret, eq) = scan q in (ret, q, eq, skip eq))"

definition peek :: "u8 list \<Rightarrow> u8 list \<Rightarrow> bool \<times> u8 list" where
  "peek s toks = (let s = skip s in (char0 s \<noteq> 0 \<and> char0 s \<in> set toks, s))"

text \<open>A token: what \<^verbatim>\<open>q\<close> and \<^verbatim>\<open>eq\<close> delimit is not empty, free of blanks and symbols, and ends where the line ends or a blank or a
  symbol stands.\<close>

definition wordc :: "u8 \<Rightarrow> bool" where "wordc c \<longleftrightarrow> \<not> white c \<and> \<not> symbol c"

definition is_word :: "tok \<Rightarrow> bool" where
  "is_word t \<longleftrightarrow> (case t of (q, eq) \<Rightarrow> (\<exists>w. q = w @ eq \<and> w \<noteq> [] \<and> (\<forall>c \<in> set w. wordc c)) \<and> (eq = [] \<or> \<not> wordc (hd eq)))"

lemma skip_suffix: "suffix (skip s) s"
  by (simp add: skip_def suffix_dropWhile)

lemma skip_hd: "skip s \<noteq> [] \<Longrightarrow> \<not> white (hd (skip s))"
  by (simp add: skip_def hd_dropWhile)

lemma scan_suffix: "suffix (snd (scan s)) s"
  by (cases s; cases "tl s") (auto simp: scan_def suffix_dropWhile suffix_ConsI)

lemma scan_word: "scan s = (0x61, eq) \<Longrightarrow> s = [] \<or> \<not> white (hd s) \<Longrightarrow> is_word (s, eq)"
proof -
  assume t: "scan s = (0x61, eq)" and w: "s = [] \<or> \<not> white (hd s)"
  have c: "char0 s \<notin> {0, 0x7c, 0x28, 0x29, 0x3b, 0x26, 0x3c, 0x3e}" and eq: "eq = dropWhile (\<lambda>c. \<not> white c \<and> \<not> symbol c) s"
    using t by (auto simp: scan_def split: if_splits)
  then obtain x r where s: "s = x # r" by (cases s) auto
  then have "wordc x" using c w by (auto simp: wordc_def symbol_def symbols_def)
  then have "takeWhile wordc s \<noteq> []" by (simp add: s)
  moreover have "eq = dropWhile wordc s" by (simp add: eq wordc_def [abs_def])
  moreover have "s = takeWhile wordc s @ dropWhile wordc s" by (rule takeWhile_dropWhile_id [symmetric])
  moreover have "\<forall>c \<in> set (takeWhile wordc s). wordc c" by (auto dest: set_takeWhileD)
  moreover have "dropWhile wordc s = [] \<or> \<not> wordc (hd (dropWhile wordc s))" using hd_dropWhile [of wordc s] by blast
  ultimately show ?thesis unfolding is_word_def prod.case by blast
qed

lemma scan_less: "scan s = (t, eq) \<Longrightarrow> t \<noteq> 0 \<Longrightarrow> s = [] \<or> \<not> white (hd s) \<Longrightarrow> length eq < length s"
proof -
  assume a: "scan s = (t, eq)" "t \<noteq> 0" "s = [] \<or> \<not> white (hd s)"
  show "length eq < length s"
  proof (cases "t = 0x61")
    case True
    then show ?thesis using scan_word [of s eq] a by (auto simp: is_word_def)
  next
    case False
    then show ?thesis using a(1,2) by (cases s; cases "tl s") (auto simp: scan_def split: if_splits)
  qed
qed

text \<open>What \<^verbatim>\<open>gettoken\<close> gives: pointers further and further to the right.\<close>

lemma gettoken_facts:
  assumes "gettoken s = (t, q, eq, r)"
  shows "suffix q s" "suffix eq q" "suffix r eq" "t = 0x61 \<Longrightarrow> is_word (q, eq)" "t \<noteq> 0 \<Longrightarrow> length r < length s"
proof -
  have g: "q = skip s" "scan q = (t, eq)" "r = skip eq" using assms by (auto simp: gettoken_def Let_def split: prod.splits)
  have h: "q = [] \<or> \<not> white (hd q)" using skip_hd g(1) by blast
  show s: "suffix q s" "suffix eq q" "suffix r eq" using g skip_suffix scan_suffix [of q] by auto
  show "t = 0x61 \<Longrightarrow> is_word (q, eq)" using scan_word [of q eq] g(2) h by simp
  show "t \<noteq> 0 \<Longrightarrow> length r < length s"
    using scan_less [OF g(2) _ h] suffix_length_le [OF s(1)] suffix_length_le [OF s(3)] by simp
qed

lemma peek_suffix: "peek s toks = (b, r) \<Longrightarrow> suffix r s"
  by (auto simp: peek_def Let_def skip_suffix)

text \<open>A token that \<^verbatim>\<open>peek\<close> has seen is consumed.\<close>

lemma gettoken_peeked:
  assumes "peek s toks = (True, r)" "gettoken r = (t, q, eq, r')"
  shows "length r' < length s" "suffix r' s"
proof -
  have r: "r = skip s" "char0 r \<noteq> 0" "suffix r s" using assms(1) by (auto simp: peek_def Let_def skip_suffix)
  have ne: "r \<noteq> []" using r(2) by auto
  then have h: "\<not> white (hd r)" using skip_hd [of s] r(1) by simp
  have "skip r = r" using ne h by (cases r) (simp_all add: skip_def)
  then have q: "q = r" using assms(2) by (auto simp: gettoken_def Let_def split: prod.splits)
  have "fst (scan r) \<noteq> 0" using r(2) by (auto simp: scan_def)
  then have "t \<noteq> 0" using assms(2) q by (auto simp: gettoken_def Let_def split: prod.splits)
  note g = gettoken_facts [OF assms(2)]
  show "length r' < length s" using g(5) [OF \<open>t \<noteq> 0\<close>] suffix_length_le [OF r(3)] by simp
  show "suffix r' s" by (rule suffix_order.trans [OF g(3) suffix_order.trans [OF g(2) suffix_order.trans [OF g(1) r(3)]]])
qed

section \<open>The parser\<close>

text \<open>\<^verbatim>\<open>parseredirs\<close> wraps its command in one node for each redirection. While \<^verbatim>\<open>parseexec\<close> calls it, the arguments of the command inside are
  still being filled in, so the redirections are collected and put around the command by \<open>wrap\<close>.\<close>

type_synonym redir = "tok \<times> u32 \<times> nat"

definition wrap :: "'w cmd \<Rightarrow> ('w \<times> u32 \<times> nat) list \<Rightarrow> 'w cmd" where
  "wrap cmd rs = foldl (\<lambda>c (f, mode, fd). REDIR c f mode fd) cmd rs"

definition redir_of :: "u8 \<Rightarrow> tok \<Rightarrow> redir list" where
  "redir_of tok f =
     (if tok = 0x3c then [(f, O_RDONLY, 0)]
      else if tok = 0x3e then [(f, O_WRONLY OR O_CREATE, 1)]
      else if tok = 0x2b then [(f, O_WRONLY OR O_CREATE, 1)]
      else [])"

function parseredirs :: "u8 list \<Rightarrow> (redir list \<times> u8 list) res" where
  "parseredirs s =
     (case peek s [0x3c, 0x3e] of (b, s1) \<Rightarrow>
        if \<not> b then Ok ([], s1)
        else case gettoken s1 of (tok, _, _, s2) \<Rightarrow>
          case gettoken s2 of (a, q, eq, s3) \<Rightarrow>
            if a \<noteq> 0x61 then panic ''missing file for redirection''
            else bind_res (parseredirs s3) (\<lambda>(rs, s4). Ok (redir_of tok (q, eq) @ rs, s4)))"
  by pat_completeness auto
termination
proof (relation "measure length", goal_cases)
  case (2 s b s1 tok x2 y2 x3 y3 s2 a x4 q y4 eq s3)
  then have p: "peek s [0x3c, 0x3e] = (True, s1)" and g: "gettoken s1 = (tok, y2, y3, s2)" "gettoken s2 = (0x61, q, eq, s3)" by auto
  show ?case using gettoken_peeked(1) [OF p g(1)] gettoken_facts(5) [OF g(2)] by simp
qed simp

declare parseredirs.simps [simp del]

lemma parseredirs_suffix: "parseredirs s = Ok (rs, r) \<Longrightarrow> suffix r s"
proof (induction s arbitrary: rs r rule: parseredirs.induct)
  case (1 s)
  obtain b s1 where p: "peek s [0x3c, 0x3e] = (b, s1)" by (cases "peek s [0x3c, 0x3e]")
  show ?case
  proof (cases b)
    case False
    then show ?thesis using 1(2) p peek_suffix [OF p] by (simp add: parseredirs.simps [of s])
  next
    case True
    obtain tok q0 e0 s2 where g1: "gettoken s1 = (tok, q0, e0, s2)" by (metis prod_cases4)
    obtain a q eq s3 where g2: "gettoken s2 = (a, q, eq, s3)" by (metis prod_cases4)
    have a: "a = 0x61" using 1(2) p True g1 g2 by (auto simp: parseredirs.simps [of s] split: if_splits)
    obtain rs' where r: "parseredirs s3 = Ok (rs', r)" using 1(2) p True g1 g2 a by (auto simp: parseredirs.simps [of s] bind_res_eq_Ok)
    have "suffix s2 s" using gettoken_peeked(2) [OF p [unfolded True[THEN eqTrueI]] g1] True by simp
    moreover have "suffix s3 s2" using gettoken_facts(1-3) [OF g2] by (blast intro: suffix_order.trans)
    moreover have "suffix r s3" using 1(1) [OF p [symmetric] _ g1 [symmetric] refl refl g2 [symmetric] refl refl _ r] True a by simp
    ultimately show ?thesis by (blast intro: suffix_order.trans)
  qed
qed

text \<open>The loop of \<^verbatim>\<open>parseexec\<close>: the arguments from number \<open>argc\<close> on and the redirections between them.\<close>

function parse_args :: "nat \<Rightarrow> u8 list \<Rightarrow> (tok list \<times> redir list \<times> u8 list) res" where
  "parse_args argc s =
     (case peek s [0x7c, 0x29, 0x26, 0x3b] of (b, s1) \<Rightarrow>
        if b then Ok ([], [], s1)
        else case gettoken s1 of (tok, q, eq, s2) \<Rightarrow>
          if tok = 0 then Ok ([], [], s2)
          else if tok \<noteq> 0x61 then panic ''syntax''
          else if MAXARGS \<le> argc + 1 then panic ''too many args''
          else bind_res (parseredirs s2) (\<lambda>(rs, s3).
                 bind_res (parse_args (argc + 1) s3) (\<lambda>(as, rs', s4). Ok ((q, eq) # as, rs @ rs', s4))))"
  by pat_completeness auto
termination
proof (relation "measure (\<lambda>(argc, s). length s)", goal_cases)
  case (2 argc s b s1 tok x2 q x3 eq s2 x rs s3)
  then have p: "peek s [0x7c, 0x29, 0x26, 0x3b] = (b, s1)" and g: "gettoken s1 = (tok, q, eq, s2)" "tok \<noteq> 0" and r: "parseredirs s2 = Ok (rs, s3)" by auto
  have "length s1 \<le> length s" using peek_suffix [OF p] by (rule suffix_length_le)
  moreover have "length s3 \<le> length s2" using parseredirs_suffix [OF r] by (rule suffix_length_le)
  ultimately show ?case using gettoken_facts(5) [OF g] by simp
qed simp

declare parse_args.simps [simp del]

text \<open>The loop of \<^verbatim>\<open>parseline\<close> over ampersands.\<close>

function parse_backs :: "tok cmd \<Rightarrow> u8 list \<Rightarrow> tok cmd \<times> u8 list" where
  "parse_backs cmd s =
     (case peek s [0x26] of (b, s1) \<Rightarrow>
        if b then (case gettoken s1 of (_, _, _, s2) \<Rightarrow> parse_backs (BACK cmd) s2) else (cmd, s1))"
  by pat_completeness auto
termination
proof (relation "measure (\<lambda>(cmd, s). length s)", goal_cases)
  case (2 cmd s b s1 t x2 q x3 eq s2)
  then have p: "peek s [0x26] = (True, s1)" and g: "gettoken s1 = (t, q, eq, s2)" by auto
  show ?case using gettoken_peeked(1) [OF p g] by simp
qed simp

declare parse_backs.simps [simp del]

text \<open>The recursion is mutual and not on the structure of the line: \<open>n\<close> bounds its depth.\<close>

fun parseline :: "nat \<Rightarrow> u8 list \<Rightarrow> (tok cmd \<times> u8 list) res"
and parsepipe :: "nat \<Rightarrow> u8 list \<Rightarrow> (tok cmd \<times> u8 list) res"
and parseblock :: "nat \<Rightarrow> u8 list \<Rightarrow> (tok cmd \<times> u8 list) res"
and parseexec :: "nat \<Rightarrow> u8 list \<Rightarrow> (tok cmd \<times> u8 list) res" where
  "parseline 0 s = Err Hang"
| "parseline (Suc n) s =
     bind_res (parsepipe n s) (\<lambda>(cmd, s).
       case parse_backs cmd s of (cmd, s) \<Rightarrow>
       case peek s [0x3b] of (b, s) \<Rightarrow>
         if b then (case gettoken s of (_, _, _, s) \<Rightarrow> bind_res (parseline n s) (\<lambda>(right, s). Ok (LIST cmd right, s)))
         else Ok (cmd, s))"
| "parsepipe 0 s = Err Hang"
| "parsepipe (Suc n) s =
     bind_res (parseexec n s) (\<lambda>(cmd, s).
       case peek s [0x7c] of (b, s) \<Rightarrow>
         if b then (case gettoken s of (_, _, _, s) \<Rightarrow> bind_res (parsepipe n s) (\<lambda>(right, s). Ok (PIPE cmd right, s)))
         else Ok (cmd, s))"
| "parseblock 0 s = Err Hang"
| "parseblock (Suc n) s =
     (case peek s [0x28] of (b, s) \<Rightarrow>
        if \<not> b then panic ''parseblock''
        else case gettoken s of (_, _, _, s) \<Rightarrow>
          bind_res (parseline n s) (\<lambda>(cmd, s).
            case peek s [0x29] of (b, s) \<Rightarrow>
              if \<not> b then panic ''syntax - missing )''
              else case gettoken s of (_, _, _, s) \<Rightarrow>
                bind_res (parseredirs s) (\<lambda>(rs, s). Ok (wrap cmd rs, s))))"
| "parseexec 0 s = Err Hang"
| "parseexec (Suc n) s =
     (case peek s [0x28] of (b, s) \<Rightarrow>
        if b then parseblock n s
        else bind_res (parseredirs s) (\<lambda>(rs, s).
          bind_res (parse_args 0 s) (\<lambda>(as, rs', s). Ok (wrap (EXEC as) (rs @ rs'), s))))"

text \<open>The depth is at most four calls for each byte of the line. The rest of the line, if there is any, is printed before \<^verbatim>\<open>panic\<close>.\<close>

definition parse_fuel :: "u8 list \<Rightarrow> nat" where "parse_fuel s = 4 * length s + 4"

definition parsecmd :: "u8 list \<Rightarrow> tok cmd res" where
  "parsecmd s =
     bind_res (parseline (parse_fuel s) s) (\<lambda>(cmd, s).
       case peek s [] of (_, s) \<Rightarrow> if s \<noteq> [] then panic ''syntax'' else Ok cmd)"

section \<open>What the parser makes\<close>

text \<open>The result is not \<open>Hang\<close>, and a value satisfies \<open>Q\<close>.\<close>

definition fine :: "('r \<Rightarrow> bool) \<Rightarrow> 'r res \<Rightarrow> bool" where
  "fine Q m \<longleftrightarrow> (case m of Ok x \<Rightarrow> Q x | Err e \<Rightarrow> e \<noteq> Hang)"

lemma fine_simps [simp]: "fine Q (Ok x) = Q x" "fine Q (panic msg)"
  by (simp_all add: fine_def)

lemma fine_bind: "fine R m \<Longrightarrow> (\<And>x. m = Ok x \<Longrightarrow> R x \<Longrightarrow> fine Q (k x)) \<Longrightarrow> fine Q (bind_res m k)"
  by (cases m) (auto simp: fine_def)

text \<open>The tokens of the tree are words of the line, a command has at most nine arguments, and the modes are those of the two kinds of
  redirection.\<close>

definition tok_ok :: "u8 list \<Rightarrow> tok \<Rightarrow> bool" where
  "tok_ok line t \<longleftrightarrow> is_word t \<and> suffix (fst t) line"

definition redir_ok :: "u32 \<Rightarrow> nat \<Rightarrow> bool" where
  "redir_ok mode fd \<longleftrightarrow> mode = O_RDONLY \<and> fd = 0 \<or> mode = O_WRONLY OR O_CREATE \<and> fd = 1"

fun cmd_ok :: "('w \<Rightarrow> bool) \<Rightarrow> 'w cmd \<Rightarrow> bool" where
  "cmd_ok P (EXEC as) \<longleftrightarrow> length as < MAXARGS \<and> (\<forall>t \<in> set as. P t)"
| "cmd_ok P (REDIR c f mode fd) \<longleftrightarrow> cmd_ok P c \<and> P f \<and> redir_ok mode fd"
| "cmd_ok P (PIPE c d) \<longleftrightarrow> cmd_ok P c \<and> cmd_ok P d"
| "cmd_ok P (LIST c d) \<longleftrightarrow> cmd_ok P c \<and> cmd_ok P d"
| "cmd_ok P (BACK c) \<longleftrightarrow> cmd_ok P c"

definition redirs_ok :: "u8 list \<Rightarrow> redir list \<Rightarrow> bool" where
  "redirs_ok line rs \<longleftrightarrow> (\<forall>(f, mode, fd) \<in> set rs. tok_ok line f \<and> redir_ok mode fd)"

lemma redirs_ok_append [simp]: "redirs_ok line (rs @ rs') \<longleftrightarrow> redirs_ok line rs \<and> redirs_ok line rs'"
  by (simp add: redirs_ok_def ball_Un)

lemma wrap_ok: "cmd_ok (tok_ok line) c \<Longrightarrow> redirs_ok line rs \<Longrightarrow> cmd_ok (tok_ok line) (wrap c rs)"
  unfolding wrap_def by (induction rs arbitrary: c) (auto simp: redirs_ok_def)

lemma redir_of_ok: "tok_ok line t \<Longrightarrow> redirs_ok line (redir_of tok t)"
  by (auto simp: redir_of_def redirs_ok_def redir_ok_def)

text \<open>The pointer returned is not to the left of the one taken.\<close>

lemma token_ok:
  assumes "gettoken s = (0x61, q, eq, r)" "suffix s line"
  shows "tok_ok line (q, eq)" "suffix r s"
proof -
  note g = gettoken_facts [OF assms(1)]
  show "tok_ok line (q, eq)" using g(4) suffix_order.trans [OF g(1) assms(2)] by (simp add: tok_ok_def)
  show "suffix r s" using suffix_order.trans [OF g(3) suffix_order.trans [OF g(2,1)]] .
qed

lemma parseredirs_fine:
  "suffix s line \<Longrightarrow> fine (\<lambda>(rs, r). suffix r s \<and> redirs_ok line rs) (parseredirs s)"
proof (induction s rule: parseredirs.induct)
  case (1 s)
  obtain b s1 where p: "peek s [0x3c, 0x3e] = (b, s1)" by (cases "peek s [0x3c, 0x3e]")
  note ps = peek_suffix [OF p]
  obtain tok q0 e0 s2 where g1: "gettoken s1 = (tok, q0, e0, s2)" by (metis prod_cases4)
  obtain a q eq s3 where g2: "gettoken s2 = (a, q, eq, s3)" by (metis prod_cases4)
  show ?case
  proof (cases "b \<and> a = 0x61")
    case False
    then show ?thesis using p ps g1 g2 by (auto simp: parseredirs.simps [of s] redirs_ok_def)
  next
    case True
    have "suffix s2 s" using gettoken_peeked(2) [of s "[0x3c, 0x3e]" s1 tok] p g1 True by simp
    then have s2: "suffix s2 line" using 1(2) by (rule suffix_order.trans)
    note t = token_ok [of s2 q eq s3, OF _ s2]
    have "suffix s3 line" using t(2) g2 True s2 suffix_order.trans by blast
    then have "fine (\<lambda>(rs, r). suffix r s3 \<and> redirs_ok line rs) (parseredirs s3)"
      using 1(1) [OF p [symmetric] _ g1 [symmetric] refl refl g2 [symmetric] refl refl] True by simp
    then have "fine (\<lambda>(rs, r). suffix r s \<and> redirs_ok line rs) (bind_res (parseredirs s3) (\<lambda>(rs, s4). Ok (redir_of tok (q, eq) @ rs, s4)))"
    proof (rule fine_bind, goal_cases)
      case (1 x)
      have "suffix s3 s" using t(2) g2 True \<open>suffix s2 s\<close> suffix_order.trans by blast
      then show ?case using 1 t(1) redir_of_ok [of line "(q, eq)" tok] g2 True by (auto simp: redirs_ok_def intro: suffix_order.trans)
    qed
    then show ?thesis using p g1 g2 True by (simp add: parseredirs.simps [of s])
  qed
qed

lemma parse_args_fine:
  "suffix s line \<Longrightarrow> argc < MAXARGS \<Longrightarrow>
   fine (\<lambda>(as, rs, r). suffix r s \<and> redirs_ok line rs \<and> argc + length as < MAXARGS \<and> (\<forall>t \<in> set as. tok_ok line t)) (parse_args argc s)"
proof (induction argc s rule: parse_args.induct)
  case (1 argc s)
  obtain b s1 where p: "peek s [0x7c, 0x29, 0x26, 0x3b] = (b, s1)" by (cases "peek s [0x7c, 0x29, 0x26, 0x3b]")
  note ps = peek_suffix [OF p]
  obtain a q eq s2 where g: "gettoken s1 = (a, q, eq, s2)" by (metis prod_cases4)
  have s1: "suffix s1 line" using ps 1(2) by (rule suffix_order.trans)
  have "suffix s2 s1" using gettoken_facts(1-3) [OF g] by (blast intro: suffix_order.trans)
  then have s2: "suffix s2 line" "suffix s2 s" using s1 ps by (blast intro: suffix_order.trans)+
  show ?case
  proof (cases "\<not> b \<and> a = 0x61 \<and> \<not> MAXARGS \<le> argc + 1")
    case False
    then show ?thesis using p ps g s2 1(3) by (auto simp: parse_args.simps [of argc s] redirs_ok_def)
  next
    case True
    have t: "tok_ok line (q, eq)" using token_ok(1) [of s1 q eq s2, OF _ s1] g True by simp
    have "fine (\<lambda>(as, rs, r). suffix r s \<and> redirs_ok line rs \<and> argc + length as < MAXARGS \<and> (\<forall>t \<in> set as. tok_ok line t))
      (bind_res (parseredirs s2) (\<lambda>(rs, s3). bind_res (parse_args (argc + 1) s3) (\<lambda>(as, rs', s4). Ok ((q, eq) # as, rs @ rs', s4))))"
    proof (rule fine_bind [OF parseredirs_fine [OF s2(1)]], goal_cases)
      case (1 x)
      obtain rs s3 where x: "x = (rs, s3)" by (cases x)
      have s3: "suffix s3 line" "suffix s3 s" "redirs_ok line rs" using 1(2) x s2 by (auto intro: suffix_order.trans)
      have "fine (\<lambda>(as, rs, r). suffix r s3 \<and> redirs_ok line rs \<and> argc + 1 + length as < MAXARGS \<and> (\<forall>t \<in> set as. tok_ok line t)) (parse_args (argc + 1) s3)"
        using "1.IH" [OF p [symmetric] _ g [symmetric] refl refl _ _ _ 1(1) x [symmetric] s3(1)] True by simp
      then show ?case unfolding x prod.case
        by (rule fine_bind) (use s3 t in \<open>auto simp: redirs_ok_def intro: suffix_order.trans\<close>)
    qed
    then show ?thesis using p g True by (simp add: parse_args.simps [of argc s])
  qed
qed

lemma parse_backs_ok:
  "cmd_ok P cmd \<Longrightarrow> parse_backs cmd s = (cmd', r) \<Longrightarrow> cmd_ok P cmd' \<and> suffix r s"
proof (induction cmd s rule: parse_backs.induct)
  case (1 cmd s)
  obtain b s1 where p: "peek s [0x26] = (b, s1)" by (cases "peek s [0x26]")
  obtain t q eq s2 where g: "gettoken s1 = (t, q, eq, s2)" by (metis prod_cases4)
  show ?case
  proof (cases b)
    case True
    then have "parse_backs (BACK cmd) s2 = (cmd', r)" using 1(3) p g by (simp add: parse_backs.simps [of cmd s])
    then have "cmd_ok P cmd' \<and> suffix r s2" using 1(1) [OF p [symmetric] True g [symmetric] refl refl] 1(2) by simp
    moreover have "suffix s2 s" using gettoken_peeked(2) [of s "[0x26]" s1 t] p g True by simp
    ultimately show ?thesis by (blast intro: suffix_order.trans)
  next
    case False
    then show ?thesis using 1(2,3) p peek_suffix [OF p] by (simp add: parse_backs.simps [of cmd s])
  qed
qed

definition parsed :: "u8 list \<Rightarrow> u8 list \<Rightarrow> tok cmd \<times> u8 list \<Rightarrow> bool" where
  "parsed line s x \<longleftrightarrow> (case x of (c, r) \<Rightarrow> suffix r s \<and> cmd_ok (tok_ok line) c)"

text \<open>The step to the right operand, after a token that \<^verbatim>\<open>peek\<close> has seen.\<close>

lemma parsed_token:
  assumes "peek s1 toks = (True, s2)" "gettoken s2 = (t, q, eq, s3)" "suffix s1 s" "suffix s line"
  shows "suffix s3 s" "suffix s3 line" "length s3 < length s"
proof -
  note g = gettoken_peeked [OF assms(1,2)]
  show 1: "suffix s3 s" using g(2) assms(3) by (rule suffix_order.trans)
  show "suffix s3 line" using 1 assms(4) by (rule suffix_order.trans)
  show "length s3 < length s" using g(1) suffix_length_le [OF assms(3)] by simp
qed

lemma parsed_bind:
  assumes "fine (parsed line s3) m" "suffix s3 s" "\<And>d. cmd_ok (tok_ok line) d \<Longrightarrow> cmd_ok (tok_ok line) (f d)"
  shows "fine (parsed line s) (bind_res m (\<lambda>(d, r). Ok (f d, r)))"
  by (rule fine_bind [OF assms(1)]) (use assms(2,3) in \<open>auto simp: parsed_def intro: suffix_order.trans\<close>)

lemma parse_fine:
  "suffix s line \<Longrightarrow> 4 * length s + 4 \<le> n \<Longrightarrow> fine (parsed line s) (parseline n s)"
  "suffix s line \<Longrightarrow> 4 * length s + 3 \<le> n \<Longrightarrow> fine (parsed line s) (parsepipe n s)"
  "suffix s line \<Longrightarrow> 4 * length s + 2 \<le> n \<Longrightarrow> fine (parsed line s) (parseexec n s)"
  "suffix s line \<Longrightarrow> 4 * length s + 1 \<le> n \<Longrightarrow> fine (parsed line s) (parseblock n s)"
proof (induction n arbitrary: s)
  case (Suc n)
  {
    case 1
    have "fine (parsed line s) (parsepipe n s)" using Suc.IH(2) 1 by simp
    then show ?case unfolding parseline.simps
    proof (rule fine_bind, goal_cases)
      case (1 x)
      obtain c s1 where x: "x = (c, s1)" by (cases x)
      obtain c' s2 where bk: "parse_backs c s1 = (c', s2)" by (cases "parse_backs c s1")
      have c': "cmd_ok (tok_ok line) c'" "suffix s2 s" using 1(2) x parse_backs_ok [OF _ bk] by (auto simp: parsed_def intro: suffix_order.trans)
      obtain b s3 where p: "peek s2 [0x3b] = (b, s3)" by (cases "peek s2 [0x3b]")
      obtain t q eq s4 where g: "gettoken s3 = (t, q, eq, s4)" by (metis prod_cases4)
      show ?case
      proof (cases b)
        case True
        note T = parsed_token [OF p [unfolded True [THEN eqTrueI]] g c'(2) \<open>suffix s line\<close>]
        have "fine (parsed line s4) (parseline n s4)" using Suc.IH(1) [OF T(2)] T(3) \<open>4 * length s + 4 \<le> Suc n\<close> by simp
        from parsed_bind [OF this T(1), of "LIST c'"] show ?thesis using c' by (simp add: x bk p g True)
      next
        case False
        then show ?thesis using c' suffix_order.trans [OF peek_suffix [OF p] c'(2)] by (simp add: x bk p parsed_def)
      qed
    qed
  next
    case 2
    have "fine (parsed line s) (parseexec n s)" using Suc.IH(3) 2 by simp
    then show ?case unfolding parsepipe.simps
    proof (rule fine_bind, goal_cases)
      case (1 x)
      obtain c s1 where x: "x = (c, s1)" by (cases x)
      have c: "cmd_ok (tok_ok line) c" "suffix s1 s" using 1(2) x by (auto simp: parsed_def)
      obtain b s2 where p: "peek s1 [0x7c] = (b, s2)" by (cases "peek s1 [0x7c]")
      obtain t q eq s3 where g: "gettoken s2 = (t, q, eq, s3)" by (metis prod_cases4)
      show ?case
      proof (cases b)
        case True
        note T = parsed_token [OF p [unfolded True [THEN eqTrueI]] g c(2) \<open>suffix s line\<close>]
        have "fine (parsed line s3) (parsepipe n s3)" using Suc.IH(2) [OF T(2)] T(3) \<open>4 * length s + 3 \<le> Suc n\<close> by simp
        from parsed_bind [OF this T(1), of "PIPE c"] show ?thesis using c by (simp add: x p g True)
      next
        case False
        then show ?thesis using c suffix_order.trans [OF peek_suffix [OF p] c(2)] by (simp add: x p parsed_def)
      qed
    qed
  next
    case 3
    obtain b s1 where p: "peek s [0x28] = (b, s1)" by (cases "peek s [0x28]")
    note s1 = peek_suffix [OF p]
    have s1l: "suffix s1 line" using s1 3(1) by (rule suffix_order.trans)
    show ?case
    proof (cases b)
      case True
      have "fine (parsed line s1) (parseblock n s1)" using Suc.IH(4) [OF s1l] suffix_length_le [OF s1] 3(2) by simp
      then show ?thesis using p True s1 by (auto simp: fine_def parsed_def split: res.splits intro: suffix_order.trans)
    next
      case False
      have "fine (parsed line s) (bind_res (parseredirs s1) (\<lambda>(rs, s). bind_res (parse_args 0 s) (\<lambda>(as, rs', s). Ok (wrap (EXEC as) (rs @ rs'), s))))"
      proof (rule fine_bind [OF parseredirs_fine [OF s1l]], goal_cases)
        case (1 x)
        obtain rs s2 where x: "x = (rs, s2)" by (cases x)
        then have s2: "suffix s2 s1" "suffix s2 line" "redirs_ok line rs" using 1(2) s1l by (auto intro: suffix_order.trans)
        have s2s: "suffix s2 s" using s2(1) s1 by (rule suffix_order.trans)
        show ?case unfolding x prod.case using s2(3)
          by (intro fine_bind [OF parse_args_fine [OF s2(2)]]) (auto simp: parsed_def MAXARGS_def intro!: wrap_ok intro: suffix_order.trans [OF _ s2s])
      qed
      then show ?thesis using p False by simp
    qed
  next
    case 4
    obtain b s1 where p: "peek s [0x28] = (b, s1)" by (cases "peek s [0x28]")
    obtain t q eq s2 where g: "gettoken s1 = (t, q, eq, s2)" by (metis prod_cases4)
    show ?case
    proof (cases b)
      case True
      note T = parsed_token [OF p [unfolded True [THEN eqTrueI]] g suffix_order.refl 4(1)]
      have "fine (parsed line s2) (parseline n s2)" using Suc.IH(1) [OF T(2)] T(3) 4(2) by simp
      then have "fine (parsed line s) (bind_res (parseline n s2) (\<lambda>(cmd, s). case peek s [0x29] of (b, s) \<Rightarrow>
          if \<not> b then panic ''syntax - missing )'' else case gettoken s of (_, _, _, s) \<Rightarrow>
            bind_res (parseredirs s) (\<lambda>(rs, s). Ok (wrap cmd rs, s))))"
      proof (rule fine_bind, goal_cases)
        case (1 x)
        obtain c s3 where x: "x = (c, s3)" by (cases x)
        have c: "cmd_ok (tok_ok line) c" "suffix s3 s" using 1(2) x T(1) by (auto simp: parsed_def intro: suffix_order.trans)
        obtain b' s4 where p': "peek s3 [0x29] = (b', s4)" by (cases "peek s3 [0x29]")
        obtain t' q' eq' s5 where g': "gettoken s4 = (t', q', eq', s5)" by (metis prod_cases4)
        show ?case
        proof (cases b')
          case True
          note T' = parsed_token [OF p' [unfolded True [THEN eqTrueI]] g' c(2) \<open>suffix s line\<close>]
          have "fine (parsed line s) (bind_res (parseredirs s5) (\<lambda>(rs, s). Ok (wrap c rs, s)))"
            by (rule fine_bind [OF parseredirs_fine [OF T'(2)]]) (use c T'(1) in \<open>auto simp: parsed_def intro: wrap_ok suffix_order.trans\<close>)
          then show ?thesis using p' g' True by (simp add: x)
        qed (simp add: x p')
      qed
      then show ?thesis using p g True by simp
    qed (simp add: p)
  }
qed simp_all

lemma parsecmd_fine: "fine (cmd_ok (tok_ok s)) (parsecmd s)"
proof -
  have "fine (parsed s s) (parseline (parse_fuel s) s)" by (rule parse_fine(1)) (simp_all add: parse_fuel_def)
  then show ?thesis unfolding parsecmd_def by (rule fine_bind) (auto simp: parsed_def split: prod.split)
qed

text \<open>C37: the parser ends on every line: the depth bound of four calls for each byte is never reached.\<close>

theorem parsecmd_ends: "parsecmd s \<noteq> Err Hang"
  using parsecmd_fine [of s] by (auto simp: fine_def)

text \<open>C38: what the parser makes is well formed: the strings are words of the line, without blanks and symbols and as long as
  possible, no command has more than nine arguments, and every redirection opens descriptor 0 for reading or 1 for writing.\<close>

theorem parsecmd_well_formed:
  assumes "parsecmd s = Ok c"
  shows "cmd_ok (\<lambda>t. is_word t \<and> suffix (fst t) s) c"
  using parsecmd_fine [of s] assms by (simp add: fine_def tok_ok_def [abs_def])

text \<open>\<^verbatim>\<open>ls>f\<close>.\<close>

lemma demo_parse: "parsecmd [0x6c, 0x73, 0x3e, 0x66] =
  Ok (REDIR (EXEC [([0x6c, 0x73, 0x3e, 0x66], [0x3e, 0x66])]) ([0x66], []) (O_WRONLY OR O_CREATE) 1)"
  by code_simp

theorem parsecmd_well_formed_witness:
  "parsecmd [0x6c, 0x73, 0x3e, 0x66] = Ok (REDIR (EXEC [([0x6c, 0x73, 0x3e, 0x66], [0x3e, 0x66])]) ([0x66], []) (O_WRONLY OR O_CREATE) 1) \<and>
   is_word ([0x66], [])"
  using parsecmd_well_formed [OF demo_parse] demo_parse by simp

section \<open>Terminating the strings\<close>

text \<open>The index of a pointer in the line.\<close>

definition pos :: "u8 list \<Rightarrow> u8 list \<Rightarrow> nat" where "pos line p = length line - length p"

fun nulterminate :: "u8 list \<Rightarrow> tok cmd \<Rightarrow> u8 list \<Rightarrow> u8 list" where
  "nulterminate line (EXEC as) buf = foldl (\<lambda>b (q, eq). b[pos line eq := 0]) buf as"
| "nulterminate line (REDIR c f mode fd) buf = (nulterminate line c buf)[pos line (snd f) := 0]"
| "nulterminate line (PIPE c d) buf = nulterminate line d (nulterminate line c buf)"
| "nulterminate line (LIST c d) buf = nulterminate line d (nulterminate line c buf)"
| "nulterminate line (BACK c) buf = nulterminate line c buf"

text \<open>The string that starts at index \<open>i\<close> of the buffer, and the text between the pointers of a token.\<close>

definition cstr :: "u8 list \<Rightarrow> nat \<Rightarrow> u8 list" where "cstr buf i = takeWhile (\<lambda>c. c \<noteq> 0) (drop i buf)"

definition tok_text :: "tok \<Rightarrow> u8 list" where "tok_text t = take (length (fst t) - length (snd t)) (fst t)"

lemma cmd_ok_set: "cmd_ok P c \<Longrightarrow> t \<in> set_cmd c \<Longrightarrow> P t"
  by (induction c) auto

lemma nulterminate_args_length [simp]: "length (foldl (\<lambda>b (q, eq). b[pos line eq := 0]) b as) = length b"
  by (induction as arbitrary: b) auto

lemma nulterminate_args:
  "i < length b \<Longrightarrow> foldl (\<lambda>b (q, eq). b[pos line eq := 0]) b as ! i = (if i \<in> (\<lambda>t. pos line (snd t)) ` set as then 0 else b ! i)"
proof (induction as arbitrary: b)
  case (Cons t as)
  then show ?case by (cases t; cases "pos line (snd t) = i") (simp_all add: nth_list_update)
qed simp

lemma nulterminate_length [simp]: "length (nulterminate line c b) = length b"
  by (induction c arbitrary: b) simp_all

lemma nulterminate_nth:
  "i < length b \<Longrightarrow> nulterminate line c b ! i = (if i \<in> (\<lambda>t. pos line (snd t)) ` set_cmd c then 0 else b ! i)"
proof (induction c arbitrary: b)
  case (EXEC as)
  then show ?case by (simp add: nulterminate_args)
next
  case (REDIR c f mode fd)
  then show ?case by (cases "pos line (snd f) = i") (simp_all add: nth_list_update)
next
  case (PIPE c d)
  then show ?case by (simp add: image_Un)
next
  case (LIST c d)
  then show ?case by (simp add: image_Un)
qed simp

lemma cstr_eq:
  assumes "n + length w < length b" "\<And>k. k < length w \<Longrightarrow> b ! (n + k) = w ! k" "0 \<notin> set w" "b ! (n + length w) = 0"
  shows "cstr b n = w"
proof -
  have "take (length w) (drop n b) = w" using assms(1,2) by (auto intro!: nth_equalityI)
  then have d: "drop n b = w @ drop (n + length w) b" by (metis add.commute append_take_drop_id drop_drop)
  have "drop (n + length w) b = 0 # drop (Suc (n + length w)) b" using assms(1,4) by (metis Cons_nth_drop_Suc)
  then show ?thesis using assms(3) unfolding cstr_def d by (simp add: takeWhile_tail takeWhile_eq_all_conv) (metis takeWhile_eq_all_conv)
qed

lemma nulterminate_map:
  assumes "parsecmd line = Ok c" "0 \<notin> set line"
  shows "map_cmd (\<lambda>(q, eq). cstr (nulterminate line c (line @ [0])) (pos line q)) c = map_cmd tok_text c"
proof (rule cmd.map_cong [OF refl])
  fix t assume t: "t \<in> set_cmd c"
  have ok: "tok_ok line t" if "t \<in> set_cmd c" for t
    using parsecmd_fine [of line] assms(1) cmd_ok_set [OF _ that] by (simp add: fine_def)
  obtain q eq where qe: "t = (q, eq)" by (cases t)
  obtain w u where w: "q = w @ eq" "\<forall>c \<in> set w. wordc c" "line = u @ w @ eq"
    using ok [OF t] qe by (auto simp: tok_ok_def is_word_def suffix_def)
  let ?B = "nulterminate line c (line @ [0])"
  have pq: "pos line q = length u" "pos line eq = length u + length w" using w by (simp_all add: pos_def)
  have "cstr ?B (length u) = w"
  proof (rule cstr_eq)
    show "length u + length w < length ?B" using w(3) by simp
    show "0 \<notin> set w" using assms(2) w(3) by simp
    have "length u + length w \<in> (\<lambda>t. pos line (snd t)) ` set_cmd c" using t qe pq(2) by (intro image_eqI [of _ _ t]) simp_all
    then show "?B ! (length u + length w) = 0" using w(3) by (simp add: nulterminate_nth)
    fix k assume k: "k < length w"
    have no: "pos line (snd t') \<noteq> length u + k" if t': "t' \<in> set_cmd c" for t'
    proof
      assume p: "pos line (snd t') = length u + k"
      obtain q' eq' where qe': "t' = (q', eq')" by (cases t')
      obtain v where v: "line = v @ eq'" "eq' = [] \<or> \<not> wordc (hd eq')"
        using ok [OF t'] qe' by (auto simp: tok_ok_def is_word_def suffix_def)
      then have lv: "length v = length u + k" using p qe' by (simp add: pos_def)
      then have "eq' \<noteq> []" using v(1) w(3) k by (auto dest: arg_cong [of _ _ length])
      then have "line ! (length u + k) = hd eq'" using v(1) lv by (simp add: nth_append hd_conv_nth)
      moreover have "line ! (length u + k) = w ! k" using w(3) k by (simp add: nth_append)
      ultimately show False using v(2) \<open>eq' \<noteq> []\<close> w(2) k by (metis nth_mem)
    qed
    then have "length u + k \<notin> (\<lambda>t. pos line (snd t)) ` set_cmd c" by (metis imageE)
    then show "?B ! (length u + k) = w ! k" using w(3) k by (simp add: nulterminate_nth nth_append)
  qed
  then show "(case t of (q, eq) \<Rightarrow> cstr ?B (pos line q)) = tok_text t" using qe w(1) pq(1) by (simp add: tok_text_def)
qed

text \<open>After \<^verbatim>\<open>nulterminate\<close> every argument and file name of the tree is, as a C string in the line, exactly the text of its token: the
  NULs that end one string never cut another.\<close>

theorem nulterminate_strings:
  assumes "parsecmd line = Ok c" "0 \<notin> set line"
  shows "map_cmd (\<lambda>(q, eq). cstr (nulterminate line c (line @ [0])) (pos line q)) c = map_cmd tok_text c"
  by (rule nulterminate_map [OF assms])

theorem nulterminate_strings_witness:
  "map_cmd (\<lambda>(q, eq). cstr (nulterminate [0x6c, 0x73, 0x3e, 0x66] (REDIR (EXEC [([0x6c, 0x73, 0x3e, 0x66], [0x3e, 0x66])]) ([0x66], []) (O_WRONLY OR O_CREATE) 1)
      ([0x6c, 0x73, 0x3e, 0x66] @ [0])) (pos [0x6c, 0x73, 0x3e, 0x66] q))
    (REDIR (EXEC [([0x6c, 0x73, 0x3e, 0x66], [0x3e, 0x66])]) ([0x66], []) (O_WRONLY OR O_CREATE) 1) =
   REDIR (EXEC [[0x6c, 0x73]]) [0x66] (O_WRONLY OR O_CREATE) 1"
proof -
  have "0 \<notin> set [0x6c, 0x73, 0x3e, 0x66 :: u8]" by simp
  from nulterminate_strings [OF demo_parse this] show ?thesis by (simp add: tok_text_def)
qed

section \<open>Printing and parsing\<close>

text \<open>A command as text, in the places where the grammar expects a line (level 0), a line without semicolons (1), a pipeline (2) or a
  single command (3); parentheses are put where the level asks for them.\<close>

definition par :: "bool \<Rightarrow> u8 list \<Rightarrow> u8 list" where
  "par b t = (if b then [0x28] @ t @ [0x29] else t)"

definition show_redir :: "u8 list \<times> u32 \<times> nat \<Rightarrow> u8 list" where
  "show_redir r = (case r of (f, mode, fd) \<Rightarrow> (if fd = 0 then 0x3c else 0x3e) # f)"

lemma show_redir_simp [simp]: "show_redir (f, mode, fd) = (if fd = 0 then 0x3c else 0x3e) # f"
  by (simp add: show_redir_def)

fun show_cmd :: "nat \<Rightarrow> u8 list cmd \<Rightarrow> u8 list" where
  "show_cmd l (EXEC as) = concat (map (\<lambda>a. 0x20 # a) as)"
| "show_cmd l (REDIR c f mode fd) = show_cmd 3 c @ show_redir (f, mode, fd)"
| "show_cmd l (PIPE c d) = par (2 < l) (show_cmd 3 c @ [0x7c] @ show_cmd 2 d)"
| "show_cmd l (LIST c d) = par (0 < l) (show_cmd 1 c @ [0x3b] @ show_cmd 0 d)"
| "show_cmd l (BACK c) = par (1 < l) (show_cmd 1 c @ [0x26])"

definition good_word :: "u8 list \<Rightarrow> bool" where
  "good_word w \<longleftrightarrow> w \<noteq> [] \<and> (\<forall>c \<in> set w. wordc c \<and> c \<noteq> 0)"

text \<open>The text that follows starts with one of \<open>cs\<close> or is empty.\<close>

definition follows :: "u8 list \<Rightarrow> u8 list \<Rightarrow> bool" where
  "follows cs r \<longleftrightarrow> r = [] \<or> hd r \<in> set cs"

lemma wordc_codes: "\<not> wordc 0x20" "\<not> wordc 0x7c" "\<not> wordc 0x28" "\<not> wordc 0x29" "\<not> wordc 0x3b" "\<not> wordc 0x26" "\<not> wordc 0x3c" "\<not> wordc 0x3e"
  by (simp_all add: wordc_def white_def whitespace_def symbol_def symbols_def)

lemma white_codes [simp]: "white 0x20" "\<not> white 0x7c" "\<not> white 0x28" "\<not> white 0x29" "\<not> white 0x3b" "\<not> white 0x26" "\<not> white 0x3c" "\<not> white 0x3e"
  by (simp_all add: white_def whitespace_def)

lemma skip_Nil [simp]: "skip [] = []"
  and skip_blank [simp]: "skip (0x20 # s) = skip s"
  and skip_other: "\<not> white c \<Longrightarrow> skip (c # s) = c # s"
  by (simp_all add: skip_def)

lemma skip_skip [simp]: "skip (skip s) = skip s"
  by (simp add: skip_def)

lemma gettoken_skip [simp]: "gettoken (skip s) = gettoken s"
  and peek_skip [simp]: "peek (skip s) toks = peek s toks"
  by (simp_all add: gettoken_def peek_def)

lemma parseredirs_skip [simp]: "parseredirs (skip s) = parseredirs s"
  by (simp add: parseredirs.simps [of "skip s"] parseredirs.simps [of s])

lemma parse_args_skip [simp]: "parse_args k (skip s) = parse_args k s"
  by (simp add: parse_args.simps [of k "skip s"] parse_args.simps [of k s])

lemma good_word_Cons: "good_word w \<Longrightarrow> \<exists>c v. w = c # v \<and> wordc c \<and> c \<noteq> 0"
  by (cases w) (auto simp: good_word_def)

lemma skip_word: "good_word w \<Longrightarrow> skip (w @ r) = w @ r"
  using good_word_Cons [of w] by (auto simp: wordc_def skip_other)

lemma gettoken_word:
  assumes "good_word w" "r = [] \<or> \<not> wordc (hd r)"
  shows "gettoken (w @ r) = (0x61, w @ r, r, skip r)"
proof -
  obtain c v where w: "w = c # v" "wordc c" "c \<noteq> 0" using good_word_Cons [OF assms(1)] by blast
  have "dropWhile wordc (w @ r) = r" using assms by (cases r) (auto simp: good_word_def)
  then have d: "dropWhile (\<lambda>c. \<not> white c \<and> \<not> symbol c) (w @ r) = r" by (simp add: wordc_def [abs_def])
  have "c \<notin> {0x7c, 0x28, 0x29, 0x3b, 0x26, 0x3c, 0x3e}" using w(2) wordc_codes by auto
  then have "scan (w @ r) = (0x61, r)" using d w by (simp add: scan_def)
  then show ?thesis using skip_word [OF assms(1), of r] by (simp add: gettoken_def)
qed

lemma gettoken_redir:
  assumes "good_word w"
  shows "gettoken (0x3c # w @ r) = (0x3c, 0x3c # w @ r, w @ r, w @ r)" "gettoken (0x3e # w @ r) = (0x3e, 0x3e # w @ r, w @ r, w @ r)"
proof -
  obtain c v where w: "w = c # v" "wordc c" "c \<noteq> 0" using good_word_Cons [OF assms(1)] by blast
  have "c \<noteq> 0x3e" using w(2) wordc_codes by auto
  then show "gettoken (0x3c # w @ r) = (0x3c, 0x3c # w @ r, w @ r, w @ r)" "gettoken (0x3e # w @ r) = (0x3e, 0x3e # w @ r, w @ r, w @ r)"
    using skip_word [OF assms, of r] w by (simp_all add: gettoken_def scan_def skip_other)
qed

lemma gettoken_symbol: "c \<in> {0x7c, 0x28, 0x29, 0x3b, 0x26} \<Longrightarrow> gettoken (c # r) = (c, c # r, r, skip r)"
  by (auto simp: gettoken_def scan_def skip_other)

lemma peek_symbol: "\<not> white c \<Longrightarrow> c \<noteq> 0 \<Longrightarrow> peek (c # r) toks = (c \<in> set toks, c # r)"
  by (simp add: peek_def skip_other)

lemma peek_follows:
  assumes "follows cs r" "set cs \<subseteq> {0x7c, 0x29, 0x26, 0x3b}"
  shows "peek r toks = (r \<noteq> [] \<and> hd r \<in> set toks, r)"
  using assms by (cases r) (auto simp: follows_def peek_def skip_other)

lemma follows_end: "follows cs r \<Longrightarrow> set cs \<subseteq> {0x7c, 0x29, 0x26, 0x3b} \<Longrightarrow> r = [] \<or> \<not> wordc (hd r)"
  using wordc_codes by (auto simp: follows_def)

lemma follows_skip: "follows cs r \<Longrightarrow> set cs \<subseteq> {0x7c, 0x29, 0x26, 0x3b} \<Longrightarrow> skip r = r"
  by (cases r) (auto simp: follows_def skip_other)

definition redir_text :: "redir \<Rightarrow> u8 list \<times> u32 \<times> nat" where
  "redir_text x = (case x of (t, m, fd) \<Rightarrow> (tok_text t, m, fd))"

definition good_redir :: "u8 list \<times> u32 \<times> nat \<Rightarrow> bool" where
  "good_redir x \<longleftrightarrow> (case x of (f, m, fd) \<Rightarrow> good_word f \<and> redir_ok m fd)"

text \<open>Where a single command ends.\<close>

definition ends :: "u8 list \<Rightarrow> bool" where "ends r \<longleftrightarrow> follows [0x7c, 0x29, 0x26, 0x3b] r"

lemma redirs_end: "ends r \<Longrightarrow> concat (map show_redir rs) @ r = [] \<or> \<not> wordc (hd (concat (map show_redir rs) @ r))"
  using wordc_codes follows_end [of "[0x7c, 0x29, 0x26, 0x3b]" r] by (cases rs) (auto simp: ends_def split: if_splits)

lemma redirs_skip: "ends r \<Longrightarrow> skip (concat (map show_redir rs) @ r) = concat (map show_redir rs) @ r"
  using follows_skip [of "[0x7c, 0x29, 0x26, 0x3b]" r] by (cases rs) (auto simp: ends_def skip_other split: if_splits)

lemma parseredirs_show:
  "ends r \<Longrightarrow> \<forall>x \<in> set rs. good_redir x \<Longrightarrow>
   \<exists>rs'. parseredirs (concat (map show_redir rs) @ r) = Ok (rs', r) \<and> map redir_text rs' = rs"
proof (induction rs)
  case Nil
  then show ?case using peek_follows [of "[0x7c, 0x29, 0x26, 0x3b]" r "[0x3c, 0x3e]"]
    by (auto simp: ends_def follows_def parseredirs.simps [of r])
next
  case (Cons x rs)
  obtain f m fd where x: "x = (f, m, fd)" by (cases x)
  have f: "good_word f" "redir_ok m fd" using Cons.prems(2) x by (simp_all add: good_redir_def)
  let ?R = "concat (map show_redir rs) @ r"
  obtain rs' where rs': "parseredirs ?R = Ok (rs', r)" "map redir_text rs' = rs" using Cons by auto
  note e = redirs_end [OF Cons.prems(1), of rs]
  let ?c = "if fd = 0 then 0x3c else 0x3e :: u8"
  have p: "peek (?c # f @ ?R) [0x3c, 0x3e] = (True, ?c # f @ ?R)" by (simp add: peek_symbol)
  have g: "gettoken (?c # f @ ?R) = (?c, ?c # f @ ?R, f @ ?R, f @ ?R)" using gettoken_redir [OF f(1), of ?R] by simp
  have "parseredirs (?c # f @ ?R) = Ok (redir_of ?c (f @ ?R, ?R) @ rs', r)"
    by (subst parseredirs.simps) (simp only: p g prod.case gettoken_word [OF f(1) e] parseredirs_skip rs' bind_res_Ok simp_thms if_False)
  moreover have "map redir_text (redir_of ?c (f @ ?R, ?R) @ rs') = x # rs"
    using f(2) rs'(2) x by (auto simp: redir_of_def redir_text_def tok_text_def redir_ok_def)
  moreover have "concat (map show_redir (x # rs)) @ r = ?c # f @ ?R" by (simp add: x)
  ultimately show ?case by metis
qed

lemma good_arg_peek: "good_word a \<Longrightarrow> peek (a @ t) [0x7c, 0x29, 0x26, 0x3b] = (False, a @ t)"
  and good_arg_redirs: "good_word a \<Longrightarrow> parseredirs (0x20 # a @ t) = Ok ([], a @ t)"
proof -
  assume a: "good_word a"
  obtain c v where c: "a = c # v" "wordc c" "c \<noteq> 0" using good_word_Cons [OF a] by blast
  have w: "\<not> white c" "c \<notin> {0x7c, 0x29, 0x26, 0x3b, 0x3c, 0x3e}" using c(2) wordc_codes by (auto simp: wordc_def)
  show "peek (a @ t) [0x7c, 0x29, 0x26, 0x3b] = (False, a @ t)" using c w by (simp add: peek_symbol)
  have "peek (0x20 # a @ t) [0x3c, 0x3e] = (False, a @ t)" using c w by (simp add: peek_def skip_other)
  then show "parseredirs (0x20 # a @ t) = Ok ([], a @ t)" by (subst parseredirs.simps) simp
qed

lemma args_end: "ends r \<Longrightarrow> \<forall>x \<in> set rs. good_redir x \<Longrightarrow>
  concat (map (\<lambda>a. 0x20 # a) as) @ concat (map show_redir rs) @ r = [] \<or> \<not> wordc (hd (concat (map (\<lambda>a. 0x20 # a) as) @ concat (map show_redir rs) @ r))"
  using redirs_end [of r rs] wordc_codes by (cases as) auto

lemma parse_args_end: "ends r \<Longrightarrow> parse_args k r = Ok ([], [], r)"
proof -
  assume "ends r"
  then have p: "peek r [0x7c, 0x29, 0x26, 0x3b] = (r \<noteq> [], r)"
    using peek_follows [of "[0x7c, 0x29, 0x26, 0x3b]" r "[0x7c, 0x29, 0x26, 0x3b]"] by (auto simp: ends_def follows_def)
  show ?thesis by (subst parse_args.simps) (use p in \<open>cases r; simp add: gettoken_def scan_def\<close>)
qed

text \<open>The arguments of a command with the redirections behind them.\<close>

lemma parse_args_show:
  assumes "ends r" "\<forall>x \<in> set rs. good_redir x"
  shows "\<forall>a \<in> set as. good_word a \<Longrightarrow> k + length as < MAXARGS \<Longrightarrow> as \<noteq> [] \<or> rs = [] \<Longrightarrow>
   \<exists>as' rs'. parse_args k (concat (map (\<lambda>a. 0x20 # a) as) @ concat (map show_redir rs) @ r) = Ok (as', rs', r) \<and>
     map tok_text as' = as \<and> map redir_text rs' = rs"
proof (induction as arbitrary: k)
  case Nil
  then show ?case using parse_args_end [OF assms(1), of k] by simp
next
  case (Cons a as)
  let ?R = "concat (map show_redir rs) @ r"
  let ?T = "concat (map (\<lambda>a. 0x20 # a) as) @ ?R"
  have a: "good_word a" using Cons.prems(1) by simp
  have e: "?T = [] \<or> \<not> wordc (hd ?T)" by (rule args_end [OF assms])
  have k: "\<not> MAXARGS \<le> k + 1" using Cons.prems(2) by simp
  have step: "parse_args k (0x20 # a @ ?T) =
    bind_res (parseredirs ?T) (\<lambda>(rs1, s3). bind_res (parse_args (k + 1) s3) (\<lambda>(as, rs', s4). Ok ((a @ ?T, ?T) # as, rs1 @ rs', s4)))"
  proof -
    have "peek (0x20 # a @ ?T) [0x7c, 0x29, 0x26, 0x3b] = (False, a @ ?T)" using good_arg_peek [OF a, of ?T] by (simp add: peek_def)
    then show ?thesis by (subst parse_args.simps) (simp only: prod.case gettoken_word [OF a e] parseredirs_skip k if_False simp_thms, simp)
  qed
  have a_text: "tok_text (a @ ?T, ?T) = a" by (simp add: tok_text_def)
  show ?case
  proof (cases as)
    case Nil
    obtain rs' where rs': "parseredirs ?R = Ok (rs', r)" "map redir_text rs' = rs" using parseredirs_show [OF assms] by blast
    have "parse_args k (0x20 # a @ ?T) = Ok ([(a @ ?T, ?T)], rs', r)" unfolding step using rs' parse_args_end [OF assms(1), of "k + 1"] Nil by simp
    then show ?thesis using rs'(2) a_text Nil by (intro exI [of _ "[(a @ ?T, ?T)]"] exI [of _ rs']) simp
  next
    case (Cons b bs)
    obtain as' rs' where IH: "parse_args (k + 1) ?T = Ok (as', rs', r)" "map tok_text as' = as" "map redir_text rs' = rs"
      using Cons.IH [of "k + 1"] Cons.prems Cons by auto
    have "good_word b" using Cons.prems(1) Cons by simp
    then have "parseredirs ?T = Ok ([], skip ?T)" using good_arg_redirs [of b] skip_word [of b] Cons by simp
    then have "parse_args k (0x20 # a @ ?T) = Ok ((a @ ?T, ?T) # as', rs', r)" unfolding step using IH by simp
    then show ?thesis using IH(2,3) a_text by (intro exI [of _ "(a @ ?T, ?T) # as'"] exI [of _ rs']) simp
  qed
qed

lemma parseexec_skip [simp]: "parseexec n (skip s) = parseexec n s"
  by (cases n) simp_all

lemma parsepipe_skip [simp]: "parsepipe n (skip s) = parsepipe n s"
  by (cases n) simp_all

lemma parseline_skip [simp]: "parseline n (skip s) = parseline n s"
  by (cases n) simp_all

lemma wrap_text: "map_cmd tok_text (wrap c rs) = wrap (map_cmd tok_text c) (map redir_text rs)"
  unfolding wrap_def by (induction rs arbitrary: c) (auto simp: redir_text_def)

lemma wrap_simps [simp]: "wrap c [] = c" "wrap c ((f, m, fd) # rs) = wrap (REDIR c f m fd) rs"
  by (simp_all add: wrap_def)

text \<open>Reading back a command printed at each of the levels. At level 1 the parser of pipelines returns before the ampersands, which
  the loop behind it takes.\<close>

definition reads3 :: "u8 list cmd \<Rightarrow> bool" where
  "reads3 c \<longleftrightarrow> (\<forall>n r rs. ends r \<longrightarrow> (\<forall>x \<in> set rs. good_redir x) \<longrightarrow> 4 * length (show_cmd 3 c @ concat (map show_redir rs) @ r) + 2 \<le> n \<longrightarrow>
     (\<exists>c'. parseexec n (show_cmd 3 c @ concat (map show_redir rs) @ r) = Ok (c', r) \<and> map_cmd tok_text c' = wrap c rs))"

definition reads2 :: "u8 list cmd \<Rightarrow> bool" where
  "reads2 c \<longleftrightarrow> (\<forall>n r. follows [0x29, 0x26, 0x3b] r \<longrightarrow> 4 * length (show_cmd 2 c @ r) + 3 \<le> n \<longrightarrow>
     (\<exists>c'. parsepipe n (show_cmd 2 c @ r) = Ok (c', r) \<and> map_cmd tok_text c' = c))"

definition reads1 :: "u8 list cmd \<Rightarrow> bool" where
  "reads1 c \<longleftrightarrow> (\<forall>n r. follows [0x29, 0x26, 0x3b] r \<longrightarrow> 4 * length (show_cmd 1 c @ r) + 3 \<le> n \<longrightarrow>
     (\<exists>p s c'. parsepipe n (show_cmd 1 c @ r) = Ok (p, s) \<and> parse_backs p s = parse_backs c' r \<and> map_cmd tok_text c' = c))"

definition reads0 :: "u8 list cmd \<Rightarrow> bool" where
  "reads0 c \<longleftrightarrow> (\<forall>n r. follows [0x29] r \<longrightarrow> 4 * length (show_cmd 0 c @ r) + 4 \<le> n \<longrightarrow>
     (\<exists>c'. parseline n (show_cmd 0 c @ r) = Ok (c', r) \<and> map_cmd tok_text c' = c))"

lemma follows_peek [simp]:
  "follows [0x29, 0x26, 0x3b] r \<Longrightarrow> peek r [0x7c] = (False, r)"
  "follows [0x29] r \<Longrightarrow> peek r [0x26] = (False, r)"
  "follows [0x29] r \<Longrightarrow> peek r [0x3b] = (False, r)"
  using peek_follows [of "[0x29, 0x26, 0x3b]" r "[0x7c]"] peek_follows [of "[0x29]" r "[0x26]"] peek_follows [of "[0x29]" r "[0x3b]"]
  by (auto simp: follows_def)

lemma follows_ends: "follows [0x29, 0x26, 0x3b] r \<Longrightarrow> ends r"
  by (auto simp: follows_def ends_def)

lemma reads_3_2: "reads3 c \<Longrightarrow> show_cmd 2 c = show_cmd 3 c \<Longrightarrow> reads2 c"
  unfolding reads2_def
proof (intro allI impI)
  fix n r assume a: "reads3 c" "show_cmd 2 c = show_cmd 3 c" "follows [0x29, 0x26, 0x3b] r" "4 * length (show_cmd 2 c @ r) + 3 \<le> n"
  obtain m where m: "n = Suc m" using a(4) by (cases n) auto
  obtain c' where "parseexec m (show_cmd 3 c @ r) = Ok (c', r)" "map_cmd tok_text c' = c"
    using a(1) [unfolded reads3_def, rule_format, of r "[]" m] follows_ends [OF a(3)] a(2,4) m by auto
  then show "\<exists>c'. parsepipe n (show_cmd 2 c @ r) = Ok (c', r) \<and> map_cmd tok_text c' = c" using a(2,3) m by simp
qed

lemma reads_2_1: "reads2 c \<Longrightarrow> show_cmd 1 c = show_cmd 2 c \<Longrightarrow> reads1 c"
  unfolding reads1_def reads2_def by metis

lemma parse_backs_stop: "follows [0x29] r \<Longrightarrow> parse_backs c r = (c, r)"
  by (subst parse_backs.simps) simp

lemma reads_1_0: "reads1 c \<Longrightarrow> show_cmd 0 c = show_cmd 1 c \<Longrightarrow> reads0 c"
  unfolding reads0_def
proof (intro allI impI)
  fix n r assume a: "reads1 c" "show_cmd 0 c = show_cmd 1 c" "follows [0x29] r" "4 * length (show_cmd 0 c @ r) + 4 \<le> n"
  obtain m where m: "n = Suc m" using a(4) by (cases n) auto
  have "follows [0x29, 0x26, 0x3b] r" using a(3) by (auto simp: follows_def)
  then obtain p s c' where "parsepipe m (show_cmd 1 c @ r) = Ok (p, s)" "parse_backs p s = parse_backs c' r" "map_cmd tok_text c' = c"
    using a(1) [unfolded reads1_def, rule_format, of r m] a(2,4) m by auto
  then show "\<exists>c'. parseline n (show_cmd 0 c @ r) = Ok (c', r) \<and> map_cmd tok_text c' = c"
    using a(2,3) m parse_backs_stop [OF a(3)] by simp
qed

lemma reads_0_3: "reads0 c \<Longrightarrow> show_cmd 3 c = 0x28 # show_cmd 0 c @ [0x29] \<Longrightarrow> reads3 c"
  unfolding reads3_def
proof (intro allI impI)
  fix n r rs assume a: "reads0 c" "show_cmd 3 c = 0x28 # show_cmd 0 c @ [0x29]" "ends r" "\<forall>x \<in> set rs. good_redir x"
    "4 * length (show_cmd 3 c @ concat (map show_redir rs) @ r) + 2 \<le> n"
  let ?R = "concat (map show_redir rs) @ r"
  obtain m where m: "n = Suc (Suc m)" using a(5) by (cases n; cases "n - 1") auto
  have "follows [0x29] (0x29 # ?R)" by (simp add: follows_def)
  then obtain c' where c': "parseline m (show_cmd 0 c @ 0x29 # ?R) = Ok (c', 0x29 # ?R)" "map_cmd tok_text c' = c"
    using a(1) [unfolded reads0_def, rule_format, of "0x29 # ?R" m] a(2,5) m by auto
  obtain rs' where rs': "parseredirs ?R = Ok (rs', r)" "map redir_text rs' = rs" using parseredirs_show [OF a(3,4)] by blast
  have "parseexec n (show_cmd 3 c @ ?R) = Ok (wrap c' rs', r)"
    unfolding a(2) m using c' rs' by (simp add: peek_symbol gettoken_symbol)
  then show "\<exists>c'. parseexec n (show_cmd 3 c @ ?R) = Ok (c', r) \<and> map_cmd tok_text c' = wrap c rs"
    using c'(2) rs'(2) by (auto simp: wrap_text)
qed

lemma reads_EXEC: "cmd_ok good_word (EXEC as) \<Longrightarrow> reads3 (EXEC as)"
  unfolding reads3_def
proof (intro allI impI)
  fix n r rs assume a: "cmd_ok good_word (EXEC as)" "ends r" "\<forall>x \<in> set rs. good_redir x"
    "4 * length (show_cmd 3 (EXEC as) @ concat (map show_redir rs) @ r) + 2 \<le> n"
  let ?R = "concat (map show_redir rs) @ r"
  let ?T = "concat (map (\<lambda>a. 0x20 # a) as) @ ?R"
  obtain m where m: "n = Suc m" using a(4) by (cases n) auto
  obtain rs' where rs': "parseredirs ?R = Ok (rs', r)" "map redir_text rs' = rs" using parseredirs_show [OF a(2,3)] by blast
  show "\<exists>c'. parseexec n (show_cmd 3 (EXEC as) @ ?R) = Ok (c', r) \<and> map_cmd tok_text c' = wrap (EXEC as) rs"
  proof (cases as)
    case Nil
    have "peek ?R [0x28] = (False, ?R)"
      using a(2) peek_follows [of "[0x7c, 0x29, 0x26, 0x3b]" r "[0x28]"] by (cases rs) (auto simp: ends_def follows_def peek_symbol split: if_splits)
    then have "parseexec n ?R = Ok (wrap (EXEC []) rs', r)" using m rs' parse_args_end [OF a(2), of 0] by simp
    then show ?thesis using rs'(2) Nil by (auto simp: wrap_text)
  next
    case (Cons b bs)
    have b: "good_word b" using a(1) Cons by simp
    then obtain x v where x: "b = x # v" "wordc x" "x \<noteq> 0" using good_word_Cons by blast
    have xs: "\<not> white x" "x \<noteq> 0x28" using x(2) wordc_codes by (auto simp: wordc_def)
    obtain as' rs1 where as': "parse_args 0 ?T = Ok (as', rs1, r)" "map tok_text as' = as" "map redir_text rs1 = rs"
      using parse_args_show [OF a(2,3), of as 0] a(1) Cons by auto
    have T: "skip ?T = b @ concat (map (\<lambda>a. 0x20 # a) bs) @ ?R" using Cons skip_word [OF b] by simp
    have p: "peek ?T [0x28] = (False, skip ?T)" using T x xs by (simp add: peek_def)
    have "parseredirs ?T = Ok ([], skip ?T)" unfolding T using good_arg_redirs [OF b] Cons by simp
    then have "parseexec n ?T = Ok (wrap (EXEC as') rs1, r)" using m p as'(1) by simp
    then show ?thesis using as'(2,3) by (auto simp: wrap_text)
  qed
qed

lemma reads_REDIR: "reads3 c \<Longrightarrow> good_word f \<Longrightarrow> redir_ok m fd \<Longrightarrow> reads3 (REDIR c f m fd)"
  unfolding reads3_def
proof (intro allI impI)
  fix n r rs assume a: "\<forall>n r rs. ends r \<longrightarrow> (\<forall>x \<in> set rs. good_redir x) \<longrightarrow> 4 * length (show_cmd 3 c @ concat (map show_redir rs) @ r) + 2 \<le> n \<longrightarrow>
     (\<exists>c'. parseexec n (show_cmd 3 c @ concat (map show_redir rs) @ r) = Ok (c', r) \<and> map_cmd tok_text c' = wrap c rs)"
    "good_word f" "redir_ok m fd" "ends r" "\<forall>x \<in> set rs. good_redir x"
    "4 * length (show_cmd 3 (REDIR c f m fd) @ concat (map show_redir rs) @ r) + 2 \<le> n"
  have t: "show_cmd 3 (REDIR c f m fd) @ concat (map show_redir rs) @ r = show_cmd 3 c @ concat (map show_redir ((f, m, fd) # rs)) @ r" by simp
  have "\<forall>x \<in> set ((f, m, fd) # rs). good_redir x" using a(2,3,5) by (simp add: good_redir_def)
  with a(1,4,6) show "\<exists>c'. parseexec n (show_cmd 3 (REDIR c f m fd) @ concat (map show_redir rs) @ r) = Ok (c', r) \<and> map_cmd tok_text c' = wrap (REDIR c f m fd) rs"
    unfolding t wrap_simps(2) [symmetric] by blast
qed

lemma reads_PIPE: "reads3 c \<Longrightarrow> reads2 d \<Longrightarrow> reads2 (PIPE c d)"
  unfolding reads2_def [of "PIPE c d"]
proof (intro allI impI)
  fix n r assume a: "reads3 c" "reads2 d" "follows [0x29, 0x26, 0x3b] r" "4 * length (show_cmd 2 (PIPE c d) @ r) + 3 \<le> n"
  obtain m where m: "n = Suc m" using a(4) by (cases n) auto
  let ?T = "0x7c # show_cmd 2 d @ r"
  have "ends ?T" by (simp add: ends_def follows_def)
  then obtain c' where c': "parseexec m (show_cmd 3 c @ ?T) = Ok (c', ?T)" "map_cmd tok_text c' = c"
    using a(1) [unfolded reads3_def, rule_format, of ?T "[]" m] a(4) m by (auto simp: par_def)
  obtain d' where d': "parsepipe m (show_cmd 2 d @ r) = Ok (d', r)" "map_cmd tok_text d' = d"
    using a(2) [unfolded reads2_def, rule_format, of r m] a(3,4) m by (auto simp: par_def)
  show "\<exists>c'. parsepipe n (show_cmd 2 (PIPE c d) @ r) = Ok (c', r) \<and> map_cmd tok_text c' = PIPE c d"
    using c' d' m by (simp add: par_def peek_symbol gettoken_symbol)
qed

lemma reads_LIST: "reads1 c \<Longrightarrow> reads0 d \<Longrightarrow> reads0 (LIST c d)"
  unfolding reads0_def [of "LIST c d"]
proof (intro allI impI)
  fix n r assume a: "reads1 c" "reads0 d" "follows [0x29] r" "4 * length (show_cmd 0 (LIST c d) @ r) + 4 \<le> n"
  obtain m where m: "n = Suc m" using a(4) by (cases n) auto
  let ?T = "0x3b # show_cmd 0 d @ r"
  have "follows [0x29, 0x26, 0x3b] ?T" by (simp add: follows_def)
  then obtain p s c' where c': "parsepipe m (show_cmd 1 c @ ?T) = Ok (p, s)" "parse_backs p s = parse_backs c' ?T" "map_cmd tok_text c' = c"
    using a(1) [unfolded reads1_def, rule_format, of ?T m] a(4) m by (auto simp: par_def)
  have bk: "parse_backs c' ?T = (c', ?T)" by (subst parse_backs.simps) (simp add: peek_symbol)
  obtain d' where d': "parseline m (show_cmd 0 d @ r) = Ok (d', r)" "map_cmd tok_text d' = d"
    using a(2) [unfolded reads0_def, rule_format, of r m] a(3,4) m by (auto simp: par_def)
  show "\<exists>c'. parseline n (show_cmd 0 (LIST c d) @ r) = Ok (c', r) \<and> map_cmd tok_text c' = LIST c d"
    using c' d' m bk by (simp add: par_def peek_symbol gettoken_symbol)
qed

lemma reads_BACK: "reads1 c \<Longrightarrow> reads1 (BACK c)"
  unfolding reads1_def [of "BACK c"]
proof (intro allI impI)
  fix n r assume a: "reads1 c" "follows [0x29, 0x26, 0x3b] r" "4 * length (show_cmd 1 (BACK c) @ r) + 3 \<le> n"
  have "follows [0x29, 0x26, 0x3b] (0x26 # r)" by (simp add: follows_def)
  then obtain p s c' where c': "parsepipe n (show_cmd 1 c @ 0x26 # r) = Ok (p, s)" "parse_backs p s = parse_backs c' (0x26 # r)" "map_cmd tok_text c' = c"
    using a(1) [unfolded reads1_def, rule_format, of "0x26 # r" n] a(3) by (auto simp: par_def)
  have "skip r = r" using follows_skip [OF a(2)] by simp
  then have "parse_backs c' (0x26 # r) = parse_backs (BACK c') r" by (subst parse_backs.simps) (simp add: peek_symbol gettoken_symbol)
  then show "\<exists>p s c'. parsepipe n (show_cmd 1 (BACK c) @ r) = Ok (p, s) \<and> parse_backs p s = parse_backs c' r \<and> map_cmd tok_text c' = BACK c"
    using c' by (intro exI [of _ p] exI [of _ s] exI [of _ "BACK c'"]) (simp add: par_def)
qed

lemma reads_all: "cmd_ok good_word c \<Longrightarrow> reads3 c \<and> reads2 c \<and> reads1 c \<and> reads0 c"
proof (induction c)
  case (EXEC as)
  then have 3: "reads3 (EXEC as)" by (rule reads_EXEC)
  then show ?case using reads_3_2 [OF 3] reads_2_1 [of "EXEC as"] reads_1_0 [of "EXEC as"] by simp
next
  case (REDIR c f m fd)
  then have 3: "reads3 (REDIR c f m fd)" using reads_REDIR by simp
  then show ?case using reads_3_2 [OF 3] reads_2_1 [of "REDIR c f m fd"] reads_1_0 [of "REDIR c f m fd"] by simp
next
  case (PIPE c d)
  then have 2: "reads2 (PIPE c d)" using reads_PIPE by simp
  then have 1: "reads1 (PIPE c d)" using reads_2_1 [OF 2] by (simp add: par_def)
  then have 0: "reads0 (PIPE c d)" using reads_1_0 [OF 1] by (simp add: par_def)
  then show ?case using 1 2 reads_0_3 [OF 0] by (simp add: par_def)
next
  case (LIST c d)
  then have 0: "reads0 (LIST c d)" using reads_LIST by simp
  then have 3: "reads3 (LIST c d)" using reads_0_3 [OF 0] by (simp add: par_def)
  then have 2: "reads2 (LIST c d)" using reads_3_2 [OF 3] by (simp add: par_def)
  then show ?case using 0 3 reads_2_1 [OF 2] by (simp add: par_def)
next
  case (BACK c)
  then have 1: "reads1 (BACK c)" using reads_BACK by simp
  then have 0: "reads0 (BACK c)" using reads_1_0 [OF 1] by (simp add: par_def)
  then have 3: "reads3 (BACK c)" using reads_0_3 [OF 0] by (simp add: par_def)
  then show ?case using 0 1 reads_3_2 [OF 3] by (simp add: par_def)
qed

text \<open>C35: the parser reads back every command that is printed with the precedences of the shell: lists, background commands, pipelines,
  redirections and parentheses nest as written, whatever the depth.\<close>

theorem parse_show:
  assumes "cmd_ok good_word c"
  shows "\<exists>c'. parsecmd (show_cmd 0 c) = Ok c' \<and> map_cmd tok_text c' = c"
proof -
  have "reads0 c" using reads_all [OF assms] by simp
  then obtain c' where "parseline (parse_fuel (show_cmd 0 c)) (show_cmd 0 c) = Ok (c', [])" "map_cmd tok_text c' = c"
    unfolding reads0_def by (auto simp: follows_def parse_fuel_def dest!: spec [of _ "parse_fuel (show_cmd 0 c)"] spec [of _ "[]"])
  then show ?thesis by (simp add: parsecmd_def peek_def)
qed

text \<open>\<^verbatim>\<open>(a;b)|c>d\<close>.\<close>

theorem parse_show_witness:
  "\<exists>c'. parsecmd [0x28, 0x20, 0x61, 0x3b, 0x20, 0x62, 0x29, 0x7c, 0x20, 0x63, 0x3e, 0x64] = Ok c' \<and>
     map_cmd tok_text c' = PIPE (LIST (EXEC [[0x61]]) (EXEC [[0x62]])) (REDIR (EXEC [[0x63]]) [0x64] (O_WRONLY OR O_CREATE) 1)"
proof -
  have "cmd_ok good_word (PIPE (LIST (EXEC [[0x61]]) (EXEC [[0x62]])) (REDIR (EXEC [[0x63]]) [0x64] (O_WRONLY OR O_CREATE) 1))"
    by (simp add: good_word_def wordc_def white_def whitespace_def symbol_def symbols_def redir_ok_def MAXARGS_def)
  from parse_show [OF this] show ?thesis by (simp add: par_def)
qed

end
