(* ===== verification/Runcmd.thy ===== *)
theory Runcmd
  imports Sh Sysfile
begin

text \<open>
  The second part of the shell (\<^verbatim>\<open>sh.c\<close>): \<^verbatim>\<open>main\<close>, \<^verbatim>\<open>getcmd\<close> and \<^verbatim>\<open>runcmd\<close>, with \<^verbatim>\<open>gets\<close> of \<^verbatim>\<open>ulib.c\<close>. A process is its table of descriptors; what the
  kernel answers to \<^verbatim>\<open>open\<close>, \<^verbatim>\<open>pipe\<close>, \<^verbatim>\<open>fork\<close>, \<^verbatim>\<open>exec\<close> and \<^verbatim>\<open>chdir\<close> is given by an environment that works on a state of its own, while the
  allocation of descriptors is the one of \<^verbatim>\<open>fdalloc\<close>. A child runs to its end before its parent goes on; which descriptors a program
  gets does not depend on that order.
\<close>

section \<open>Descriptor tables\<close>

type_synonym 'o fds = "nat \<Rightarrow> 'o option"

definition fd_alloc :: "'o \<Rightarrow> 'o fds \<Rightarrow> (nat \<times> 'o fds) option" where
  "fd_alloc ob tab =
     (case find (\<lambda>fd. tab fd = None) [0..<NOFILE] of
        None \<Rightarrow> None
      | Some fd \<Rightarrow> Some (fd, tab(fd := Some ob)))"

text \<open>This is what the kernel does to the table of the process.\<close>

lemma fdalloc_table:
  assumes "cur s = Some me"
  shows "fdalloc f s =
    (case fd_alloc f (ofile (ptable s me)) of
       None \<Rightarrow> Ok (None, s)
     | Some (fd, tab) \<Rightarrow> Ok (Some fd, upd_proc me (\<lambda>p. p\<lparr>ofile := tab\<rparr>) s))"
  using assms by (auto simp: fdalloc_def fd_alloc_def upd_proc_def split: option.split)

definition fd_dup :: "nat \<Rightarrow> 'o fds \<Rightarrow> 'o fds" where
  "fd_dup fd tab =
     (case tab fd of
        None \<Rightarrow> tab
      | Some ob \<Rightarrow> (case fd_alloc ob tab of None \<Rightarrow> tab | Some (_, tab) \<Rightarrow> tab))"

section \<open>runcmd\<close>

text \<open>What a process does: it runs a program with a table of descriptors, or prints on descriptor 2.\<close>

datatype 'o act = Runs "u8 list list" "'o fds" | Prints "u8 list"

record ('o, 'w) env =
  e_open :: "u8 list \<Rightarrow> u32 \<Rightarrow> 'w \<Rightarrow> 'o option \<times> 'w"
  e_pipe :: "'w \<Rightarrow> ('o \<times> 'o) option \<times> 'w"
  e_fork :: "'w \<Rightarrow> bool \<times> 'w"
  e_exec :: "u8 list list \<Rightarrow> 'w \<Rightarrow> bool \<times> 'w"
  e_chdir :: "u8 list \<Rightarrow> 'w \<Rightarrow> bool \<times> 'w"

definition sh_panic :: "string \<Rightarrow> 'o act list" where
  "sh_panic msg = [Prints (chars msg @ [10])]"

text \<open>\<^verbatim>\<open>if(fork1() == 0) child;\<close> and what the parent does then.\<close>

definition fork1 :: "('o, 'w) env \<Rightarrow> ('w \<Rightarrow> 'o act list \<times> 'w) \<Rightarrow> ('w \<Rightarrow> 'o act list \<times> 'w) \<Rightarrow> 'w \<Rightarrow> 'o act list \<times> 'w" where
  "fork1 e child parent w =
     (case e_fork e w of (ok, w) \<Rightarrow>
        if \<not> ok then (sh_panic ''fork'', w)
        else case child w of (as, w) \<Rightarrow> case parent w of (bs, w) \<Rightarrow> (as @ bs, w))"

definition run_exec :: "('o, 'w) env \<Rightarrow> u8 list list \<Rightarrow> 'o fds \<Rightarrow> 'w \<Rightarrow> 'o act list \<times> 'w" where
  "run_exec e argv tab w =
     (case argv of
        [] \<Rightarrow> ([], w)
      | a # _ \<Rightarrow> (case e_exec e argv w of (ok, w) \<Rightarrow>
          (if ok then [Runs argv tab] else [Prints (chars ''exec '' @ a @ chars '' failed'' @ [10])], w)))"

definition open_failed :: "u8 list \<Rightarrow> 'o act list" where
  "open_failed f = [Prints (chars ''open '' @ f @ chars '' failed'' @ [10])]"

fun runcmd :: "('o, 'w) env \<Rightarrow> u8 list cmd \<Rightarrow> 'o fds \<Rightarrow> 'w \<Rightarrow> 'o act list \<times> 'w" where
  "runcmd e (EXEC argv) tab w = run_exec e argv tab w"
| "runcmd e (REDIR c f mode fd) tab w =
     (let tab = tab(fd := None) in
      case e_open e f mode w of (r, w) \<Rightarrow>
        (case r of
           None \<Rightarrow> (open_failed f, w)
         | Some ob \<Rightarrow> (case fd_alloc ob tab of None \<Rightarrow> (open_failed f, w) | Some (_, tab) \<Rightarrow> runcmd e c tab w)))"
| "runcmd e (LIST c d) tab w = fork1 e (runcmd e c tab) (runcmd e d tab) w"
| "runcmd e (PIPE c d) tab w =
     (case e_pipe e w of (r, w) \<Rightarrow>
        (case r of
          None \<Rightarrow> (sh_panic ''pipe'', w)
        | Some (rd, wr) \<Rightarrow>
            (case fd_alloc rd tab of
               None \<Rightarrow> (sh_panic ''pipe'', w)
             | Some (p0, tab0) \<Rightarrow>
                 (case fd_alloc wr tab0 of
                    None \<Rightarrow> (sh_panic ''pipe'', w)
                  | Some (p1, tab) \<Rightarrow>
                      fork1 e (runcmd e c ((fd_dup p1 (tab(1 := None)))(p0 := None, p1 := None)))
                       (fork1 e (runcmd e d ((fd_dup p0 (tab(0 := None)))(p0 := None, p1 := None)))
                         (\<lambda>w. ([], w))) w))))"
| "runcmd e (BACK c) tab w = fork1 e (runcmd e c tab) (\<lambda>w. ([], w)) w"

section \<open>Lines\<close>

text \<open>\<^verbatim>\<open>gets(buf, n + 1)\<close>: the bytes stored before the NUL, and the input left.\<close>

fun gets :: "nat \<Rightarrow> u8 list \<Rightarrow> u8 list \<times> u8 list" where
  "gets 0 inp = ([], inp)"
| "gets (Suc n) [] = ([], [])"
| "gets (Suc n) (c # inp) =
     (if c = 0x0a \<or> c = 0x0d then ([c], inp) else case gets n inp of (s, r) \<Rightarrow> (c # s, r))"

lemma gets_length: "gets n inp = (s, r) \<Longrightarrow> length inp = length s + length r"
proof (induction n inp arbitrary: s rule: gets.induct)
  case (3 n c inp)
  then show ?case by (cases "gets n inp") (auto split: if_splits)
qed auto

text \<open>One line of the loop in \<^verbatim>\<open>main\<close>. A \<^verbatim>\<open>cd\<close> is done by the shell itself; the child that runs a command first parses it, with the strings
  that \<^verbatim>\<open>nulterminate\<close> leaves in the line.\<close>

definition sh_run :: "('o, 'w) env \<Rightarrow> u8 list \<Rightarrow> 'o fds \<Rightarrow> 'w \<Rightarrow> 'o act list \<times> 'w" where
  "sh_run e line tab w =
     (case parsecmd line of
        Err (Panic msg) \<Rightarrow> (sh_panic msg, w)
      | Err _ \<Rightarrow> ([], w)
      | Ok c \<Rightarrow> runcmd e (map_cmd (\<lambda>(q, eq). cstr (nulterminate line c (line @ [0])) (pos line q)) c) tab w)"

definition sh_line :: "('o, 'w) env \<Rightarrow> u8 list \<Rightarrow> 'o fds \<Rightarrow> 'w \<Rightarrow> bool \<times> 'o act list \<times> 'w" where
  "sh_line e buf tab w =
     (if take 3 buf = [0x63, 0x64, 0x20]
      then let d = drop 3 (butlast buf) in
        (case e_chdir e d w of (ok, w) \<Rightarrow> (True, if ok then [] else [Prints (chars ''cannot cd '' @ d @ [10])], w))
      else case e_fork e w of (ok, w) \<Rightarrow> if ok then (True, sh_run e buf tab w) else (False, sh_panic ''fork'', w))"

definition sizeof_line :: nat where "sizeof_line = 100"

text \<open>The string in the buffer, or nothing at the end of the input.\<close>

definition getcmd :: "u8 list \<Rightarrow> u8 list option \<times> u8 list" where
  "getcmd inp =
     (case gets (sizeof_line - 1) inp of (s, rest) \<Rightarrow>
        let buf = takeWhile (\<lambda>c. c \<noteq> 0) s in (if buf = [] then None else Some buf, rest))"

lemma getcmd_length: "getcmd inp = (Some buf, rest) \<Longrightarrow> length rest < length inp"
proof -
  assume g: "getcmd inp = (Some buf, rest)"
  obtain s r where s: "gets (sizeof_line - 1) inp = (s, r)" by (cases "gets (sizeof_line - 1) inp")
  then have "s \<noteq> []" "r = rest" using g by (auto simp: getcmd_def Let_def split: if_splits)
  then show ?thesis using gets_length [OF s] by simp
qed

text \<open>The loop, with the prompt that \<^verbatim>\<open>getcmd\<close> prints, until the input or \<^verbatim>\<open>fork1\<close> ends it.\<close>

definition prompt :: "'o act" where "prompt = Prints (chars ''$ '')"

function sh_loop :: "('o, 'w) env \<Rightarrow> 'o fds \<Rightarrow> u8 list \<Rightarrow> 'w \<Rightarrow> 'o act list \<times> 'w" where
  "sh_loop e tab inp w =
     (case getcmd inp of
        (None, _) \<Rightarrow> ([prompt], w)
      | (Some buf, rest) \<Rightarrow>
          (case sh_line e buf tab w of (go, as, w) \<Rightarrow>
             if \<not> go then (prompt # as, w)
             else case sh_loop e tab rest w of (bs, w) \<Rightarrow> (prompt # as @ bs, w)))"
  by pat_completeness auto
termination
  by (relation "measure (\<lambda>(e, tab, inp, w). length inp)") (auto dest: getcmd_length [OF sym])

declare sh_loop.simps [simp del]

text \<open>\<^verbatim>\<open>main\<close> first opens the console until descriptors 0, 1 and 2 are taken. A descriptor is taken in each round, so there are at most
  \<open>NOFILE + 1\<close> rounds.\<close>

definition console_name :: "u8 list" where "console_name = chars ''console''"

fun sh_open :: "nat \<Rightarrow> ('o, 'w) env \<Rightarrow> 'o fds \<Rightarrow> 'w \<Rightarrow> ('o fds \<times> 'w) res" where
  "sh_open 0 e tab w = Err Hang"
| "sh_open (Suc n) e tab w =
     (case e_open e console_name O_RDWR w of (r, w) \<Rightarrow>
        (case r of
           None \<Rightarrow> Ok (tab, w)
         | Some ob \<Rightarrow>
             (case fd_alloc ob tab of
                None \<Rightarrow> Ok (tab, w)
              | Some (fd, tab') \<Rightarrow> if 3 \<le> fd then Ok (tab'(fd := None), w) else sh_open n e tab' w)))"

definition sh_main :: "('o, 'w) env \<Rightarrow> 'o fds \<Rightarrow> u8 list \<Rightarrow> 'w \<Rightarrow> ('o act list \<times> 'w) res" where
  "sh_main e tab inp w = bind_res (sh_open (Suc NOFILE) e tab w) (\<lambda>(tab, w). Ok (sh_loop e tab inp w))"

section \<open>What runs with which descriptors\<close>

text \<open>The meaning of a command: a redirection replaces one descriptor, a pipeline replaces the standard output of its left and the
  standard input of its right side, and nothing else changes.\<close>

fun runplan :: "('o, 'w) env \<Rightarrow> u8 list cmd \<Rightarrow> 'o fds \<Rightarrow> 'w \<Rightarrow> 'o act list \<times> 'w" where
  "runplan e (EXEC argv) tab w = run_exec e argv tab w"
| "runplan e (REDIR c f mode fd) tab w =
     (case e_open e f mode w of
        (None, w) \<Rightarrow> (open_failed f, w)
      | (Some ob, w) \<Rightarrow> runplan e c (tab(fd := Some ob)) w)"
| "runplan e (LIST c d) tab w = fork1 e (runplan e c tab) (runplan e d tab) w"
| "runplan e (PIPE c d) tab w =
     (case e_pipe e w of
        (None, w) \<Rightarrow> (sh_panic ''pipe'', w)
      | (Some (rd, wr), w) \<Rightarrow> fork1 e (runplan e c (tab(1 := Some wr))) (fork1 e (runplan e d (tab(0 := Some rd))) (\<lambda>w. ([], w))) w)"
| "runplan e (BACK c) tab w = fork1 e (runplan e c tab) (\<lambda>w. ([], w)) w"

text \<open>Standard input and output are open and two descriptors are free.\<close>

definition roomy :: "'o fds \<Rightarrow> bool" where
  "roomy tab \<longleftrightarrow> tab 0 \<noteq> None \<and> tab 1 \<noteq> None \<and> (\<exists>p q. p < q \<and> q < NOFILE \<and> tab p = None \<and> tab q = None)"

lemma roomy_set: "roomy tab \<Longrightarrow> fd < 2 \<Longrightarrow> roomy (tab(fd := Some ob))"
proof -
  assume r: "roomy tab" and fd: "fd < 2"
  then obtain p q where p: "p < q" "q < NOFILE" "tab p = None" "tab q = None" by (auto simp: roomy_def)
  have o: "tab 0 \<noteq> None" "tab 1 \<noteq> None" using r by (simp_all add: roomy_def)
  have "p \<noteq> fd" "q \<noteq> fd" using p(3,4) o fd by (auto simp: less_2_cases_iff)
  moreover have "(tab(fd := Some ob)) 0 \<noteq> None" "(tab(fd := Some ob)) 1 \<noteq> None" using o by simp_all
  ultimately show ?thesis unfolding roomy_def using p by (intro conjI exI [of _ p] exI [of _ q]) simp_all
qed

lemma fd_alloc_least:
  assumes "fd < NOFILE" "tab fd = None" "\<And>i. i < fd \<Longrightarrow> tab i \<noteq> None"
  shows "fd_alloc ob tab = Some (fd, tab(fd := Some ob))"
proof -
  have "find (\<lambda>i. tab i = None) [0..<NOFILE] = Some fd"
    unfolding find_Some_iff using assms by (intro exI [of _ fd]) simp
  then show ?thesis by (simp add: fd_alloc_def)
qed

lemma roomy_least:
  assumes "roomy tab"
  obtains p where "p < NOFILE" "tab p = None" "\<And>i. i < p \<Longrightarrow> tab i \<noteq> None" "1 < p" "\<exists>q. p < q \<and> q < NOFILE \<and> tab q = None"
proof -
  obtain a b where ab: "a < b" "b < NOFILE" "tab a = None" "tab b = None" using assms by (auto simp: roomy_def)
  define p where "p = (LEAST i. tab i = None)"
  have p: "tab p = None" "\<And>i. i < p \<Longrightarrow> tab i \<noteq> None" unfolding p_def using ab(3) by (auto intro: LeastI dest: not_less_Least)
  have "p \<le> a" unfolding p_def using ab(3) by (rule Least_le)
  have "tab 0 \<noteq> None" "tab 1 \<noteq> None" using assms by (simp_all add: roomy_def)
  then have "p \<noteq> 0" "p \<noteq> 1" using p(1) by metis+
  then have "1 < p" by simp
  have "p < NOFILE" using \<open>p \<le> a\<close> ab(1,2) by simp
  have "\<exists>q. p < q \<and> q < NOFILE \<and> tab q = None" using \<open>p \<le> a\<close> ab by (intro exI [of _ b]) simp
  with that [OF \<open>p < NOFILE\<close> p \<open>1 < p\<close>] show ?thesis by blast
qed

text \<open>Closing descriptor 0 or 1 and allocating one gives that one.\<close>

lemma fd_alloc_std: "tab 0 \<noteq> None \<or> fd = 0 \<Longrightarrow> fd < 2 \<Longrightarrow> fd_alloc ob (tab(fd := None)) = Some (fd, tab(fd := Some ob))"
  by (subst fd_alloc_least [of fd]) (auto simp: NOFILE_def less_2_cases_iff)

lemma runcmd_runplan: "roomy tab \<Longrightarrow> cmd_ok P c \<Longrightarrow> runcmd e c tab w = runplan e c tab w"
proof (induction c arbitrary: tab w)
  case (REDIR c f mode fd)
  have fd: "fd < 2" "tab 0 \<noteq> None \<or> fd = 0" using REDIR.prems by (auto simp: redir_ok_def roomy_def)
  have "runcmd e c (tab(fd := Some ob)) w = runplan e c (tab(fd := Some ob)) w" for ob w
    by (rule REDIR.IH [OF roomy_set [OF REDIR.prems(1) fd(1)]]) (use REDIR.prems(2) in simp)
  then show ?case using fd_alloc_std [of tab fd, OF fd(2,1)] by (simp add: Let_def split: prod.split option.split)
next
  case (PIPE c d)
  have IH: "runcmd e c (tab(1 := Some ob)) = runplan e c (tab(1 := Some ob))" "runcmd e d (tab(0 := Some ob)) = runplan e d (tab(0 := Some ob))" for ob
    using PIPE.prems(2) by (intro ext PIPE.IH roomy_set [OF PIPE.prems(1)]; simp)+
  obtain p where p: "p < NOFILE" "tab p = None" "\<And>i. i < p \<Longrightarrow> tab i \<noteq> None" "1 < p" "\<exists>q. p < q \<and> q < NOFILE \<and> tab q = None"
    using roomy_least [OF PIPE.prems(1)] by blast
  define q where "q = (LEAST i. p < i \<and> tab i = None)"
  have q: "p < q" "tab q = None" "\<And>i. p < i \<Longrightarrow> i < q \<Longrightarrow> tab i \<noteq> None" "q < NOFILE"
  proof -
    obtain b where b: "p < b" "b < NOFILE" "tab b = None" using p(5) by blast
    have "p < q \<and> tab q = None" unfolding q_def by (rule LeastI [of _ b]) (use b in simp)
    then show "p < q" "tab q = None" by simp_all
    show "tab i \<noteq> None" if "p < i" "i < q" for i using not_less_Least [of i "\<lambda>i. p < i \<and> tab i = None"] that by (simp add: q_def)
    have "q \<le> b" unfolding q_def by (rule Least_le) (use b in simp)
    then show "q < NOFILE" using b by simp
  qed
  have a0: "fd_alloc rd tab = Some (p, tab(p := Some rd))" for rd by (rule fd_alloc_least) (use p in auto)
  have a1: "fd_alloc wr (tab(p := Some rd)) = Some (q, tab(p := Some rd, q := Some wr))" for rd wr
    by (rule fd_alloc_least) (use p q in \<open>auto simp: nat_neq_iff\<close>)
  have n: "p \<noteq> 0" "p \<noteq> 1" "q \<noteq> 0" "q \<noteq> 1" "p \<noteq> q" using p(4) q(1) by auto
  let ?T = "\<lambda>rd wr. tab(p := Some rd, q := Some wr)"
  have "fd_dup q ((?T rd wr)(1 := None)) = (?T rd wr)(1 := Some wr)" for rd wr
    using fd_alloc_std [of "?T rd wr" 1 wr] PIPE.prems(1) n by (simp add: fd_dup_def roomy_def)
  then have l: "(fd_dup q ((?T rd wr)(1 := None)))(p := None, q := None) = tab(1 := Some wr)" for rd wr
    using p(2) q(2) n by (auto simp: fun_eq_iff)
  have "fd_dup p ((?T rd wr)(0 := None)) = (?T rd wr)(0 := Some rd)" for rd wr
    using fd_alloc_std [of "?T rd wr" 0 rd] n by (simp add: fd_dup_def)
  then have r: "(fd_dup p ((?T rd wr)(0 := None)))(p := None, q := None) = tab(0 := Some rd)" for rd wr
    using p(2) q(2) n by (auto simp: fun_eq_iff)
  show ?case by (simp only: runcmd.simps runplan.simps a0 a1 l r IH prod.case option.case split: prod.split option.split)
next
  case (LIST c d)
  then have "runcmd e c tab = runplan e c tab" "runcmd e d tab = runplan e d tab" by (auto simp: fun_eq_iff)
  then show ?case by simp
next
  case (BACK c)
  then have "runcmd e c tab = runplan e c tab" by (auto simp: fun_eq_iff)
  then show ?case by simp
qed simp

lemma cmd_ok_map: "cmd_ok P (map_cmd f c) \<longleftrightarrow> cmd_ok (\<lambda>t. P (f t)) c"
  by (induction c) auto

lemma cmd_ok_mono: "cmd_ok P c \<Longrightarrow> (\<And>t. P t \<Longrightarrow> Q t) \<Longrightarrow> cmd_ok Q c"
  by (induction c) auto

text \<open>C36: what a command line starts. When standard input and output are open and two descriptors are free, the child that the shell
  forks for a line the parser accepts does what the command means: each program runs with the descriptors of the shell, except that a redirection
  has replaced its descriptor and a pipe one end of each side. No end of a pipe stays open in a program that does not use it, so
  readers see the end of their input.\<close>

theorem shell_runs_plan:
  assumes "0 \<notin> set line" "parsecmd line = Ok c" "roomy tab"
  shows "sh_run e line tab w = runplan e (map_cmd tok_text c) tab w"
proof -
  have "cmd_ok (tok_ok line) c" using parsecmd_fine [of line] assms(2) by (simp add: fine_def)
  then have "cmd_ok (\<lambda>_. True) (map_cmd tok_text c)" unfolding cmd_ok_map by (rule cmd_ok_mono) simp
  from runcmd_runplan [OF assms(3) this] nulterminate_map [OF assms(2,1)] assms(2) show ?thesis by (simp add: sh_run_def)
qed

text \<open>\<^verbatim>\<open>a|b\<close> in a shell with three open descriptors; the ends of the pipe are numbered 8 and 9.\<close>

definition demo_env :: "(nat, unit) env" where
  "demo_env = \<lparr>e_open = (\<lambda>_ _ w. (None, w)), e_pipe = (\<lambda>w. (Some (8, 9), w)), e_fork = (\<lambda>w. (True, w)), e_exec = (\<lambda>_ w. (True, w)), e_chdir = (\<lambda>_ w. (False, w))\<rparr>"

definition demo_fds :: "nat fds" where "demo_fds = (\<lambda>_. None)(0 := Some 1, 1 := Some 1, 2 := Some 1)"

lemma demo_fds_roomy: "roomy demo_fds"
  unfolding roomy_def by (intro conjI exI [of _ 3] exI [of _ 4]) (simp_all add: demo_fds_def NOFILE_def)

lemma demo_pipe: "parsecmd [0x61, 0x7c, 0x62] = Ok (PIPE (EXEC [([0x61, 0x7c, 0x62], [0x7c, 0x62])]) (EXEC [([0x62], [])]))"
  by code_simp

theorem shell_runs_plan_witness:
  "sh_run demo_env [0x61, 0x7c, 0x62] demo_fds () =
     ([Runs [[0x61]] (demo_fds(1 := Some 9)), Runs [[0x62]] (demo_fds(0 := Some 8))], ())"
proof -
  have "0 \<notin> set [0x61, 0x7c, 0x62 :: u8]" by simp
  from shell_runs_plan [OF this demo_pipe demo_fds_roomy, of demo_env "()"] show ?thesis
    by (simp add: tok_text_def fork1_def run_exec_def demo_env_def)
qed

text \<open>The first loop of \<^verbatim>\<open>main\<close> ends, and it leaves descriptors 0, 1 and 2 open when the console can be opened.\<close>

lemma sh_open_ends:
  "card {fd. fd < 3 \<and> tab fd = None} < n \<Longrightarrow> \<exists>tab' w'. sh_open n e tab w = Ok (tab', w')"
proof (induction n arbitrary: tab w)
  case (Suc n)
  obtain r w1 where o: "e_open e console_name O_RDWR w = (r, w1)" by (cases "e_open e console_name O_RDWR w")
  show ?case
  proof (cases "\<exists>ob fd tab'. r = Some ob \<and> fd_alloc ob tab = Some (fd, tab') \<and> fd < 3")
    case True
    then obtain ob fd tab' where f: "r = Some ob" "fd_alloc ob tab = Some (fd, tab')" "fd < 3" by blast
    then have t: "tab' = tab(fd := Some ob)" "tab fd = None" by (auto simp: fd_alloc_def find_Some_iff split: option.splits)
    have "{i. i < 3 \<and> tab i = None} = insert fd {i. i < 3 \<and> tab' i = None}" "fd \<notin> {i. i < 3 \<and> tab' i = None}" using t f(3) by auto
    then have "card {i. i < 3 \<and> tab' i = None} < n" using Suc.prems by simp
    from Suc.IH [OF this] f o show ?thesis by simp
  next
    case False
    then show ?thesis using o by (cases r; cases "fd_alloc (the r) tab") (auto split: prod.splits)
  qed
qed simp

end
