(* ===== verification/Umalloc.thy ===== *)
theory Umalloc
  imports Sched Frame
begin

text \<open>
  The memory allocator of user programs (\<^verbatim>\<open>umalloc.c\<close>, after Kernighan and Ritchie): a circular list of free blocks in the
  order of their addresses, that starts at the static header \<^verbatim>\<open>base\<close>. The fields of the headers are functions of the header's
  address, one per field; all pointers and sizes are 32-bit words. The two loops follow the list without a bound, so they are partial functions, and
  that they end is proved. The locale \<open>brk_call\<close> states what the allocator relies on \<^verbatim>\<open>sbrk\<close> for; it is interpreted on the kernel's \<^verbatim>\<open>growproc\<close>.
  A block that \<^verbatim>\<open>malloc\<close> hands out is large enough and overlaps neither another live block nor a free one; \<^verbatim>\<open>free\<close> gives back just its bytes, and neighbouring free blocks
  are always merged.
\<close>

section \<open>The allocator (umalloc.c)\<close>

record heap =
  h_ptr :: "u32 \<Rightarrow> u32"
  h_size :: "u32 \<Rightarrow> u32"
  freep :: u32

definition sizeof_Header :: u32 where "sizeof_Header = 8"

text \<open>The loop of \<^verbatim>\<open>free\<close>: the free block after which \<^verbatim>\<open>bp\<close> belongs.\<close>

partial_function (option) free_find :: "u32 \<Rightarrow> heap \<Rightarrow> u32 \<Rightarrow> u32 option" where
  "free_find bp h p =
     (if p < bp \<and> bp < h_ptr h p then Some p
      else if h_ptr h p \<le> p \<and> (p < bp \<or> bp < h_ptr h p) then Some p
      else free_find bp h (h_ptr h p))"

definition free_up :: "u32 \<Rightarrow> u32 \<Rightarrow> heap \<Rightarrow> heap" where
  "free_up bp p h =
     (let q = h_ptr h p in
      if bp + h_size h bp * sizeof_Header = q
      then h\<lparr>h_size := (h_size h)(bp := h_size h bp + h_size h q), h_ptr := (h_ptr h)(bp := h_ptr h q)\<rparr>
      else h\<lparr>h_ptr := (h_ptr h)(bp := q)\<rparr>)"

definition free_down :: "u32 \<Rightarrow> u32 \<Rightarrow> heap \<Rightarrow> heap" where
  "free_down bp p h =
     (if p + h_size h p * sizeof_Header = bp
      then h\<lparr>h_size := (h_size h)(p := h_size h p + h_size h bp), h_ptr := (h_ptr h)(p := h_ptr h bp)\<rparr>
      else h\<lparr>h_ptr := (h_ptr h)(p := bp)\<rparr>)"

definition free :: "u32 \<Rightarrow> heap \<Rightarrow> heap option" where
  "free ap h =
     (let bp = ap - sizeof_Header in
      case free_find bp h (freep h) of
        None \<Rightarrow> None
      | Some p \<Rightarrow> Some ((free_down bp p (free_up bp p h))\<lparr>freep := p\<rparr>))"

text \<open>\<open>brk\<close> is \<^verbatim>\<open>sbrk\<close>, on the state \<open>'w\<close> of the rest of the system; its value \<open>None\<close> stands for a call that does not return.\<close>

definition morecore :: "(u32 \<Rightarrow> 'w \<Rightarrow> (u32 \<times> 'w) option) \<Rightarrow> u32 \<Rightarrow> heap \<Rightarrow> 'w \<Rightarrow> (u32 \<times> heap \<times> 'w) option" where
  "morecore brk nu h w =
     (let nu = (if nu < 4096 then 4096 else nu) in
      case brk (nu * sizeof_Header) w of
        None \<Rightarrow> None
      | Some (p, w) \<Rightarrow>
          if p = - 1 then Some (0, h, w)
          else (case free (p + sizeof_Header) (h\<lparr>h_size := (h_size h)(p := nu)\<rparr>) of
                  None \<Rightarrow> None
                | Some h \<Rightarrow> Some (freep h, h, w)))"

text \<open>Taking \<^verbatim>\<open>nunits\<close> units from a block that is large enough.\<close>

definition malloc_take :: "u32 \<Rightarrow> u32 \<Rightarrow> u32 \<Rightarrow> heap \<Rightarrow> u32 \<times> heap" where
  "malloc_take nunits prevp p h =
     (if h_size h p = nunits then (p + sizeof_Header, h\<lparr>h_ptr := (h_ptr h)(prevp := h_ptr h p), freep := prevp\<rparr>)
      else let h = h\<lparr>h_size := (h_size h)(p := h_size h p - nunits)\<rparr>;
               p = p + h_size h p * sizeof_Header
           in (p + sizeof_Header, h\<lparr>h_size := (h_size h)(p := nunits), freep := prevp\<rparr>))"

partial_function (option) malloc_loop ::
  "(u32 \<Rightarrow> 'w \<Rightarrow> (u32 \<times> 'w) option) \<Rightarrow> u32 \<Rightarrow> u32 \<Rightarrow> u32 \<Rightarrow> heap \<Rightarrow> 'w \<Rightarrow> (u32 \<times> heap \<times> 'w) option" where
  "malloc_loop brk nunits prevp p h w =
     (if nunits \<le> h_size h p then (case malloc_take nunits prevp p h of (r, h) \<Rightarrow> Some (r, h, w))
      else if p = freep h
      then (case morecore brk nunits h w of
              None \<Rightarrow> None
            | Some (p, h, w) \<Rightarrow> if p = 0 then Some (0, h, w) else malloc_loop brk nunits p (h_ptr h p) h w)
      else malloc_loop brk nunits p (h_ptr h p) h w)"

definition nunits_of :: "u32 \<Rightarrow> u32" where
  "nunits_of nbytes = (nbytes + sizeof_Header - 1) div sizeof_Header + 1"

definition malloc_init :: "u32 \<Rightarrow> heap \<Rightarrow> heap" where
  "malloc_init base h =
     (if freep h = 0 then h\<lparr>h_ptr := (h_ptr h)(base := base), freep := base, h_size := (h_size h)(base := 0)\<rparr> else h)"

definition malloc :: "u32 \<Rightarrow> (u32 \<Rightarrow> 'w \<Rightarrow> (u32 \<times> 'w) option) \<Rightarrow> u32 \<Rightarrow> heap \<Rightarrow> 'w \<Rightarrow> (u32 \<times> heap \<times> 'w) option" where
  "malloc base brk nbytes h w =
     (let h = malloc_init base h; prevp = freep h in malloc_loop brk (nunits_of nbytes) prevp (h_ptr h prevp) h w)"

section \<open>The free list\<close>

text \<open>\<open>hpath P x as y\<close>: following \<open>P\<close> from \<open>x\<close> goes through the headers \<open>as\<close> and arrives at \<open>y\<close>.\<close>

fun hpath :: "('a \<Rightarrow> 'a) \<Rightarrow> 'a \<Rightarrow> 'a list \<Rightarrow> 'a \<Rightarrow> bool" where
  "hpath P x [] y \<longleftrightarrow> x = y"
| "hpath P x (a # as) y \<longleftrightarrow> x = a \<and> hpath P (P a) as y"

lemma hpath_append [simp]: "hpath P x (as @ bs) y \<longleftrightarrow> (\<exists>z. hpath P x as z \<and> hpath P z bs y)"
  by (induction as arbitrary: x) auto

lemma hpath_upd [simp]: "a \<notin> set as \<Longrightarrow> hpath (P(a := b)) x as y = hpath P x as y"
  by (induction as arbitrary: x) auto

lemma hpath_next: "hpath P x (as @ b # bs) y \<Longrightarrow> P b = hd (bs @ [y])"
  by (cases bs) auto

lemma hpath_in: "hpath P x as y \<Longrightarrow> w \<in> set as \<Longrightarrow> P w = y \<or> P w \<in> set as"
proof (induction as arbitrary: x)
  case (Cons a as)
  then show ?case by (cases as) auto
qed simp

lemma hpath_sorted: "hpath P x as y \<Longrightarrow> sorted_wrt (<) as \<Longrightarrow> w \<in> set as \<Longrightarrow> P w = y \<or> (w::'a::linorder) < P w \<and> P w \<in> set as"
proof (induction as arbitrary: x)
  case (Cons a as)
  then show ?case by (cases as) auto
qed simp

text \<open>The bytes of a block, and of all blocks of a list. The blocks of \<open>blocks S lo L hi\<close> lie in the order of the list between \<open>lo\<close> and \<open>hi\<close>, with a gap before each.\<close>

definition block_end :: "(u32 \<Rightarrow> u32) \<Rightarrow> u32 \<Rightarrow> nat" where
  "block_end S a = unat a + 8 * unat (S a)"

definition bytes :: "(u32 \<Rightarrow> u32) \<Rightarrow> u32 \<Rightarrow> nat set" where
  "bytes S a = {unat a ..< block_end S a}"

fun blocks :: "(u32 \<Rightarrow> u32) \<Rightarrow> nat \<Rightarrow> u32 list \<Rightarrow> nat \<Rightarrow> bool" where
  "blocks S lo [] hi \<longleftrightarrow> lo \<le> hi"
| "blocks S lo (a # as) hi \<longleftrightarrow> lo < unat a \<and> 0 < S a \<and> blocks S (block_end S a) as hi"

fun last_end :: "(u32 \<Rightarrow> u32) \<Rightarrow> nat \<Rightarrow> u32 list \<Rightarrow> nat" where
  "last_end S lo [] = lo"
| "last_end S lo (a # as) = last_end S (block_end S a) as"

lemma blocks_append: "blocks S lo (as @ bs) hi \<longleftrightarrow> blocks S lo as (last_end S lo as) \<and> blocks S (last_end S lo as) bs hi"
  by (induction as arbitrary: lo) auto

lemma last_end_append [simp]: "last_end S lo (as @ [a]) = block_end S a"
  by (induction as arbitrary: lo) auto

lemma blocks_le: "blocks S lo as hi \<Longrightarrow> lo \<le> hi"
  by (induction as arbitrary: lo) (force simp: block_end_def)+

lemma blocks_lower: "blocks S lo as hi \<Longrightarrow> lo' \<le> lo \<Longrightarrow> blocks S lo' as hi"
  by (cases as) auto

lemma blocks_raise: "blocks S lo as hi \<Longrightarrow> hi \<le> hi' \<Longrightarrow> blocks S lo as hi'"
  by (induction as arbitrary: lo) auto

lemma blocks_in: "blocks S lo as hi \<Longrightarrow> a \<in> set as \<Longrightarrow> lo < unat a \<and> 0 < S a \<and> block_end S a \<le> hi"
proof (induction as arbitrary: lo)
  case (Cons b as)
  have e: "block_end S b \<le> hi" using blocks_le [of S "block_end S b" as hi] Cons.prems(1) by simp
  show ?case
  proof (cases "a = b")
    case True
    then show ?thesis using Cons.prems(1) e by simp
  next
    case False
    then have "block_end S b < unat a \<and> 0 < S a \<and> block_end S a \<le> hi" using Cons.prems Cons.IH [of "block_end S b"] by simp
    moreover have "lo < block_end S b" using Cons.prems(1) by (simp add: block_end_def)
    ultimately show ?thesis by simp
  qed
qed simp

lemma blocks_sorted: "blocks S lo as hi \<Longrightarrow> sorted_wrt (<) as"
proof (induction as arbitrary: lo)
  case (Cons a as)
  have "a < b" if "b \<in> set as" for b
    using blocks_in [of S "block_end S a" as hi b] Cons.prems that by (simp add: word_less_nat_alt block_end_def)
  then show ?case using Cons.prems Cons.IH [of "block_end S a"] by simp
qed simp

lemma block_end_upd [simp]: "a \<noteq> b \<Longrightarrow> block_end (S(a := v)) b = block_end S b"
  by (simp add: block_end_def)

lemma blocks_upd [simp]: "a \<notin> set as \<Longrightarrow> blocks (S(a := v)) lo as hi = blocks S lo as hi"
  by (induction as arbitrary: lo) auto

lemma last_end_upd [simp]: "a \<notin> set as \<Longrightarrow> last_end (S(a := v)) lo as = last_end S lo as"
  by (induction as arbitrary: lo) auto

definition freebytes :: "(u32 \<Rightarrow> u32) \<Rightarrow> u32 list \<Rightarrow> nat set" where
  "freebytes S L = (\<Union>a\<in>set L. bytes S a)"

lemma freebytes_simps [simp]: "freebytes S [] = {}" "freebytes S (a # L) = bytes S a \<union> freebytes S L"
  "freebytes S (L @ M) = freebytes S L \<union> freebytes S M"
  by (auto simp: freebytes_def)

lemma freebytes_upd [simp]: "a \<notin> set as \<Longrightarrow> freebytes (S(a := v)) as = freebytes S as"
  by (induction as) (auto simp: bytes_def)

text \<open>The headers of the free list, from \<^verbatim>\<open>base\<close> on, in an address space that ends at \<open>hi\<close>.\<close>

definition heap_ok :: "u32 \<Rightarrow> nat \<Rightarrow> heap \<Rightarrow> u32 list \<Rightarrow> bool" where
  "heap_ok base hi h L \<longleftrightarrow> base \<noteq> 0 \<and> h_size h base = 0 \<and> hpath (h_ptr h) base (base # L) base \<and>
     blocks (h_size h) (unat base + 7) L hi \<and> freep h \<in> set (base # L) \<and> unat base + 7 < hi \<and> hi \<le> 2 ^ 31"

lemma heap_ok_sorted: "heap_ok base hi h L \<Longrightarrow> sorted_wrt (<) (base # L)"
proof -
  assume h: "heap_ok base hi h L"
  have "base < a" if "a \<in> set L" for a
    using blocks_in [of "h_size h" "unat base + 7" L hi a] h that by (simp add: heap_ok_def word_less_nat_alt)
  then show ?thesis using h blocks_sorted by (auto simp: heap_ok_def)
qed

section \<open>free\<close>

lemma free_find_skip:
  assumes "hpath (h_ptr h) x ws q"
    and "\<And>w. w \<in> set ws \<Longrightarrow> \<not> (w < bp \<and> bp < h_ptr h w) \<and> \<not> (h_ptr h w \<le> w \<and> (w < bp \<or> bp < h_ptr h w))"
  shows "free_find bp h x = free_find bp h q"
  using assms
proof (induction ws arbitrary: x)
  case (Cons a ws)
  have x: "x = a" "hpath (h_ptr h) (h_ptr h a) ws q" using Cons.prems(1) by simp_all
  have n: "\<not> (a < bp \<and> bp < h_ptr h a)" "\<not> (h_ptr h a \<le> a \<and> (a < bp \<or> bp < h_ptr h a))" using Cons.prems(2) [of a] by simp_all
  have "free_find bp h x = free_find bp h (h_ptr h a)"
    unfolding x(1) by (subst free_find.simps) (simp only: n if_False)
  also have "\<dots> = free_find bp h q" by (rule Cons.IH [OF x(2) Cons.prems(2)]) simp
  finally show ?case .
qed simp

lemma free_find_ok:
  assumes p: "hpath (h_ptr h) base (xs @ p # vs) base" and s: "sorted_wrt (<) (xs @ p # vs)"
    and b: "p < bp" "\<And>v. v \<in> set vs \<Longrightarrow> bp < v" and f: "f \<in> set (xs @ p # vs)"
  shows "free_find bp h f = Some p"
proof -
  have base: "base \<le> w" if "w \<in> set (xs @ p # vs)" for w
    using p s that by (cases xs) (auto intro: less_imp_le)
  have px: "hpath (h_ptr h) base xs p" and pv: "hpath (h_ptr h) (h_ptr h p) vs base" using p by auto
  have stop: "free_find bp h p = Some p"
    by (cases vs; subst free_find.simps) (use pv b base [of p] in auto)
  have left: "free_find bp h x = Some p" if "xs = a @ ws" "hpath (h_ptr h) x ws p" for x a ws
  proof -
    have "w < h_ptr h w \<and> h_ptr h w < bp" if "w \<in> set ws" for w
    proof -
      have s': "sorted_wrt (<) ws" "\<And>w. w \<in> set ws \<Longrightarrow> w < p" using s \<open>xs = a @ ws\<close> by (auto simp: sorted_wrt_append)
      show ?thesis using hpath_sorted [OF \<open>hpath _ x ws p\<close> s'(1) that] s'(2) [OF that] s'(2) [of "h_ptr h w"] b(1) by auto
    qed
    then have "free_find bp h x = free_find bp h p"
      by (intro free_find_skip [OF that(2)]) (meson less_le_not_le less_trans not_less)
    then show ?thesis using stop by simp
  qed
  consider "f = p" | "f \<in> set xs" | "f \<in> set vs" using f by auto
  then show ?thesis
  proof cases
    case 2
    then obtain a c where xs: "xs = a @ f # c" by (auto simp: in_set_conv_decomp)
    then have "hpath (h_ptr h) f (f # c) p" using px by auto
    then show ?thesis by (rule left [OF xs])
  next
    case 3
    then obtain a c where vs: "vs = a @ f # c" by (auto simp: in_set_conv_decomp)
    then have r: "hpath (h_ptr h) f (f # c) base" "sorted_wrt (<) (f # c)" using pv s by (auto simp: sorted_wrt_append)
    have "free_find bp h f = free_find bp h base"
    proof (rule free_find_skip [OF r(1)])
      fix w assume w: "w \<in> set (f # c)"
      have "bp < w" using w vs b(2) by auto
      then show "\<not> (w < bp \<and> bp < h_ptr h w) \<and> \<not> (h_ptr h w \<le> w \<and> (w < bp \<or> bp < h_ptr h w))"
        using hpath_sorted [OF r w] base [of p] b(1) by auto
    qed
    then show ?thesis using left [of "[]" xs base] px by simp
  qed (simp add: stop)
qed

lemma unat_block_end: "block_end S a < 2 ^ 32 \<Longrightarrow> unat (a + S a * sizeof_Header) = block_end S a"
proof -
  assume e: "block_end S a < 2 ^ 32"
  have m: "unat (S a * 8) = unat (S a) * 8" by (subst unat_mult_lem [THEN iffD1]) (use e in \<open>simp_all add: block_end_def\<close>)
  show ?thesis unfolding sizeof_Header_def
    by (subst unat_add_lem [THEN iffD1]) (use e m in \<open>simp_all add: block_end_def\<close>)
qed

lemma block_end_eq: "block_end S a < 2 ^ 32 \<Longrightarrow> a + S a * sizeof_Header = b \<longleftrightarrow> block_end S a = unat b"
  by (metis unat_block_end word_unat_eq_iff)

lemma bytes_ne: "0 < S a \<Longrightarrow> unat a \<in> bytes S a"
  by (simp add: bytes_def block_end_def word_less_nat_alt)

lemma bytes_eq: "S' a = S a \<Longrightarrow> bytes S' a = bytes S a"
  by (simp add: bytes_def block_end_def)

lemma blocks_split:
  assumes "blocks S lo L hi" "0 < S bp" "lo \<le> unat bp" "bytes S bp \<inter> freebytes S L = {}"
  obtains us vs where "L = us @ vs" "last_end S lo us \<le> unat bp" "vs = [] \<or> block_end S bp \<le> unat (hd vs)"
  using assms
proof (induction L arbitrary: lo thesis)
  case Nil
  show ?case by (rule Nil.prems(1) [of "[]" "[]"]) (use Nil.prems in simp_all)
next
  case (Cons a L)
  have d: "unat a \<notin> bytes S bp" "unat bp \<notin> bytes S a"
    using Cons.prems(2,3,5) bytes_ne [of S a] bytes_ne [of S bp] by auto
  show ?case
  proof (cases "unat bp < unat a")
    case True
    then have "block_end S bp \<le> unat a" using d(1) by (simp add: bytes_def)
    then show ?thesis by (intro Cons.prems(1) [of "[]" "a # L"]) (use Cons.prems(4) in simp_all)
  next
    case False
    then have "block_end S a \<le> unat bp" using d(2) by (simp add: bytes_def)
    then obtain us vs where "L = us @ vs" "last_end S (block_end S a) us \<le> unat bp" "vs = [] \<or> block_end S bp \<le> unat (hd vs)"
      using Cons.IH [of "block_end S a"] Cons.prems(2,3,5) by auto
    then show ?thesis by (intro Cons.prems(1) [of "a # us" vs]) simp_all
  qed
qed

lemma merge_blocks:
  assumes "block_end S a = unat b" "block_end S b \<le> 2 ^ 31"
  shows "unat (S a + S b) = unat (S a) + unat (S b)" "block_end (S(a := S a + S b)) a = block_end S b"
    "bytes (S(a := S a + S b)) a = bytes S a \<union> bytes S b"
proof -
  show u: "unat (S a + S b) = unat (S a) + unat (S b)"
    by (subst unat_add_lem [THEN iffD1]) (use assms in \<open>simp_all add: block_end_def\<close>)
  show e: "block_end (S(a := S a + S b)) a = block_end S b" using assms(1) u by (simp add: block_end_def)
  have "unat a \<le> unat b" "unat b \<le> block_end S b" using assms(1) by (simp_all add: block_end_def)
  then show "bytes (S(a := S a + S b)) a = bytes S a \<union> bytes S b" using e assms(1) by (auto simp: bytes_def)
qed

text \<open>After the first conditional of \<^verbatim>\<open>free\<close> the block heads a list of the free blocks above it.\<close>

lemma free_up_ok:
  fixes h bp p defines "S \<equiv> h_size h" and "h' \<equiv> free_up bp p h"
  assumes p: "hpath (h_ptr h) (h_ptr h p) vs base" and b: "blocks S lo vs hi" "hi \<le> 2 ^ 31"
    and bp: "0 < S bp" "block_end S bp \<le> hi" "base < bp" "bp \<notin> set vs" "vs = [] \<or> block_end S bp \<le> unat (hd vs)"
  obtains vs' where "hpath (h_ptr h') bp (bp # vs') base" "0 < h_size h' bp" "blocks (h_size h') (block_end (h_size h') bp) vs' hi"
    "bytes (h_size h') bp \<union> freebytes (h_size h') vs' = bytes S bp \<union> freebytes S vs" "set vs' \<subseteq> set vs"
    "\<And>a. a \<noteq> bp \<Longrightarrow> h_ptr h' a = h_ptr h a \<and> h_size h' a = h_size h a"
proof (cases "block_end S bp = unat (h_ptr h p)")
  case True
  have lt: "block_end S bp < 2 ^ 32" using bp(2) b(2) by simp
  have "unat base < block_end S bp" using bp(3) by (simp add: block_end_def word_less_nat_alt)
  then obtain q vs' where vs: "vs = q # vs'" using True p by (cases vs) auto
  then have q: "h_ptr h p = q" using p by simp
  have eq: "block_end S bp = unat q" using True q by simp
  have qe: "block_end S q \<le> 2 ^ 31" using blocks_in [OF b(1), of q] b(2) vs by simp
  have h': "h' = h\<lparr>h_size := S(bp := S bp + S q), h_ptr := (h_ptr h)(bp := h_ptr h q)\<rparr>"
    using True block_end_eq [OF lt] by (simp add: h'_def free_up_def S_def q)
  have n: "bp \<notin> set vs'" using bp(4) vs by simp
  have "0 < S bp + S q" using bp(1) merge_blocks(1) [OF eq qe] by (simp add: word_less_nat_alt)
  then show ?thesis
    using that [of vs'] p b(1) n merge_blocks(2,3) [OF eq qe] by (simp add: h' vs S_def Un_assoc subset_insertI)
next
  case False
  have lt: "block_end S bp < 2 ^ 32" using bp(2) b(2) by simp
  have h': "h' = h\<lparr>h_ptr := (h_ptr h)(bp := h_ptr h p)\<rparr>"
    using False block_end_eq [OF lt] by (simp add: h'_def free_up_def S_def Let_def)
  have "blocks S (block_end S bp) vs hi"
  proof (cases vs)
    case Nil
    then show ?thesis using bp(2) by simp
  next
    case (Cons q vs')
    then show ?thesis using p b(1) bp(5) False by simp
  qed
  then show ?thesis using that [of vs] p bp(1,4) by (simp add: h' S_def)
qed

text \<open>After the second one the block is in the list, alone or as a part of \<open>p\<close>.\<close>

lemma free_down_ok:
  fixes h bp p base defines "S \<equiv> h_size h" and "h' \<equiv> free_down bp p h" and "lo \<equiv> unat base + 7"
  assumes us: "base # us = xs @ [p]" "hpath (h_ptr h) base xs p" "S base = 0"
    and b: "blocks S lo us (last_end S lo us)" "last_end S lo us \<le> unat bp" "lo < unat bp"
    and v: "hpath (h_ptr h) bp (bp # vs) base" "0 < S bp" "blocks S (block_end S bp) vs hi" "hi \<le> 2 ^ 31"
    and d: "distinct (base # us @ bp # vs)"
  obtains L where "hpath (h_ptr h') base (base # L) base" "blocks (h_size h') lo L hi" "h_size h' base = 0" "p \<in> set (base # L)"
    "freebytes (h_size h') L = freebytes S us \<union> bytes S bp \<union> freebytes S vs" "set L \<subseteq> set (us @ bp # vs)"
    "\<And>a. a \<noteq> p \<or> p = base \<Longrightarrow> h_size h' a = h_size h a"
proof (cases "block_end S p = unat bp")
  case True
  have "p \<noteq> base" using True us(3) b(3) by (auto simp: lo_def block_end_def)
  then obtain us' where u: "us = us' @ [p]" "xs = base # us'" using us(1) by (cases us rule: rev_cases) auto
  have e: "block_end S bp \<le> 2 ^ 31" using blocks_le [OF v(3)] v(4) by simp
  have h': "h' = h\<lparr>h_size := S(p := S p + S bp), h_ptr := (h_ptr h)(p := h_ptr h bp)\<rparr>"
    using True block_end_eq [of S p bp] unat_u32_less [of bp] by (simp add: h'_def free_down_def S_def)
  have n: "p \<notin> set us'" "p \<notin> set vs" "p \<noteq> bp" "p \<noteq> base" using d u by auto
  have bl: "blocks S lo us' (last_end S lo us')" "last_end S lo us' < unat p" "0 < S p" using b(1) u by (simp_all add: blocks_append)
  have "0 < S p + S bp" using bl(3) merge_blocks(1) [OF True e] by (simp add: word_less_nat_alt)
  then show ?thesis
    using that [of "us' @ p # vs"] us(2,3) v(1,3) n bl merge_blocks(2,3) [OF True e]
    by (auto simp: h' u S_def blocks_append)
next
  case False
  have lt: "block_end S p < 2 ^ 32"
  proof (cases us rule: rev_cases)
    case Nil
    then show ?thesis using us(1,3) unat_u32_less [of p] by (simp add: block_end_def)
  next
    case (snoc us' q)
    then show ?thesis using us(1) b(2) unat_u32_less [of bp] by simp
  qed
  have h': "h' = h\<lparr>h_ptr := (h_ptr h)(p := bp)\<rparr>"
    using False block_end_eq [OF lt] by (simp add: h'_def free_down_def S_def)
  have "distinct ((xs @ [p]) @ bp # vs)" using d unfolding us(1) [symmetric] by simp
  then have n: "p \<notin> set xs" "p \<notin> set vs" "p \<noteq> bp" by auto
  have lt': "last_end S lo us < unat bp"
  proof (cases us rule: rev_cases)
    case (snoc us' q)
    then show ?thesis using us(1) b(2) False by simp
  qed (use b(3) in simp)
  have "hpath (h_ptr h') base ((base # us) @ bp # vs) base" unfolding us(1) using us(2) v(1) n by (auto simp: h')
  moreover have "p \<in> set (base # us @ bp # vs)" using arg_cong [OF us(1), of set] by auto
  ultimately show ?thesis using that [of "us @ bp # vs"] us(3) b(1) lt' v(2,3) by (auto simp: h' S_def blocks_append)
qed

lemma freebytes_range: "blocks S lo L hi \<Longrightarrow> x \<in> freebytes S L \<Longrightarrow> lo < x \<and> x < hi"
  by (auto simp: freebytes_def bytes_def dest: blocks_in)

lemma bytes_not_in: "0 < S a \<Longrightarrow> bytes S a \<inter> freebytes S L = {} \<Longrightarrow> a \<notin> set L"
  using bytes_ne [of S a] by (auto simp: freebytes_def)

text \<open>Where the block belongs: after \<open>p\<close>, the last one of \<open>base # us\<close>.\<close>

lemma free_position:
  fixes h base defines "S \<equiv> h_size h" and "lo \<equiv> unat base + 7"
  assumes ok: "heap_ok base hi h L" and bp: "0 < S bp" "lo < unat bp" and dj: "bytes S bp \<inter> freebytes S L = {}"
  obtains us vs xs p where "L = us @ vs" "base # us = xs @ [p]" "hpath (h_ptr h) base xs p" "hpath (h_ptr h) (h_ptr h p) vs base"
    "last_end S lo us \<le> unat bp" "vs = [] \<or> block_end S bp \<le> unat (hd vs)" "free_find bp h (freep h) = Some p"
proof -
  note h = ok [unfolded heap_ok_def, folded S_def lo_def]
  obtain us vs where L: "L = us @ vs" and us: "last_end S lo us \<le> unat bp" and vs: "vs = [] \<or> block_end S bp \<le> unat (hd vs)"
    using blocks_split [of S lo L hi bp] h bp dj by auto
  have bl: "blocks S lo us (last_end S lo us)" using h by (auto simp: L blocks_append)
  obtain xs p where xs: "base # us = xs @ [p]" by (metis list.distinct(1) rev_exhaust)
  have all: "base # us @ vs = xs @ p # vs" using xs by (metis append.assoc append_Cons append_Nil)
  have sorted: "sorted_wrt (<) (xs @ p # vs)" using heap_ok_sorted [OF ok] by (simp add: L all)
  have path: "hpath (h_ptr h) base (xs @ p # vs) base" using h unfolding L all [symmetric] by simp
  have pbp: "p < bp"
  proof (cases us rule: rev_cases)
    case Nil
    then show ?thesis using xs bp(2) by (simp add: lo_def word_less_nat_alt)
  next
    case (snoc us' q)
    then have "p = q" "0 < S q" using xs blocks_in [OF bl, of q] by auto
    then show ?thesis using us snoc by (simp add: block_end_def word_less_nat_alt)
  qed
  have bpv: "bp < v" if "v \<in> set vs" for v
  proof (cases vs)
    case (Cons q vs')
    have "bp < q" using vs bp(1) Cons by (simp add: block_end_def word_less_nat_alt)
    moreover have "q \<le> v" using sorted that Cons by (auto simp: sorted_wrt_append)
    ultimately show ?thesis by simp
  qed (use that in simp)
  have "freep h \<in> set (xs @ p # vs)" using h unfolding L all [symmetric] by simp
  from that [OF L xs _ _ us vs free_find_ok [OF path sorted pbp bpv this]] path show ?thesis by auto
qed

lemma free_ok:
  fixes h base defines "S \<equiv> h_size h" and "lo \<equiv> unat base + 7"
  assumes ok: "heap_ok base hi h L" and bp: "0 < S bp" "lo < unat bp" "block_end S bp \<le> hi"
    and dj: "bytes S bp \<inter> freebytes S L = {}"
  obtains h' L' where "free (bp + sizeof_Header) h = Some h'" "heap_ok base hi h' L'"
    "freebytes (h_size h') L' = freebytes S L \<union> bytes S bp"
    "\<And>a. unat a \<notin> freebytes S L \<union> bytes S bp \<Longrightarrow> h_size h' a = S a"
proof -
  note h = ok [unfolded heap_ok_def, folded S_def lo_def]
  obtain us vs xs p where L: "L = us @ vs" and xs: "base # us = xs @ [p]" and path: "hpath (h_ptr h) base xs p" "hpath (h_ptr h) (h_ptr h p) vs base"
    and us: "last_end S lo us \<le> unat bp" and vs: "vs = [] \<or> block_end S bp \<le> unat (hd vs)" and find: "free_find bp h (freep h) = Some p"
    using free_position [of base hi h L bp] ok bp dj unfolding S_def lo_def by blast
  have bl: "blocks S lo us (last_end S lo us)" "blocks S (last_end S lo us) vs hi" using h by (auto simp: L blocks_append)
  have nbp: "bp \<notin> set L" using bytes_not_in [of S bp L] bp(1) dj by simp
  have bpb: "base < bp" using bp(2) by (simp add: lo_def word_less_nat_alt)
  have d: "distinct (base # us @ vs)" using heap_ok_sorted [OF ok] by (auto simp: L strict_sorted_iff)
  define h1 h2 where "h1 = free_up bp p h" and "h2 = free_down bp p h1"
  obtain vs' where u: "hpath (h_ptr h1) bp (bp # vs') base" "0 < h_size h1 bp" "blocks (h_size h1) (block_end (h_size h1) bp) vs' hi"
    "bytes (h_size h1) bp \<union> freebytes (h_size h1) vs' = bytes S bp \<union> freebytes S vs" "set vs' \<subseteq> set vs"
    "\<And>a. a \<noteq> bp \<Longrightarrow> h_ptr h1 a = h_ptr h a \<and> h_size h1 a = h_size h a"
    using free_up_ok [of h p vs base "last_end S lo us" hi bp] path(2) bl(2) h bp(1,3) bpb nbp vs
    unfolding S_def [symmetric] h1_def L by (metis Un_iff set_append)
  have "h_size h1 = S(bp := h_size h1 bp)" "h_ptr h1 = (h_ptr h)(bp := h_ptr h1 bp)" using u(6) by (auto simp: S_def)
  then obtain k q where fr: "h_size h1 = S(bp := k)" "h_ptr h1 = (h_ptr h)(bp := q)" by blast
  have nus: "bp \<notin> set us" "bp \<noteq> base" "bp \<notin> set xs"
    using nbp bpb arg_cong [OF xs, of set] by (auto simp: L)
  have us1: "blocks (h_size h1) lo us (last_end (h_size h1) lo us)" "last_end (h_size h1) lo us \<le> unat bp" "freebytes (h_size h1) us = freebytes S us"
    "h_size h1 base = 0" "hpath (h_ptr h1) base xs p"
    using bl(1) us nus h path(1) by (simp_all add: fr)
  have d1: "distinct (base # us @ bp # vs')"
    using d u(5) nbp nus blocks_sorted [OF u(3)] by (auto simp: L strict_sorted_iff)
  obtain L' where w: "hpath (h_ptr h2) base (base # L') base" "blocks (h_size h2) lo L' hi" "h_size h2 base = 0" "p \<in> set (base # L')"
    "freebytes (h_size h2) L' = freebytes (h_size h1) us \<union> bytes (h_size h1) bp \<union> freebytes (h_size h1) vs'" "set L' \<subseteq> set (us @ bp # vs')"
    "\<And>a. a \<noteq> p \<or> p = base \<Longrightarrow> h_size h2 a = h_size h1 a"
    using free_down_ok [OF xs us1(5) us1(4) us1(1,2) [unfolded lo_def] _ u(1,2,3) _ d1] bp(2) h unfolding lo_def h2_def by metis
  have "h_size h2 a = S a" if "unat a \<notin> freebytes S L \<union> bytes S bp" for a
  proof -
    have "a \<noteq> bp" using that bytes_ne [of S bp] bp(1) by auto
    moreover have "a \<noteq> p" if "p \<noteq> base"
    proof -
      have p: "p \<in> set L" using xs that by (cases us rule: rev_cases) (auto simp: L)
      then have "0 < S p" using blocks_in [of S lo L hi p] h by simp
      then show ?thesis using p bytes_ne [of S p] \<open>unat a \<notin> _\<close> by (auto simp: freebytes_def)
    qed
    ultimately show ?thesis using w(7) [of a] by (auto simp: fr)
  qed
  moreover have "free (bp + sizeof_Header) h = Some (h2\<lparr>freep := p\<rparr>)" by (simp add: free_def find h1_def h2_def)
  moreover have "heap_ok base hi (h2\<lparr>freep := p\<rparr>) L'" using w(1-4) h by (simp add: heap_ok_def lo_def)
  moreover have "freebytes (h_size (h2\<lparr>freep := p\<rparr>)) L' = freebytes S L \<union> bytes S bp" using w(5) u(4) us1(3) by (auto simp: L)
  ultimately show ?thesis using that [of "h2\<lparr>freep := p\<rparr>" L'] by simp
qed

section \<open>Live blocks\<close>

text \<open>\<open>A\<close> are the headers of the blocks that \<^verbatim>\<open>malloc\<close> handed out and that were not freed.\<close>

definition heap_inv :: "u32 \<Rightarrow> nat \<Rightarrow> heap \<Rightarrow> u32 list \<Rightarrow> u32 set \<Rightarrow> bool" where
  "heap_inv base hi h L A \<longleftrightarrow> heap_ok base hi h L \<and>
     (\<forall>a\<in>A. unat base + 7 < unat a \<and> 0 < h_size h a \<and> block_end (h_size h) a \<le> hi \<and> bytes (h_size h) a \<inter> freebytes (h_size h) L = {}) \<and>
     (\<forall>a\<in>A. \<forall>b\<in>A. a \<noteq> b \<longrightarrow> bytes (h_size h) a \<inter> bytes (h_size h) b = {})"

text \<open>An operation that changes sizes in the bytes \<open>X\<close> only keeps the live blocks outside of \<open>X\<close>.\<close>

lemma heap_inv_step:
  assumes inv: "heap_inv base hi h L A" and ok: "heap_ok base hi' h' L'" and hi: "hi \<le> hi'"
    and fr: "\<And>a. unat a \<notin> X \<Longrightarrow> h_size h' a = h_size h a"
    and B: "B \<subseteq> A" "\<And>b. b \<in> B \<Longrightarrow> bytes (h_size h) b \<inter> X = {}" and sub: "freebytes (h_size h') L' \<subseteq> freebytes (h_size h) L \<union> X"
  shows "heap_inv base hi' h' L' B" "\<And>b. b \<in> B \<Longrightarrow> h_size h' b = h_size h b"
proof -
  show eq: "h_size h' b = h_size h b" if "b \<in> B" for b
  proof -
    have "0 < h_size h b" using inv B(1) that by (auto simp: heap_inv_def)
    then show ?thesis using bytes_ne [of "h_size h" b] B(2) [OF that] fr [of b] by blast
  qed
  then have be: "block_end (h_size h') b = block_end (h_size h) b" "bytes (h_size h') b = bytes (h_size h) b" if "b \<in> B" for b
    using that by (simp_all add: bytes_def block_end_def)
  show "heap_inv base hi' h' L' B"
    unfolding heap_inv_def
  proof (intro conjI ballI impI ok)
    fix b assume b: "b \<in> B"
    then have bA: "unat base + 7 < unat b" "0 < h_size h b" "block_end (h_size h) b \<le> hi" "bytes (h_size h) b \<inter> freebytes (h_size h) L = {}"
      using inv B(1) by (auto simp: heap_inv_def)
    show "unat base + 7 < unat b" "0 < h_size h' b" "block_end (h_size h') b \<le> hi'"
      using bA hi by (simp_all add: eq [OF b] be [OF b])
    show "bytes (h_size h') b \<inter> freebytes (h_size h') L' = {}" unfolding be(2) [OF b] using bA(4) B(2) [OF b] sub by blast
  next
    fix b c assume b: "b \<in> B" "c \<in> B" "b \<noteq> c"
    have "b \<in> A" "c \<in> A" using b B(1) by auto
    then have "bytes (h_size h) b \<inter> bytes (h_size h) c = {}" using inv b(3) unfolding heap_inv_def by blast
    then show "bytes (h_size h') b \<inter> bytes (h_size h') c = {}" by (simp add: be(2) b)
  qed
qed

lemma heap_inv_insert:
  assumes "heap_inv base hi h L A" "unat base + 7 < unat x" "0 < h_size h x" "block_end (h_size h) x \<le> hi"
    "bytes (h_size h) x \<inter> freebytes (h_size h) L = {}" "\<And>a. a \<in> A \<Longrightarrow> bytes (h_size h) a \<inter> bytes (h_size h) x = {}"
  shows "heap_inv base hi h L (insert x A)"
  using assms unfolding heap_inv_def by (auto simp: Int_commute)

lemma free_inv:
  assumes inv: "heap_inv base hi h L A" and a: "a \<in> A"
  obtains h' L' where "free (a + sizeof_Header) h = Some h'" "heap_inv base hi h' L' (A - {a})"
    "freebytes (h_size h') L' = freebytes (h_size h) L \<union> bytes (h_size h) a" "\<And>b. b \<in> A - {a} \<Longrightarrow> h_size h' b = h_size h b"
proof -
  have ok: "heap_ok base hi h L" and bl: "unat base + 7 < unat a" "0 < h_size h a" "block_end (h_size h) a \<le> hi" "bytes (h_size h) a \<inter> freebytes (h_size h) L = {}"
    using inv a by (auto simp: heap_inv_def)
  obtain h' L' where f: "free (a + sizeof_Header) h = Some h'" and ok': "heap_ok base hi h' L'"
    and fb: "freebytes (h_size h') L' = freebytes (h_size h) L \<union> bytes (h_size h) a"
    and fr: "\<And>b. unat b \<notin> freebytes (h_size h) L \<union> bytes (h_size h) a \<Longrightarrow> h_size h' b = h_size h b"
    using free_ok [OF ok bl(2,1,3,4)] by blast
  have dj: "bytes (h_size h) b \<inter> (freebytes (h_size h) L \<union> bytes (h_size h) a) = {}" if "b \<in> A - {a}" for b
  proof -
    have "bytes (h_size h) b \<inter> freebytes (h_size h) L = {}" "bytes (h_size h) b \<inter> bytes (h_size h) a = {}" using inv a that by (auto simp: heap_inv_def)
    then show ?thesis by blast
  qed
  show ?thesis
  proof (rule that [OF f _ fb])
    show "heap_inv base hi h' L' (A - {a})" by (rule heap_inv_step(1) [OF inv ok' order_refl fr _ dj]) (auto simp: fb)
    show "h_size h' b = h_size h b" if "b \<in> A - {a}" for b by (rule heap_inv_step(2) [OF inv ok' order_refl fr _ dj _ that]) (auto simp: fb)
  qed
qed

section \<open>malloc\<close>

lemma hpath_inj: "hpath P x as y \<Longrightarrow> distinct (tl as @ [y]) \<Longrightarrow> a \<in> set as \<Longrightarrow> b \<in> set as \<Longrightarrow> P a = P b \<Longrightarrow> a = b"
proof -
  assume p: "hpath P x as y" and d: "distinct (tl as @ [y])" and ab: "a \<in> set as" "b \<in> set as" "P a = P b"
  have "map P as = tl as @ [y]" if "as \<noteq> []" using p that
  proof (induction as arbitrary: x)
    case (Cons c as)
    then show ?case by (cases as) auto
  qed simp
  then have "distinct (map P as)" using d ab(1) by (cases as) auto
  then show ?thesis using ab by (auto simp: distinct_map inj_on_def)
qed

lemma blocks_apart:
  assumes "blocks S lo (us @ p # vs) hi"
  shows "bytes S p \<inter> freebytes S us = {}" "bytes S p \<inter> freebytes S vs = {}"
proof -
  have b: "blocks S lo us (last_end S lo us)" "last_end S lo us < unat p" "blocks S (block_end S p) vs hi" using assms by (auto simp: blocks_append)
  show "bytes S p \<inter> freebytes S us = {}" using freebytes_range [OF b(1)] b(2) by (fastforce simp: bytes_def)
  show "bytes S p \<inter> freebytes S vs = {}" using freebytes_range [OF b(3)] by (fastforce simp: bytes_def)
qed

text \<open>The whole block goes: its predecessor is linked to its successor.\<close>

lemma take_whole:
  assumes ok: "heap_ok base hi h L" and p: "p \<in> set L" and pp: "prevp \<in> set (base # L)" "h_ptr h prevp = p"
  obtains L' where "heap_ok base hi (h\<lparr>h_ptr := (h_ptr h)(prevp := h_ptr h p), freep := prevp\<rparr>) L'"
    "freebytes (h_size h) L' = freebytes (h_size h) L - bytes (h_size h) p"
proof -
  note h = ok [unfolded heap_ok_def]
  obtain us vs where L: "L = us @ p # vs" using p by (auto simp: in_set_conv_decomp)
  obtain xs q where xs: "base # us = xs @ [q]" by (metis list.distinct(1) rev_exhaust)
  have d: "distinct (base # L)" using heap_ok_sorted [OF ok] by (auto simp: strict_sorted_iff)
  have all: "base # us @ p # vs = xs @ q # p # vs" using xs by (metis append.assoc append_Cons append_Nil)
  have path: "hpath (h_ptr h) base xs q" "h_ptr h q = p" "hpath (h_ptr h) (h_ptr h p) vs base"
    using h unfolding L all by auto
  have "q \<in> set (base # L)" unfolding L all by simp
  then have q: "prevp = q" using hpath_inj [of "h_ptr h" base "base # L" base prevp q] h pp path(2) d by auto
  have n: "q \<notin> set xs" "q \<notin> set vs" using d unfolding L all by auto
  have "hpath ((h_ptr h)(prevp := h_ptr h p)) base ((base # us) @ vs) base" unfolding xs q using path n by auto
  moreover have bl: "blocks (h_size h) (unat base + 7) us (last_end (h_size h) (unat base + 7) us)" "last_end (h_size h) (unat base + 7) us < unat p"
      "blocks (h_size h) (block_end (h_size h) p) vs hi" using h by (auto simp: L blocks_append)
  moreover have "blocks (h_size h) (last_end (h_size h) (unat base + 7) us) vs hi"
    by (rule blocks_lower [OF bl(3)]) (use bl(2) in \<open>simp add: block_end_def\<close>)
  moreover have "prevp \<in> set (base # us @ vs)" using arg_cong [OF xs, of set] q by auto
  ultimately have "heap_ok base hi (h\<lparr>h_ptr := (h_ptr h)(prevp := h_ptr h p), freep := prevp\<rparr>) (us @ vs)"
    using h by (auto simp: heap_ok_def blocks_append)
  moreover have "freebytes (h_size h) (us @ vs) = freebytes (h_size h) L - bytes (h_size h) p"
    using blocks_apart [of "h_size h" "unat base + 7" us p vs hi] h by (auto simp: L)
  ultimately show ?thesis by (rule that)
qed

text \<open>The tail of the block goes, and the rest stays where it is in the list.\<close>

lemma take_part:
  fixes h p n defines "S \<equiv> h_size h" defines "S1 \<equiv> S(p := S p - n)" defines "x \<equiv> p + S1 p * sizeof_Header" defines "S2 \<equiv> S1(x := n)"
  assumes ok: "heap_ok base hi h L" and p: "p \<in> set L" and pp: "prevp \<in> set (base # L)" and n: "0 < n" "n < S p"
  shows "heap_ok base hi (h\<lparr>h_size := S2, freep := prevp\<rparr>) L" "bytes S2 x \<subseteq> bytes S p" "freebytes S2 L = freebytes S L - bytes S2 x"
    "unat base + 7 < unat x" "block_end S2 x \<le> hi"
proof -
  note h = ok [unfolded heap_ok_def, folded S_def]
  obtain us vs where L: "L = us @ p # vs" using p by (auto simp: in_set_conv_decomp)
  have lo: "unat base + 7 < unat p" "block_end S p \<le> hi" using blocks_in [of S "unat base + 7" L hi p] h p by auto
  have u: "unat (S p - n) = unat (S p) - unat n" "unat n < unat (S p)" "0 < unat n"
    using n by (simp_all add: unat_sub word_less_nat_alt word_le_nat_alt)
  have e1: "block_end S1 p = unat p + 8 * (unat (S p) - unat n)" by (simp add: S1_def block_end_def u(1))
  have lt: "block_end S1 p < block_end S p" using e1 u by (simp add: block_end_def)
  have ux: "unat x = block_end S1 p" unfolding x_def by (rule unat_block_end) (use lt lo(2) h in simp)
  have ex: "block_end S2 x = block_end S p" using ux e1 u by (simp add: S2_def block_end_def)
  have xp: "unat p < unat x" using ux e1 u by simp
  have xin: "unat x \<in> bytes S p" using xp ux lt by (simp add: bytes_def)
  have ap: "bytes S p \<inter> freebytes S us = {}" "bytes S p \<inter> freebytes S vs = {}" using blocks_apart [of S "unat base + 7" us p vs hi] h by (auto simp: L)
  have pos: "0 < S a" if "a \<in> set L" for a using blocks_in [of S "unat base + 7" L hi a] h that by simp
  have xL: "x \<notin> set us" "x \<notin> set vs" "x \<noteq> p" "x \<noteq> base"
    using xin xp ap pos [of x] bytes_ne [of S x] lo(1) by (auto simp: L freebytes_def)
  have d: "p \<notin> set us" "p \<notin> set vs" "p \<noteq> base" using heap_ok_sorted [OF ok] by (auto simp: L strict_sorted_iff)
  have S2: "S2 p = S p - n" "S2 base = 0" using xL d h by (simp_all add: S2_def S1_def)
  have e2: "block_end S2 p = unat x" using ux by (simp add: S2(1) S1_def block_end_def)
  have bl: "blocks S (unat base + 7) us (last_end S (unat base + 7) us)" "last_end S (unat base + 7) us < unat p" "blocks S (block_end S p) vs hi"
    using h by (auto simp: L blocks_append)
  have "blocks S (unat x) vs hi" by (rule blocks_lower [OF bl(3)]) (use ux lt in simp)
  moreover have "0 < S p - n" using u by (simp add: word_less_nat_alt)
  ultimately have "blocks S2 (unat base + 7) L hi"
    using bl(1,2) xL d by (simp add: L blocks_append e2 S2(1)) (simp add: S2_def S1_def)
  then show "heap_ok base hi (h\<lparr>h_size := S2, freep := prevp\<rparr>) L" using h pp S2(2) by (simp add: heap_ok_def)
  have b2: "bytes S2 x = {unat x ..< block_end S p}" "bytes S2 p = {unat p ..< unat x}" by (simp_all add: bytes_def ex e2)
  then show sub: "bytes S2 x \<subseteq> bytes S p" using xp by (auto simp: bytes_def)
  have un: "bytes S p = bytes S2 p \<union> bytes S2 x" "bytes S2 p \<inter> bytes S2 x = {}"
    unfolding b2 using xin by (auto simp: bytes_def)
  have fr: "freebytes S2 us = freebytes S us" "freebytes S2 vs = freebytes S vs" using xL d by (simp_all add: S2_def S1_def)
  show "freebytes S2 L = freebytes S L - bytes S2 x" using un ap by (auto simp: L fr)
  show "unat base + 7 < unat x" "block_end S2 x \<le> hi" using lo xp ex by simp_all
qed

lemma malloc_take_core:
  assumes ok: "heap_ok base hi h L" and p: "p \<in> set L" and pp: "prevp \<in> set (base # L)" "h_ptr h prevp = p" and n: "0 < n" "n \<le> h_size h p"
    and t: "malloc_take n prevp p h = (r, h')"
  obtains x L' where "r = x + sizeof_Header" "heap_ok base hi h' L'" "h_size h' x = n" "unat base + 7 < unat x" "block_end (h_size h') x \<le> hi"
    "bytes (h_size h') x \<subseteq> freebytes (h_size h) L" "freebytes (h_size h') L' = freebytes (h_size h) L - bytes (h_size h') x"
    "\<And>a. unat a \<notin> freebytes (h_size h) L \<Longrightarrow> h_size h' a = h_size h a"
proof -
  have b: "blocks (h_size h) (unat base + 7) L hi" using ok by (simp add: heap_ok_def)
  have sub: "bytes (h_size h) p \<subseteq> freebytes (h_size h) L" using p by (auto simp: freebytes_def)
  have pin: "unat p \<in> freebytes (h_size h) L" using sub bytes_ne [of "h_size h" p] blocks_in [OF b p] by auto
  show ?thesis
  proof (cases "h_size h p = n")
    case True
    then have r: "r = p + sizeof_Header" "h' = h\<lparr>h_ptr := (h_ptr h)(prevp := h_ptr h p), freep := prevp\<rparr>" using t by (simp_all add: malloc_take_def)
    obtain L' where "heap_ok base hi h' L'" "freebytes (h_size h) L' = freebytes (h_size h) L - bytes (h_size h) p"
      using take_whole [OF ok p pp] unfolding r(2) by blast
    then show ?thesis using that [OF r(1)] True sub blocks_in [OF b p] by (simp add: r(2))
  next
    case False
    define S1 where "S1 = (h_size h)(p := h_size h p - n)"
    define x where "x = p + S1 p * sizeof_Header"
    have r: "r = x + sizeof_Header" "h' = h\<lparr>h_size := S1(x := n), freep := prevp\<rparr>"
      using t False by (simp_all add: malloc_take_def Let_def x_def S1_def)
    have lt: "n < h_size h p" using False n(2) by simp
    note tk = take_part [OF ok p pp(1) n(1) lt, folded S1_def, folded x_def]
    have "unat x \<in> freebytes (h_size h) L" using tk(2) bytes_ne [of "S1(x := n)" x] n(1) sub by auto
    then have "(S1(x := n)) a = h_size h a" if "unat a \<notin> freebytes (h_size h) L" for a using that pin by (auto simp: S1_def)
    then show ?thesis using that [OF r(1), of L] tk sub by (simp add: r(2))
  qed
qed

lemma malloc_take_ok:
  assumes inv: "heap_inv base hi h L A" and p: "p \<in> set L" "prevp \<in> set (base # L)" "h_ptr h prevp = p" and n: "0 < n" "n \<le> h_size h p"
    and t: "malloc_take n prevp p h = (r, h')"
  obtains x L' where "r = x + sizeof_Header" "r \<noteq> 0" "x \<notin> A" "h_size h' x = n" "heap_inv base hi h' L' (insert x A)"
    "freebytes (h_size h) L = freebytes (h_size h') L' \<union> bytes (h_size h') x" "\<And>a. a \<in> A \<Longrightarrow> h_size h' a = h_size h a"
proof -
  have ok: "heap_ok base hi h L" using inv by (simp add: heap_inv_def)
  obtain x L' where r: "r = x + sizeof_Header" and ok': "heap_ok base hi h' L'" and x: "h_size h' x = n" "unat base + 7 < unat x" "block_end (h_size h') x \<le> hi"
    and b: "bytes (h_size h') x \<subseteq> freebytes (h_size h) L" and f: "freebytes (h_size h') L' = freebytes (h_size h) L - bytes (h_size h') x"
    and fr: "\<And>a. unat a \<notin> freebytes (h_size h) L \<Longrightarrow> h_size h' a = h_size h a"
    using malloc_take_core [OF ok p n t] by blast
  have dj: "bytes (h_size h) a \<inter> freebytes (h_size h) L = {}" if "a \<in> A" for a using inv that by (simp add: heap_inv_def)
  have st: "heap_inv base hi h' L' A" "\<And>a. a \<in> A \<Longrightarrow> h_size h' a = h_size h a"
    using heap_inv_step [OF inv ok' order_refl fr order_refl dj] f by auto
  have "bytes (h_size h') a \<inter> bytes (h_size h') x = {}" if "a \<in> A" for a
    using dj [OF that] b bytes_eq [of "h_size h'" a "h_size h"] st(2) [OF that] by blast
  then have "heap_inv base hi h' L' (insert x A)" using heap_inv_insert [OF st(1) x(2) _ x(3)] x(1) n(1) f by auto
  moreover have "unat (x + 8) = unat x + 8"
    by (subst unat_add_lem [THEN iffD1]) (use x n ok in \<open>simp_all add: block_end_def heap_ok_def word_less_nat_alt\<close>)
  then have "r \<noteq> 0" by (auto simp: r sizeof_Header_def)
  moreover have "x \<notin> A"
  proof
    assume "x \<in> A"
    then show False using dj [of x] b bytes_ne [of "h_size h'" x] bytes_eq [of "h_size h'" x "h_size h"] st(2) [of x] x(1) n(1) by blast
  qed
  moreover have "freebytes (h_size h) L = freebytes (h_size h') L' \<union> bytes (h_size h') x" using f b by auto
  ultimately show ?thesis using that [OF r] x(1) st(2) by blast
qed

text \<open>The loop goes round the list from \<^verbatim>\<open>freep\<close> to the first block that fits, or back to \<^verbatim>\<open>freep\<close>.\<close>

lemma malloc_skip:
  assumes "hpath (h_ptr h) p ws q" "\<And>a. a \<in> set ws \<Longrightarrow> h_size h a < n \<and> a \<noteq> freep h \<and> a \<in> N" "prevp \<in> N" "h_ptr h prevp = p"
  shows "\<exists>prevp'. prevp' \<in> N \<and> h_ptr h prevp' = q \<and> malloc_loop brk n prevp p h w = malloc_loop brk n prevp' q h w"
  using assms
proof (induction ws arbitrary: p prevp)
  case (Cons a ws)
  have a: "p = a" "hpath (h_ptr h) (h_ptr h a) ws q" "h_size h a < n" "a \<noteq> freep h" "a \<in> N" using Cons.prems(1) Cons.prems(2) [of a] by simp_all
  have "malloc_loop brk n prevp p h w = malloc_loop brk n a (h_ptr h a) h w"
    unfolding a(1) by (subst malloc_loop.simps) (use a in \<open>simp add: linorder_not_le [symmetric]\<close>)
  then show ?case using Cons.IH [OF a(2) _ a(5)] Cons.prems(2) by simp
qed auto

lemma rotation:
  assumes ok: "heap_ok base hi h L"
  obtains R where "hpath (h_ptr h) (h_ptr h (freep h)) R (freep h)" "distinct (R @ [freep h])" "set (R @ [freep h]) = set (base # L)"
proof -
  note h = ok [unfolded heap_ok_def]
  obtain xs ys where x: "base # L = xs @ freep h # ys" using h by (metis in_set_conv_decomp)
  have p: "hpath (h_ptr h) base xs (freep h)" "hpath (h_ptr h) (h_ptr h (freep h)) ys base" using h unfolding x by auto
  have d: "distinct (base # L)" using heap_ok_sorted [OF ok] by (auto simp: strict_sorted_iff)
  show ?thesis
    by (rule that [of "ys @ xs"]) (use p d in \<open>auto simp: x\<close>)
qed

lemma malloc_fit:
  assumes ok: "heap_ok base hi h L" and n: "0 < n" and a: "a \<in> set L" "n \<le> h_size h a"
  obtains p prevp where "p \<in> set L" "prevp \<in> set (base # L)" "h_ptr h prevp = p" "n \<le> h_size h p"
    "malloc_loop brk n (freep h) (h_ptr h (freep h)) h w = (case malloc_take n prevp p h of (r, h) \<Rightarrow> Some (r, h, w))"
proof -
  note h = ok [unfolded heap_ok_def]
  obtain R where R: "hpath (h_ptr h) (h_ptr h (freep h)) R (freep h)" "distinct (R @ [freep h])" "set (R @ [freep h]) = set (base # L)" using rotation [OF ok] .
  have "\<exists>a\<in>set (R @ [freep h]). n \<le> h_size h a" unfolding R(3) using a by auto
  then obtain ws p zs where s: "R @ [freep h] = ws @ p # zs" "n \<le> h_size h p" "\<forall>a\<in>set ws. \<not> n \<le> h_size h a"
    using split_list_first_prop [of "R @ [freep h]" "\<lambda>a. n \<le> h_size h a"] by blast
  have w: "freep h \<notin> set ws"
  proof
    assume f: "freep h \<in> set ws"
    have "freep h = last (p # zs)" using arg_cong [OF s(1), of last] by simp
    then have "freep h \<in> set (p # zs)" by (metis last_in_set list.distinct(1))
    then show False using f R(2) unfolding s(1) by auto
  qed
  have path: "hpath (h_ptr h) (h_ptr h (freep h)) ws p"
  proof -
    have "hpath (h_ptr h) (h_ptr h (freep h)) (R @ [freep h]) (h_ptr h (freep h))" using R(1) by auto
    then show ?thesis unfolding s(1) by auto
  qed
  have wN: "set ws \<subseteq> set (base # L)" "p \<in> set (base # L)" using R(3) unfolding s(1) by auto
  obtain prevp where pp: "prevp \<in> set (base # L)" "h_ptr h prevp = p"
      "malloc_loop brk n (freep h) (h_ptr h (freep h)) h w = malloc_loop brk n prevp p h w"
    using malloc_skip [OF path, of n "set (base # L)" "freep h" brk w] s(3) w wN(1) h by (auto simp: not_le)
  have "p \<in> set L" using wN(2) s(2) n h by (auto simp: not_le)
  moreover have "malloc_loop brk n prevp p h w = (case malloc_take n prevp p h of (r, h) \<Rightarrow> Some (r, h, w))"
    by (subst malloc_loop.simps) (simp add: s(2))
  ultimately show ?thesis using that pp s(2) by simp
qed

lemma malloc_nofit:
  assumes ok: "heap_ok base hi h L" and n: "0 < n" and a: "\<And>a. a \<in> set L \<Longrightarrow> h_size h a < n"
  shows "malloc_loop brk n (freep h) (h_ptr h (freep h)) h w =
    (case morecore brk n h w of None \<Rightarrow> None | Some (p, h, w) \<Rightarrow> if p = 0 then Some (0, h, w) else malloc_loop brk n p (h_ptr h p) h w)"
proof -
  note h = ok [unfolded heap_ok_def]
  obtain R where R: "hpath (h_ptr h) (h_ptr h (freep h)) R (freep h)" "distinct (R @ [freep h])" "set (R @ [freep h]) = set (base # L)" using rotation [OF ok] .
  have small: "h_size h b < n" if "b \<in> set (base # L)" for b using that a n h by auto
  have Rs: "h_size h b < n \<and> b \<noteq> freep h \<and> b \<in> set (base # L)" if "b \<in> set R" for b
    using that R(2,3) small [of b] by auto
  obtain prevp where pp: "malloc_loop brk n (freep h) (h_ptr h (freep h)) h w = malloc_loop brk n prevp (freep h) h w"
    using malloc_skip [OF R(1) Rs, of "freep h" brk w] h by auto
  show ?thesis unfolding pp by (subst malloc_loop.simps) (use small [of "freep h"] h in \<open>simp add: linorder_not_le [symmetric]\<close>)
qed

text \<open>Free blocks never touch, so a run of free bytes lies in one block.\<close>

lemma blocks_run:
  assumes "blocks S lo L hi" "{x ..< y} \<subseteq> freebytes S L" "x < y"
  shows "\<exists>a\<in>set L. {x ..< y} \<subseteq> bytes S a"
  using assms
proof (induction L arbitrary: lo)
  case (Cons a L)
  have bl: "blocks S (block_end S a) L hi" using Cons.prems(1) by simp
  have gap: "block_end S a < z" if "z \<in> freebytes S L" for z using freebytes_range [OF bl that] by simp
  show ?case
  proof (cases "x < block_end S a")
    case True
    have "block_end S a \<notin> freebytes S (a # L)" using gap by (auto simp: bytes_def)
    then have "block_end S a \<notin> {x ..< y}" using Cons.prems(2) by blast
    then have "y \<le> block_end S a" using True by simp
    moreover have "x \<in> bytes S a" using Cons.prems(2,3) True gap [of x] by (auto simp: subset_iff)
    ultimately have "{x ..< y} \<subseteq> bytes S a" by (auto simp: bytes_def)
    then show ?thesis by simp
  next
    case False
    have "{x ..< y} \<subseteq> freebytes S L"
    proof
      fix z assume z: "z \<in> {x ..< y}"
      then have "z \<in> bytes S a \<union> freebytes S L" using Cons.prems(2) by auto
      then show "z \<in> freebytes S L" using z False by (auto simp: bytes_def)
    qed
    then show ?thesis using Cons.IH [OF bl _ Cons.prems(3)] by auto
  qed
qed simp

section \<open>The interface to sbrk\<close>

text \<open>\<open>top\<close> is the end of the process's memory. Growing it by a positive number of bytes either fails and leaves it, or returns the old end.\<close>

locale brk_call =
  fixes brk :: "u32 \<Rightarrow> 'w \<Rightarrow> (u32 \<times> 'w) option" and top :: "'w \<Rightarrow> u32"
  assumes brk_grows: "brk n w = Some (p, w') \<Longrightarrow> 0 < n \<Longrightarrow> unat n < 2 ^ 31 \<Longrightarrow> unat (top w) \<le> 2 ^ 31 \<Longrightarrow>
    p = - 1 \<and> top w' = top w \<or> p = top w \<and> unat (top w') = unat (top w) + unat n \<and> unat (top w') \<le> 2 ^ 31"
begin

lemma morecore_frees:
  assumes inv: "heap_inv base (unat (top w)) h L A" and nu: "0 < nu" "8 * unat nu < 2 ^ 31"
    and p: "p = top w" "unat (top w') = unat (top w) + 8 * unat nu" "unat (top w') \<le> 2 ^ 31"
  obtains h' L' where "free (p + sizeof_Header) (h\<lparr>h_size := (h_size h)(p := nu)\<rparr>) = Some h'" "heap_inv base (unat (top w')) h' L' A"
    "\<And>a. a \<in> A \<Longrightarrow> h_size h' a = h_size h a" "\<exists>a\<in>set L'. nu \<le> h_size h' a"
proof -
  define S where "S = (h_size h)(p := nu)"
  note h = inv [unfolded heap_inv_def heap_ok_def]
  have pp: "block_end S p = unat (top w')" "unat p = unat (top w)" using p by (simp_all add: S_def block_end_def)
  have nin: "p \<notin> set L" "p \<noteq> base" "unat base + 7 < unat p"
    using blocks_in [of "h_size h" "unat base + 7" L "unat (top w)" p] h by (auto simp: p block_end_def word_less_nat_alt)
  have ok: "heap_ok base (unat (top w')) (h\<lparr>h_size := S\<rparr>) L"
    using h nin p(2,3) blocks_raise [of "h_size h" "unat base + 7" L "unat (top w)" "unat (top w')"] by (simp add: heap_ok_def S_def)
  have fb: "freebytes S L = freebytes (h_size h) L" using nin by (simp add: S_def)
  have below: "x < unat p" if "x \<in> freebytes (h_size h) L" for x
    using freebytes_range [of "h_size h" "unat base + 7" L "unat (top w)" x] h that pp by simp
  then have dj: "bytes S p \<inter> freebytes S L = {}" unfolding fb by (fastforce simp: bytes_def)
  obtain h' L' where f: "free (p + sizeof_Header) (h\<lparr>h_size := S\<rparr>) = Some h'" and ok': "heap_ok base (unat (top w')) h' L'"
    and fb': "freebytes (h_size h') L' = freebytes S L \<union> bytes S p"
    and fr: "\<And>a. unat a \<notin> freebytes S L \<union> bytes S p \<Longrightarrow> h_size h' a = S a"
    using free_ok [OF ok, of p] nin(3) nu(1) pp(1) dj by (auto simp: S_def)
  have fr': "h_size h' a = h_size h a" if "unat a \<notin> freebytes (h_size h) L \<union> bytes S p" for a
  proof -
    have "0 < S p" using nu(1) by (simp add: S_def)
    then have "a \<noteq> p" using that bytes_ne [of S p] by blast
    then have "S a = h_size h a" by (simp add: S_def)
    then show ?thesis using fr [of a] that unfolding fb by simp
  qed
  have out: "bytes (h_size h) b \<inter> (freebytes (h_size h) L \<union> bytes S p) = {}" if "b \<in> A" for b
  proof -
    have "block_end (h_size h) b \<le> unat p" "bytes (h_size h) b \<inter> freebytes (h_size h) L = {}" using inv that pp(2) by (auto simp: heap_inv_def)
    then show ?thesis by (auto simp: bytes_def)
  qed
  have step: "heap_inv base (unat (top w')) h' L' A" "\<And>a. a \<in> A \<Longrightarrow> h_size h' a = h_size h a"
    using heap_inv_step [OF inv ok' _ fr' order_refl out] p(2) by (simp_all add: fb' fb)
  have "{unat p ..< block_end S p} \<subseteq> freebytes (h_size h') L'" using fb' by (auto simp: bytes_def)
  then obtain a where a: "a \<in> set L'" "{unat p ..< block_end S p} \<subseteq> bytes (h_size h') a"
    using blocks_run [of "h_size h'" "unat base + 7" L' "unat (top w')" "unat p" "block_end S p"] ok' nu(1)
    by (auto simp: heap_ok_def block_end_def S_def word_less_nat_alt)
  have "nu \<le> h_size h' a"
  proof -
    have "unat p < block_end S p" using nu(1) by (simp add: block_end_def S_def word_less_nat_alt)
    then have "unat a \<le> unat p" "block_end S p \<le> block_end (h_size h') a" using a(2) by (auto simp: bytes_def ivl_subset)
    then show ?thesis by (simp add: block_end_def S_def word_le_nat_alt)
  qed
  then show ?thesis using that f step a(1) unfolding S_def by blast
qed

lemma morecore_ok:
  assumes inv: "heap_inv base (unat (top w)) h L A" and n: "0 < n" "8 * unat n < 2 ^ 31"
  shows "(\<exists>k. brk k w = None) \<and> morecore brk n h w = None \<or>
    (\<exists>k w'. morecore brk n h w = Some (0, h, w') \<and> brk k w = Some (- 1, w') \<and> top w' = top w) \<or>
    (\<exists>h' w' L'. morecore brk n h w = Some (freep h', h', w') \<and> freep h' \<noteq> 0 \<and> heap_inv base (unat (top w')) h' L' A \<and>
       (\<forall>a\<in>A. h_size h' a = h_size h a) \<and> (\<exists>a\<in>set L'. n \<le> h_size h' a))"
proof -
  define nu where "nu = (if n < 4096 then 4096 else n)"
  have nu: "0 < nu" "8 * unat nu < 2 ^ 31" "n \<le> nu" using n by (auto simp: nu_def word_less_nat_alt word_le_nat_alt)
  have u: "unat (nu * sizeof_Header) = 8 * unat nu" unfolding sizeof_Header_def
    by (subst unat_mult_lem [THEN iffD1]) (use nu(2) in simp_all)
  have hi: "unat (top w) \<le> 2 ^ 31" using inv by (simp add: heap_inv_def heap_ok_def)
  then have top: "top w \<noteq> - 1" by (auto simp: unsigned_minus_1_eq_mask mask_eq_exp_minus_1)
  have m: "morecore brk n h w = (case brk (nu * sizeof_Header) w of None \<Rightarrow> None
      | Some (p, w) \<Rightarrow> if p = - 1 then Some (0, h, w)
          else (case free (p + sizeof_Header) (h\<lparr>h_size := (h_size h)(p := nu)\<rparr>) of None \<Rightarrow> None | Some h \<Rightarrow> Some (freep h, h, w)))"
    unfolding morecore_def Let_def nu_def by (rule refl)
  show ?thesis
  proof (cases "brk (nu * sizeof_Header) w")
    case None
    then show ?thesis using m by auto
  next
    case (Some q)
    obtain p w' where q: "q = (p, w')" by (cases q)
    have "0 < nu * sizeof_Header" using nu(1) u by (simp add: word_less_nat_alt)
    then consider "p = - 1" "top w' = top w" | "p \<noteq> - 1" "p = top w" "unat (top w') = unat (top w) + 8 * unat nu" "unat (top w') \<le> 2 ^ 31"
      using brk_grows [of "nu * sizeof_Header" w p w'] Some q u nu(2) hi top by auto
    then show ?thesis
    proof cases
      case 1
      then show ?thesis using m Some q by auto
    next
      case 2
      obtain h' L' where f: "free (p + sizeof_Header) (h\<lparr>h_size := (h_size h)(p := nu)\<rparr>) = Some h'" "heap_inv base (unat (top w')) h' L' A"
        "\<And>a. a \<in> A \<Longrightarrow> h_size h' a = h_size h a" "\<exists>a\<in>set L'. nu \<le> h_size h' a"
        using morecore_frees [OF inv nu(1,2) 2(2-4)] by blast
      have "0 \<notin> set (base # L')" using f(2) blocks_in [of "h_size h'" "unat base + 7" L' _ 0] by (auto simp: heap_inv_def heap_ok_def)
      moreover have "freep h' \<in> set (base # L')" using f(2) by (simp add: heap_inv_def heap_ok_def)
      ultimately have "freep h' \<noteq> 0" by metis
      then show ?thesis using m Some q 2(1) f nu(3) by (auto intro: order_trans)
    qed
  qed
qed

lemma malloc_loop_ok:
  assumes inv: "heap_inv base (unat (top w)) h L A" and n: "0 < n" "8 * unat n < 2 ^ 31"
  defines "m \<equiv> malloc_loop brk n (freep h) (h_ptr h (freep h)) h w"
  shows "(\<exists>k. brk k w = None) \<and> m = None \<or>
    (\<exists>k w'. m = Some (0, h, w') \<and> (\<forall>a\<in>set L. h_size h a < n) \<and> brk k w = Some (- 1, w') \<and> top w' = top w) \<or>
    (\<exists>x h' w' L'. m = Some (x + sizeof_Header, h', w') \<and> x + sizeof_Header \<noteq> 0 \<and> x \<notin> A \<and> h_size h' x = n \<and>
       heap_inv base (unat (top w')) h' L' (insert x A) \<and> (\<forall>a\<in>A. h_size h' a = h_size h a))"
proof -
  have fits: "\<exists>x h' L'. malloc_loop brk n (freep g) (h_ptr g (freep g)) g v = Some (x + sizeof_Header, h', v) \<and> x + sizeof_Header \<noteq> 0 \<and> x \<notin> A \<and>
      h_size h' x = n \<and> heap_inv base (unat (top v)) h' L' (insert x A) \<and> (\<forall>a\<in>A. h_size h' a = h_size g a)"
    if g: "heap_inv base (unat (top v)) g M A" and a: "a \<in> set M" "n \<le> h_size g a" for g v M a
  proof -
    have ok: "heap_ok base (unat (top v)) g M" using g by (simp add: heap_inv_def)
    obtain p prevp where p: "p \<in> set M" "prevp \<in> set (base # M)" "h_ptr g prevp = p" "n \<le> h_size g p"
      and l: "malloc_loop brk n (freep g) (h_ptr g (freep g)) g v = (case malloc_take n prevp p g of (r, h) \<Rightarrow> Some (r, h, v))"
      using malloc_fit [OF ok n(1) a] .
    obtain r h' where t: "malloc_take n prevp p g = (r, h')" by (cases "malloc_take n prevp p g")
    obtain x L' where "r = x + sizeof_Header" "r \<noteq> 0" "x \<notin> A" "h_size h' x = n" "heap_inv base (unat (top v)) h' L' (insert x A)"
        "\<And>a. a \<in> A \<Longrightarrow> h_size h' a = h_size g a"
      using malloc_take_ok [OF g p(1-3) n(1) p(4) t] by blast
    then show ?thesis using l t by auto
  qed
  show ?thesis
  proof (cases "\<exists>a\<in>set L. n \<le> h_size h a")
    case True
    then show ?thesis using fits [OF inv] unfolding m_def by blast
  next
    case False
    have ok: "heap_ok base (unat (top w)) h L" using inv by (simp add: heap_inv_def)
    have m: "m = (case morecore brk n h w of None \<Rightarrow> None | Some (p, h, w) \<Rightarrow> if p = 0 then Some (0, h, w) else malloc_loop brk n p (h_ptr h p) h w)"
      unfolding m_def by (rule malloc_nofit [OF ok n(1)]) (use False in auto)
    consider k where "brk k w = None" "morecore brk n h w = None" | k w' where "morecore brk n h w = Some (0, h, w')" "brk k w = Some (- 1, w')" "top w' = top w"
      | h1 w1 L1 where "morecore brk n h w = Some (freep h1, h1, w1)" "freep h1 \<noteq> 0" "heap_inv base (unat (top w1)) h1 L1 A"
          "\<forall>a\<in>A. h_size h1 a = h_size h a" "\<exists>a\<in>set L1. n \<le> h_size h1 a"
      using morecore_ok [OF inv n] by (elim disjE exE conjE) simp_all
    then show ?thesis
    proof cases
      case 3
      then have "m = malloc_loop brk n (freep h1) (h_ptr h1 (freep h1)) h1 w1" using m by simp
      moreover obtain a where "a \<in> set L1" "n \<le> h_size h1 a" using 3(5) by blast
      then obtain x h' L' where "malloc_loop brk n (freep h1) (h_ptr h1 (freep h1)) h1 w1 = Some (x + sizeof_Header, h', w1)" "x + sizeof_Header \<noteq> 0" "x \<notin> A"
        "h_size h' x = n" "heap_inv base (unat (top w1)) h' L' (insert x A)" "\<forall>a\<in>A. h_size h' a = h_size h1 a"
        using fits [OF 3(3)] by blast
      ultimately show ?thesis using 3(4) by (intro disjI2 exI [of _ x] exI [of _ h'] exI [of _ w1] exI [of _ L']) simp
    qed (use m False in \<open>auto simp: not_le\<close>)
  qed
qed

end

section \<open>sbrk of the kernel (sysproc.c, proc.c)\<close>

text \<open>\<^verbatim>\<open>sys_sbrk\<close> for the argument \<open>n\<close>: the old size of the process, or -1.\<close>

definition sbrk :: "u32 \<Rightarrow> 'a pst_scheme \<Rightarrow> (u32 \<times> 'a pst_scheme) option" where
  "sbrk n s =
     (case cur s of
        None \<Rightarrow> None
      | Some me \<Rightarrow>
          let addr = psz (ptable s me) in
          (case growproc (sint n) s of Err _ \<Rightarrow> None | Ok (r, s) \<Rightarrow> Some (if r < 0 then - 1 else addr, s)))"

definition cur_sz :: "'a pst_scheme \<Rightarrow> u32" where
  "cur_sz s = (case cur s of None \<Rightarrow> 0 | Some me \<Rightarrow> psz (ptable s me))"

interpretation procs: fs_frame "\<lambda>s. (cur s, ptable s)"
  by unfold_locales simp_all

lemma allocuvm_loop_result: "allocuvm_loop pgdir old new as s = Ok (r, s') \<Longrightarrow> r = 0 \<or> r = new"
  by (induction as arbitrary: s) (auto simp: bind_res_eq_Ok split: prod.splits if_splits)

lemma allocuvm_result: "allocuvm pgdir old new s = Ok (r, s') \<Longrightarrow> old \<le> new \<Longrightarrow> r = 0 \<or> r = new \<and> new < KERNBASE"
  by (auto simp: allocuvm_def dest: allocuvm_loop_result split: if_splits)

lemma switchuvm_procs: "switchuvm p s = Ok s' \<Longrightarrow> cur s' = cur s \<and> ptable s' = ptable s"
  by (cases p) (auto simp: switchuvm_def split: if_splits)

lemma sint_pos: "unat (n :: u32) < 2 ^ 31 \<Longrightarrow> sint n = int (unat n)"
proof -
  assume a: "unat n < 2 ^ 31"
  have u: "int (unat n) = uint n" by simp
  have "int (unat n) < 2 ^ 31" using of_nat_less_iff [of "unat n" "2 ^ 31", where ?'a = int] a by (simp only: of_nat_power of_nat_numeral)
  then have "uint n < 2 ^ 31" by (simp only: u)
  moreover have "0 \<le> uint n" by simp
  ultimately have "signed_take_bit 31 (uint n) = uint n" by (intro signed_take_bit_int_eq_self) linarith+
  then show ?thesis by (simp add: sint_uint)
qed

lemma growproc_result:
  fixes n :: u32
  assumes c: "cur s = Some me" and n: "0 < n" "unat n < 2 ^ 31" and sz: "unat (cur_sz s) \<le> 2 ^ 31" and g: "growproc (sint n) s = Ok (r, s')"
  shows "r = - 1 \<and> cur_sz s' = cur_sz s \<or> r = 0 \<and> unat (cur_sz s') = unat (cur_sz s) + unat n \<and> unat (cur_sz s') \<le> 2 ^ 31"
proof -
  define p where "p = ptable s me"
  have si: "0 < sint n" unfolding sint_pos [OF n(2)] using n(1) by (simp only: word_less_nat_alt unat_0 of_nat_0_less_iff)
  have p: "cur_sz s = psz p" using c by (simp add: cur_sz_def p_def)
  have le: "unat (psz p + n) = unat (psz p) + unat n"
    by (subst unat_add_lem [THEN iffD1]) (use n(2) sz p in simp_all)
  obtain sz' s1 where a: "allocuvm (ppgdir p) (psz p) (psz p + n) s = Ok (sz', s1)"
    and t: "(if sz' = 0 then Ok (- 1, s1) else bind_res (switchuvm (Some (pkstack p, ppgdir p)) (upd_proc me (\<lambda>p. p\<lparr>psz := sz'\<rparr>) s1)) (\<lambda>s. Ok (0, s))) = Ok (r, s')"
    using g si c unfolding growproc_def Let_def p_def by (auto simp: bind_res_eq_Ok)
  have k: "cur s1 = Some me" "ptable s1 = ptable s" using keeprD [OF procs.allocuvm_keeps [OF refl] a] c by auto
  have r: "sz' = 0 \<or> sz' = psz p + n \<and> psz p + n < KERNBASE" using allocuvm_result [OF a] le by (simp add: word_le_nat_alt)
  show ?thesis
  proof (cases "sz' = 0")
    case True
    then show ?thesis using t k p c by (auto simp: cur_sz_def p_def)
  next
    case False
    then have r0: "r = 0" and sw: "switchuvm (Some (pkstack p, ppgdir p)) (upd_proc me (\<lambda>p. p\<lparr>psz := sz'\<rparr>) s1) = Ok s'"
      using t by (auto simp: bind_res_eq_Ok)
    have "cur s' = Some me" "psz (ptable s' me) = sz'" using switchuvm_procs [OF sw] k(1) by (simp_all add: upd_proc_def)
    then have "cur_sz s' = psz p + n" "psz p + n < KERNBASE" using r False by (simp_all add: cur_sz_def)
    then show ?thesis using r0 le p by (simp add: KERNBASE_def word_less_nat_alt)
  qed
qed

interpretation sys: brk_call sbrk cur_sz
proof
  fix n p :: u32 and w w' :: "'a pst_scheme"
  assume s: "sbrk n w = Some (p, w')" "0 < n" "unat n < 2 ^ 31" "unat (cur_sz w) \<le> 2 ^ 31"
  obtain me where me: "cur w = Some me" using s(1) by (cases "cur w") (simp_all add: sbrk_def)
  then obtain r where g: "growproc (sint n) w = Ok (r, w')" and p: "p = (if r < 0 then - 1 else cur_sz w)"
    using s(1) by (cases "growproc (sint n) w") (auto simp: sbrk_def cur_sz_def Let_def)
  show "p = - 1 \<and> cur_sz w' = cur_sz w \<or> p = cur_sz w \<and> unat (cur_sz w') = unat (cur_sz w) + unat n \<and> unat (cur_sz w') \<le> 2 ^ 31"
    using growproc_result [OF me s(2-4) g] unfolding p by (elim disjE conjE) simp_all
qed

section \<open>Properties\<close>

lemma nunits_of_bound:
  assumes "unat nbytes < 2 ^ 31 - 16"
  shows "0 < nunits_of nbytes" "8 * unat (nunits_of nbytes) < 2 ^ 31" "unat nbytes + 8 \<le> 8 * unat (nunits_of nbytes)"
proof -
  have "nbytes + 8 - 1 = 7 + nbytes" by simp
  moreover have "unat (7 + nbytes) = 7 + unat nbytes" by (subst unat_add_lem [THEN iffD1]) (use assms in simp_all)
  ultimately have d: "unat ((nbytes + 8 - 1) div 8) = (7 + unat nbytes) div 8" by (simp add: unat_div)
  have u: "unat (nunits_of nbytes) = (7 + unat nbytes) div 8 + 1"
    unfolding nunits_of_def sizeof_Header_def by (subst unat_add_lem [THEN iffD1]) (use assms d in simp_all)
  show "0 < nunits_of nbytes" "8 * unat (nunits_of nbytes) < 2 ^ 31" "unat nbytes + 8 \<le> 8 * unat (nunits_of nbytes)"
    using assms by (simp_all add: word_less_nat_alt u)
qed

text \<open>The first call starts from an empty list.\<close>

lemma heap_inv_start: "freep h = 0 \<Longrightarrow> base \<noteq> 0 \<Longrightarrow> unat base + 7 < hi \<Longrightarrow> hi \<le> 2 ^ 31 \<Longrightarrow> heap_inv base hi (malloc_init base h) [] {}"
  by (simp add: heap_inv_def heap_ok_def malloc_init_def)


definition demo_user :: pst where "demo_user = demo_ps\<lparr>cur := Some 0, ptable := (ptable demo_ps)(0 := demo_init\<lparr>psz := 0x3000\<rparr>)\<rparr>"

definition demo_heap :: heap where
  "demo_heap = \<lparr>h_ptr = (\<lambda>a. if a = 0x100 then 0x1000 else if a = 0x1000 then 0x100 else 0), h_size = (\<lambda>a. if a = 0x1000 then 512 else 0), freep = 0x100\<rparr>"

lemma demo_heap_inv: "heap_inv 0x100 (unat (cur_sz demo_user)) (malloc_init 0x100 demo_heap) [0x1000] {}"
  by (simp add: heap_inv_def heap_ok_def malloc_init_def demo_heap_def demo_user_def cur_sz_def block_end_def)


text \<open>C33: \<^verbatim>\<open>free\<close> of a live block returns, and adds just the bytes of that block to the free ones; free blocks that touch have become one, the other
  live blocks keep their sizes and stay apart from each other and from the free list.\<close>

theorem free_correct:
  assumes "heap_inv base hi h L A" "a \<in> A"
  shows "\<exists>h' L'. free (a + sizeof_Header) h = Some h' \<and> heap_inv base hi h' L' (A - {a}) \<and>
    freebytes (h_size h') L' = freebytes (h_size h) L \<union> bytes (h_size h) a \<and> (\<forall>b\<in>A - {a}. h_size h' b = h_size h b)"
  using free_inv [OF assms] by metis

definition demo_heap1 :: heap where
  "demo_heap1 = \<lparr>h_ptr = (\<lambda>a. if a = 0x100 then 0x1000 else if a = 0x1000 then 0x100 else 0), h_size = (\<lambda>a. if a = 0x1000 then 509 else if a = 0x1FE8 then 3 else 0), freep = 0x100\<rparr>"

theorem free_correct_witness:
  "heap_inv 0x100 0x3000 demo_heap1 [0x1000] {0x1FE8} \<and> (\<exists>h'. free 0x1FF0 demo_heap1 = Some h' \<and> h_size h' 0x1000 = 512)"
proof -
  have i: "heap_inv 0x100 0x3000 demo_heap1 [0x1000] {0x1FE8}"
    by (simp add: heap_inv_def heap_ok_def demo_heap1_def bytes_def block_end_def)
  have f: "free_find 0x1FE8 demo_heap1 0x100 = Some 0x1000"
    by (subst free_find.simps; simp add: demo_heap1_def)+
  have "free 0x1FF0 demo_heap1 = Some ((free_down 0x1FE8 0x1000 (free_up 0x1FE8 0x1000 demo_heap1))\<lparr>freep := 0x1000\<rparr>)"
    using f by (simp add: free_def sizeof_Header_def) (simp add: demo_heap1_def)
  moreover have "h_size (free_down 0x1FE8 0x1000 (free_up 0x1FE8 0x1000 demo_heap1)) 0x1000 = 512"
    by (simp add: free_up_def free_down_def demo_heap1_def sizeof_Header_def)
  ultimately show ?thesis using free_correct [OF i, of "0x1FE8"] i by simp
qed

lemma sbrk_negative:
  assumes c: "cur s = Some me" "pkstack (ptable s me) \<noteq> 0" "ppgdir (ptable s me) \<noteq> 0" and sz: "psz (ptable s me) < 2 ^ 31" "psz (ptable s me) \<noteq> 0"
  shows "\<exists>s'. sbrk 0x80000000 s = Some (psz (ptable s me), s') \<and> psz (ptable s' me) = psz (ptable s me)"
proof -
  define p where "p = ptable s me"
  have u: "unat (psz p + 0x80000000) = unat (psz p) + 0x80000000"
    by (subst unat_add_lem [THEN iffD1]) (use sz(1) in \<open>simp_all add: p_def word_less_nat_alt\<close>)
  have "deallocuvm (ppgdir p) (psz p) (psz p + 0x80000000) s = Ok (psz p, s)"
    using u by (simp add: deallocuvm_def word_le_nat_alt)
  moreover have "(of_int (- 0x80000000) :: u32) = 0x80000000" by simp
  ultimately have g: "growproc (- 0x80000000) s = bind_res (switchuvm (Some (pkstack p, ppgdir p)) (upd_proc me (\<lambda>q. q\<lparr>psz := psz p\<rparr>) s)) (\<lambda>s. Ok (0, s))"
    using c(1) sz(2) unfolding growproc_def Let_def p_def by (simp only: option.case) simp
  obtain s' where w: "switchuvm (Some (pkstack p, ppgdir p)) (upd_proc me (\<lambda>q. q\<lparr>psz := psz p\<rparr>) s) = Ok s'"
    using c(2,3) by (simp add: switchuvm_def p_def)
  have "psz (ptable s' me) = psz p" using switchuvm_procs [OF w] by (simp add: upd_proc_def)
  moreover have "sint (0x80000000 :: u32) = - 0x80000000" by simp
  ultimately show ?thesis using c(1) g w by (auto simp: sbrk_def p_def)
qed



end
