(* ===== verification/Mp.thy ===== *)
theory Mp
  imports Kalloc
begin

text \<open>
  The search for the processors (\<^verbatim>\<open>mp.c\<close>, \<^verbatim>\<open>mp.h\<close>): the floating pointer structure that the firmware leaves in low memory, the
  configuration table it points to, both protected by a checksum, and the table's entries. Both loops follow pointers, so they are partial functions.
  On a table of known entries the loop ends and has recorded the processors in the order of the table; on an entry of another type it never ends.
\<close>

section \<open>Checksums and search (mp.c)\<close>

definition NCPU :: nat where "NCPU = 8"

fun sum_loop :: "nat \<Rightarrow> u32 \<Rightarrow> memory \<Rightarrow> int \<Rightarrow> int" where
  "sum_loop 0 addr m s = s"
| "sum_loop (Suc n) addr m s = sum_loop n (addr + 1) m (s + uint (m addr))"

definition sum_bytes :: "u32 \<Rightarrow> nat \<Rightarrow> memory \<Rightarrow> u8" where
  "sum_bytes addr len m = word_of_int (sum_loop len addr m 0)"

definition sizeof_mp :: nat where "sizeof_mp = 16"
definition sizeof_mpconf :: nat where "sizeof_mpconf = 44"
definition sizeof_mpproc :: nat where "sizeof_mpproc = 20"
definition sizeof_mpioapic :: nat where "sizeof_mpioapic = 8"

text \<open>\<^verbatim>\<open>"_MP_"\<close> and \<^verbatim>\<open>"PCMP"\<close>; \<open>memcmp\<close> with a constant string compares the bytes.\<close>

definition sig_mp :: "u8 list" where "sig_mp = [0x5f, 0x4d, 0x50, 0x5f]"
definition sig_pcmp :: "u8 list" where "sig_pcmp = [0x50, 0x43, 0x4d, 0x50]"

definition is_mp :: "memory \<Rightarrow> u32 \<Rightarrow> bool" where
  "is_mp m p \<longleftrightarrow> bytes_at m p 4 = sig_mp \<and> sum_bytes p sizeof_mp m = 0"

partial_function (option) mpsearch1_loop :: "memory \<Rightarrow> u32 \<Rightarrow> u32 \<Rightarrow> u32 option" where
  "mpsearch1_loop m p e = (if p < e then if is_mp m p then Some p else mpsearch1_loop m (p + of_nat sizeof_mp) e else Some 0)"

definition mpsearch1 :: "memory \<Rightarrow> u32 \<Rightarrow> nat \<Rightarrow> u32 option" where
  "mpsearch1 m a len = (let addr = P2V a in mpsearch1_loop m addr (addr + of_nat len))"

definition mpsearch :: "memory \<Rightarrow> u32 option" where
  "mpsearch m =
     (let bda = P2V 0x400;
          p = push_bit 4 (push_bit 8 (ucast (m (bda + 0x0F))) OR ucast (m (bda + 0x0E))) in
      case (if p \<noteq> 0 then mpsearch1 m p 1024
            else mpsearch1 m ((push_bit 8 (ucast (m (bda + 0x14))) OR ucast (m (bda + 0x13))) * 1024 - 1024) 1024) of
        None \<Rightarrow> None
      | Some mp \<Rightarrow> if mp \<noteq> 0 then Some mp else mpsearch1 m 0xF0000 0x10000)"

section \<open>The configuration table\<close>

text \<open>The fields of \<^verbatim>\<open>struct mp\<close> and \<^verbatim>\<open>struct mpconf\<close> at their offsets.\<close>

definition load16 :: "memory \<Rightarrow> u32 \<Rightarrow> u16" where
  "load16 m a = of_le16 [m a, m (a + 1)]"

definition mp_physaddr :: "memory \<Rightarrow> u32 \<Rightarrow> u32" where "mp_physaddr m p = load32 m (p + 4)"
definition mp_imcrp :: "memory \<Rightarrow> u32 \<Rightarrow> u8" where "mp_imcrp m p = m (p + 12)"
definition conf_length :: "memory \<Rightarrow> u32 \<Rightarrow> u16" where "conf_length m c = load16 m (c + 4)"
definition conf_version :: "memory \<Rightarrow> u32 \<Rightarrow> u8" where "conf_version m c = m (c + 6)"
definition conf_lapicaddr :: "memory \<Rightarrow> u32 \<Rightarrow> u32" where "conf_lapicaddr m c = load32 m (c + 36)"

text \<open>The pair of the floating pointer and the table, or null.\<close>

definition mpconfig :: "memory \<Rightarrow> (u32 \<times> u32) option option" where
  "mpconfig m =
     (case mpsearch m of
        None \<Rightarrow> None
      | Some mp \<Rightarrow> Some (
          if mp = 0 \<or> mp_physaddr m mp = 0 then None
          else let conf = P2V (mp_physaddr m mp) in
            if bytes_at m conf 4 \<noteq> sig_pcmp then None
            else if conf_version m conf \<noteq> 1 \<and> conf_version m conf \<noteq> 4 then None
            else if sum_bytes conf (unat (conf_length m conf)) m \<noteq> 0 then None
            else Some (mp, conf)))"

section \<open>The entries (mpinit)\<close>

record mpst =
  cpu_apicid :: "nat \<Rightarrow> u8"
  ncpu :: nat
  ioapicid :: u8
  lapic :: u32
  outs :: "(u16 \<times> u8) list"

definition add_cpu :: "u8 \<Rightarrow> mpst \<Rightarrow> mpst" where
  "add_cpu i st = (if ncpu st < NCPU then st\<lparr>cpu_apicid := (cpu_apicid st)(ncpu st := i), ncpu := ncpu st + 1\<rparr> else st)"

text \<open>In the \<^verbatim>\<open>default\<close> case \<^verbatim>\<open>break\<close> leaves the \<^verbatim>\<open>switch\<close>, and \<^verbatim>\<open>p\<close> stays where it is.\<close>

partial_function (option) mp_entries :: "memory \<Rightarrow> u32 \<Rightarrow> u32 \<Rightarrow> bool \<Rightarrow> mpst \<Rightarrow> (bool \<times> mpst) option" where
  "mp_entries m p e ismp st =
     (if p < e
      then if m p = 0 then mp_entries m (p + of_nat sizeof_mpproc) e ismp (add_cpu (m (p + 1)) st)
           else if m p = 2 then mp_entries m (p + of_nat sizeof_mpioapic) e ismp (st\<lparr>ioapicid := m (p + 1)\<rparr>)
           else if m p = 1 \<or> m p = 3 \<or> m p = 4 then mp_entries m (p + 8) e ismp st
           else mp_entries m p e False st
      else Some (ismp, st))"

text \<open>\<open>imcr\<close> is what \<^verbatim>\<open>inb(0x23)\<close> reads.\<close>

definition mpinit :: "u8 \<Rightarrow> memory \<Rightarrow> mpst \<Rightarrow> mpst res option" where
  "mpinit imcr m st =
     (case mpconfig m of
        None \<Rightarrow> None
      | Some None \<Rightarrow> Some (panic ''Expect to run on an SMP'')
      | Some (Some (mp, conf)) \<Rightarrow>
          (case mp_entries m (conf + of_nat sizeof_mpconf) (conf + ucast (conf_length m conf)) True (st\<lparr>lapic := conf_lapicaddr m conf\<rparr>) of
             None \<Rightarrow> None
           | Some (ismp, st) \<Rightarrow> Some (
               if \<not> ismp then panic ''Didn't find a suitable machine''
               else Ok (if mp_imcrp m mp \<noteq> 0 then st\<lparr>outs := outs st @ [(0x22, 0x70), (0x23, imcr OR 1)]\<rparr> else st))))"

section \<open>Tables of known entries\<close>

datatype mpentry = Eproc u8 | Eioapic u8 | Eother u8

fun entry_size :: "mpentry \<Rightarrow> nat" where
  "entry_size (Eproc i) = sizeof_mpproc"
| "entry_size (Eioapic i) = sizeof_mpioapic"
| "entry_size (Eother k) = 8"

fun entry_at :: "memory \<Rightarrow> u32 \<Rightarrow> mpentry \<Rightarrow> bool" where
  "entry_at m p (Eproc i) \<longleftrightarrow> m p = 0 \<and> m (p + 1) = i"
| "entry_at m p (Eioapic i) \<longleftrightarrow> m p = 2 \<and> m (p + 1) = i"
| "entry_at m p (Eother k) \<longleftrightarrow> m p = k \<and> k \<in> {1, 3, 4}"

fun table_at :: "memory \<Rightarrow> u32 \<Rightarrow> mpentry list \<Rightarrow> bool" where
  "table_at m p [] \<longleftrightarrow> True"
| "table_at m p (x # xs) \<longleftrightarrow> entry_at m p x \<and> table_at m (p + of_nat (entry_size x)) xs"

definition table_size :: "mpentry list \<Rightarrow> nat" where
  "table_size xs = sum_list (map entry_size xs)"

text \<open>What a table means: its processors, as many as there is room for, and its last I/O APIC.\<close>

definition procs_of :: "mpentry list \<Rightarrow> u8 list" where
  "procs_of xs = [i. Eproc i \<leftarrow> xs]"

definition ioapics_of :: "mpentry list \<Rightarrow> u8 list" where
  "ioapics_of xs = [i. Eioapic i \<leftarrow> xs]"

fun record_entry :: "mpst \<Rightarrow> mpentry \<Rightarrow> mpst" where
  "record_entry st (Eproc i) = add_cpu i st"
| "record_entry st (Eioapic i) = st\<lparr>ioapicid := i\<rparr>"
| "record_entry st (Eother k) = st"

lemma entry_size_pos: "0 < entry_size x"
  by (cases x) (simp_all add: sizeof_mpproc_def sizeof_mpioapic_def)

lemma mp_entries_step:
  assumes "entry_at m p x" "p < e"
  shows "mp_entries m p e ismp st = mp_entries m (p + of_nat (entry_size x)) e ismp (record_entry st x)"
  using assms by (cases x; subst mp_entries.simps) auto

lemma mp_entries_table:
  assumes "table_at m p xs" "unat p + table_size xs < 2 ^ 32"
  shows "mp_entries m p (p + of_nat (table_size xs)) ismp st = Some (ismp, foldl record_entry st xs)"
  using assms
proof (induction xs arbitrary: p st)
  case Nil
  show ?case by (subst mp_entries.simps) (simp add: table_size_def)
next
  case (Cons x xs)
  define q where "q = p + of_nat (entry_size x)"
  have ts: "table_size (x # xs) = entry_size x + table_size xs" by (simp add: table_size_def)
  have q: "unat q = unat p + entry_size x" unfolding q_def by (subst unat_add_no_wrap) (use Cons.prems(2) ts in \<open>simp_all add: unat_of_nat_small\<close>)
  have e: "p + of_nat (table_size (x # xs)) = q + of_nat (table_size xs)" by (simp add: ts q_def)
  have "unat (q + of_nat (table_size xs)) = unat q + table_size xs" by (subst unat_add_no_wrap) (use Cons.prems(2) ts q in \<open>simp_all add: unat_of_nat_small\<close>)
  then have "p < q + of_nat (table_size xs)" using q entry_size_pos [of x] by (simp add: word_less_nat_alt)
  then have "mp_entries m p (p + of_nat (table_size (x # xs))) ismp st = mp_entries m q (q + of_nat (table_size xs)) ismp (record_entry st x)"
    unfolding e q_def using Cons.prems(1) by (intro mp_entries_step) simp_all
  also have "\<dots> = Some (ismp, foldl record_entry (record_entry st x) xs)"
    by (rule Cons.IH) (use Cons.prems ts q in \<open>simp_all add: q_def\<close>)
  finally show ?case by simp
qed

text \<open>What the recorded state says of the table.\<close>

lemma procs_of_simps [simp]: "procs_of [] = []" "procs_of (Eproc i # xs) = i # procs_of xs" "procs_of (Eioapic i # xs) = procs_of xs" "procs_of (Eother k # xs) = procs_of xs"
  by (simp_all add: procs_of_def)

lemma ioapics_of_simps [simp]: "ioapics_of [] = []" "ioapics_of (Eproc i # xs) = ioapics_of xs" "ioapics_of (Eioapic i # xs) = i # ioapics_of xs" "ioapics_of (Eother k # xs) = ioapics_of xs"
  by (simp_all add: ioapics_of_def)

lemma record_rest [simp]: "lapic (foldl record_entry st xs) = lapic st" "outs (foldl record_entry st xs) = outs st"
  by (induction xs arbitrary: st) (auto simp: add_cpu_def elim: record_entry.elims split: mpentry.splits, (case_tac a; simp add: add_cpu_def)+)

lemma record_ioapic: "ioapicid (foldl record_entry st xs) = (if ioapics_of xs = [] then ioapicid st else last (ioapics_of xs))"
proof (induction xs arbitrary: st)
  case (Cons x xs)
  then show ?case by (cases x) (auto simp: add_cpu_def)
qed simp

lemma record_cpus:
  assumes "ncpu st \<le> NCPU"
  shows "ncpu (foldl record_entry st xs) = min NCPU (ncpu st + length (procs_of xs)) \<and>
    (\<forall>k. cpu_apicid (foldl record_entry st xs) k =
       (if ncpu st \<le> k \<and> k < min NCPU (ncpu st + length (procs_of xs)) then procs_of xs ! (k - ncpu st) else cpu_apicid st k))"
  using assms
proof (induction xs arbitrary: st)
  case (Cons x xs)
  show ?case
  proof (cases x)
    case (Eproc i)
    show ?thesis
    proof (cases "ncpu st < NCPU")
      case True
      define st' where "st' = add_cpu i st"
      have s: "ncpu st' = ncpu st + 1" "cpu_apicid st' = (cpu_apicid st)(ncpu st := i)" using True by (simp_all add: st'_def add_cpu_def)
      then have "ncpu st' \<le> NCPU" using True by simp
      then show ?thesis using Cons.IH [of st'] True by (auto simp: Eproc st'_def [symmetric] s nth_Cons' less_Suc_eq_le)
    next
      case False
      then show ?thesis using Cons.prems Cons.IH [of st] by (auto simp: Eproc add_cpu_def)
    qed
  qed (use Cons.prems Cons.IH in simp_all)
qed auto

section \<open>Termination of the search\<close>

lemma mpsearch1_loop_ends:
  "unat e < 2 ^ 32 - 16 \<Longrightarrow> \<exists>q. mpsearch1_loop m p e = Some q \<and> (q = 0 \<or> is_mp m q)"
proof (induction "unat e - unat p" arbitrary: p rule: less_induct)
  case less
  show ?case
  proof (cases "p < e \<and> \<not> is_mp m p")
    case True
    have u: "unat (p + of_nat sizeof_mp) = unat p + 16"
      by (subst unat_add_no_wrap) (use True less.prems in \<open>simp_all add: sizeof_mp_def word_less_nat_alt\<close>)
    have "mpsearch1_loop m p e = mpsearch1_loop m (p + of_nat sizeof_mp) e" using True by (subst mpsearch1_loop.simps) simp
    moreover have "unat e - unat (p + of_nat sizeof_mp) < unat e - unat p" using u True by (simp add: word_less_nat_alt diff_less_mono2)
    ultimately show ?thesis using less.hyps [of "p + of_nat sizeof_mp"] less.prems by simp
  next
    case False
    then show ?thesis by (subst mpsearch1_loop.simps) auto
  qed
qed

lemma mpsearch1_ends:
  "unat (P2V a) + len < 2 ^ 32 - 16 \<Longrightarrow> \<exists>q. mpsearch1 m a len = Some q \<and> (q = 0 \<or> is_mp m q)"
proof -
  assume a: "unat (P2V a) + len < 2 ^ 32 - 16"
  have "unat (P2V a + of_nat len) = unat (P2V a) + len" by (subst unat_add_no_wrap) (use a in \<open>simp_all add: unat_of_nat_small\<close>)
  then show ?thesis unfolding mpsearch1_def Let_def using mpsearch1_loop_ends [of "P2V a + of_nat len" m "P2V a"] a by simp
qed

lemma P2V_low: "unat a < 0x7FFF0000 \<Longrightarrow> unat (P2V a) = unat a + 0x80000000"
  unfolding P2V_def KERNBASE_def by (subst unat_add_no_wrap) simp_all

text \<open>The segment of the extended BIOS data area is a 16-bit number.\<close>

lemma two_bytes: "unat (push_bit 8 (ucast (b :: u8)) OR ucast (c :: u8) :: u32) < 2 ^ 16"
proof -
  define x where "x = (push_bit 8 (ucast b) OR ucast c :: u32)"
  have "x = take_bit 16 x" unfolding x_def
    by (rule bit_word_eqI) (auto simp: bit_simps dest: bit_imp_le_length)
  then have "unat x = take_bit 16 (unat x)" by (metis unsigned_take_bit_eq)
  then show ?thesis unfolding x_def [symmetric] using take_bit_nat_less_exp [of 16 "unat x"] by simp
qed

lemma mpsearch_ends: "\<exists>q. mpsearch m = Some q \<and> (q = 0 \<or> is_mp m q)"
proof -
  define x y where "x = (push_bit 8 (ucast (m (P2V 0x400 + 0x0F))) OR ucast (m (P2V 0x400 + 0x0E)) :: u32)"
    and "y = (push_bit 8 (ucast (m (P2V 0x400 + 0x14))) OR ucast (m (P2V 0x400 + 0x13)) :: u32)"
  have b: "unat x < 2 ^ 16" "unat y < 2 ^ 16" unfolding x_def y_def by (rule two_bytes)+
  have "unat (push_bit 4 x) = unat x * 16" unfolding push_bit_eq_mult by (subst unat_mult_lem [THEN iffD1]) (use b in simp_all)
  then have x: "\<exists>q. mpsearch1 m (push_bit 4 x) 1024 = Some q \<and> (q = 0 \<or> is_mp m q)"
    using b by (intro mpsearch1_ends) (simp add: P2V_low)
  have y: "\<exists>q. mpsearch1 m (y * 1024 - 1024) 1024 = Some q \<and> (q = 0 \<or> is_mp m q)"
  proof (cases "y = 0")
    case True
    then show ?thesis by (intro mpsearch1_ends) (simp add: P2V_def KERNBASE_def)
  next
    case False
    then have "1 \<le> unat y" by (simp add: unat_gt_0 Suc_le_eq)
    moreover have m: "unat (y * 1024) = unat y * 1024" by (subst unat_mult_lem [THEN iffD1]) (use b in simp_all)
    ultimately have "unat (y * 1024 - 1024) = unat y * 1024 - 1024" by (subst unat_sub_le) (simp_all add: word_le_nat_alt)
    then show ?thesis using b by (intro mpsearch1_ends) (simp add: P2V_low)
  qed
  have z: "\<exists>q. mpsearch1 m 0xF0000 0x10000 = Some q \<and> (q = 0 \<or> is_mp m q)"
    by (intro mpsearch1_ends) (simp add: P2V_low)
  show ?thesis
    unfolding mpsearch_def Let_def x_def [symmetric] y_def [symmetric] using x y z by (cases "push_bit 4 x = 0") auto
qed

section \<open>Properties\<close>

text \<open>C30: where the firmware's configuration table has only entries of the known types, \<^verbatim>\<open>mpinit\<close> ends and has recorded the identifiers of the processors in the
  order of the table, as many as \<^verbatim>\<open>cpus\<close> has room for, the last I/O APIC and the address of the local APIC.\<close>

theorem mpinit_table:
  assumes conf: "mpconfig m = Some (Some (mp, conf))" and xs: "table_at m (conf + 44) xs"
    and len: "unat (conf_length m conf) = 44 + table_size xs" "unat conf + 44 + table_size xs < 2 ^ 32" and st: "ncpu st = 0"
  shows "\<exists>st'. mpinit imcr m st = Some (Ok st') \<and> ncpu st' = min NCPU (length (procs_of xs)) \<and> (\<forall>k<ncpu st'. cpu_apicid st' k = procs_of xs ! k) \<and>
    ioapicid st' = (if ioapics_of xs = [] then ioapicid st else last (ioapics_of xs)) \<and> lapic st' = conf_lapicaddr m conf"
proof -
  have c: "ucast (conf_length m conf) = (of_nat (44 + table_size xs) :: u32)" using len(1) by (metis of_nat_unat)
  have p: "unat (conf + 44) = unat conf + 44" by (subst unat_add_no_wrap) (use len(2) in simp_all)
  have e: "mp_entries m (conf + of_nat sizeof_mpconf) (conf + ucast (conf_length m conf)) True (st\<lparr>lapic := conf_lapicaddr m conf\<rparr>) =
      Some (True, foldl record_entry (st\<lparr>lapic := conf_lapicaddr m conf\<rparr>) xs)"
    using mp_entries_table [OF xs, of True "st\<lparr>lapic := conf_lapicaddr m conf\<rparr>"] p len(2) by (simp add: c sizeof_mpconf_def add.assoc)
  show ?thesis
    using record_cpus [of "st\<lparr>lapic := conf_lapicaddr m conf\<rparr>" xs] st
    by (simp add: mpinit_def conf e record_ioapic)
qed

text \<open>A machine with two processors.\<close>

definition demo_mp :: "u8 list" where "demo_mp = [95, 77, 80, 95, 0, 16, 9, 0, 1, 4, 7, 0, 128, 0, 0, 0]"
definition demo_conf :: "u8 list" where
  "demo_conf = [80, 67, 77, 80, 92, 0, 4, 123] @ replicate 28 0 @ [0, 0, 224, 254] @ replicate 4 0 @ [0, 7] @ replicate 18 0 @ [0, 9] @ replicate 18 0 @ [2, 5] @ replicate 6 0"

definition demo_mem :: memory where
  "demo_mem a =
     (if a = 0x8000040F then 0x90
      else if 0x80090000 \<le> a \<and> a < 0x80090010 then demo_mp ! unat (a - 0x80090000)
      else if 0x80091000 \<le> a \<and> a < 0x8009105C then demo_conf ! unat (a - 0x80091000)
      else 0)"

declare mpsearch1_loop.simps [code]

lemma demo_mem_conf: "mpconfig demo_mem = Some (Some (0x80090000, 0x80091000))"
  by code_simp

lemma demo_mem_table: "table_at demo_mem (0x80091000 + 44) [Eproc 7, Eproc 9, Eioapic 5] \<and> conf_length demo_mem 0x80091000 = 92"
  by code_simp

definition demo_mpst :: mpst where "demo_mpst = \<lparr>cpu_apicid = (\<lambda>_. 0), ncpu = 0, ioapicid = 0, lapic = 0, outs = []\<rparr>"

theorem mpinit_table_witness:
  "mpconfig demo_mem = Some (Some (0x80090000, 0x80091000)) \<and>
   (\<exists>st'. mpinit 0 demo_mem demo_mpst = Some (Ok st') \<and> ncpu st' = 2 \<and> cpu_apicid st' 0 = 7 \<and> cpu_apicid st' 1 = 9 \<and> ioapicid st' = 5)"
proof -
  have "unat (conf_length demo_mem 0x80091000) = 44 + table_size [Eproc 7, Eproc 9, Eioapic 5]"
    using demo_mem_table by (simp add: table_size_def sizeof_mpproc_def sizeof_mpioapic_def)
  moreover have "unat (0x80091000 :: u32) + 44 + table_size [Eproc 7, Eproc 9, Eioapic 5] < 2 ^ 32"
    by (simp add: table_size_def sizeof_mpproc_def sizeof_mpioapic_def)
  ultimately obtain st' where "mpinit 0 demo_mem demo_mpst = Some (Ok st')" "ncpu st' = 2" "\<forall>k<2. cpu_apicid st' k = [7, 9] ! k" "ioapicid st' = 5"
    using mpinit_table [OF demo_mem_conf conjunct1 [OF demo_mem_table], of demo_mpst 0] by (auto simp: demo_mpst_def NCPU_def)
  then show ?thesis using demo_mem_conf by (auto simp: All_less_Suc numeral_2_eq_2)
qed

lemma mp_entries_known:
  assumes "mp_entries m p e ismp st = Some r"
  shows "p < e \<longrightarrow> m p \<in> {0, 1, 2, 3, 4}"
proof (rule mp_entries.raw_induct [OF _ assms, where P = "\<lambda>m p e ismp st r. p < e \<longrightarrow> m p \<in> {0, 1, 2, 3, 4}"], goal_cases)
  case (1 f m p e ismp st r)
  show ?case
  proof (rule impI, rule ccontr)
    assume p: "p < e" "m p \<notin> {0, 1, 2, 3, 4}"
    then have "f m p e False st = Some r" using 1(2) by simp
    then show False using 1(1) [of m p e False st r] p by simp
  qed
qed

lemma mp_entries_prefix:
  assumes "table_at m p xs" "unat p + table_size xs < unat e"
  shows "mp_entries m p e ismp st = mp_entries m (p + of_nat (table_size xs)) e ismp (foldl record_entry st xs)"
  using assms
proof (induction xs arbitrary: p st)
  case (Cons x xs)
  have ts: "table_size (x # xs) = entry_size x + table_size xs" by (simp add: table_size_def)
  have q: "unat (p + of_nat (entry_size x)) = unat p + entry_size x"
    by (subst unat_add_no_wrap) (use Cons.prems(2) ts unat_u32_less [of e] in \<open>simp_all add: unat_of_nat_small\<close>)
  have "p < e" using Cons.prems(2) ts by (simp add: word_less_nat_alt)
  then have "mp_entries m p e ismp st = mp_entries m (p + of_nat (entry_size x)) e ismp (record_entry st x)"
    using Cons.prems(1) by (intro mp_entries_step) simp_all
  also have "\<dots> = mp_entries m (p + of_nat (entry_size x) + of_nat (table_size xs)) e ismp (foldl record_entry (record_entry st x) xs)"
    by (rule Cons.IH) (use Cons.prems ts q in simp_all)
  finally show ?case by (simp add: ts add.assoc)
qed (simp add: table_size_def)

text \<open>C31: an entry of any other type stops the machine without a message: the loop stays at that entry for ever, and the panic that is meant for it is never reached.\<close>

theorem mpinit_unknown_entry:
  assumes conf: "mpconfig m = Some (Some (mp, conf))" and xs: "table_at m (conf + 44) xs"
    and len: "44 + table_size xs < unat (conf_length m conf)" "unat conf + unat (conf_length m conf) < 2 ^ 32"
    and other: "4 < m (conf + 44 + of_nat (table_size xs))"
  shows "mpinit imcr m st = None"
proof -
  define e where "e = (conf + ucast (conf_length m conf) :: u32)"
  have c: "(ucast (conf_length m conf) :: u32) = of_nat (unat (conf_length m conf))" by (simp only: of_nat_unat)
  have cu: "unat (ucast (conf_length m conf) :: u32) = unat (conf_length m conf)"
    unfolding c by (rule unat_of_nat_small) (use len(2) in simp)
  have ue: "unat e = unat conf + unat (conf_length m conf)"
    unfolding e_def by (subst unat_add_no_wrap) (use len(2) in \<open>simp_all add: cu\<close>)
  have p: "unat (conf + 44) = unat conf + 44" by (subst unat_add_no_wrap) (use len in simp_all)
  define q where "q = conf + 44 + of_nat (table_size xs)"
  have "unat q = unat conf + 44 + table_size xs" unfolding q_def by (subst unat_add_no_wrap) (use len p in \<open>simp_all add: unat_of_nat_small\<close>)
  then have q: "q < e" "m q \<notin> {0, 1, 2, 3, 4}" using len(1) ue other by (auto simp: q_def [symmetric] word_less_nat_alt)
  have "mp_entries m (conf + 44) e True st' = None" for st'
  proof -
    have "mp_entries m q e True (foldl record_entry st' xs) = None"
      using mp_entries_known [of m q e True "foldl record_entry st' xs"] q by (cases "mp_entries m q e True (foldl record_entry st' xs)") simp_all
    then show ?thesis using mp_entries_prefix [OF xs, of e True st'] p len(1) ue by (simp add: q_def)
  qed
  then show ?thesis by (simp add: mpinit_def conf sizeof_mpconf_def e_def)
qed

text \<open>The same machine with an entry of type 7 in the place of the I/O APIC.\<close>

definition demo_mem7 :: memory where "demo_mem7 = demo_mem(0x80091054 := 7, 0x80091055 := 0)"

lemma demo_mem7_conf: "mpconfig demo_mem7 = Some (Some (0x80090000, 0x80091000))"
  by code_simp

lemma demo_mem7_table: "table_at demo_mem7 (0x80091000 + 44) [Eproc 7, Eproc 9] \<and> conf_length demo_mem7 0x80091000 = 92 \<and>
    table_size [Eproc 7, Eproc 9] = 40 \<and> demo_mem7 (0x80091000 + 44 + of_nat 40) = 7"
  by code_simp

theorem mpinit_unknown_entry_witness: "mpconfig demo_mem7 = Some (Some (0x80090000, 0x80091000)) \<and> mpinit 0 demo_mem7 demo_mpst = None"
  using mpinit_unknown_entry [OF demo_mem7_conf, of "[Eproc 7, Eproc 9]" 0 demo_mpst] demo_mem7_conf demo_mem7_table by simp

end
