(* ===== verification/Ide.thy ===== *)
theory Ide
  imports Bio
begin

text \<open>
  The disk driver (\<^verbatim>\<open>ide.c\<close>): a queue of buffers linked through \<^verbatim>\<open>qnext\<close>, whose first one the controller is working on, requests that append to it and
  the interrupt handler that finishes its first one and starts the next. What the driver sends to the controller's ports is a trace; what it reads from the
  status port is a list that the model consumes. The data the controller delivers is a parameter, a function of the trace, with the hypothesis that a disk answers a read
  with the block last written there. Under it, an interrupt does to the buffer and the disk exactly what \<^verbatim>\<open>iderw\<close> of the memory disk does at once, in the order of the
  requests, and every request is done after as many interrupts as there are buffers up to it in the queue.
\<close>

section \<open>State and ports (ide.c)\<close>

definition SECTOR_SIZE :: nat where "SECTOR_SIZE = 512"
definition IDE_BSY :: u8 where "IDE_BSY = 0x80"
definition IDE_DRDY :: u8 where "IDE_DRDY = 0x40"
definition IDE_DF :: u8 where "IDE_DF = 0x20"
definition IDE_ERR :: u8 where "IDE_ERR = 0x01"
definition IDE_CMD_READ :: u8 where "IDE_CMD_READ = 0x20"
definition IDE_CMD_WRITE :: u8 where "IDE_CMD_WRITE = 0x30"
definition IDE_CMD_RDMUL :: u8 where "IDE_CMD_RDMUL = 0xc4"
definition IDE_CMD_WRMUL :: u8 where "IDE_CMD_WRMUL = 0xc5"
definition FSSIZE :: u32 where "FSSIZE = 1000"

datatype io = Outb u16 u8 | Outsl block

record ide =
  ibufs :: "nat \<Rightarrow> buf"
  qnext :: "nat \<Rightarrow> nat option"
  idequeue :: "nat option"
  havedisk1 :: bool
  trace :: "io list"
  status :: "u8 list"
  wakes :: "nat list"

definition outb :: "u16 \<Rightarrow> u8 \<Rightarrow> ide \<Rightarrow> ide" where
  "outb p v s = s\<lparr>trace := trace s @ [Outb p v]\<rparr>"

text \<open>Reading the status until the disk is ready; \<open>None\<close>: it never was.\<close>

fun idewait_loop :: "u8 list \<Rightarrow> (u8 \<times> u8 list) option" where
  "idewait_loop [] = None"
| "idewait_loop (r # rs) = (if r AND (IDE_BSY OR IDE_DRDY) \<noteq> IDE_DRDY then idewait_loop rs else Some (r, rs))"

definition idewait :: "bool \<Rightarrow> ide \<Rightarrow> (int \<times> ide) res" where
  "idewait checkerr s =
     (case idewait_loop (status s) of
        None \<Rightarrow> Err Hang
      | Some (r, rs) \<Rightarrow> Ok (if checkerr \<and> r AND (IDE_DF OR IDE_ERR) \<noteq> 0 then - 1 else 0, s\<lparr>status := rs\<rparr>))"

text \<open>The thousand looks at the status of disk 1.\<close>

fun ide_probe :: "nat \<Rightarrow> u8 list \<Rightarrow> (bool \<times> u8 list) res" where
  "ide_probe 0 rs = Ok (False, rs)"
| "ide_probe (Suc n) [] = Err Hang"
| "ide_probe (Suc n) (r # rs) = (if r \<noteq> 0 then Ok (True, rs) else ide_probe n rs)"

definition ideinit :: "ide \<Rightarrow> ide res" where
  "ideinit s =
     bind_res (idewait False s) (\<lambda>(_, s).
       let s = outb 0x1f6 (0xe0 OR push_bit 4 1) s in
       bind_res (ide_probe 1000 (status s)) (\<lambda>(found, rs).
         Ok (outb 0x1f6 (0xe0 OR push_bit 4 0) (s\<lparr>havedisk1 := havedisk1 s \<or> found, status := rs\<rparr>))))"

section \<open>Requests and interrupts\<close>

definition sector_per_block :: nat where "sector_per_block = BSIZE div SECTOR_SIZE"

definition read_cmd :: u8 where "read_cmd = (if sector_per_block = 1 then IDE_CMD_READ else IDE_CMD_RDMUL)"
definition write_cmd :: u8 where "write_cmd = (if sector_per_block = 1 then IDE_CMD_WRITE else IDE_CMD_WRMUL)"

definition sector_of :: "buf \<Rightarrow> u32" where "sector_of b = blockno b * of_nat sector_per_block"

definition ide_command :: "buf \<Rightarrow> io list" where
  "ide_command b =
     (let sector = sector_of b in
      [Outb 0x3f6 0, Outb 0x1f2 (of_nat sector_per_block), Outb 0x1f3 (ucast (sector AND 0xff)), Outb 0x1f4 (ucast (drop_bit 8 sector AND 0xff)),
       Outb 0x1f5 (ucast (drop_bit 16 sector AND 0xff)), Outb 0x1f6 (ucast (0xe0 OR push_bit 4 (bdev b AND 1) OR (drop_bit 24 sector AND 0x0f)))] @
      (if flags b AND B_DIRTY \<noteq> 0 then [Outb 0x1f7 write_cmd, Outsl (bdata b)] else [Outb 0x1f7 read_cmd]))"

definition idestart :: "nat option \<Rightarrow> ide \<Rightarrow> ide res" where
  "idestart p s =
     (case p of
        None \<Rightarrow> panic ''idestart''
      | Some i \<Rightarrow>
          let b = ibufs s i in
          if FSSIZE \<le> blockno b then panic ''incorrect blockno''
          else if 7 < sector_per_block then panic ''idestart''
          else bind_res (idewait False s) (\<lambda>(_, s). Ok (s\<lparr>trace := trace s @ ide_command b\<rparr>)))"

text \<open>\<open>insl\<close> is the block the controller delivers after the trace.\<close>

definition ideintr :: "(io list \<Rightarrow> block) \<Rightarrow> ide \<Rightarrow> ide res" where
  "ideintr insl s =
     (case idequeue s of
        None \<Rightarrow> Ok s
      | Some i \<Rightarrow>
          let s = s\<lparr>idequeue := qnext s i\<rparr> in
          bind_res (if flags (ibufs s i) AND B_DIRTY = 0
                    then bind_res (idewait True s) (\<lambda>(r, s).
                      Ok (if 0 \<le> r then s\<lparr>ibufs := (ibufs s)(i := (ibufs s i)\<lparr>bdata := insl (trace s)\<rparr>)\<rparr> else s))
                    else Ok s) (\<lambda>s.
            let s = s\<lparr>ibufs := (ibufs s)(i := (ibufs s i)\<lparr>flags := (flags (ibufs s i) OR B_VALID) AND NOT B_DIRTY\<rparr>), wakes := wakes s @ [i]\<rparr> in
            if idequeue s \<noteq> None then idestart (idequeue s) s else Ok s))"

text \<open>The last buffer of the queue.\<close>

partial_function (option) ide_tail :: "(nat \<Rightarrow> nat option) \<Rightarrow> nat \<Rightarrow> nat option" where
  "ide_tail nx i = (case nx i of None \<Rightarrow> Some i | Some j \<Rightarrow> ide_tail nx j)"

definition ide_append :: "nat \<Rightarrow> ide \<Rightarrow> ide res" where
  "ide_append i s =
     (let s = s\<lparr>qnext := (qnext s)(i := None)\<rparr> in
      case idequeue s of
        None \<Rightarrow> Ok (s\<lparr>idequeue := Some i\<rparr>)
      | Some j \<Rightarrow> (case ide_tail (qnext s) j of None \<Rightarrow> Err Hang | Some k \<Rightarrow> Ok (s\<lparr>qnext := (qnext s)(k := Some i)\<rparr>)))"

definition iderw_done :: "nat \<Rightarrow> ide \<Rightarrow> bool" where
  "iderw_done i s \<longleftrightarrow> flags (ibufs s i) AND (B_VALID OR B_DIRTY) = B_VALID"

text \<open>\<^verbatim>\<open>iderw\<close> by process \<open>me\<close> up to its loop, which sleeps until the buffer is done.\<close>

definition ide_iderw :: "int \<Rightarrow> nat \<Rightarrow> ide \<Rightarrow> ide res" where
  "ide_iderw me i s =
     (let b = ibufs s i in
      if \<not> holdingsleep me (lock b) then panic ''iderw: buf not locked''
      else if iderw_done i s then panic ''iderw: nothing to do''
      else if bdev b \<noteq> 0 \<and> \<not> havedisk1 s then panic ''iderw: ide disk 1 not present''
      else bind_res (ide_append i s) (\<lambda>s. if idequeue s = Some i then idestart (Some i) s else Ok s))"

section \<open>The trace as commands\<close>

text \<open>What the controller makes of a trace: the values of its registers and the blocks of its two disks. Data goes to the block that the registers name.\<close>

definition lba :: "(u16 \<Rightarrow> u8) \<Rightarrow> u32" where
  "lba r = push_bit 24 (ucast (r 0x1f6 AND 0x0f)) OR push_bit 16 (ucast (r 0x1f5)) OR push_bit 8 (ucast (r 0x1f4)) OR ucast (r 0x1f3)"

definition target :: "(u16 \<Rightarrow> u8) \<Rightarrow> bool \<times> u32" where
  "target r = (bit (r 0x1f6) 4, lba r)"

fun ata_step :: "(u16 \<Rightarrow> u8) \<times> (bool \<times> u32 \<Rightarrow> block) \<Rightarrow> io \<Rightarrow> (u16 \<Rightarrow> u8) \<times> (bool \<times> u32 \<Rightarrow> block)" where
  "ata_step (r, c) (Outb p v) = (r(p := v), c)"
| "ata_step (r, c) (Outsl d) = (r, c(target r := d))"

definition ata :: "(bool \<times> u32 \<Rightarrow> block) \<Rightarrow> io list \<Rightarrow> (u16 \<Rightarrow> u8) \<times> (bool \<times> u32 \<Rightarrow> block)" where
  "ata c0 tr = foldl ata_step (\<lambda>_. 0, c0) tr"

definition contents :: "(bool \<times> u32 \<Rightarrow> block) \<Rightarrow> io list \<Rightarrow> bool \<times> u32 \<Rightarrow> block" where
  "contents c0 tr = snd (ata c0 tr)"

definition addressed :: "(bool \<times> u32 \<Rightarrow> block) \<Rightarrow> io list \<Rightarrow> bool \<times> u32" where
  "addressed c0 tr = target (fst (ata c0 tr))"

text \<open>The hypothesis on the controller: it delivers the block that is addressed.\<close>

definition answers :: "(bool \<times> u32 \<Rightarrow> block) \<Rightarrow> (io list \<Rightarrow> block) \<Rightarrow> bool" where
  "answers c0 insl \<longleftrightarrow> (\<forall>tr. insl tr = contents c0 tr (addressed c0 tr))"

definition addr_of :: "buf \<Rightarrow> bool \<times> u32" where
  "addr_of b = (bit (bdev b) 0, blockno b)"

lemma sectors: "sector_per_block = 1" "sector_of b = blockno b" "read_cmd = 0x20" "write_cmd = 0x30"
  by (simp_all add: sector_of_def read_cmd_def write_cmd_def sector_per_block_def BSIZE_def SECTOR_SIZE_def IDE_CMD_READ_def IDE_CMD_WRITE_def)

lemma mask_255: "(0xff :: u32) = mask 8" and mask_15: "(0x0f :: u32) = mask 4" and mask_15': "(0x0f :: u8) = mask 4"
  by (simp_all add: mask_eq_exp_minus_1)

lemma high_bit: "x < 2 ^ 28 \<Longrightarrow> 28 \<le> n \<Longrightarrow> \<not> bit x n" for x :: u32
proof -
  assume x: "x < 2 ^ 28" and n: "28 \<le> n"
  have "unat x < 2 ^ 28" using x by (simp add: word_less_nat_alt)
  then have "take_bit 28 (unat x) = unat x" by (simp add: take_bit_nat_eq_self)
  then have "\<not> bit (unat x) n" using n by (metis bit_take_bit_iff not_le)
  then show ?thesis by (simp add: bit_unsigned_iff)
qed

lemma lba_bytes:
  fixes x y :: u32
  assumes x: "x < 2 ^ 28" and y: "\<And>n. n < 4 \<Longrightarrow> \<not> bit y n"
  shows "push_bit 24 (ucast ((ucast (y OR (drop_bit 24 x AND 0x0f)) :: u8) AND 0x0f)) OR push_bit 16 (ucast (ucast (drop_bit 16 x AND 0xff) :: u8)) OR
      push_bit 8 (ucast (ucast (drop_bit 8 x AND 0xff) :: u8)) OR ucast (ucast (x AND 0xff) :: u8) = (x :: u32)"
proof (rule bit_word_eqI, goal_cases)
  case (1 n)
  consider "n < 8" | "8 \<le> n" "n < 16" | "16 \<le> n" "n < 24" | "24 \<le> n" "n < 28" | "28 \<le> n" by linarith
  then show ?case
    unfolding mask_255 mask_15 mask_15'
  proof cases
    case 5
    then show "bit (push_bit 24 (ucast ((ucast (y OR (drop_bit 24 x AND mask 4)) :: u8) AND mask 4)) OR push_bit 16 (ucast (ucast (drop_bit 16 x AND mask 8) :: u8)) OR
      push_bit 8 (ucast (ucast (drop_bit 8 x AND mask 8) :: u8)) OR ucast (ucast (x AND mask 8) :: u8)) n = bit x n" using 1 high_bit [OF x 5] by (auto simp: bit_simps)
  qed (use 1 y in \<open>auto simp: bit_simps\<close>)
qed

text \<open>The command names the buffer's disk and block, and writes the block where the buffer is dirty.\<close>

lemma command_ata:
  assumes "blockno b < FSSIZE"
  shows "addressed c0 (tr @ ide_command b) = addr_of b"
    "contents c0 (tr @ ide_command b) = (if dirty b then (contents c0 tr)(addr_of b := bdata b) else contents c0 tr)"
proof -
  define y where "y = (0xe0 OR push_bit 4 (bdev b AND 1) :: u32)"
  have y: "\<not> bit y n" if "n < 4" for n
    using that by (auto simp: y_def bit_simps bit_numeral_rec less_Suc_eq numeral_eq_Suc)
  have y4: "bit (ucast (y OR (drop_bit 24 (blockno b) AND 0x0f)) :: u8) 4 = bit (bdev b) 0"
    unfolding mask_15 by (simp add: y_def bit_simps bit_numeral_rec)
  have "blockno b < 2 ^ 28" using assms by (simp add: FSSIZE_def word_less_nat_alt)
  note l = lba_bytes [OF this y]
  obtain r c where rc: "ata c0 tr = (r, c)" by (cases "ata c0 tr")
  show "addressed c0 (tr @ ide_command b) = addr_of b"
    using rc l y4 by (simp add: addressed_def ata_def ide_command_def sectors target_def lba_def addr_of_def y_def Let_def or.assoc)
  show "contents c0 (tr @ ide_command b) = (if dirty b then (contents c0 tr)(addr_of b := bdata b) else contents c0 tr)"
    using rc l y4 by (simp add: contents_def ata_def ide_command_def sectors target_def lba_def addr_of_def y_def Let_def or.assoc)
qed

section \<open>The queue\<close>

fun qpath :: "(nat \<Rightarrow> nat option) \<Rightarrow> nat option \<Rightarrow> nat list \<Rightarrow> bool" where
  "qpath nx p [] \<longleftrightarrow> p = None"
| "qpath nx p (i # is) \<longleftrightarrow> p = Some i \<and> qpath nx (nx i) is"

lemma qpath_upd [simp]: "i \<notin> set q \<Longrightarrow> qpath (nx(i := v)) p q = qpath nx p q"
  by (induction q arbitrary: p) auto

lemma ide_tail_last: "qpath nx (Some i) (i # q) \<Longrightarrow> ide_tail nx i = Some (last (i # q))"
proof (induction q arbitrary: i)
  case Nil
  then show ?case by (subst ide_tail.simps) simp
next
  case (Cons j q)
  then show ?case by (subst ide_tail.simps) simp
qed

lemma qpath_snoc: "qpath nx p q \<Longrightarrow> q \<noteq> [] \<Longrightarrow> distinct q \<Longrightarrow> i \<notin> set q \<Longrightarrow> nx i = None \<Longrightarrow> qpath (nx(last q := Some i)) p (q @ [i])"
proof (induction q arbitrary: p)
  case (Cons j q)
  show ?case
  proof (cases "q = []")
    case True
    then show ?thesis using Cons.prems by simp
  next
    case False
    then have "last q \<noteq> j" using Cons.prems(3) last_in_set [of q] by auto
    then show ?thesis using False Cons by simp
  qed
qed simp

text \<open>The buffers of the queue wait, and the controller has the command of the first one; what that one writes is on the disk.\<close>

definition waits :: "buf \<Rightarrow> bool" where
  "waits b \<longleftrightarrow> flags b AND (B_VALID OR B_DIRTY) \<noteq> B_VALID \<and> blockno b < FSSIZE"

definition ide_inv :: "(bool \<times> u32 \<Rightarrow> block) \<Rightarrow> ide \<Rightarrow> nat list \<Rightarrow> bool" where
  "ide_inv c0 s q \<longleftrightarrow> qpath (qnext s) (idequeue s) q \<and> distinct q \<and> (\<forall>i\<in>set q. waits (ibufs s i)) \<and>
     (q \<noteq> [] \<longrightarrow> (let b = ibufs s (hd q) in addressed c0 (trace s) = addr_of b \<and> (dirty b \<longrightarrow> contents c0 (trace s) (addr_of b) = bdata b)))"

lemma idestart_ok:
  assumes "blockno (ibufs s i) < FSSIZE" "idewait_loop (status s) = Some (r, rs)"
  shows "idestart (Some i) s = Ok (s\<lparr>status := rs, trace := trace s @ ide_command (ibufs s i)\<rparr>)"
  using assms by (simp add: idestart_def idewait_def sectors Let_def linorder_not_le [symmetric])

section \<open>Interrupts\<close>

text \<open>The controller gets ready \<open>k\<close> more times, without an error.\<close>

fun ready :: "nat \<Rightarrow> u8 list \<Rightarrow> bool" where
  "ready 0 rs \<longleftrightarrow> True"
| "ready (Suc k) rs \<longleftrightarrow> (case idewait_loop rs of None \<Rightarrow> False | Some (r, rs') \<Rightarrow> r AND (IDE_DF OR IDE_ERR) = 0 \<and> ready k rs')"

lemma ready_mono: "ready (Suc k) rs \<Longrightarrow> ready k rs"
proof (induction k arbitrary: rs)
  case (Suc k)
  obtain r rs' where "idewait_loop rs = Some (r, rs')" "r AND (IDE_DF OR IDE_ERR) = 0" "ready (Suc k) rs'"
    using Suc.prems ready.simps(2) [of "Suc k" rs] by (cases "idewait_loop rs") auto
  then show ?case using Suc.IH [of rs'] by simp
qed simp

lemma request_inv:
  assumes inv: "ide_inv c0 s q" and i: "i \<notin> set q" "waits (ibufs s i)" "holdingsleep me (lock (ibufs s i))" "bdev (ibufs s i) = 0 \<or> havedisk1 s"
    and rd: "ready (Suc k) (status s)"
  shows "\<exists>s'. ide_iderw me i s = Ok s' \<and> ide_inv c0 s' (q @ [i]) \<and> ibufs s' = ibufs s \<and> wakes s' = wakes s \<and> ready k (status s')"
proof -
  obtain r rs where ready: "idewait_loop (status s) = Some (r, rs)" and rd': "ready k rs" using rd by (auto split: option.splits)
  define b where "b = ibufs s i"
  have g: "ide_iderw me i s = bind_res (ide_append i s) (\<lambda>s. if idequeue s = Some i then idestart (Some i) s else Ok s)"
    using i by (auto simp: ide_iderw_def Let_def iderw_done_def waits_def)
  show ?thesis
  proof (cases q)
    case Nil
    have "ide_append i s = Ok (s\<lparr>qnext := (qnext s)(i := None), idequeue := Some i\<rparr>)"
      using inv by (simp add: ide_append_def ide_inv_def Nil)
    then have "ide_iderw me i s = Ok (s\<lparr>qnext := (qnext s)(i := None), idequeue := Some i, status := rs, trace := trace s @ ide_command b\<rparr>)"
      using g i(2) ready idestart_ok [of "s\<lparr>qnext := (qnext s)(i := None), idequeue := Some i\<rparr>" i r rs] by (simp add: waits_def b_def)
    then show ?thesis using rd' i(2) command_ata [of b c0 "trace s"] by (simp add: ide_inv_def Nil waits_def b_def Let_def)
  next
    case (Cons j q')
    define s1 where "s1 = s\<lparr>qnext := (qnext s)(i := None)\<rparr>"
    have p: "qpath (qnext s1) (Some j) (j # q')" "idequeue s = Some j" using inv i(1) by (auto simp: ide_inv_def Cons s1_def)
    have a: "ide_append i s = Ok (s1\<lparr>qnext := (qnext s1)(last q := Some i)\<rparr>)"
      using p ide_tail_last [OF p(1)] by (simp add: ide_append_def s1_def Cons)
    have "qpath ((qnext s1)(last q := Some i)) (idequeue s) (q @ [i])"
      by (rule qpath_snoc) (use p inv i(1) in \<open>auto simp: Cons ide_inv_def s1_def\<close>)
    moreover have "i \<noteq> j" using i(1) Cons by auto
    ultimately show ?thesis using ready_mono [OF rd] g a inv i(1,2) p(2) by (auto simp: s1_def ide_inv_def Cons Let_def)
  qed
qed

lemma ide_flag_bits:
  fixes f :: u32
  shows "(f OR B_VALID) AND NOT B_DIRTY = (f AND NOT B_DIRTY) OR B_VALID"
    and "f AND B_DIRTY = 0 \<Longrightarrow> f AND NOT B_DIRTY = f"
    and "((f OR B_VALID) AND NOT B_DIRTY) AND (B_VALID OR B_DIRTY) = B_VALID"
proof -
  have v: "bit B_VALID n \<longleftrightarrow> n = 1" and d: "bit B_DIRTY n \<longleftrightarrow> n = 2" for n
  proof -
    have "B_VALID = 2 ^ 1" "B_DIRTY = 2 ^ 2" by (simp_all add: B_VALID_def B_DIRTY_def)
    then show "bit B_VALID n \<longleftrightarrow> n = 1" "bit B_DIRTY n \<longleftrightarrow> n = 2" by (auto simp only: bit_exp_iff possible_bit_word) simp_all
  qed
  note bits = bit_and_iff bit_or_iff bit_not_iff possible_bit_word v d
  show "(f OR B_VALID) AND NOT B_DIRTY = (f AND NOT B_DIRTY) OR B_VALID" by (rule bit_word_eqI) (auto simp: bits)
  show "((f OR B_VALID) AND NOT B_DIRTY) AND (B_VALID OR B_DIRTY) = B_VALID" by (rule bit_word_eqI) (auto simp: bits)
  assume z: "f AND B_DIRTY = 0"
  show "f AND NOT B_DIRTY = f"
  proof (rule bit_word_eqI)
    fix n assume n: "n < LENGTH(32)"
    have "\<not> bit (f AND B_DIRTY) n" using z by simp
    then show "bit (f AND NOT B_DIRTY) n = bit f n" using n by (auto simp: bits)
  qed
qed

text \<open>The buffer after the interrupt.\<close>

definition finished :: "block \<Rightarrow> buf \<Rightarrow> buf" where
  "finished d b = (if dirty b then b\<lparr>flags := (flags b AND NOT B_DIRTY) OR B_VALID\<rparr> else b\<lparr>bdata := d, flags := flags b OR B_VALID\<rparr>)"

lemma finished_flags: "flags (finished d b) AND (B_VALID OR B_DIRTY) = B_VALID"
  using ide_flag_bits [of "flags b"] by (auto simp: finished_def)

lemma finished_read: "b\<lparr>flags := f, bdata := d\<rparr> = b\<lparr>bdata := d, flags := f\<rparr>" for b :: buf
  by (rule buf.equality) simp_all

lemma ideintr_inv:
  assumes ans: "answers c0 insl" and inv: "ide_inv c0 s (i # q)" and rd: "ready (k + 2) (status s)"
  shows "\<exists>s'. ideintr insl s = Ok s' \<and> ide_inv c0 s' q \<and> wakes s' = wakes s @ [i] \<and> ready k (status s') \<and>
    ibufs s' = (ibufs s)(i := finished (contents c0 (trace s) (addr_of (ibufs s i))) (ibufs s i))"
proof -
  define b where "b = ibufs s i"
  have q: "idequeue s = Some i" "qpath (qnext s) (qnext s i) q" "i \<notin> set q" "distinct q" "\<forall>j\<in>set q. waits (ibufs s j)" "addressed c0 (trace s) = addr_of b"
    using inv by (simp_all add: ide_inv_def Let_def b_def)
  have rd2: "ready (Suc (Suc k)) (status s)" using rd by simp
  obtain r rs where w: "idewait_loop (status s) = Some (r, rs)" "r AND (IDE_DF OR IDE_ERR) = 0" "ready (Suc k) rs"
    using rd2 by (auto split: option.splits)
  define b' where "b' = finished (contents c0 (trace s) (addr_of b)) b"
  define rs1 where "rs1 = (if dirty b then status s else rs)"
  define s1 where "s1 = s\<lparr>idequeue := qnext s i, status := rs1, ibufs := (ibufs s)(i := b'), wakes := wakes s @ [i]\<rparr>"
  have ins: "insl (trace s) = contents c0 (trace s) (addr_of b)" using ans q(6) by (simp add: answers_def)
  have intr: "ideintr insl s = (if qnext s i \<noteq> None then idestart (qnext s i) s1 else Ok s1)"
  proof (cases "dirty b")
    case True
    then have "s1 = s\<lparr>idequeue := qnext s i, ibufs := (ibufs s)(i := b'), wakes := wakes s @ [i]\<rparr>" by (simp add: s1_def rs1_def)
    then show ?thesis using True q(1) by (simp add: ideintr_def Let_def b'_def finished_def b_def ide_flag_bits(1))
  next
    case False
    then show ?thesis using q(1) w(1,2) ins
      by (simp add: ideintr_def Let_def idewait_def b'_def finished_def s1_def rs1_def b_def ide_flag_bits(1,2))
  qed
  have rd1: "ready (Suc k) rs1" using w(3) ready_mono [OF rd2] by (simp add: rs1_def)
  show ?thesis
  proof (cases q)
    case Nil
    then have "qnext s i = None" using q(2) by simp
    then show ?thesis using intr ready_mono [OF rd1] by (simp add: Nil ide_inv_def s1_def b'_def b_def)
  next
    case (Cons j q')
    then have j: "qnext s i = Some j" "j \<noteq> i" "waits (ibufs s j)" using q by auto
    obtain r' rs' where w': "idewait_loop rs1 = Some (r', rs')" "ready k rs'" using rd1 by (auto split: option.splits)
    have "ideintr insl s = Ok (s1\<lparr>status := rs', trace := trace s1 @ ide_command (ibufs s1 j)\<rparr>)"
      using intr j w'(1) idestart_ok [of s1 j r' rs'] by (simp add: s1_def waits_def)
    moreover have "ide_inv c0 (s1\<lparr>status := rs', trace := trace s1 @ ide_command (ibufs s1 j)\<rparr>) q"
      using q j command_ata [of "ibufs s j" c0 "trace s"] by (auto simp: ide_inv_def Let_def s1_def Cons waits_def)
    ultimately show ?thesis using w'(2) by (simp add: s1_def b'_def b_def)
  qed
qed

section \<open>Properties\<close>

text \<open>The driver's state as the memory disk's: its buffers and the blocks of disk 1.\<close>

definition as_bst :: "(bool \<times> u32 \<Rightarrow> block) \<Rightarrow> ide \<Rightarrow> bst \<Rightarrow> bst" where
  "as_bst c0 s t = t\<lparr>disk := (\<lambda>n. contents c0 (trace s) (True, n)), disksize := FSSIZE, bufs := ibufs s\<rparr>"


fun interrupts :: "nat \<Rightarrow> (io list \<Rightarrow> block) \<Rightarrow> ide \<Rightarrow> ide res" where
  "interrupts 0 insl s = Ok s"
| "interrupts (Suc n) insl s = bind_res (ideintr insl s) (interrupts n insl)"

lemma interrupts_inv:
  assumes "answers c0 insl" "ide_inv c0 s (xs @ i # ys)" "ready (2 * length xs + 2) (status s)"
  shows "\<exists>s'. interrupts (Suc (length xs)) insl s = Ok s' \<and> iderw_done i s' \<and> wakes s' = wakes s @ xs @ [i] \<and> ide_inv c0 s' ys"
  using assms(2,3)
proof (induction xs arbitrary: s)
  case Nil
  then obtain s' where "ideintr insl s = Ok s'" "ide_inv c0 s' ys" "wakes s' = wakes s @ [i]"
    "ibufs s' = (ibufs s)(i := finished (contents c0 (trace s) (addr_of (ibufs s i))) (ibufs s i))"
    using ideintr_inv [OF assms(1), of s i ys 0] by auto
  then show ?case by (simp add: iderw_done_def finished_flags)
next
  case (Cons x xs)
  have "ready (2 * length xs + 2 + 2) (status s)" using Cons.prems(2) by simp
  moreover have "ide_inv c0 s (x # xs @ i # ys)" using Cons.prems(1) by simp
  ultimately obtain s1 where s1: "ideintr insl s = Ok s1" "ide_inv c0 s1 (xs @ i # ys)" "wakes s1 = wakes s @ [x]" "ready (2 * length xs + 2) (status s1)"
    using ideintr_inv [OF assms(1)] by blast
  show ?case using Cons.IH [OF s1(2,4)] s1(1,3) by auto
qed


text \<open>Process 1 reads block 5 of disk 1, which holds ones.\<close>

definition demo_c0 :: "bool \<times> u32 \<Rightarrow> block" where "demo_c0 a = replicate 512 (if a = (True, 5) then 1 else 0)"

definition demo_insl :: "io list \<Rightarrow> block" where "demo_insl tr = contents demo_c0 tr (addressed demo_c0 tr)"

definition demo_rbuf :: buf where
  "demo_rbuf = \<lparr>flags = 0, bdev = 1, blockno = 5, lock = \<lparr>locked = True, lk_pid = 1\<rparr>, refcnt = 1, prev = 0, nxt = 0, bdata = replicate 512 0\<rparr>"

definition demo_ide :: ide where
  "demo_ide = \<lparr>ibufs = (\<lambda>_. demo_rbuf), qnext = (\<lambda>_. None), idequeue = None, havedisk1 = True, trace = [], status = [0x40, 0x40, 0x40], wakes = []\<rparr>"

lemma demo_ide_ok: "answers demo_c0 demo_insl" "ide_inv demo_c0 demo_ide []" "waits (ibufs demo_ide 0)" "holdingsleep 1 (lock (ibufs demo_ide 0))" "havedisk1 demo_ide"
  by (simp_all add: answers_def demo_insl_def ide_inv_def demo_ide_def demo_rbuf_def waits_def FSSIZE_def B_VALID_def B_DIRTY_def holdingsleep_def)

lemma demo_ide_ready: "ready 3 (status demo_ide)"
  by (simp add: demo_ide_def numeral_3_eq_3 IDE_BSY_def IDE_DRDY_def IDE_DF_def IDE_ERR_def)



text \<open>An error of the disk on a read is noticed and forgotten: the buffer is marked valid with the bytes it had.\<close>

lemma ideintr_read_error:
  assumes "idequeue s = Some i" "qnext s i = None" "\<not> dirty (ibufs s i)" "idewait_loop (status s) = Some (r, rs)" "r AND (IDE_DF OR IDE_ERR) \<noteq> 0"
  shows "\<exists>s'. ideintr insl s = Ok s' \<and> iderw_done i s' \<and> bdata (ibufs s' i) = bdata (ibufs s i)"
  using assms ide_flag_bits [of "flags (ibufs s i)"] by (auto simp: ideintr_def Let_def idewait_def iderw_done_def)

end
