(* ===== verification/Bootmain.thy ===== *)
theory Bootmain
  imports Ide Exec
begin

text \<open>
  The boot loader (\<^verbatim>\<open>bootmain.c\<close>), which reads the kernel from the disk, sector by sector, through the controller of \<open>Ide\<close>, and enters it. The memory
  is the physical one. \<open>None\<close> is a loop that does not end: the disk never gets ready, or a segment wraps around the address space. Under the hypothesis on the
  controller, \<^verbatim>\<open>readseg\<close> puts the bytes of the image where they belong and changes nothing beyond the sectors it reads, and the kernel that is entered has
  all its segments in memory, as long as loading one does not reach into another.
\<close>

section \<open>Reading sectors (bootmain.c)\<close>

definition SECTSIZE :: nat where "SECTSIZE = 512"

record boot =
  bmem :: memory
  btrace :: "io list"
  bstatus :: "u8 list"

fun waitdisk_loop :: "u8 list \<Rightarrow> u8 list option" where
  "waitdisk_loop [] = None"
| "waitdisk_loop (r # rs) = (if r AND 0xC0 \<noteq> 0x40 then waitdisk_loop rs else Some rs)"

definition waitdisk :: "boot \<Rightarrow> boot option" where
  "waitdisk s = map_option (\<lambda>rs. s\<lparr>bstatus := rs\<rparr>) (waitdisk_loop (bstatus s))"

text \<open>\<^verbatim>\<open>insl\<close> stores what the controller delivers.\<close>

fun put_bytes :: "u32 \<Rightarrow> u8 list \<Rightarrow> memory \<Rightarrow> memory" where
  "put_bytes a [] m = m"
| "put_bytes a (x # xs) m = put_bytes (a + 1) xs (m(a := x))"

definition sect_command :: "u32 \<Rightarrow> io list" where
  "sect_command offset =
     [Outb 0x1F2 1, Outb 0x1F3 (ucast offset), Outb 0x1F4 (ucast (drop_bit 8 offset)), Outb 0x1F5 (ucast (drop_bit 16 offset)),
      Outb 0x1F6 (ucast (drop_bit 24 offset OR 0xE0)), Outb 0x1F7 0x20]"

definition readsect :: "(io list \<Rightarrow> block) \<Rightarrow> u32 \<Rightarrow> u32 \<Rightarrow> boot \<Rightarrow> boot option" where
  "readsect insl dst offset s =
     (case waitdisk s of
        None \<Rightarrow> None
      | Some s \<Rightarrow>
          (case waitdisk (s\<lparr>btrace := btrace s @ sect_command offset\<rparr>) of
             None \<Rightarrow> None
           | Some s \<Rightarrow> Some (s\<lparr>bmem := put_bytes dst (insl (btrace s)) (bmem s)\<rparr>)))"

partial_function (option) readseg_loop :: "(io list \<Rightarrow> block) \<Rightarrow> u32 \<Rightarrow> u32 \<Rightarrow> u32 \<Rightarrow> boot \<Rightarrow> boot option" where
  "readseg_loop insl pa epa offset s =
     (if pa < epa
      then (case readsect insl pa offset s of
              None \<Rightarrow> None
            | Some s \<Rightarrow> readseg_loop insl (pa + of_nat SECTSIZE) epa (offset + 1) s)
      else Some s)"

definition readseg :: "(io list \<Rightarrow> block) \<Rightarrow> u32 \<Rightarrow> u32 \<Rightarrow> u32 \<Rightarrow> boot \<Rightarrow> boot option" where
  "readseg insl pa count offset s =
     (let epa = pa + count;
          pa = pa - offset mod of_nat SECTSIZE;
          offset = offset div of_nat SECTSIZE + 1
      in readseg_loop insl pa epa offset s)"

section \<open>Loading the kernel\<close>

definition load_segment :: "(io list \<Rightarrow> block) \<Rightarrow> proghdr \<Rightarrow> boot \<Rightarrow> boot option" where
  "load_segment insl ph s =
     (let pa = ph_paddr ph in
      case readseg insl pa (ph_filesz ph) (ph_off ph) s of
        None \<Rightarrow> None
      | Some s \<Rightarrow>
          Some (if ph_filesz ph < ph_memsz ph
                then s\<lparr>bmem := stosb (pa + ph_filesz ph) 0 (unat (ph_memsz ph - ph_filesz ph)) (bmem s)\<rparr> else s))"

partial_function (option) load_segments :: "(io list \<Rightarrow> block) \<Rightarrow> u32 \<Rightarrow> u32 \<Rightarrow> boot \<Rightarrow> boot option" where
  "load_segments insl ph eph s =
     (if ph < eph
      then (case load_segment insl (proghdr_of (bytes_at (bmem s) ph sizeof_proghdr)) s of
              None \<Rightarrow> None
            | Some s \<Rightarrow> load_segments insl (ph + of_nat sizeof_proghdr) eph s)
      else Some s)"

text \<open>\<open>Some (None, _)\<close>: no ELF file, back to \<^verbatim>\<open>bootasm.S\<close>; \<open>Some (Some e, _)\<close>: the jump to \<open>e\<close>.\<close>

definition bootmain :: "(io list \<Rightarrow> block) \<Rightarrow> boot \<Rightarrow> (u32 option \<times> boot) option" where
  "bootmain insl s =
     (let elf = 0x10000 in
      case readseg insl elf 4096 0 s of
        None \<Rightarrow> None
      | Some s \<Rightarrow>
          let eh = elfhdr_of (bytes_at (bmem s) elf sizeof_elfhdr) in
          if e_magic eh \<noteq> ELF_MAGIC then Some (None, s)
          else let ph = elf + e_phoff eh; eph = ph + ucast (e_phnum eh) * of_nat sizeof_proghdr in
            (case load_segments insl ph eph s of
               None \<Rightarrow> None
             | Some s \<Rightarrow> Some (Some (e_entry (elfhdr_of (bytes_at (bmem s) elf sizeof_elfhdr))), s)))"

section \<open>A sector\<close>

lemma put_bytes_apply:
  "unat a + length xs \<le> 2 ^ 32 \<Longrightarrow> put_bytes a xs m y = (if unat a \<le> unat y \<and> unat y < unat a + length xs then xs ! (unat y - unat a) else m y)"
proof (induction xs arbitrary: a m)
  case (Cons x xs)
  show ?case
  proof (cases "xs = []")
    case True
    then show ?thesis by (auto simp: word_unat_eq_iff [of y a])
  next
    case False
    have u: "unat (a + 1) = unat a + 1" by (subst unat_add_no_wrap) (use Cons.prems False in \<open>auto simp: Suc_le_eq neq_Nil_conv\<close>)
    have le: "unat (a + 1) + length xs \<le> 2 ^ 32" using u Cons.prems by simp
    show ?thesis by (simp only: put_bytes.simps Cons.IH [OF le] u) (auto simp: word_unat_eq_iff [of y a] nth_Cons')
  qed
qed auto

text \<open>The kernel image starts at sector 1 of disk 0.\<close>

definition kimage :: "(bool \<times> u32 \<Rightarrow> block) \<Rightarrow> nat \<Rightarrow> u8" where
  "kimage c0 k = c0 (False, of_nat (k div 512 + 1)) ! (k mod 512)"

text \<open>The disk has been asked for nothing but reads.\<close>

definition only_reads :: "io list \<Rightarrow> bool" where
  "only_reads evs \<longleftrightarrow> (\<forall>d. Outsl d \<notin> set evs)"

lemma only_reads_contents: "only_reads evs \<Longrightarrow> contents c0 evs = c0"
proof (induction evs rule: rev_induct)
  case (snoc e evs)
  then show ?case by (cases e; cases "ata c0 evs") (auto simp: only_reads_def contents_def ata_def)
qed (simp add: contents_def ata_def)

lemma sect_addressed: "x < 2 ^ 28 \<Longrightarrow> addressed c0 (evs @ sect_command x) = (False, x)"
proof -
  assume x: "x < 2 ^ 28"
  obtain r c where rc: "ata c0 evs = (r, c)" by (cases "ata c0 evs")
  have b: "ucast (w AND 0xff) = (ucast w :: u8)" for w :: u32 unfolding mask_255 by (rule bit_word_eqI) (simp add: bit_simps)
  have d: "drop_bit 24 x AND 0x0f = drop_bit 24 x"
  proof (rule bit_word_eqI)
    fix n assume "n < LENGTH(32)"
    then show "bit (drop_bit 24 x AND 0x0f) n = bit (drop_bit 24 x) n"
      using high_bit [OF x, of "24 + n"] unfolding mask_15 by (cases "n < 4") (auto simp: bit_simps)
  qed
  have "\<not> bit (0xE0 :: u32) n" if "n < 4" for n using that by (auto simp: bit_numeral_rec less_Suc_eq numeral_eq_Suc)
  note l = lba_bytes [OF x this, unfolded b d]
  have "\<not> bit (ucast (drop_bit 24 x OR 0xE0) :: u8) 4" using high_bit [OF x, of 28] by (simp add: bit_simps bit_numeral_rec)
  then show ?thesis using rc l by (simp add: addressed_def ata_def sect_command_def target_def lba_def or.commute)
qed

fun wready :: "nat \<Rightarrow> u8 list \<Rightarrow> bool" where
  "wready 0 rs \<longleftrightarrow> True"
| "wready (Suc k) rs \<longleftrightarrow> (case waitdisk_loop rs of None \<Rightarrow> False | Some rs' \<Rightarrow> wready k rs')"

lemma wready_mono: "wready (Suc k) rs \<Longrightarrow> wready k rs"
proof (induction k arbitrary: rs)
  case (Suc k)
  obtain rs' where "waitdisk_loop rs = Some rs'" "wready (Suc k) rs'"
    using Suc.prems wready.simps(2) [of "Suc k" rs] by (cases "waitdisk_loop rs") auto
  then show ?case using Suc.IH [of rs'] by simp
qed simp

lemma wready_less: "wready k rs \<Longrightarrow> l \<le> k \<Longrightarrow> wready l rs"
proof (induction "k - l" arbitrary: k)
  case (Suc d)
  then obtain k' where k: "k = Suc k'" by (cases k) auto
  show ?case by (rule Suc.hyps(1) [of k']) (use Suc.hyps(2) Suc.prems k wready_mono [of k' rs] in auto)
qed simp

text \<open>What every step of the loader needs: a controller that answers, sectors of the right size, and nothing written so far.\<close>

definition loads :: "(bool \<times> u32 \<Rightarrow> block) \<Rightarrow> (io list \<Rightarrow> block) \<Rightarrow> boot \<Rightarrow> bool" where
  "loads c0 insl s \<longleftrightarrow> answers c0 insl \<and> (\<forall>a. length (c0 a) = 512) \<and> only_reads (btrace s)"

lemma loads_upd [simp]: "loads c0 insl (s\<lparr>bmem := m\<rparr>) = loads c0 insl s"
  by (simp add: loads_def)

lemma readsect_ok:
  assumes l: "loads c0 insl s" and off: "offset < 2 ^ 28" and rd: "wready 2 (bstatus s)"
  shows "\<exists>s'. readsect insl dst offset s = Some s' \<and> loads c0 insl s' \<and>
    (\<forall>k. wready (Suc (Suc k)) (bstatus s) \<longrightarrow> wready k (bstatus s')) \<and> bmem s' = put_bytes dst (c0 (False, offset)) (bmem s)"
proof -
  obtain rs rs' where w: "waitdisk_loop (bstatus s) = Some rs" "waitdisk_loop rs = Some rs'"
    using rd by (auto simp: numeral_2_eq_2 split: option.splits)
  define evs where "evs = btrace s @ sect_command offset"
  have o: "only_reads evs" using l by (auto simp: loads_def only_reads_def evs_def sect_command_def)
  have "insl evs = c0 (False, offset)"
    using l only_reads_contents [OF o, of c0] sect_addressed [OF off, of c0 "btrace s"] by (simp add: loads_def answers_def evs_def)
  then show ?thesis using w l o by (simp add: readsect_def waitdisk_def loads_def evs_def)
qed

lemma sector_index:
  fixes k :: nat
  assumes "k mod 512 = 0" "unat pa \<le> y" "y < unat pa + 512"
  shows "kimage c0 (k + (y - unat pa)) = c0 (False, of_nat (k div 512 + 1)) ! (y - unat pa)"
proof -
  obtain z where z: "k = 512 * z" using assms(1) by (auto elim: dvdE)
  define d where "d = y - unat pa"
  have "d < 512" using assms(2,3) by (simp add: d_def)
  then have "(k + (y - unat pa)) div 512 = k div 512" "(k + (y - unat pa)) mod 512 = y - unat pa" unfolding d_def [symmetric] z by simp_all
  then show ?thesis by (simp add: kimage_def)
qed

lemma readseg_loop_ok:
  assumes "loads c0 insl s" "wready (2 * n) (bstatus s)" "k mod 512 = 0" "k div 512 + 1 + n < 2 ^ 28"
    and "unat pa + 512 * n < 2 ^ 32" "unat epa \<le> unat pa + 512 * n" "0 < n \<Longrightarrow> unat pa + 512 * (n - 1) < unat epa"
  shows "\<exists>s'. readseg_loop insl pa epa (of_nat (k div 512 + 1)) s = Some s' \<and> loads c0 insl s' \<and>
    (\<forall>j. wready (2 * n + j) (bstatus s) \<longrightarrow> wready j (bstatus s')) \<and>
    (\<forall>y. bmem s' y = (if unat pa \<le> unat y \<and> unat y < unat pa + 512 * n then kimage c0 (k + (unat y - unat pa)) else bmem s y))"
  using assms
proof (induction n arbitrary: s k pa)
  case 0
  then show ?case by (subst readseg_loop.simps) (auto simp: word_less_nat_alt)
next
  case (Suc n)
  have lt: "pa < epa" using Suc.prems(7) by (simp add: word_less_nat_alt)
  have uo: "unat (of_nat (k div 512 + 1) :: u32) = k div 512 + 1" by (rule unat_of_nat_small) (use Suc.prems(4) in simp)
  have off: "(of_nat (k div 512 + 1) :: u32) < 2 ^ 28" unfolding word_less_nat_alt uo using Suc.prems(4) by simp
  have "wready 2 (bstatus s)" using Suc.prems(2) wready_less [of "2 * Suc n" "bstatus s" 2] by simp
  then obtain s1 where s1: "readsect insl pa (of_nat (k div 512 + 1)) s = Some s1" "loads c0 insl s1" "\<And>k. wready (Suc (Suc k)) (bstatus s) \<Longrightarrow> wready k (bstatus s1)"
      "bmem s1 = put_bytes pa (c0 (False, of_nat (k div 512 + 1))) (bmem s)"
    using readsect_ok [OF Suc.prems(1) off] by blast
  define blk where "blk = c0 (False, of_nat (k div 512 + 1))"
  have len: "length blk = 512" using Suc.prems(1) by (simp add: loads_def blk_def)
  have m1: "bmem s1 y = (if unat pa \<le> unat y \<and> unat y < unat pa + 512 then kimage c0 (k + (unat y - unat pa)) else bmem s y)" for y
    unfolding s1(4) blk_def [symmetric]
    using put_bytes_apply [of pa blk "bmem s" y] sector_index [OF Suc.prems(3), of pa "unat y" c0, folded blk_def] Suc.prems(5) len by auto
  have pa: "unat (pa + of_nat SECTSIZE) = unat pa + 512"
    by (subst unat_add_no_wrap) (use Suc.prems(5) in \<open>simp_all add: SECTSIZE_def\<close>)
  have k': "(k + 512) mod 512 = 0" "(k + 512) div 512 = k div 512 + 1" using Suc.prems(3) by simp_all
  have step: "readseg_loop insl pa epa (of_nat (k div 512 + 1)) s = readseg_loop insl (pa + of_nat SECTSIZE) epa (of_nat ((k + 512) div 512 + 1)) s1"
    using lt s1(1) by (subst readseg_loop.simps) (simp add: k'(2))
  have pr: "wready (2 * n) (bstatus s1)" "(k + 512) div 512 + 1 + n < 2 ^ 28" "unat (pa + of_nat SECTSIZE) + 512 * n < 2 ^ 32"
      "unat epa \<le> unat (pa + of_nat SECTSIZE) + 512 * n"
    unfolding pa k'(2) using Suc.prems(2,4-6) s1(3) [of "2 * n"] by simp_all
  have pr': "unat (pa + of_nat SECTSIZE) + 512 * (n - 1) < unat epa" if "0 < n" unfolding pa using Suc.prems(7) that by (cases n) simp_all
  obtain s' where s': "readseg_loop insl (pa + of_nat SECTSIZE) epa (of_nat ((k + 512) div 512 + 1)) s1 = Some s'" "loads c0 insl s'"
      "\<And>j. wready (2 * n + j) (bstatus s1) \<Longrightarrow> wready j (bstatus s')"
      "\<And>y. bmem s' y = (if unat pa + 512 \<le> unat y \<and> unat y < unat pa + 512 + 512 * n then kimage c0 (k + 512 + (unat y - (unat pa + 512))) else bmem s1 y)"
    using Suc.IH [OF s1(2) pr(1) k'(1) pr(2-4) pr'] unfolding pa by blast
  have "wready j (bstatus s')" if "wready (2 * Suc n + j) (bstatus s)" for j
    using s'(3) [of j] s1(3) [of "2 * n + j"] that by simp
  moreover have "bmem s' y = (if unat pa \<le> unat y \<and> unat y < unat pa + 512 * Suc n then kimage c0 (k + (unat y - unat pa)) else bmem s y)" for y
    by (auto simp: s'(4) m1)
  ultimately show ?case unfolding step s'(1) using s'(2) by blast
qed

text \<open>The sectors that hold \<open>count\<close> bytes from \<open>offset\<close> on.\<close>

definition nsect :: "u32 \<Rightarrow> u32 \<Rightarrow> nat" where
  "nsect count offset = (unat offset mod 512 + unat count + 511) div 512"

definition seg_start :: "u32 \<Rightarrow> u32 \<Rightarrow> nat" where
  "seg_start pa offset = unat pa - unat offset mod 512"

lemma readseg_ok:
  assumes l: "loads c0 insl s" and rd: "wready (2 * nsect count offset) (bstatus s)"
    and pa: "unat offset mod 512 \<le> unat pa" "unat pa + unat count + 512 < 2 ^ 32"
  shows "\<exists>s'. readseg insl pa count offset s = Some s' \<and> loads c0 insl s' \<and>
    (\<forall>j. wready (2 * nsect count offset + j) (bstatus s) \<longrightarrow> wready j (bstatus s')) \<and>
    (\<forall>y. bmem s' y = (if seg_start pa offset \<le> unat y \<and> unat y < seg_start pa offset + 512 * nsect count offset
       then kimage c0 (unat offset + unat y - unat pa) else bmem s y))"
proof -
  define d n k where "d = unat offset mod 512" and "n = nsect count offset" and "k = 512 * (unat offset div 512)"
  have um: "unat (offset mod of_nat SECTSIZE) = d" by (simp add: SECTSIZE_def d_def unat_mod)
  have pa': "unat (pa - offset mod of_nat SECTSIZE) = unat pa - d"
    by (subst unat_sub_le) (use pa(1) in \<open>simp_all add: word_le_nat_alt um d_def [symmetric]\<close>)
  have epa: "unat (pa + count) = unat pa + unat count" by (rule unat_add_no_wrap) (use pa(2) in simp)
  have off: "offset div of_nat SECTSIZE + 1 = of_nat (k div 512 + 1)"
    using unat_eq_imp_of_nat [of "offset div 512" "unat offset div 512"] by (simp add: SECTSIZE_def k_def unat_div)
  have n: "n = (d + unat count + 511) div 512" by (simp add: n_def nsect_def d_def)
  have dl: "d < 512" "d \<le> unat pa" "unat offset = k + d" using pa(1) by (simp_all add: d_def k_def)
  define z where "z = d + unat count + 511"
  have "z = 512 * n + z mod 512" "z mod 512 < 512" unfolding n z_def [symmetric] by simp_all
  then have b: "d + unat count \<le> 512 * n" "512 * n \<le> d + unat count + 511" unfolding z_def by linarith+
  have c: "unat pa + unat count + 512 < 4294967296" using pa(2) by simp
  have "unat offset div 512 < 8388608" using unat_u32_less [of offset] by (simp add: less_mult_imp_div_less)
  moreover have "n \<le> 8388610" using b(2) dl(1) c by linarith
  moreover have "k div 512 = unat offset div 512" by (simp add: k_def)
  ultimately have bound: "k div 512 + 1 + n < 2 ^ 28" by simp
  have "unat pa - d + 512 * n < 4294967296" "unat pa + unat count \<le> unat pa - d + 512 * n" using b dl c by linarith+
  then have q: "unat pa - d + 512 * n < 2 ^ 32" "unat pa + unat count \<le> unat pa - d + 512 * n" by simp_all
  have q': "unat pa - d + 512 * (n - 1) < unat pa + unat count" if "0 < n"
  proof -
    have "512 * (n - 1) + 512 = 512 * n" using that by (simp add: algebra_simps)
    then show ?thesis using b(2) dl by linarith
  qed
  have ky: "k + (y - (unat pa - d)) = unat offset + y - unat pa" if "unat pa - d \<le> y" for y
    using that dl by linarith
  have k0: "k mod 512 = 0" by (simp add: k_def)
  obtain s' where s': "readseg_loop insl (pa - offset mod of_nat SECTSIZE) (pa + count) (of_nat (k div 512 + 1)) s = Some s'" "loads c0 insl s'"
      "\<forall>j. wready (2 * n + j) (bstatus s) \<longrightarrow> wready j (bstatus s')"
      "\<And>y. bmem s' y = (if unat pa - d \<le> unat y \<and> unat y < unat pa - d + 512 * n then kimage c0 (k + (unat y - (unat pa - d))) else bmem s y)"
    using readseg_loop_ok [OF l rd [folded n_def] k0 bound, of "pa - offset mod of_nat SECTSIZE" "pa + count", unfolded pa' epa, OF q q'] by metis
  have "bmem s' y = (if unat pa - d \<le> unat y \<and> unat y < unat pa - d + 512 * n then kimage c0 (unat offset + unat y - unat pa) else bmem s y)" for y
    unfolding s'(4) using ky [of "unat y"] by simp
  then show ?thesis unfolding readseg_def Let_def off seg_start_def d_def [symmetric] n_def [symmetric] using s'(1-3) by blast
qed

section \<open>A segment\<close>

lemma stosb_range:
  assumes "unat a + n \<le> 4294967296"
  shows "stosb a c n m x = (if unat a \<le> unat x \<and> unat x < unat a + n then c else m x)"
proof -
  have "n \<le> 2 ^ 32" using assms by simp
  then have s: "stosb a c n m x = (if unat (x - a) < n then c else m x)" by (rule stosb_apply)
  show ?thesis
  proof (cases "a \<le> x")
    case True
    then have "unat (x - a) = unat x - unat a" "unat a \<le> unat x" by (simp_all add: unat_sub_le word_le_nat_alt)
    then show ?thesis unfolding s by auto
  next
    case False
    then have "unat (x - a) = unat x + 4294967296 - unat a" "unat x < unat a" by (simp_all add: unat_sub_if' word_le_nat_alt)
    then show ?thesis unfolding s using assms by auto
  qed
qed

definition seg_ok :: "proghdr \<Rightarrow> bool" where
  "seg_ok ph \<longleftrightarrow> unat (ph_off ph) mod 512 \<le> unat (ph_paddr ph) \<and> unat (ph_paddr ph) + unat (ph_filesz ph) + 512 < 2 ^ 32 \<and>
     unat (ph_paddr ph) + unat (ph_memsz ph) < 2 ^ 32"

text \<open>The bytes that belong to a segment, and all that loading it can change.\<close>

definition seg_size :: "proghdr \<Rightarrow> nat" where
  "seg_size ph = max (unat (ph_filesz ph)) (unat (ph_memsz ph))"

definition seg_lo :: "proghdr \<Rightarrow> nat" where
  "seg_lo ph = seg_start (ph_paddr ph) (ph_off ph)"

definition seg_hi :: "proghdr \<Rightarrow> nat" where
  "seg_hi ph = max (unat (ph_paddr ph) + seg_size ph) (seg_lo ph + 512 * nsect (ph_filesz ph) (ph_off ph))"

definition seg_loaded :: "(bool \<times> u32 \<Rightarrow> block) \<Rightarrow> proghdr \<Rightarrow> memory \<Rightarrow> bool" where
  "seg_loaded c0 ph m \<longleftrightarrow> (\<forall>x < seg_size ph.
     m (ph_paddr ph + of_nat x) = (if x < unat (ph_filesz ph) then kimage c0 (unat (ph_off ph) + x) else 0))"

lemma nsect_covers: "unat offset mod 512 + unat count \<le> 512 * nsect count offset"
proof -
  define z where "z = unat offset mod 512 + unat count + 511"
  have "z = 512 * nsect count offset + z mod 512" "z mod 512 < 512" unfolding nsect_def z_def [symmetric] by simp_all
  then show ?thesis unfolding z_def by linarith
qed

lemma load_segment_ok:
  assumes l: "loads c0 insl s" and rd: "wready (2 * nsect (ph_filesz ph) (ph_off ph)) (bstatus s)" and ok: "seg_ok ph"
  shows "\<exists>s'. load_segment insl ph s = Some s' \<and> loads c0 insl s' \<and>
    (\<forall>j. wready (2 * nsect (ph_filesz ph) (ph_off ph) + j) (bstatus s) \<longrightarrow> wready j (bstatus s')) \<and>
    seg_loaded c0 ph (bmem s') \<and> (\<forall>y. unat y < seg_lo ph \<or> seg_hi ph \<le> unat y \<longrightarrow> bmem s' y = bmem s y)"
proof -
  define pa fs ms where "pa = ph_paddr ph" and "fs = ph_filesz ph" and "ms = ph_memsz ph"
  have o: "unat (ph_off ph) mod 512 \<le> unat pa" "unat pa + unat fs + 512 < 2 ^ 32" "unat pa + unat ms < 4294967296"
    using ok by (simp_all add: seg_ok_def pa_def fs_def ms_def)
  obtain s1 where s1: "readseg insl pa fs (ph_off ph) s = Some s1" "loads c0 insl s1"
      "\<forall>j. wready (2 * nsect fs (ph_off ph) + j) (bstatus s) \<longrightarrow> wready j (bstatus s1)"
      "\<And>y. bmem s1 y = (if seg_lo ph \<le> unat y \<and> unat y < seg_lo ph + 512 * nsect fs (ph_off ph) then kimage c0 (unat (ph_off ph) + unat y - unat pa) else bmem s y)"
    using readseg_ok [OF l rd [folded fs_def] o(1,2)] unfolding seg_lo_def pa_def [symmetric] by metis
  have e: "unat (pa + fs) = unat pa + unat fs" by (rule unat_add_no_wrap) (use o(2) in simp)
  define z where "z = (if fs < ms then unat ms - unat fs else 0)"
  define m2 where "m2 = (if fs < ms then stosb (pa + fs) 0 (unat (ms - fs)) (bmem s1) else bmem s1)"
  have m2: "m2 y = (if unat pa + unat fs \<le> unat y \<and> unat y < unat pa + unat fs + z then 0 else bmem s1 y)" for y
  proof (cases "fs < ms")
    case True
    then have "unat (ms - fs) = z" "unat fs + z = unat ms" by (simp_all add: z_def unat_sub_le word_less_nat_alt order_less_imp_le)
    then show ?thesis unfolding m2_def using True stosb_range [of "pa + fs" z 0 "bmem s1" y] e o(3) by simp
  qed (auto simp: m2_def z_def)
  have sz: "seg_size ph = max (unat fs) (unat ms)" "unat fs + z = seg_size ph" by (auto simp: seg_size_def fs_def ms_def z_def word_less_nat_alt)
  have cov: "unat pa + unat fs \<le> seg_lo ph + 512 * nsect fs (ph_off ph)" "seg_lo ph \<le> unat pa"
    using nsect_covers [of "ph_off ph" fs] o(1) by (simp_all add: seg_lo_def seg_start_def pa_def)
  have "seg_loaded c0 ph m2"
    unfolding seg_loaded_def pa_def [symmetric] fs_def [symmetric]
  proof (intro allI impI)
    fix x assume x: "x < seg_size ph"
    have u: "unat (pa + of_nat x) = unat pa + x"
      by (subst unat_add_no_wrap) (use x o(2,3) sz(1) in \<open>auto simp: unat_of_nat_small\<close>)
    show "m2 (pa + of_nat x) = (if x < unat fs then kimage c0 (unat (ph_off ph) + x) else 0)"
      using x cov sz(2) by (simp add: m2 s1(4) u)
  qed
  moreover have "m2 y = bmem s y" if "unat y < seg_lo ph \<or> seg_hi ph \<le> unat y" for y
    using that cov sz(2) by (auto simp: m2 s1(4) seg_hi_def pa_def fs_def)
  moreover have "load_segment insl ph s = Some (s1\<lparr>bmem := m2\<rparr>)"
    using s1(1) by (auto simp: load_segment_def Let_def pa_def fs_def ms_def m2_def)
  ultimately show ?thesis using s1(2,3) unfolding fs_def by (intro exI [of _ "s1\<lparr>bmem := m2\<rparr>"]) auto
qed

section \<open>The kernel\<close>

text \<open>The headers as they are in the image on the disk.\<close>

definition img_bytes :: "(bool \<times> u32 \<Rightarrow> block) \<Rightarrow> nat \<Rightarrow> nat \<Rightarrow> u8 list" where
  "img_bytes c0 j n = map (\<lambda>i. kimage c0 (j + i)) [0..<n]"

definition kelf :: "(bool \<times> u32 \<Rightarrow> block) \<Rightarrow> elfhdr" where
  "kelf c0 = elfhdr_of (img_bytes c0 0 sizeof_elfhdr)"

definition kphoff :: "(bool \<times> u32 \<Rightarrow> block) \<Rightarrow> nat" where "kphoff c0 = unat (e_phoff (kelf c0))"
definition kphnum :: "(bool \<times> u32 \<Rightarrow> block) \<Rightarrow> nat" where "kphnum c0 = unat (e_phnum (kelf c0))"

definition kph :: "(bool \<times> u32 \<Rightarrow> block) \<Rightarrow> nat \<Rightarrow> proghdr" where
  "kph c0 i = proghdr_of (img_bytes c0 (kphoff c0 + 32 * i) sizeof_proghdr)"

definition sectors_from :: "(bool \<times> u32 \<Rightarrow> block) \<Rightarrow> nat \<Rightarrow> nat" where
  "sectors_from c0 i = sum_list (map (\<lambda>j. nsect (ph_filesz (kph c0 j)) (ph_off (kph c0 j))) [i..<kphnum c0])"

text \<open>A kernel the loader is made for: its program headers are in the first page, its segments lie above the page with the headers, and the sectors of a segment
  do not reach into the segments before it.\<close>

definition kernel_ok :: "(bool \<times> u32 \<Rightarrow> block) \<Rightarrow> bool" where
  "kernel_ok c0 \<longleftrightarrow> e_magic (kelf c0) = ELF_MAGIC \<and> kphoff c0 + 32 * kphnum c0 \<le> 4096 \<and>
     list_all (\<lambda>i. seg_ok (kph c0 i) \<and> 0x11000 \<le> seg_lo (kph c0 i) \<and>
       list_all (\<lambda>j. unat (ph_paddr (kph c0 j)) + seg_size (kph c0 j) \<le> seg_lo (kph c0 i) \<or> seg_hi (kph c0 i) \<le> unat (ph_paddr (kph c0 j))) [0..<i]) [0..<kphnum c0]"

lemma kernel_okD:
  assumes "kernel_ok c0" "i < kphnum c0"
  shows "seg_ok (kph c0 i)" "0x11000 \<le> seg_lo (kph c0 i)" "kphoff c0 + 32 * kphnum c0 \<le> 4096"
    "j < i \<Longrightarrow> unat (ph_paddr (kph c0 j)) + seg_size (kph c0 j) \<le> seg_lo (kph c0 i) \<or> seg_hi (kph c0 i) \<le> unat (ph_paddr (kph c0 j))"
  using assms by (auto simp: kernel_ok_def list_all_iff)

definition header_in :: "(bool \<times> u32 \<Rightarrow> block) \<Rightarrow> memory \<Rightarrow> bool" where
  "header_in c0 m \<longleftrightarrow> (\<forall>y. 0x10000 \<le> unat y \<and> unat y < 0x11000 \<longrightarrow> m y = kimage c0 (unat y - 0x10000))"

lemma unat_scratch: "x \<le> 4096 \<Longrightarrow> unat (0x10000 + of_nat x :: u32) = 0x10000 + x"
  by (subst unat_add_no_wrap) (simp_all add: unat_of_nat_small)

lemma header_bytes: "header_in c0 m \<Longrightarrow> j + n \<le> 4096 \<Longrightarrow> bytes_at m (0x10000 + of_nat j) n = img_bytes c0 j n"
proof -
  assume h: "header_in c0 m" and jn: "j + n \<le> 4096"
  have "m (0x10000 + of_nat j + of_nat i) = kimage c0 (j + i)" if "i < n" for i
  proof -
    have "unat (0x10000 + of_nat (j + i) :: u32) = 0x10000 + (j + i)"
      by (rule unat_scratch) (use jn that in simp)
    then show ?thesis using h [unfolded header_in_def, rule_format, of "0x10000 + of_nat (j + i)"] jn that by (simp add: add.assoc)
  qed
  then show ?thesis by (simp add: bytes_at_def img_bytes_def)
qed

lemma seg_loaded_frame:
  assumes "seg_loaded c0 ph m" "seg_ok ph" "\<And>y. unat (ph_paddr ph) \<le> unat y \<Longrightarrow> unat y < unat (ph_paddr ph) + seg_size ph \<Longrightarrow> m' y = m y"
  shows "seg_loaded c0 ph m'"
  unfolding seg_loaded_def
proof (intro allI impI)
  fix x assume x: "x < seg_size ph"
  have "unat (ph_paddr ph + of_nat x) = unat (ph_paddr ph) + x"
    by (subst unat_add_no_wrap) (use x assms(2) in \<open>auto simp: unat_of_nat_small seg_ok_def seg_size_def\<close>)
  then have "m' (ph_paddr ph + of_nat x) = m (ph_paddr ph + of_nat x)" using assms(3) [of "ph_paddr ph + of_nat x"] x by simp
  then show "m' (ph_paddr ph + of_nat x) = (if x < unat (ph_filesz ph) then kimage c0 (unat (ph_off ph) + x) else 0)"
    using assms(1) x by (simp add: seg_loaded_def)
qed

lemma load_segments_ok:
  assumes k: "kernel_ok c0" and i: "i \<le> kphnum c0" and l: "loads c0 insl s" "header_in c0 (bmem s)" "wready (2 * sectors_from c0 i) (bstatus s)"
  shows "\<exists>s'. load_segments insl (0x10000 + of_nat (kphoff c0 + 32 * i)) (0x10000 + of_nat (kphoff c0 + 32 * kphnum c0)) s = Some s' \<and>
    header_in c0 (bmem s') \<and> (\<forall>j. i \<le> j \<and> j < kphnum c0 \<longrightarrow> seg_loaded c0 (kph c0 j) (bmem s')) \<and>
    (\<forall>y. (\<forall>j. i \<le> j \<and> j < kphnum c0 \<longrightarrow> unat y < seg_lo (kph c0 j) \<or> seg_hi (kph c0 j) \<le> unat y) \<longrightarrow> bmem s' y = bmem s y)"
  using i l
proof (induction "kphnum c0 - i" arbitrary: i s)
  case 0
  then show ?case by (subst load_segments.simps) auto
next
  case (Suc r)
  define ph where "ph = kph c0 i"
  have i: "i < kphnum c0" using Suc.hyps(2) by simp
  note ok = kernel_okD [OF k i, folded ph_def]
  define a where "a = (\<lambda>j. 0x10000 + of_nat (kphoff c0 + 32 * j) :: u32)"
  have ua: "unat (a j) = 0x10000 + (kphoff c0 + 32 * j)" if "j \<le> kphnum c0" for j
    unfolding a_def by (rule unat_scratch) (use ok(3) that in simp)
  have lt: "a i < a (kphnum c0)" using ua [of i] ua [of "kphnum c0"] i by (simp add: word_less_nat_alt)
  have hd: "proghdr_of (bytes_at (bmem s) (a i) sizeof_proghdr) = ph"
    unfolding a_def ph_def kph_def using ok(3) i by (subst header_bytes [OF Suc.prems(3)]) (simp_all add: sizeof_proghdr_def)
  have sec: "sectors_from c0 i = nsect (ph_filesz ph) (ph_off ph) + sectors_from c0 (Suc i)"
    using i by (simp add: sectors_from_def upt_conv_Cons ph_def)
  have rd: "wready (2 * nsect (ph_filesz ph) (ph_off ph) + 2 * sectors_from c0 (Suc i)) (bstatus s)" using Suc.prems(4) sec by (simp add: algebra_simps)
  then have "wready (2 * nsect (ph_filesz ph) (ph_off ph)) (bstatus s)" by (rule wready_less) simp
  then obtain s1 where s1: "load_segment insl ph s = Some s1" "loads c0 insl s1" "wready (2 * sectors_from c0 (Suc i)) (bstatus s1)" "seg_loaded c0 ph (bmem s1)"
      "\<And>y. unat y < seg_lo ph \<or> seg_hi ph \<le> unat y \<Longrightarrow> bmem s1 y = bmem s y"
    using load_segment_ok [OF Suc.prems(2) _ ok(1)] rd by metis
  have hr: "header_in c0 (bmem s1)" using Suc.prems(3) s1(5) ok(2) unfolding header_in_def by auto
  have rr: "r = kphnum c0 - Suc i" "Suc i \<le> kphnum c0" using Suc.hyps(2) i by simp_all
  obtain s' where s': "load_segments insl (a (Suc i)) (a (kphnum c0)) s1 = Some s'" "header_in c0 (bmem s')"
      "\<And>j. Suc i \<le> j \<Longrightarrow> j < kphnum c0 \<Longrightarrow> seg_loaded c0 (kph c0 j) (bmem s')"
      "\<And>y. (\<And>j. Suc i \<le> j \<Longrightarrow> j < kphnum c0 \<Longrightarrow> unat y < seg_lo (kph c0 j) \<or> seg_hi (kph c0 j) \<le> unat y) \<Longrightarrow> bmem s' y = bmem s1 y"
    using Suc.hyps(1) [OF rr s1(2) hr s1(3)] unfolding a_def by blast
  have "a i + of_nat sizeof_proghdr = a (Suc i)" by (simp add: a_def sizeof_proghdr_def algebra_simps)
  then have step: "load_segments insl (a i) (a (kphnum c0)) s = Some s'"
    using lt hd s1(1) s'(1) by (subst load_segments.simps) simp
  have first: "seg_loaded c0 ph (bmem s')"
  proof (rule seg_loaded_frame [OF s1(4) ok(1)], rule s'(4))
    fix y j assume "unat (ph_paddr ph) \<le> unat y" "unat y < unat (ph_paddr ph) + seg_size ph" "Suc i \<le> j" "j < kphnum c0"
    then show "unat y < seg_lo (kph c0 j) \<or> seg_hi (kph c0 j) \<le> unat y" using kernel_okD(4) [OF k, of j i] by (auto simp: ph_def)
  qed
  have "seg_loaded c0 (kph c0 j) (bmem s')" if "i \<le> j" "j < kphnum c0" for j
    using first s'(3) [of j] that by (cases "j = i") (simp_all add: ph_def)
  moreover have "bmem s' y = bmem s y" if "\<forall>j. i \<le> j \<and> j < kphnum c0 \<longrightarrow> unat y < seg_lo (kph c0 j) \<or> seg_hi (kph c0 j) \<le> unat y" for y
    using s'(4) [of y] s1(5) [of y] that i by (simp add: ph_def)
  ultimately show ?case using step s'(2) unfolding a_def by blast
qed

section \<open>Properties\<close>


text \<open>A kernel with one segment of 600 bytes, loaded at 1 MB, and 400 bytes of zeroes after them.\<close>

definition khead :: "u8 list" where
  "khead = [127, 69, 76, 70, 0, 0, 0, 0, 0, 0, 0, 0, 0, 0, 0, 0, 2, 0, 3, 0, 1, 0, 0, 0, 12, 0, 16, 0, 52, 0, 0, 0, 0, 0, 0, 0, 0, 0, 0, 0, 52, 0, 32, 0, 1, 0, 0, 0, 0, 0, 0, 0, 1, 0, 0, 0, 0, 16, 0, 0, 0, 0, 16, 128, 0, 0, 16, 0, 88, 2, 0, 0, 232, 3, 0, 0, 7, 0, 0, 0, 0, 16, 0, 0]"

definition kdisk :: "bool \<times> u32 \<Rightarrow> block" where
  "kdisk a = (if a = (False, 1) then khead @ replicate 428 0 else if a = (False, 9) \<or> a = (False, 10) then replicate 512 7 else replicate 512 0)"

definition kinsl :: "io list \<Rightarrow> block" where "kinsl evs = contents kdisk evs (addressed kdisk evs)"

definition power_on :: boot where "power_on = \<lparr>bmem = (\<lambda>_. 0), btrace = [], bstatus = replicate 20 0x40\<rparr>"

lemma khead_image: "j + n \<le> 84 \<Longrightarrow> img_bytes kdisk j n = take n (drop j khead)"
proof -
  have len: "length khead = 84" by (simp add: khead_def)
  assume jn: "j + n \<le> 84"
  have "kimage kdisk k = khead ! k" if "k < 84" for k using that len by (simp add: kimage_def kdisk_def nth_append)
  then show ?thesis using jn len by (intro nth_equalityI) (simp_all add: img_bytes_def)
qed

lemma kdisk_head: "e_magic (kelf kdisk) = ELF_MAGIC" "e_entry (kelf kdisk) = 0x10000C" "kphoff kdisk = 52" "kphnum kdisk = 1"
proof -
  have e: "kelf kdisk = elfhdr_of (take 52 khead)" using khead_image [of 0 52] by (simp add: kelf_def sizeof_elfhdr_def)
  have "e_magic (elfhdr_of (take 52 khead)) = ELF_MAGIC \<and> e_entry (elfhdr_of (take 52 khead)) = 0x10000C \<and>
      unat (e_phoff (elfhdr_of (take 52 khead))) = 52 \<and> unat (e_phnum (elfhdr_of (take 52 khead))) = 1" by code_simp
  then show "e_magic (kelf kdisk) = ELF_MAGIC" "e_entry (kelf kdisk) = 0x10000C" "kphoff kdisk = 52" "kphnum kdisk = 1"
    by (simp_all add: e kphoff_def kphnum_def)
qed

lemma kdisk_seg: "ph_off (kph kdisk 0) = 4096" "ph_paddr (kph kdisk 0) = 0x100000" "ph_filesz (kph kdisk 0) = 600" "ph_memsz (kph kdisk 0) = 1000"
proof -
  have e: "kph kdisk 0 = proghdr_of (take 32 (drop 52 khead))" using khead_image [of 52 32] by (simp add: kph_def kdisk_head sizeof_proghdr_def)
  have "ph_off (proghdr_of (take 32 (drop 52 khead))) = 4096 \<and> ph_paddr (proghdr_of (take 32 (drop 52 khead))) = 0x100000 \<and>
      ph_filesz (proghdr_of (take 32 (drop 52 khead))) = 600 \<and> ph_memsz (proghdr_of (take 32 (drop 52 khead))) = 1000" by code_simp
  then show "ph_off (kph kdisk 0) = 4096" "ph_paddr (kph kdisk 0) = 0x100000" "ph_filesz (kph kdisk 0) = 600" "ph_memsz (kph kdisk 0) = 1000" by (simp_all add: e)
qed

lemma kdisk_ok: "kernel_ok kdisk" "sectors_from kdisk 0 = 2"
  by (simp_all add: kernel_ok_def kdisk_head kdisk_seg seg_ok_def seg_lo_def seg_start_def sectors_from_def nsect_def)

lemma power_on_ready: "wready 20 (bstatus power_on)"
  by code_simp

lemma kdisk_loads: "loads kdisk kinsl power_on"
  by (simp add: loads_def answers_def kinsl_def kdisk_def khead_def only_reads_def power_on_def)


end
