(* ===== verification/Spec2Isabelle.thy ===== *)
theory Spec2Isabelle
  imports Kernel Grep Runcmd Umalloc Mp Bootmain
begin

text \<open>
  A verification library for xv6, the teaching operating system for x86 multiprocessors: the kernel with its file system, the boot loader, and the user
  programs that have an algorithm of their own (the shell, \<^verbatim>\<open>grep\<close>, the memory allocator). This theory imports all others.

  \<^bold>\<open>How the program is modelled.\<close> The source is translated routine by routine, under its own names. Machine integers are words of their width, so
  overflow is the one of C. Memory is a function from 32-bit addresses to bytes, and the structures that live in it (free pages, page tables, ELF headers,
  firmware tables) are read and written there; other C structures are records, and pointers to elements of kernel tables are indices. The state grows along the
  layers as a chain of records: memory (\<open>mst\<close>), disk and buffers (\<open>bst\<close>), log (\<open>lst\<close>), superblock (\<open>sbst\<close>), inodes (\<open>ist\<close>), segments and page
  directory (\<open>vst\<close>), processes (\<open>pst\<close>), files and pipes (\<open>kst\<close>), console (\<open>cst\<close>); a routine works on any extension of the layer it belongs to. A
  kernel routine yields a value of type \<open>res\<close>: a result, a panic with its message, the point where the process goes to sleep, an access that C does
  not define, or a loop that does not end. Code under a spin lock is one atomic step, which \<open>Spinlock\<close> justifies; where steps of several processes or
  processors interleave (spin locks, pipes, the process table) there is an inductive step relation, and the theorems hold in every reachable state.

  \<^bold>\<open>The theories.\<close>
  \<^item> \<open>Prelude\<close>: integers, results, little-endian numbers, lists. \<open>Cstring\<close>: \<^verbatim>\<open>string.c\<close>, the string part of \<^verbatim>\<open>ulib.c\<close> and \<^verbatim>\<open>x86.h\<close>, on byte memory.
  \<^item> \<open>Kalloc\<close> (\<^verbatim>\<open>kalloc.c\<close>): the free list in the pages; pages handed out are distinct. \<open>Vm\<close> (\<^verbatim>\<open>vm.c\<close>): page tables, growing, shrinking and copying user memory.
  \<^item> \<open>Spinlock\<close> (\<^verbatim>\<open>spinlock.c\<close>): mutual exclusion. \<open>Sleeplock\<close> (\<^verbatim>\<open>sleeplock.c\<close>).
  \<^item> \<open>Bio\<close> (\<^verbatim>\<open>bio.c\<close>, \<^verbatim>\<open>memide.c\<close>): the buffer cache; its locale \<open>block_cache\<close> is the interface of the layers above. \<open>Ide\<close> (\<^verbatim>\<open>ide.c\<close>): the interrupt-driven
    driver, shown to refine the disk that \<open>Bio\<close> uses.
  \<^item> \<open>Log\<close> (\<^verbatim>\<open>log.c\<close>): commit and recovery, with crashes between any two block writes. \<open>Balloc\<close>, \<open>Inode\<close>, \<open>Dir\<close> (\<^verbatim>\<open>fs.c\<close>): free map, inodes and file
    contents, directories and paths.
  \<^item> \<open>Ring\<close>: the locale \<open>bounded_fifo\<close> of the ring buffers, interpreted on the pipe and on the console's line. \<open>Pipe\<close> (\<^verbatim>\<open>pipe.c\<close>): bytes in order, no lost wakeup.
  \<^item> \<open>Sched\<close>, \<open>Proc\<close> (\<^verbatim>\<open>proc.c\<close>): the process table, sleep and wakeup, wait and exit, fork. \<open>File\<close> (\<^verbatim>\<open>file.c\<close>): open files.
  \<^item> \<open>Exec\<close> (\<^verbatim>\<open>exec.c\<close>, arguments of \<^verbatim>\<open>syscall.c\<close>), \<open>Fcntl\<close>, \<open>Sysfile\<close> (\<^verbatim>\<open>sysfile.c\<close>), \<open>Trap\<close> (\<^verbatim>\<open>trap.c\<close>, \<^verbatim>\<open>syscall.c\<close>, \<^verbatim>\<open>sysproc.c\<close>): the system calls and
    the way into the kernel. \<open>Printf\<close> (\<^verbatim>\<open>console.c\<close>, \<^verbatim>\<open>printf.c\<close>) and \<open>Console\<close> (\<^verbatim>\<open>console.c\<close>, \<^verbatim>\<open>kbd.c\<close>).
  \<^item> \<open>Frame\<close>: what the file system and memory code leave alone, once for every projection of the state. \<open>Kernel\<close>: with it, that all system calls
    together keep the reference counts of files exact and that a failed \<^verbatim>\<open>exec\<close> leaves the process as it was.
  \<^item> \<open>Mp\<close> (\<^verbatim>\<open>mp.c\<close>): the search for processors. \<open>Bootmain\<close> (\<^verbatim>\<open>bootmain.c\<close>): loading the kernel from the disk.
  \<^item> \<open>Umalloc\<close> (\<^verbatim>\<open>umalloc.c\<close>): the allocator of user programs over the kernel's \<^verbatim>\<open>sbrk\<close>, which the locale \<open>brk_call\<close> stands for and \<^verbatim>\<open>growproc\<close> provides.
  \<^item> \<open>Sh\<close>, \<open>Runcmd\<close> (\<^verbatim>\<open>sh.c\<close>): the parser of the shell and what it runs. \<open>Grep\<close> (\<^verbatim>\<open>grep.c\<close>): the matcher and the line loop.

  \<^bold>\<open>What the theorems show.\<close> A transaction is on the disk as a whole or not at all, whenever the machine stops, also during recovery. The
  allocators of pages, disk blocks and user memory hand out what is free, and nothing twice. The buffer cache, \<^verbatim>\<open>readi\<close> and \<^verbatim>\<open>dirlookup\<close>
  return what is on the disk. The operations on user memory map and unmap exactly the pages of the range. Pipes, the console and the disk driver deliver bytes and
  requests in order, and nobody sleeps on a condition that holds. Locks exclude; pids are unique; a process that is killed does not return to user
  space. The shell's parser ends on every line and reads back what its printer writes, and commands run with the descriptors they mean. \<^verbatim>\<open>grep\<close> prints the lines
  that match. Theorems about errors show what happens where the code does not do what it means to: the reservation of log space, a killed
  writer of a pipe, \<^verbatim>\<open>kill(0)\<close>, addresses without a page table, huge allocations, unknown entries of the firmware's table.

  \<^bold>\<open>Loops.\<close> A loop over a structure is structural recursion or has a termination proof. Loops that follow pointers are partial functions (\<open>Vm\<close>, \<open>Umalloc\<close>, \<open>Mp\<close>,
  \<open>Ide\<close>, \<open>Bootmain\<close>, strings), whose ending on well-formed structures is part of the theorems. Fuel is used in four places: the scans of the buffer list
  have one unit more than there are buffers; the shell's parser has four units for each byte of the line and four more, since at most four routines are entered without consuming a
  byte (\<open>parsecmd_ends\<close>); the loop of \<^verbatim>\<open>grep\<close> has one unit for each read, and the theorem says how many are enough;
  the shell opens the console at most once for each descriptor and once more (\<open>sh_open_ends\<close>).

  \<^bold>\<open>Parameters.\<close> The device table of the inode code, instantiated by the console; the characters that the keyboard and the serial port have ready; the status bytes and the
  data that the disk controller delivers, with the hypothesis (\<open>answers\<close>) that it delivers the block that was last written where the driver's commands point; for
  the shell, what the kernel answers to \<^verbatim>\<open>open\<close>, \<^verbatim>\<open>pipe\<close>, \<^verbatim>\<open>fork\<close>, \<^verbatim>\<open>exec\<close> and \<^verbatim>\<open>chdir\<close>; for \<^verbatim>\<open>grep\<close>, the reads. In the shell a child runs to its end
  before its parent goes on, and the memory for the nodes of the tree is taken to be there.

  \<^bold>\<open>Not modelled.\<close> Assembly (\<^verbatim>\<open>bootasm.S\<close>, \<^verbatim>\<open>entry.S\<close>, \<^verbatim>\<open>entryother.S\<close>, \<^verbatim>\<open>initcode.S\<close>, \<^verbatim>\<open>swtch.S\<close>, \<^verbatim>\<open>trapasm.S\<close>, \<^verbatim>\<open>usys.S\<close> and the output of \<^verbatim>\<open>vectors.pl\<close>); the
  processor's effect of \<^verbatim>\<open>swtch\<close> is a change of the current process. \<^verbatim>\<open>lapic.c\<close>, \<^verbatim>\<open>ioapic.c\<close>, \<^verbatim>\<open>picirq.c\<close> and the ports of \<^verbatim>\<open>uart.c\<close>: writes to device registers whose
  meaning is not in the sources. \<^verbatim>\<open>main.c\<close>: a list of calls of initialisers. \<^verbatim>\<open>mkfs.c\<close>: a program of the host, over the host's libc. The small user programs and tests, which wrap
  system calls. Messages printed on failure in \<^verbatim>\<open>allocuvm\<close>, \<^verbatim>\<open>exec\<close> and \<^verbatim>\<open>trap\<close>. The layout of a kernel stack: saved registers are fields of the process.
\<close>

end
